(* ===== verification/Engine_Prelude.thy ===== *)
theory Engine_Prelude
  imports Main "HOL-Library.Monad_Syntax" "HOL-Library.Word" "HOL-Library.Signed_Division"
begin

text \<open>
  What every component of the replication engine shares: the primitive types of
  \<^verbatim>\<open>PrimitiveTypes.hpp\<close>, the constants of \<^verbatim>\<open>SysConsts.hpp\<close>, the narrowing conversions of
  C++, the \<^verbatim>\<open>Assert\<close> macro of \<^verbatim>\<open>assertUtils.hpp\<close>, little-endian byte access to packed
  structures, and the generic lemmas on options, lists and words.

  An operation that can stop the process (a failed \<^verbatim>\<open>Assert\<close>, \<^verbatim>\<open>std::out_of_range\<close> from
  \<^verbatim>\<open>at\<close>, a null dereference) returns an \<open>option\<close>; \<open>None\<close> is the stop.
\<close>

named_theorems engine "equations that unfold the operations of the engine"

section \<open>Primitive types\<close>

type_synonym SeqNum = int
type_synonym ViewNum = int
type_synonym ReqId = nat
type_synonym ReplicaId = nat
type_synonym NodeIdType = nat
type_synonym Time = nat
type_synonym byte = "8 word"

datatype CommitPath = NA | OPTIMISTIC_FAST | FAST_WITH_THRESHOLD | SLOW

section \<open>Constants\<close>

definition kWorkWindowSize :: int where
  [simp]: "kWorkWindowSize = 300"

definition checkpointWindowSize :: int where
  [simp]: "checkpointWindowSize = 150"

definition maxExternalMessageSize :: nat where
  [simp]: "maxExternalMessageSize = 64 * 1000"

definition maxReplyMessageSize :: nat where
  [simp]: "maxReplyMessageSize = 8 * 1024"

definition MinTime :: Time where
  [simp]: "MinTime = 0"

definition MaxTime :: Time where
  [simp]: "MaxTime = 2 ^ 64 - 1"

section \<open>Narrowing conversions\<close>

definition u16 :: "int \<Rightarrow> nat" where
  "u16 x = nat (x mod 65536)"

definition i16 :: "int \<Rightarrow> int" where
  "i16 x = (x + 32768) mod 65536 - 32768"

definition u32 :: "int \<Rightarrow> nat" where
  "u32 x = nat (x mod 4294967296)"

lemma u16_bound [simp]: "u16 x < 65536"
  by (simp add: u16_def nat_less_iff)

lemma u16_id: "0 \<le> x \<Longrightarrow> x < 65536 \<Longrightarrow> u16 x = nat x"
  by (simp add: u16_def)

lemma u32_id: "0 \<le> x \<Longrightarrow> x < 4294967296 \<Longrightarrow> u32 x = nat x"
  by (simp add: u32_def)

lemma i16_id: "- 32768 \<le> x \<Longrightarrow> x < 32768 \<Longrightarrow> i16 x = x"
  by (simp add: i16_def)

lemma i16_range: "- 32768 \<le> i16 x \<and> i16 x < 32768"
  by (simp add: i16_def)

text \<open>The remainder and quotient of C++ truncate; on the values the engine uses they are the
  mathematical ones.\<close>

lemma smod_nonneg_eq: "0 \<le> a \<Longrightarrow> 0 < b \<Longrightarrow> a smod b = a mod b" for a b :: int
  by (auto simp: signed_modulo_int_def sgn_if)

lemma sdiv_nonneg_eq: "0 \<le> a \<Longrightarrow> 0 < b \<Longrightarrow> a sdiv b = a div b" for a b :: int
  by (auto simp: signed_divide_int_def sgn_if)

section \<open>Assertions\<close>

definition Assert :: "bool \<Rightarrow> unit option" where
  "Assert b = (if b then Some () else None)"

lemma Assert_True [simp]: "Assert True = Some ()"
  by (simp add: Assert_def)

lemma Assert_False [simp]: "Assert False = None"
  by (simp add: Assert_def)

lemma Assert_eq_Some [simp]: "Assert b = Some u \<longleftrightarrow> b"
  by (simp add: Assert_def)

lemma Assert_eq_None [simp]: "Assert b = None \<longleftrightarrow> \<not> b"
  by (simp add: Assert_def)

lemma Assert_bind_Some [simp]: "Option.bind (Assert b) f = Some y \<longleftrightarrow> b \<and> f () = Some y"
  by (simp add: Assert_def)

lemma Assert_bind_None [simp]: "Option.bind (Assert b) f = None \<longleftrightarrow> b \<longrightarrow> f () = None"
  by (simp add: Assert_def)

lemma Assert_bind: "b \<Longrightarrow> Option.bind (Assert b) f = f ()"
  by simp

text \<open>Reading an array or a \<open>std::vector\<close> with bounds checking.\<close>

definition at :: "'a list \<Rightarrow> nat \<Rightarrow> 'a option" where
  "at xs i = (if i < length xs then Some (xs ! i) else None)"

lemma at_eq_Some [simp]: "at xs i = Some x \<longleftrightarrow> i < length xs \<and> xs ! i = x"
  by (auto simp: at_def)

lemma at_eq_None [simp]: "at xs i = None \<longleftrightarrow> length xs \<le> i"
  by (auto simp: at_def)

section \<open>Little-endian bytes\<close>

fun le_bytes :: "nat \<Rightarrow> nat \<Rightarrow> byte list" where
  "le_bytes 0 v = []"
| "le_bytes (Suc n) v = word_of_nat v # le_bytes n (v div 256)"

fun le_val :: "byte list \<Rightarrow> nat" where
  "le_val [] = 0"
| "le_val (b # bs) = unat b + 256 * le_val bs"

lemma length_le_bytes [simp]: "length (le_bytes n v) = n"
  by (induction n arbitrary: v) auto

lemma le_val_le_bytes: "le_val (le_bytes n v) = v mod 256 ^ n"
proof (induction n arbitrary: v)
  case (Suc n)
  have "unat (word_of_nat v :: byte) = v mod 256"
    by (simp add: unat_of_nat)
  then show ?case
    using Suc.IH [of "v div 256"] by (simp add: mod_mult2_eq)
qed simp

lemma le_val_le_bytes_id: "v < 256 ^ n \<Longrightarrow> le_val (le_bytes n v) = v"
  by (simp add: le_val_le_bytes)

lemma le_val_bound: "le_val bs < 256 ^ length bs"
proof (induction bs)
  case (Cons b bs)
  have "unat b < 256"
    using unsigned_less [of b] by simp
  with Cons.IH show ?case by simp
qed simp

lemma le_bytes_le_val: "le_bytes (length bs) (le_val bs) = bs"
proof (induction bs)
  case (Cons b bs)
  have b: "unat b < 256"
    using unsigned_less [of b] by simp
  have "word_of_nat (unat b + 256 * le_val bs) = b"
  proof -
    have "of_nat 256 = (0 :: byte)" by simp
    then show ?thesis
      by (simp del: of_nat_numeral)
  qed
  moreover have "(unat b + 256 * le_val bs) div 256 = le_val bs"
    using b by simp
  ultimately show ?case
    using Cons.IH by simp
qed simp

definition i64_of :: "nat \<Rightarrow> int" where
  "i64_of v = (if v < 2 ^ 63 then int v else int v - 2 ^ 64)"

definition i64_bytes :: "int \<Rightarrow> byte list" where
  "i64_bytes x = le_bytes 8 (nat (x mod 2 ^ 64))"

definition is_i64 :: "int \<Rightarrow> bool" where
  "is_i64 x \<longleftrightarrow> - (2 ^ 63) \<le> x \<and> x < 2 ^ 63"

lemma length_i64_bytes [simp]: "length (i64_bytes x) = 8"
  by (simp add: i64_bytes_def)

lemma i64_roundtrip:
  assumes "is_i64 x"
  shows "i64_of (le_val (i64_bytes x)) = x"
proof (cases "0 \<le> x")
  case True
  with assms show ?thesis
    by (simp add: is_i64_def i64_of_def i64_bytes_def le_val_le_bytes nat_less_iff)
next
  case False
  then have "x mod 2 ^ 64 = x + 2 ^ 64"
    using assms mod_pos_pos_trivial [of "x + 2 ^ 64" "2 ^ 64"] by (simp add: is_i64_def)
  with False assms show ?thesis
    by (simp add: is_i64_def i64_of_def i64_bytes_def le_val_le_bytes nat_less_iff)
qed

section \<open>Lists\<close>

lemma take_append_exact [simp]: "length xs = n \<Longrightarrow> take n (xs @ ys) = xs"
  by simp

lemma drop_append_exact [simp]: "length xs = n \<Longrightarrow> drop n (xs @ ys) = ys"
  by simp

lemma card_filter_distinct: "distinct xs \<Longrightarrow> length (filter P xs) = card {x \<in> set xs. P x}"
  using distinct_card [of "filter P xs"] by simp

end
