(* ===== verification/Replicas_Info.thy ===== *)
theory Replicas_Info
  imports Engine_Prelude
begin

text \<open>
  \<^verbatim>\<open>ReplicasInfo.hpp\<close> and \<^verbatim>\<open>ReplicasInfo.cpp\<close>: the fixed configuration of \<open>n = 3f + 2c + 1\<close>
  replicas, the primary of a view, and the choice of collectors. The quorum arithmetic that the
  rest of the engine relies on is stated once as the locale \<open>quorum_system\<close> and interpreted on
  this configuration.
\<close>

section \<open>State and operations\<close>

record ReplicasInfo =
  ri_myId :: ReplicaId
  numberOfReplicas :: int
  fVal :: int
  cVal :: int
  dynamicCollectorForPartialProofs :: bool
  dynamicCollectorForExecutionProofs :: bool
  idsOfReplicas :: "ReplicaId set"
  idsOfPeerReplicas :: "ReplicaId set"

definition generateSetOfReplicas :: "int \<Rightarrow> ReplicaId set" where
  "generateSetOfReplicas n = fold (\<lambda>i s. insert i s) [0..<nat n] {}"

definition generateSetOfPeerReplicas :: "ReplicaId \<Rightarrow> int \<Rightarrow> ReplicaId set" where
  "generateSetOfPeerReplicas me n =
     fold (\<lambda>i s. if i \<noteq> me then insert i s else s) [0..<nat n] {}"

definition newReplicasInfo ::
  "ReplicaId \<Rightarrow> int \<Rightarrow> int \<Rightarrow> int \<Rightarrow> bool \<Rightarrow> bool \<Rightarrow> ReplicasInfo option" where
  "newReplicasInfo me n f c dynPartial dynExec = do {
     Assert (n = 3 * f + 2 * c + 1);
     Some \<lparr>ri_myId = me, numberOfReplicas = n, fVal = f, cVal = c,
           dynamicCollectorForPartialProofs = dynPartial,
           dynamicCollectorForExecutionProofs = dynExec,
           idsOfReplicas = generateSetOfReplicas n,
           idsOfPeerReplicas = generateSetOfPeerReplicas me n\<rparr>
   }"

definition isIdOfReplica :: "ReplicasInfo \<Rightarrow> NodeIdType \<Rightarrow> bool" where
  "isIdOfReplica r i \<longleftrightarrow> int i < numberOfReplicas r"

definition isIdOfPeerReplica :: "ReplicasInfo \<Rightarrow> NodeIdType \<Rightarrow> bool" where
  "isIdOfPeerReplica r i \<longleftrightarrow> int i < numberOfReplicas r \<and> i \<noteq> ri_myId r"

definition primaryOfView :: "ReplicasInfo \<Rightarrow> ViewNum \<Rightarrow> ReplicaId" where
  "primaryOfView r v = u16 (v smod numberOfReplicas r)"

text \<open>The block "ignore primary", which the source repeats for each collector.\<close>

definition ignorePrimary :: "int \<Rightarrow> int \<Rightarrow> int \<Rightarrow> int" where
  "ignorePrimary n primary collector =
     (if collector \<ge> primary
      then let c1 = (collector + 1) smod n
           in if c1 = primary then (c1 + 1) smod n else c1
      else collector)"

text \<open>The result is the collectors written to \<open>outCollectorsArray\<close> and the returned flag.\<close>

definition getCollectorsForPartialProofs ::
  "ReplicasInfo \<Rightarrow> ReplicaId \<Rightarrow> ViewNum \<Rightarrow> SeqNum \<Rightarrow> ReplicaId list \<times> bool" where
  "getCollectorsForPartialProofs r refReplica v seq =
     (if \<not> dynamicCollectorForPartialProofs r
      then let collector = i16 (int (primaryOfView r v))
           in ([u16 collector], collector = int refReplica)
      else
        let n = numberOfReplicas r; c = cVal r; primary = i16 (int (primaryOfView r v))
        in if c = 0
           then let collector = ignorePrimary n primary (i16 (seq smod n))
                in ([u16 collector], collector = int refReplica)
           else
             let half = n sdiv 2;
                 collector1 = i16 (seq smod half);
                 collector2 = i16 (collector1 + half);
                 c1 = ignorePrimary n primary collector1;
                 c2 = ignorePrimary n primary collector2
             in ([u16 c1, u16 c2], c1 = int refReplica \<or> c2 = int refReplica))"

definition getMyCollectorsForPartialProofs ::
  "ReplicasInfo \<Rightarrow> ViewNum \<Rightarrow> SeqNum \<Rightarrow> ReplicaId list \<times> bool" where
  "getMyCollectorsForPartialProofs r v seq = getCollectorsForPartialProofs r (ri_myId r) v seq"

definition isCollectorForPartialProofs :: "ReplicasInfo \<Rightarrow> ViewNum \<Rightarrow> SeqNum \<Rightarrow> bool" where
  "isCollectorForPartialProofs r v seq = snd (getMyCollectorsForPartialProofs r v seq)"

definition getExecutionCollectors ::
  "ReplicasInfo \<Rightarrow> ViewNum \<Rightarrow> SeqNum \<Rightarrow> ReplicaId list \<times> bool" where
  "getExecutionCollectors r v seq =
     (if \<not> dynamicCollectorForExecutionProofs r
      then let collector = i16 (int (primaryOfView r v))
           in ([u16 collector], collector = int (ri_myId r))
      else getMyCollectorsForPartialProofs r v seq)"

section \<open>Well-formed configurations\<close>

text \<open>What the constructor establishes, with the ranges of the fields: replica counts are
  \<open>int16_t\<close> and the engine is configured with at least one tolerated fault.\<close>

definition wf_replicas_info :: "ReplicasInfo \<Rightarrow> bool" where
  "wf_replicas_info r \<longleftrightarrow>
     numberOfReplicas r = 3 * fVal r + 2 * cVal r + 1 \<and> 1 \<le> fVal r \<and> 0 \<le> cVal r
     \<and> numberOfReplicas r < 32768 \<and> int (ri_myId r) < numberOfReplicas r
     \<and> idsOfReplicas r = {i. isIdOfReplica r i}
     \<and> idsOfPeerReplicas r = {i. isIdOfPeerReplica r i}"

lemma fold_insert_set: "fold (\<lambda>i s. insert i s) xs A = set xs \<union> A"
  by (induction xs arbitrary: A) auto

lemma fold_insert_if_set: "fold (\<lambda>i s. if P i then insert i s else s) xs A = {x \<in> set xs. P x} \<union> A"
  by (induction xs arbitrary: A) auto

lemma newReplicasInfo_wf:
  assumes "newReplicasInfo me n f c dp de = Some r"
    and "1 \<le> f" and "0 \<le> c" and "n < 32768" and "int me < n"
  shows "wf_replicas_info r"
  using assms
  by (auto simp: newReplicasInfo_def wf_replicas_info_def generateSetOfReplicas_def
      generateSetOfPeerReplicas_def fold_insert_set fold_insert_if_set isIdOfReplica_def
      isIdOfPeerReplica_def)

lemma wf_replicas_info_num:
  "wf_replicas_info r \<Longrightarrow> 4 \<le> numberOfReplicas r \<and> numberOfReplicas r < 32768"
  by (auto simp: wf_replicas_info_def)

lemma primaryOfView_eq:
  assumes "wf_replicas_info r" and "0 \<le> v"
  shows "int (primaryOfView r v) = v mod numberOfReplicas r"
proof -
  have n: "4 \<le> numberOfReplicas r" "numberOfReplicas r < 32768"
    using wf_replicas_info_num [OF assms(1)] by auto
  then have "0 \<le> v mod numberOfReplicas r" "v mod numberOfReplicas r < 65536"
    using pos_mod_bound [of "numberOfReplicas r" v] pos_mod_sign [of "numberOfReplicas r" v]
    by linarith+
  with n assms(2) show ?thesis
    by (simp add: primaryOfView_def smod_nonneg_eq u16_id)
qed

lemma primaryOfView_bound:
  "wf_replicas_info r \<Longrightarrow> 0 \<le> v \<Longrightarrow> int (primaryOfView r v) < numberOfReplicas r"
  using wf_replicas_info_num by (force simp: primaryOfView_eq)

section \<open>Collectors\<close>

lemma ignorePrimary_correct:
  assumes "2 \<le> n" and "0 \<le> x" and "x < n" and "0 \<le> p" and "p < n"
  shows "0 \<le> ignorePrimary n p x" and "ignorePrimary n p x < n" and "ignorePrimary n p x \<noteq> p"
proof -
  consider (below) "x < p" | (wrap) "p \<le> x" "x + 1 = n" | (step) "p \<le> x" "x + 1 < n"
    using assms by linarith
  then have "0 \<le> ignorePrimary n p x \<and> ignorePrimary n p x < n \<and> ignorePrimary n p x \<noteq> p"
  proof cases
    case below
    with assms show ?thesis by (simp add: ignorePrimary_def)
  next
    case wrap
    with assms show ?thesis by (auto simp: ignorePrimary_def smod_nonneg_eq Let_def)
  next
    case step
    with assms show ?thesis by (auto simp: ignorePrimary_def smod_nonneg_eq Let_def)
  qed
  then show "0 \<le> ignorePrimary n p x" and "ignorePrimary n p x < n" and "ignorePrimary n p x \<noteq> p"
    by simp_all
qed

text \<open>The two collectors of the \<open>c > 0\<close> case start half a ring apart and stay distinct.\<close>

lemma ignorePrimary_distinct:
  assumes n: "4 \<le> n" and x: "0 \<le> x" "x < n div 2" and p: "0 \<le> p" "p < n"
  shows "ignorePrimary n p x \<noteq> ignorePrimary n p (x + n div 2)"
proof -
  define h where "h = n div 2"
  have h: "2 \<le> h" "h + h \<le> n" "x < h" using n x by (auto simp: h_def)
  have lo: "ignorePrimary n p x = (if p \<le> x then x + 1 else x)"
    using h x p by (auto simp: ignorePrimary_def Let_def smod_nonneg_eq)
  have hi: "ignorePrimary n p (x + h) =
    (if p \<le> x + h then if x + h + 1 = n then if p = 0 then 1 else 0 else x + h + 1 else x + h)"
    using h x p n by (auto simp: ignorePrimary_def Let_def smod_nonneg_eq)
  show ?thesis
    using h x p n unfolding h_def [symmetric] lo hi by (auto split: if_splits)
qed

lemma collectors_shape:
  assumes wf: "wf_replicas_info r" and v: "0 \<le> v" and s: "0 \<le> seq"
    and dyn: "dynamicCollectorForPartialProofs r"
  defines "n \<equiv> numberOfReplicas r" and "p \<equiv> int (primaryOfView r v)"
  shows "getCollectorsForPartialProofs r ref v seq =
    (if cVal r = 0
     then let c1 = ignorePrimary n p (seq mod n) in ([nat c1], c1 = int ref)
     else let c1 = ignorePrimary n p (seq mod (n div 2));
              c2 = ignorePrimary n p (seq mod (n div 2) + n div 2)
          in ([nat c1, nat c2], c1 = int ref \<or> c2 = int ref))"
proof -
  have n: "4 \<le> n" "n < 32768" using wf by (auto simp: n_def wf_replicas_info_def)
  have p: "0 \<le> p" "p < n" "i16 p = p"
    using primaryOfView_bound [OF wf v] n by (auto simp: p_def n_def i16_id)
  have a: "0 \<le> seq mod n" "seq mod n < n" using n by auto
  have b: "0 \<le> seq mod (n div 2)" "seq mod (n div 2) < n div 2" using n by auto
  have b2: "seq mod (n div 2) + n div 2 < n" using b by linarith
  have seq1: "i16 (seq smod n) = seq mod n" "n sdiv 2 = n div 2"
    "i16 (seq smod (n div 2)) = seq mod (n div 2)"
    "i16 (seq mod (n div 2) + n div 2) = seq mod (n div 2) + n div 2"
  proof -
    have pos: "0 < n" "0 < n div 2" using n by auto
    note sm = smod_nonneg_eq [OF s pos(1)] smod_nonneg_eq [OF s pos(2)]
    show "n sdiv 2 = n div 2" using n by (simp add: sdiv_nonneg_eq)
    show "i16 (seq smod n) = seq mod n" unfolding sm using n a by (intro i16_id) linarith+
    show "i16 (seq smod (n div 2)) = seq mod (n div 2)"
      unfolding sm using n b b2 by (intro i16_id) linarith+
    show "i16 (seq mod (n div 2) + n div 2) = seq mod (n div 2) + n div 2"
      using n b b2 by (intro i16_id) linarith+
  qed
  have u: "u16 (ignorePrimary n p x) = nat (ignorePrimary n p x)" if "0 \<le> x" "x < n" for x
    using ignorePrimary_correct [of n x p] that n p by (simp add: u16_id)
  have u2: "u16 (ignorePrimary n p (seq mod (n div 2))) = nat (ignorePrimary n p (seq mod (n div 2)))"
    "u16 (ignorePrimary n p (seq mod (n div 2) + n div 2))
     = nat (ignorePrimary n p (seq mod (n div 2) + n div 2))"
    using b b2 n by (auto intro!: u)
  show ?thesis
    unfolding getCollectorsForPartialProofs_def Let_def n_def [symmetric] p_def [symmetric]
      p(3) seq1 u [OF a] u2
    by (simp only: dyn simp_thms if_True if_False)
qed

lemmas collector_defs = getCollectorsForPartialProofs_def getMyCollectorsForPartialProofs_def
  isCollectorForPartialProofs_def getExecutionCollectors_def

text \<open>C31: with dynamic collectors and a well-formed configuration, the collectors chosen for a
  sequence number are one (\<open>c = 0\<close>) or two distinct replica identifiers, none of them the primary
  of the view, and the returned flag says exactly whether the reference replica is one of them.\<close>

theorem collectors_exclude_primary:
  assumes wf: "wf_replicas_info r" and v: "0 \<le> v" and s: "0 \<le> seq"
    and dyn: "dynamicCollectorForPartialProofs r"
    and eq: "getCollectorsForPartialProofs r ref v seq = (cs, isCollector)"
  shows "length cs = (if cVal r = 0 then 1 else 2) \<and> distinct cs
    \<and> (\<forall>i \<in> set cs. isIdOfReplica r i \<and> i \<noteq> primaryOfView r v)
    \<and> isCollector = (ref \<in> set cs)"
proof -
  define n where "n = numberOfReplicas r"
  define p where "p = int (primaryOfView r v)"
  have n: "4 \<le> n" using wf by (auto simp: n_def wf_replicas_info_def)
  have p: "0 \<le> p" "p < n" using primaryOfView_bound [OF wf v] by (auto simp: p_def n_def)
  have ok: "0 \<le> ignorePrimary n p x \<and> ignorePrimary n p x < n \<and> ignorePrimary n p x \<noteq> p"
    if "0 \<le> x" "x < n" for x
    using ignorePrimary_correct [of n x p] that n p by simp
  have id: "isIdOfReplica r (nat c) \<and> nat c \<noteq> primaryOfView r v"
    if "0 \<le> c \<and> c < n \<and> c \<noteq> p" for c
    using that by (auto simp: isIdOfReplica_def n_def p_def)
  note shape = collectors_shape [OF wf v s dyn, of ref, folded n_def p_def]
  show ?thesis
  proof (cases "cVal r = 0")
    case True
    let ?c = "ignorePrimary n p (seq mod n)"
    have c: "0 \<le> ?c \<and> ?c < n \<and> ?c \<noteq> p" using ok [of "seq mod n"] n by simp
    with True shape eq show ?thesis using id [OF c] by (auto simp: Let_def)
  next
    case False
    let ?x = "seq mod (n div 2)"
    have x: "0 \<le> ?x" "?x < n div 2" using n by auto
    then have x': "?x < n" "?x + n div 2 < n" "0 \<le> ?x + n div 2" using n by linarith+
    define c where "c = ignorePrimary n p ?x"
    define d where "d = ignorePrimary n p (?x + n div 2)"
    have c: "0 \<le> c \<and> c < n \<and> c \<noteq> p" and d: "0 \<le> d \<and> d < n \<and> d \<noteq> p"
      unfolding c_def d_def using ok x x' by blast+
    have ne: "c \<noteq> d" unfolding c_def d_def using ignorePrimary_distinct [OF n x(1,2) p] .
    have cs: "cs = [nat c, nat d]" "isCollector = (c = int ref \<or> d = int ref)"
      using eq False unfolding shape Let_def c_def [symmetric] d_def [symmetric] by simp_all
    have mem: "(c = int ref \<or> d = int ref) = (ref \<in> {nat c, nat d})"
      using c d by auto
    show ?thesis
      using False id [OF c] id [OF d] ne c d unfolding cs mem by (simp add: eq_nat_nat_iff)
  qed
qed

definition sample_info :: ReplicasInfo where
  "sample_info = the (newReplicasInfo 1 6 1 1 True False)"

lemma sample_info_wf: "wf_replicas_info sample_info"
  unfolding sample_info_def
  by (rule newReplicasInfo_wf [where me = 1 and n = 6 and f = 1 and c = 1 and dp = True
        and de = False])
    (simp_all add: newReplicasInfo_def)

lemma sample_info_sel [simp]:
  "numberOfReplicas sample_info = 6" "cVal sample_info = 1" "fVal sample_info = 1"
  "ri_myId sample_info = 1" "dynamicCollectorForPartialProofs sample_info"
  "\<not> dynamicCollectorForExecutionProofs sample_info"
  by (simp_all add: sample_info_def newReplicasInfo_def)

theorem collectors_exclude_primary_witness:
  "getCollectorsForPartialProofs sample_info 3 2 5 = ([3, 0], True)
   \<and> distinct [3, 0::nat] \<and> 3 \<noteq> primaryOfView sample_info 2 \<and> 0 \<noteq> primaryOfView sample_info 2"
proof -
  have eq: "getCollectorsForPartialProofs sample_info 3 2 5 = ([3, 0], True)"
    by code_simp
  show ?thesis
    using collectors_exclude_primary [OF sample_info_wf _ _ sample_info_sel(5) eq]
    by (intro conjI eq) simp_all
qed

section \<open>Quorums\<close>

text \<open>
  The interface of the configuration for the certificates and the view change: the number of
  replicas, the number \<open>f\<close> of Byzantine and \<open>c\<close> of slow replicas.
\<close>

locale quorum_system =
  fixes valid :: "'cfg \<Rightarrow> bool"
    and num :: "'cfg \<Rightarrow> nat" and faulty :: "'cfg \<Rightarrow> nat" and slow :: "'cfg \<Rightarrow> nat"
    and members :: "'cfg \<Rightarrow> nat set"
  assumes num_eq: "valid k \<Longrightarrow> num k = 3 * faulty k + 2 * slow k + 1"
    and card_members: "valid k \<Longrightarrow> card (members k) = num k"
    and finite_members: "valid k \<Longrightarrow> finite (members k)"
begin

lemma card_inter_ge:
  assumes "valid k" and "A \<subseteq> members k" and "B \<subseteq> members k"
  shows "card A + card B \<le> num k + card (A \<inter> B)"
proof -
  have fin: "finite A" "finite B" using assms finite_members finite_subset by blast+
  have "card (A \<union> B) \<le> card (members k)"
    using assms finite_members by (intro card_mono) auto
  then show ?thesis
    using card_Un_Int [OF fin] card_members [OF assms(1)] by simp
qed

text \<open>Two certificates of \<open>2f + c + 1\<close> replicas share a correct replica.\<close>

lemma slow_quorums_intersect:
  assumes "valid k" and "A \<subseteq> members k" and "B \<subseteq> members k"
    and "2 * faulty k + slow k + 1 \<le> card A" and "2 * faulty k + slow k + 1 \<le> card B"
    and byz: "card (A \<inter> B \<inter> Byz) \<le> faulty k"
  shows "\<exists>i \<in> A \<inter> B. i \<notin> Byz"
proof -
  have "finite A" using assms finite_members finite_subset by blast
  moreover have "faulty k < card (A \<inter> B)"
    using card_inter_ge [OF assms(1-3)] num_eq [OF assms(1)] assms(4,5) by simp
  ultimately have "\<not> A \<inter> B \<subseteq> A \<inter> B \<inter> Byz"
    using byz card_mono [of "A \<inter> B \<inter> Byz" "A \<inter> B"] by auto
  then show ?thesis by blast
qed

text \<open>A fast-path quorum of \<open>3f + c + 1\<close> and the \<open>2f + 2c + 1\<close> senders of a view change share
  \<open>f + c + 1\<close> correct replicas: the threshold of the safety logic.\<close>

lemma fast_quorum_meets_view_change:
  assumes "valid k" and "A \<subseteq> members k" and "B \<subseteq> members k"
    and "3 * faulty k + slow k + 1 \<le> card A" and "2 * faulty k + 2 * slow k + 1 \<le> card B"
    and byz: "card (A \<inter> B \<inter> Byz) \<le> faulty k"
  shows "faulty k + slow k + 1 \<le> card (A \<inter> B - Byz)"
proof -
  have fin: "finite (A \<inter> B)" using assms finite_members finite_subset by blast
  have "2 * faulty k + slow k + 1 \<le> card (A \<inter> B)"
    using card_inter_ge [OF assms(1-3)] num_eq [OF assms(1)] assms(4,5) by simp
  moreover have "card (A \<inter> B) = card (A \<inter> B - Byz) + card (A \<inter> B \<inter> Byz)"
    using fin by (metis Int_Diff_Un Int_Diff_disjoint card_Un_disjoint finite_Diff finite_Int add.commute)
  ultimately show ?thesis using byz by simp
qed

text \<open>Two sets of \<open>f + c + 1\<close> among the \<open>2f + 2c + 1\<close> senders of a view change intersect.\<close>

lemma fast_votes_intersect:
  assumes "finite S" and "card S \<le> 2 * faulty k + 2 * slow k + 1" and "A \<subseteq> S" and "B \<subseteq> S"
    and "faulty k + slow k + 1 \<le> card A" and "faulty k + slow k + 1 \<le> card B"
  shows "A \<inter> B \<noteq> {}"
proof
  assume "A \<inter> B = {}"
  moreover have "finite A" "finite B" using assms finite_subset by blast+
  ultimately have "card A + card B = card (A \<union> B)" by (simp add: card_Un_disjoint)
  also have "\<dots> \<le> card S" using assms by (intro card_mono) auto
  finally show False using assms by simp
qed

end

lemma card_replica_ids: "0 \<le> n \<Longrightarrow> card {i. int i < n} = nat n"
proof -
  assume "0 \<le> n"
  then have "{i. int i < n} = {..<nat n}" by auto
  then show ?thesis by simp
qed

interpretation replicas: quorum_system wf_replicas_info "\<lambda>r. nat (numberOfReplicas r)"
  "\<lambda>r. nat (fVal r)" "\<lambda>r. nat (cVal r)" idsOfReplicas
proof unfold_locales
  fix r assume wf: "wf_replicas_info r"
  show "nat (numberOfReplicas r) = 3 * nat (fVal r) + 2 * nat (cVal r) + 1"
    using wf by (auto simp: wf_replicas_info_def)
  show card: "card (idsOfReplicas r) = nat (numberOfReplicas r)"
    using wf card_replica_ids [of "numberOfReplicas r"] wf_replicas_info_num [OF wf]
    unfolding wf_replicas_info_def isIdOfReplica_def by simp
  show "finite (idsOfReplicas r)"
    using wf card by (intro card_ge_0_finite) (simp add: wf_replicas_info_def)
qed

end
