(* ===== verification/Active_Window.thy ===== *)
theory Active_Window
  imports Engine_Prelude
begin

text \<open>
  \<^verbatim>\<open>SequenceWithActiveWindow.hpp\<close>: a ring of \<open>WindowSize / Resolution\<close> items indexed by the
  sequence numbers of a sliding window. The template parameters \<open>WindowSize\<close> and
  \<open>Resolution\<close> are the arguments \<open>W\<close> and \<open>R\<close>; \<open>ItemFuncs::init\<close> and
  \<open>ItemFuncs::reset\<close> are arguments of the operations that call them. The ring refines the
  partial map from sequence numbers to items given by \<open>contents\<close>.
\<close>

section \<open>State and operations\<close>

record 'item Window =
  beginningOfActiveWindow :: SeqNum
  activeWindow :: "'item list"

definition numItems :: "int \<Rightarrow> int \<Rightarrow> nat" where
  "numItems W R = nat (W div R)"

definition newWindow ::
  "int \<Rightarrow> int \<Rightarrow> 'item \<Rightarrow> ('item \<Rightarrow> 'item) \<Rightarrow> SeqNum \<Rightarrow> 'item Window option" where
  "newWindow W R initItem reset windowFirst = do {
     Assert (windowFirst smod R = 0);
     Some \<lparr>beginningOfActiveWindow = windowFirst,
           activeWindow = map (\<lambda>i. reset initItem) [0..<numItems W R]\<rparr>
   }"

definition insideActiveWindow :: "int \<Rightarrow> 'item Window \<Rightarrow> SeqNum \<Rightarrow> bool" where
  "insideActiveWindow W w n \<longleftrightarrow>
     n \<ge> beginningOfActiveWindow w \<and> n < beginningOfActiveWindow w + W"

definition windowIndex :: "int \<Rightarrow> int \<Rightarrow> SeqNum \<Rightarrow> nat" where
  "windowIndex W R n = u16 ((n sdiv R) smod int (numItems W R))"

definition get :: "int \<Rightarrow> int \<Rightarrow> 'item Window \<Rightarrow> SeqNum \<Rightarrow> 'item option" where
  "get W R w n = do {
     Assert (n smod R = 0);
     Assert (insideActiveWindow W w n);
     at (activeWindow w) (windowIndex W R n)
   }"

text \<open>\<open>get\<close> returns a reference; writing the item through it is \<open>put\<close>.\<close>

definition put :: "int \<Rightarrow> int \<Rightarrow> 'item Window \<Rightarrow> SeqNum \<Rightarrow> 'item \<Rightarrow> 'item Window option" where
  "put W R w n x = do {
     _ \<leftarrow> get W R w n;
     Some (w\<lparr>activeWindow := (activeWindow w)[windowIndex W R n := x]\<rparr>)
   }"

definition currentActiveWindow :: "int \<Rightarrow> 'item Window \<Rightarrow> SeqNum \<times> SeqNum" where
  "currentActiveWindow W w = (beginningOfActiveWindow w, beginningOfActiveWindow w + W - 1)"

definition resetAll ::
  "int \<Rightarrow> ('item \<Rightarrow> 'item) \<Rightarrow> 'item Window \<Rightarrow> SeqNum \<Rightarrow> 'item Window option" where
  "resetAll R reset w windowFirst = do {
     Assert (windowFirst smod R = 0);
     Some (w\<lparr>activeWindow := map reset (activeWindow w),
             beginningOfActiveWindow := windowFirst\<rparr>)
   }"

text \<open>The loop of \<open>advanceActiveWindow\<close>: the slots from \<open>i\<close> up to \<open>activeBegin\<close>, around the
  ring. \<open>None\<close> is a loop that does not end or a slot outside the array.\<close>

partial_function (option) resetSlots ::
  "('item \<Rightarrow> 'item) \<Rightarrow> nat \<Rightarrow> nat \<Rightarrow> nat \<Rightarrow> 'item list \<Rightarrow> nat \<Rightarrow> ('item list \<times> nat) option" where
  "resetSlots reset N activeBegin i items cnt =
     (if i = activeBegin then Some (items, cnt)
      else if i < length items
      then resetSlots reset N activeBegin ((i + 1) mod N) (items[i := reset (items ! i)]) (cnt + 1)
      else None)"

definition advanceActiveWindow ::
  "int \<Rightarrow> int \<Rightarrow> ('item \<Rightarrow> 'item) \<Rightarrow> 'item Window \<Rightarrow> SeqNum \<Rightarrow> 'item Window option" where
  "advanceActiveWindow W R reset w newFirst = do {
     Assert (newFirst smod R = 0);
     Assert (newFirst \<ge> beginningOfActiveWindow w);
     if newFirst = beginningOfActiveWindow w then Some w
     else if newFirst - beginningOfActiveWindow w \<ge> W then resetAll R reset w newFirst
     else do {
       let N = numItems W R;
       let inactiveBegin = windowIndex W R (beginningOfActiveWindow w);
       let activeBegin = windowIndex W R newFirst;
       let inactiveEnd = (if activeBegin > 0 then activeBegin - 1 else N - 1);
       let resetSize = (if inactiveBegin \<le> inactiveEnd then inactiveEnd - inactiveBegin + 1
                        else inactiveEnd + 1 + N - inactiveBegin);
       Assert (resetSize > 0 \<and> resetSize < N);
       (items, debugNumOfReset) \<leftarrow>
         resetSlots reset N activeBegin inactiveBegin (activeWindow w) 0;
       Assert (debugNumOfReset = resetSize);
       Some (w\<lparr>activeWindow := items, beginningOfActiveWindow := newFirst\<rparr>)
     }
   }"

section \<open>Well-formed windows\<close>

definition window_params :: "int \<Rightarrow> int \<Rightarrow> bool" where
  "window_params W R \<longleftrightarrow> 8 \<le> W \<and> W < 65535 \<and> 1 \<le> R \<and> R < W \<and> R dvd W"

definition wf_window :: "int \<Rightarrow> int \<Rightarrow> 'item Window \<Rightarrow> bool" where
  "wf_window W R w \<longleftrightarrow>
     0 \<le> beginningOfActiveWindow w \<and> R dvd beginningOfActiveWindow w
     \<and> length (activeWindow w) = numItems W R"

text \<open>The item held for a sequence number: the abstract state of the window.\<close>

definition contents :: "int \<Rightarrow> int \<Rightarrow> 'item Window \<Rightarrow> SeqNum \<Rightarrow> 'item option" where
  "contents W R w = (\<lambda>n. get W R w n)"

lemma window_params_pos: "window_params W R \<Longrightarrow> 0 < R \<and> 0 < W"
  by (auto simp: window_params_def)

lemma numItems_mult: "window_params W R \<Longrightarrow> int (numItems W R) * R = W"
  by (auto simp: window_params_def numItems_def)

lemma numItems_bounds:
  assumes "window_params W R"
  shows "2 \<le> numItems W R" and "numItems W R < 65535"
proof -
  obtain q where q: "W = R * q" using assms by (auto simp: window_params_def)
  have "1 < q" using assms q by (auto simp: window_params_def mult_less_cancel_left1)
  moreover have "q \<le> W" using assms q by (auto simp: window_params_def mult_le_cancel_right1)
  moreover have "numItems W R = nat q" "W < 65535"
    using assms q by (auto simp: numItems_def window_params_def)
  ultimately show "2 \<le> numItems W R" and "numItems W R < 65535"
    by linarith+
qed

text \<open>On multiples of the resolution the slot is the quotient modulo the ring size.\<close>

lemma windowIndex_mult:
  assumes "window_params W R" and "0 \<le> k"
  shows "windowIndex W R (R * k) = nat k mod numItems W R"
proof -
  have N: "0 < int (numItems W R)" "int (numItems W R) < 65535"
    using numItems_bounds [OF assms(1)] by auto
  have R: "0 < R" using window_params_pos [OF assms(1)] by simp
  have "(R * k) sdiv R = k" using R assms(2) by (simp add: sdiv_nonneg_eq)
  moreover have "k smod int (numItems W R) = k mod int (numItems W R)"
    using assms(2) N by (simp add: smod_nonneg_eq)
  moreover have "u16 (k mod int (numItems W R)) = nat (k mod int (numItems W R))"
    using N pos_mod_bound [of "int (numItems W R)" k] pos_mod_sign [of "int (numItems W R)" k]
    by (intro u16_id) linarith+
  ultimately show ?thesis using assms(2) by (simp add: windowIndex_def nat_mod_distrib)
qed

lemma inside_mult:
  assumes "window_params W R" and "beginningOfActiveWindow w = R * k"
  shows "insideActiveWindow W w (R * m) \<longleftrightarrow> k \<le> m \<and> m < k + int (numItems W R)"
proof -
  have R: "0 < R" using window_params_pos [OF assms(1)] by simp
  have "R * k + W = R * (k + int (numItems W R))"
    using numItems_mult [OF assms(1)] by (simp add: algebra_simps)
  then show ?thesis using R assms(2) by (simp add: insideActiveWindow_def)
qed

lemma get_mult:
  assumes "window_params W R" and "wf_window W R w" and "beginningOfActiveWindow w = R * k"
    and "k \<le> m" and "m < k + int (numItems W R)"
  shows "get W R w (R * m) = Some (activeWindow w ! (nat m mod numItems W R))"
proof -
  have R: "0 < R" using window_params_pos [OF assms(1)] by simp
  have "0 \<le> k" using assms(2,3) R by (simp add: wf_window_def zero_le_mult_iff)
  then have m: "0 \<le> m" using assms(4) by simp
  have "(R * m) smod R = 0" using R m by (simp add: smod_nonneg_eq)
  then show ?thesis
    using assms numItems_bounds [OF assms(1)] m inside_mult [OF assms(1,3), of m]
    by (simp add: get_def windowIndex_mult wf_window_def)
qed

lemma wf_windowE:
  assumes "window_params W R" and "wf_window W R w"
  obtains k where "0 \<le> k" and "beginningOfActiveWindow w = R * k"
    and "length (activeWindow w) = numItems W R"
proof -
  obtain k where "beginningOfActiveWindow w = R * k" using assms(2) by (auto simp: wf_window_def)
  moreover have "0 < R" using window_params_pos [OF assms(1)] by simp
  ultimately show ?thesis
    using that assms(2) by (auto simp: wf_window_def zero_le_mult_iff)
qed

lemma mod_zero_multE:
  fixes n R :: int
  assumes "n smod R = 0" and "0 < R" and "0 \<le> n"
  obtains m where "0 \<le> m" and "n = R * m"
proof -
  have "n mod R = 0" using assms by (simp add: smod_nonneg_eq)
  then obtain m where "n = R * m" by auto
  then show ?thesis using that assms by (auto simp: zero_le_mult_iff)
qed

section \<open>The ring loop\<close>

definition resetRange :: "('item \<Rightarrow> 'item) \<Rightarrow> nat \<Rightarrow> nat \<Rightarrow> nat \<Rightarrow> 'item list \<Rightarrow> 'item list" where
  "resetRange reset N j k items =
     map (\<lambda>i. if \<exists>m \<in> {j..<k}. m mod N = i then reset (items ! i) else items ! i) [0..<N]"

lemma mod_inj_window:
  "a mod N = b mod N \<Longrightarrow> a \<le> b \<Longrightarrow> b < a + N \<Longrightarrow> a = b" for a b N :: nat
proof (rule ccontr)
  assume h: "a mod N = b mod N" "a \<le> b" "b < a + N" "a \<noteq> b"
  then have "N dvd b - a" using mod_eq_dvd_iff_nat by metis
  moreover have "0 < b - a" "b - a < N" using h by auto
  ultimately show False by (simp add: dvd_imp_le leD)
qed

lemma resetSlots_range:
  assumes "length items = N" and "0 < N" and "j \<le> k" and "k < j + N"
  shows "resetSlots reset N (k mod N) (j mod N) items cnt
       = Some (resetRange reset N j k items, cnt + (k - j))"
  using assms
proof (induction "k - j" arbitrary: j items cnt)
  case 0
  then have "j = k" by simp
  with 0 show ?case
    using map_nth [of items] by (simp add: resetSlots.simps resetRange_def)
next
  case (Suc d)
  then have lt: "j < k" by simp
  have ne: "j mod N \<noteq> k mod N" using mod_inj_window [of j N k] Suc.prems lt by auto
  let ?items = "items[j mod N := reset (items ! (j mod N))]"
  have "resetSlots reset N (k mod N) (j mod N) items cnt
      = resetSlots reset N (k mod N) (Suc j mod N) ?items (Suc cnt)"
    using ne Suc.prems by (subst resetSlots.simps) (simp add: mod_Suc_eq)
  also have "\<dots> = Some (resetRange reset N (Suc j) k ?items, Suc cnt + (k - Suc j))"
    using Suc.prems Suc.hyps(2) lt by (intro Suc.hyps(1)) auto
  also have "resetRange reset N (Suc j) k ?items = resetRange reset N j k items"
  proof -
    have "{j..<k} = insert j {Suc j..<k}" using lt by auto
    then have "(\<exists>m \<in> {j..<k}. m mod N = i) \<longleftrightarrow> i = j mod N \<or> (\<exists>m \<in> {Suc j..<k}. m mod N = i)" for i
      by auto
    moreover have "m mod N \<noteq> j mod N" if "m \<in> {Suc j..<k}" for m
      using mod_inj_window [of j N m] that Suc.prems by auto
    ultimately show ?thesis
      using Suc.prems by (auto simp: resetRange_def nth_list_update)
  qed
  finally show ?case using lt by simp
qed

lemma resetSize_eq:
  fixes k k' N :: nat
  assumes "k < k'" and "k' < k + N"
  defines "a \<equiv> k' mod N" and "b \<equiv> k mod N"
  defines "e \<equiv> (if a > 0 then a - 1 else N - 1)"
  shows "(if b \<le> e then e - b + 1 else e + 1 + N - b) = k' - k"
proof -
  have N: "0 < N" using assms by simp
  define d where "d = k' - k"
  have d: "k' = k + d" "0 < d" "d < N" using assms by (auto simp: d_def)
  have b: "b < N" using N by (simp add: b_def)
  have "a = (b + d) mod N" by (simp add: a_def b_def d mod_add_left_eq)
  then have "a = (if b + d < N then b + d else b + d - N)"
    using b d by (simp add: le_mod_geq)
  then show ?thesis using b d by (auto simp: e_def)
qed

section \<open>Refinement\<close>

lemma advance_within:
  assumes P: "window_params W R" and wf: "wf_window W R w"
    and k: "beginningOfActiveWindow w = R * k" and k0: "0 \<le> k"
    and lt: "k < k'" "k' < k + int (numItems W R)"
  shows "advanceActiveWindow W R reset w (R * k') =
    Some (w\<lparr>activeWindow := resetRange reset (numItems W R) (nat k) (nat k') (activeWindow w),
            beginningOfActiveWindow := R * k'\<rparr>)"
proof -
  let ?N = "numItems W R"
  have R: "0 < R" using window_params_pos [OF P] by simp
  have len: "length (activeWindow w) = ?N" using wf by (simp add: wf_window_def)
  have N: "0 < ?N" using numItems_bounds [OF P] by simp
  have lt': "nat k < nat k'" "nat k' < nat k + ?N" using lt k0 by auto
  have "R * k' < R * (k + int ?N)" using lt R by simp
  then have diff: "\<not> R * k' - R * k \<ge> W"
    using numItems_mult [OF P] by (simp add: algebra_simps)
  have idx: "windowIndex W R (R * k) = nat k mod ?N" "windowIndex W R (R * k') = nat k' mod ?N"
    using windowIndex_mult [OF P] k0 lt by auto
  have sm: "(R * k') smod R = 0" using R k0 lt by (simp add: smod_nonneg_eq)
  have loop: "resetSlots reset ?N (nat k' mod ?N) (nat k mod ?N) (activeWindow w) 0
    = Some (resetRange reset ?N (nat k) (nat k') (activeWindow w), nat k' - nat k)"
    using resetSlots_range [OF len N, of "nat k" "nat k'"] lt' by simp
  have size: "0 < nat k' - nat k" "nat k' - nat k < ?N" using lt' by linarith+
  show ?thesis
    using R lt size diff sm resetSize_eq [OF lt'] loop
    by (simp add: advanceActiveWindow_def Let_def k idx)
qed

lemma advance_beyond:
  assumes P: "window_params W R" and "0 \<le> k'"
    and "beginningOfActiveWindow w = R * k" and "k + int (numItems W R) \<le> k'"
  shows "advanceActiveWindow W R reset w (R * k') =
    Some (w\<lparr>activeWindow := map reset (activeWindow w), beginningOfActiveWindow := R * k'\<rparr>)"
proof -
  have R: "0 < R" using window_params_pos [OF P] by simp
  have "R * (k + int (numItems W R)) \<le> R * k'" using assms(4) R by simp
  then have "W \<le> R * k' - R * k" using numItems_mult [OF P] by (simp add: algebra_simps)
  moreover have "(R * k') smod R = 0" using R assms(2) by (simp add: smod_nonneg_eq)
  moreover have "0 < W" using window_params_pos [OF P] by simp
  ultimately show ?thesis
    using assms(3) by (auto simp: advanceActiveWindow_def resetAll_def)
qed

lemma resetRange_nth:
  "i < N \<Longrightarrow> resetRange reset N j k items ! i =
    (if \<exists>m \<in> {j..<k}. m mod N = i then reset (items ! i) else items ! i)"
  by (simp add: resetRange_def)

lemma resetRange_slot:
  fixes N :: nat
  assumes "0 < N" and "j < k" and "k < j + N" and "k \<le> m" and "m < k + N"
  shows "(\<exists>i \<in> {j..<k}. i mod N = m mod N) \<longleftrightarrow> j + N \<le> m"
proof
  assume "\<exists>i \<in> {j..<k}. i mod N = m mod N"
  then obtain i where i: "j \<le> i" "i < k" "i mod N = m mod N" by auto
  show "j + N \<le> m"
  proof (rule ccontr)
    assume "\<not> j + N \<le> m"
    then have "m < i + N" using i by simp
    then have "i = m" using mod_inj_window [OF i(3)] i assms by simp
    then show False using i assms by simp
  qed
next
  assume "j + N \<le> m"
  then have "m - N \<in> {j..<k}" "(m - N) mod N = m mod N"
    using assms by (auto simp: le_mod_geq)
  then show "\<exists>i \<in> {j..<k}. i mod N = m mod N" by blast
qed

lemma advanceActiveWindow_refines_all:
  assumes P: "window_params W R" and wf: "wf_window W R w"
    and new: "newFirst smod R = 0" "beginningOfActiveWindow w \<le> newFirst"
  shows "\<exists>w'. advanceActiveWindow W R reset w newFirst = Some w' \<and> wf_window W R w'
    \<and> beginningOfActiveWindow w' = newFirst
    \<and> (\<forall>n. n smod R = 0 \<and> insideActiveWindow W w' n \<longrightarrow>
        contents W R w' n =
          (if insideActiveWindow W w n then contents W R w n
           else Some (reset (activeWindow w ! windowIndex W R n))))"
proof -
  let ?N = "numItems W R"
  have R: "0 < R" using window_params_pos [OF P] by simp
  have N: "0 < ?N" using numItems_bounds [OF P] by simp
  obtain k where k: "0 \<le> k" "beginningOfActiveWindow w = R * k" "length (activeWindow w) = ?N"
    using wf_windowE [OF P wf] .
  have "0 \<le> newFirst" using new k R by (auto intro: order_trans [of 0 "R * k"])
  then obtain k' where k': "0 \<le> k'" "newFirst = R * k'"
    using mod_zero_multE [OF new(1) R] by blast
  have le: "k \<le> k'" using new(2) k(2) k'(2) R by simp
  have main: "\<exists>w'. advanceActiveWindow W R reset w newFirst = Some w'
      \<and> beginningOfActiveWindow w' = R * k' \<and> length (activeWindow w') = ?N
      \<and> (\<forall>m. k' \<le> m \<and> m < k' + int ?N \<longrightarrow> activeWindow w' ! (nat m mod ?N) =
          (if m < k + int ?N then activeWindow w ! (nat m mod ?N)
           else reset (activeWindow w ! (nat m mod ?N))))"
  proof -
    consider (same) "k' = k" | (within) "k < k'" "k' < k + int ?N" | (beyond) "k + int ?N \<le> k'"
      using le by linarith
    then show ?thesis
    proof cases
      case same
      then show ?thesis using new k k' by (auto simp: advanceActiveWindow_def)
    next
      case within
      have "(\<exists>i \<in> {nat k..<nat k'}. i mod ?N = nat m mod ?N) \<longleftrightarrow> \<not> m < k + int ?N"
        if "k' \<le> m" "m < k' + int ?N" for m
        using resetRange_slot [OF N, of "nat k" "nat k'" "nat m"] within that k(1) k'(1) by auto
      then show ?thesis
        using advance_within [OF P wf k(2,1) within] N
        by (auto simp: k'(2) resetRange_nth) (auto simp: resetRange_def)
    next
      case beyond
      then show ?thesis
        using advance_beyond [OF P k'(1) k(2)] k N by (auto simp: k'(2))
    qed
  qed
  then obtain w' where w': "advanceActiveWindow W R reset w newFirst = Some w'"
    "beginningOfActiveWindow w' = R * k'" "length (activeWindow w') = ?N"
    and items: "\<And>m. k' \<le> m \<Longrightarrow> m < k' + int ?N \<Longrightarrow> activeWindow w' ! (nat m mod ?N) =
          (if m < k + int ?N then activeWindow w ! (nat m mod ?N)
           else reset (activeWindow w ! (nat m mod ?N)))" by blast
  have wf': "wf_window W R w'" using w' R k' by (simp add: wf_window_def)
  have "contents W R w' n = (if insideActiveWindow W w n then contents W R w n
      else Some (reset (activeWindow w ! windowIndex W R n)))"
    if n: "n smod R = 0" "insideActiveWindow W w' n" for n
  proof -
    have "0 \<le> n" using n(2) w'(2) k' R
      by (auto simp: insideActiveWindow_def intro: order_trans [of 0 "R * k'"])
    then obtain m where m: "0 \<le> m" "n = R * m" using mod_zero_multE [OF n(1) R] by blast
    have range: "k' \<le> m" "m < k' + int ?N"
      using n(2) inside_mult [OF P w'(2), of m] by (simp_all add: m(2))
    show ?thesis
      using items [OF range] get_mult [OF P wf' w'(2) range] get_mult [OF P wf k(2), of m]
        inside_mult [OF P k(2), of m] windowIndex_mult [OF P m(1)] range le
      by (auto simp: contents_def m(2))
  qed
  with w' wf' k' show ?thesis by auto
qed

lemma resetSlots_items:
  assumes "resetSlots reset N a i items cnt = Some (items', cnt')"
    and "\<And>x. Q x \<Longrightarrow> Q (reset x)" and "\<forall>x \<in> set items. Q x"
  shows "\<forall>x \<in> set items'. Q x"
proof -
  have "(\<forall>x \<in> set items. Q x) \<longrightarrow> (\<forall>x \<in> set (fst (items', cnt')). Q x)"
  proof (rule resetSlots.raw_induct [where P = "\<lambda>r N a i items cnt res.
      r = reset \<longrightarrow> (\<forall>x \<in> set items. Q x) \<longrightarrow> (\<forall>x \<in> set (fst res). Q x)", OF _ assms(1), THEN mp, OF _ refl])
    fix f and r :: "'a \<Rightarrow> 'a" and N a i items cnt res
    assume IH: "\<And>r N a i items cnt res. f r N a i items cnt = Some res \<Longrightarrow>
        r = reset \<longrightarrow> (\<forall>x \<in> set items. Q x) \<longrightarrow> (\<forall>x \<in> set (fst res). Q x)"
      and eq: "(if i = a then Some (items, cnt) else if i < length items
        then f r N a ((i + 1) mod N) (items[i := r (items ! i)]) (cnt + 1) else None) = Some res"
    show "r = reset \<longrightarrow> (\<forall>x \<in> set items. Q x) \<longrightarrow> (\<forall>x \<in> set (fst res). Q x)"
    proof (intro impI)
      assume r: "r = reset" and q: "\<forall>x \<in> set items. Q x"
      show "\<forall>x \<in> set (fst res). Q x"
      proof (cases "i = a")
        case True
        with eq q show ?thesis by auto
      next
        case False
        with eq have i: "i < length items"
          and rec: "f r N a ((i + 1) mod N) (items[i := r (items ! i)]) (cnt + 1) = Some res"
          by (auto split: if_splits)
        have "\<forall>x \<in> set (items[i := r (items ! i)]). Q x"
          using q i r assms(2) set_update_subset_insert [of items i] by fastforce
        then show ?thesis using IH [OF rec] r by simp
      qed
    qed
  qed
  with assms(3) show ?thesis by simp
qed

lemma advanceActiveWindow_items:
  assumes "window_params W R" and "wf_window W R w"
    and "advanceActiveWindow W R reset w first = Some w'"
    and "\<And>x. Q x \<Longrightarrow> Q (reset x)" and "\<forall>x \<in> set (activeWindow w). Q x"
  shows "\<forall>x \<in> set (activeWindow w'). Q x"
  using assms(3-5) resetSlots_items [where Q = Q, OF _ assms(4)]
  by (auto simp: advanceActiveWindow_def resetAll_def Let_def bind_eq_Some_conv split: if_splits)

lemma windowIndex_less:
  assumes "window_params W R" and "n smod R = 0" and "0 \<le> n"
  shows "windowIndex W R n < numItems W R"
proof -
  have "0 < R" using window_params_pos [OF assms(1)] by simp
  then obtain m where "0 \<le> m" "n = R * m" using mod_zero_multE [OF assms(2) _ assms(3)] by blast
  then show ?thesis using windowIndex_mult [OF assms(1)] numItems_bounds [OF assms(1)] by simp
qed

text \<open>C11: advancing a well-formed window never fails an assertion and refines the sliding of the
  abstract map: a sequence number that was already inside keeps its item, every other number of
  the new window gets the reset of the item that occupied its slot, and the result is again
  well formed and begins at the requested number.\<close>

theorem advanceActiveWindow_refines:
  assumes P: "window_params W R" and wf: "wf_window W R w"
    and new: "newFirst smod R = 0" "beginningOfActiveWindow w \<le> newFirst"
  shows "\<exists>w'. advanceActiveWindow W R reset w newFirst = Some w' \<and> wf_window W R w'
    \<and> beginningOfActiveWindow w' = newFirst
    \<and> (\<forall>n. n smod R = 0 \<and> insideActiveWindow W w' n \<longrightarrow>
        contents W R w' n =
          (if insideActiveWindow W w n then contents W R w n
           else Some (reset (activeWindow w ! windowIndex W R n))))"
  using advanceActiveWindow_refines_all [OF assms] .

definition sample_window :: "nat Window" where
  "sample_window = \<lparr>beginningOfActiveWindow = 4, activeWindow = [4, 5, 6, 7, 8, 9, 10, 3]\<rparr>"

theorem advanceActiveWindow_refines_witness:
  "window_params 8 1 \<and> wf_window 8 1 sample_window
   \<and> (\<exists>w'. advanceActiveWindow 8 1 (\<lambda>_. 0) sample_window 7 = Some w'
        \<and> beginningOfActiveWindow w' = 7)"
proof -
  have P: "window_params 8 1" and wf: "wf_window 8 1 sample_window"
    by (simp_all add: window_params_def wf_window_def sample_window_def numItems_def)
  show ?thesis
    using P wf advanceActiveWindow_refines [OF P wf, of 7 "\<lambda>_. 0"]
    by (auto simp: sample_window_def signed_modulo_int_def)
qed

section \<open>The interface for the users of a window\<close>

text \<open>
  A user of the window supplies the item type with its \<open>init\<close> and \<open>reset\<close>; what it promises is
  an invariant of items that both establish or keep, and a notion of a clean item that
  \<open>reset\<close> gives. In return every operation of the window keeps the invariant for all slots, and
  a number that enters the window by an advance holds a clean item.
\<close>

definition all_items :: "('item \<Rightarrow> bool) \<Rightarrow> 'item Window \<Rightarrow> bool" where
  "all_items Q w \<longleftrightarrow> (\<forall>x \<in> set (activeWindow w). Q x)"

locale window_items =
  fixes W R :: int and reset :: "'item \<Rightarrow> 'item"
    and item_ok :: "'item \<Rightarrow> bool" and clean :: "'item \<Rightarrow> bool"
  assumes params: "window_params W R"
    and reset_ok: "item_ok x \<Longrightarrow> item_ok (reset x)"
    and reset_clean: "item_ok x \<Longrightarrow> clean (reset x)"
begin

lemma new_ok:
  assumes "newWindow W R initItem reset first = Some w" and "0 \<le> first"
    and "item_ok (reset initItem)"
  shows "wf_window W R w" and "all_items item_ok w"
proof -
  have "R dvd first"
    using assms window_params_pos [OF params]
    by (auto simp: newWindow_def smod_nonneg_eq)
  with assms show "wf_window W R w" by (auto simp: newWindow_def wf_window_def)
  show "all_items item_ok w" using assms by (auto simp: newWindow_def all_items_def)
qed

lemma put_ok:
  assumes "put W R w n x = Some w'" and "wf_window W R w" and "all_items item_ok w" and "item_ok x"
  shows "wf_window W R w'" and "all_items item_ok w'"
  using assms set_update_subset_insert [of "activeWindow w" "windowIndex W R n" x]
  by (auto simp: put_def bind_eq_Some_conv wf_window_def all_items_def)

lemma get_ok:
  assumes "get W R w n = Some x" and "all_items item_ok w"
  shows "item_ok x"
  using assms by (auto simp: get_def all_items_def)

lemma get_put:
  assumes "put W R w n x = Some w'"
  shows "get W R w' n = Some x"
  using assms by (auto simp: put_def get_def bind_eq_Some_conv insideActiveWindow_def)

lemma resetAll_ok:
  assumes "resetAll R reset w first = Some w'" and "0 \<le> first"
    and "wf_window W R w" and "all_items item_ok w"
  shows "wf_window W R w'" and "all_items item_ok w'" and "all_items clean w'"
proof -
  have "R dvd first"
    using assms window_params_pos [OF params] by (auto simp: resetAll_def smod_nonneg_eq)
  with assms show "wf_window W R w'" and "all_items item_ok w'" and "all_items clean w'"
    using reset_ok reset_clean by (auto simp: resetAll_def wf_window_def all_items_def)
qed

lemma advance_ok:
  assumes "advanceActiveWindow W R reset w first = Some w'"
    and wf: "wf_window W R w" and ok: "all_items item_ok w"
  shows "wf_window W R w'" and "all_items item_ok w'" and "beginningOfActiveWindow w' = first"
proof -
  have new: "first smod R = 0" "beginningOfActiveWindow w \<le> first"
    using assms(1) by (auto simp: advanceActiveWindow_def)
  show wf': "wf_window W R w'" and "beginningOfActiveWindow w' = first"
    using advanceActiveWindow_refines_all [OF params wf new, of reset] assms(1) by auto
  show "all_items item_ok w'"
    using advanceActiveWindow_items [OF params wf assms(1), of item_ok] ok reset_ok
    by (auto simp: all_items_def)
qed

lemma advance_fresh_clean:
  assumes adv: "advanceActiveWindow W R reset w first = Some w'"
    and wf: "wf_window W R w" and ok: "all_items item_ok w"
    and n: "n smod R = 0" "insideActiveWindow W w' n" "\<not> insideActiveWindow W w n"
  shows "\<exists>x. get W R w' n = Some x \<and> clean x"
proof -
  have new: "first smod R = 0" "beginningOfActiveWindow w \<le> first"
    using adv by (auto simp: advanceActiveWindow_def)
  have "windowIndex W R n < length (activeWindow w)"
    using windowIndex_less [OF params] wf n advance_ok(1) [OF adv wf ok]
    by (auto simp: wf_window_def insideActiveWindow_def)
  then have "item_ok (activeWindow w ! windowIndex W R n)"
    using ok by (simp add: all_items_def)
  then show ?thesis
    using advanceActiveWindow_refines_all [OF params wf new, of reset] adv n reset_clean
    by (auto simp: contents_def)
qed

end

end
