(* ===== verification/Msgs_Certificate.thy ===== *)
theory Msgs_Certificate
  imports Engine_Prelude
begin

text \<open>
  \<^verbatim>\<open>MsgsCertificate.hpp\<close>: the certificate that collects one message per replica, sorts the
  messages into classes of equivalent ones and is complete when one class is large enough. The
  template parameters \<open>SelfTrust\<close> and \<open>SelfIsRequired\<close> and the comparison
  \<open>ExternalFunc::equivalent\<close> are arguments of the operations. \<open>NULL_CLASS\<close> is \<open>None\<close>; a
  representative that has no message (the source dereferences \<open>end()\<close>) is a failed operation.
  Class sizes never exceed the number of senders plus one, so they are plain numbers.
\<close>

section \<open>State and operations\<close>

record MsgClassInfo =
  clsSize :: nat
  representativeReplica :: ReplicaId

record 'm MsgsCertificate =
  numOfReps :: nat
  maxFails :: nat
  required :: nat
  selfId :: ReplicaId
  msgsFromReplicas :: "ReplicaId \<Rightarrow> 'm option"
  msgClasses :: "MsgClassInfo list"
  numOfClasses :: nat
  complete :: bool
  bestClass :: "nat option"
  sizeOfBestClass :: nat
  hasTrustedSelfClass :: bool

definition zeroClass :: MsgClassInfo where
  "zeroClass = \<lparr>clsSize = 0, representativeReplica = 0\<rparr>"

definition newMsgsCertificate :: "nat \<Rightarrow> nat \<Rightarrow> nat \<Rightarrow> ReplicaId \<Rightarrow> 'm MsgsCertificate" where
  "newMsgsCertificate numOfReplicas maxFailures numOfRequired selfReplicaId =
     \<lparr>numOfReps = numOfReplicas, maxFails = maxFailures, required = numOfRequired,
      selfId = selfReplicaId, msgsFromReplicas = Map.empty,
      msgClasses = replicate numOfReplicas zeroClass, numOfClasses = 0, complete = False,
      bestClass = None, sizeOfBestClass = 0, hasTrustedSelfClass = False\<rparr>"

definition cert_isEmpty :: "'m MsgsCertificate \<Rightarrow> bool" where
  "cert_isEmpty c \<longleftrightarrow> dom (msgsFromReplicas c) = {}"

definition zeroFirstClasses :: "nat \<Rightarrow> MsgClassInfo list \<Rightarrow> MsgClassInfo list" where
  "zeroFirstClasses n cs = map (\<lambda>x. zeroClass) (take n cs) @ drop n cs"

definition cert_resetAndFree :: "'m MsgsCertificate \<Rightarrow> 'm MsgsCertificate" where
  "cert_resetAndFree c =
     (let c = c\<lparr>complete := False\<rparr> in
      if cert_isEmpty c then c
      else c\<lparr>msgsFromReplicas := Map.empty,
             msgClasses := zeroFirstClasses (numOfClasses c) (msgClasses c),
             numOfClasses := 0, bestClass := None, sizeOfBestClass := 0,
             hasTrustedSelfClass := False\<rparr>)"

definition hasMsgFromReplica :: "'m MsgsCertificate \<Rightarrow> ReplicaId \<Rightarrow> bool" where
  "hasMsgFromReplica c r \<longleftrightarrow> msgsFromReplicas c r \<noteq> None"

definition tryToMarkComplete :: "bool \<Rightarrow> 'm MsgsCertificate \<Rightarrow> 'm MsgsCertificate" where
  "tryToMarkComplete SelfIsRequired c =
     (if \<not> SelfIsRequired \<or> hasMsgFromReplica c (selfId c) then c\<lparr>complete := True\<rparr> else c)"

text \<open>The loop that looks for the class of a message: the outer \<open>option\<close> is a missing
  representative, the inner one says whether a class was found.\<close>

fun findClass ::
  "('m \<Rightarrow> 'm \<Rightarrow> bool) \<Rightarrow> (ReplicaId \<Rightarrow> 'm option) \<Rightarrow> MsgClassInfo list \<Rightarrow> nat \<Rightarrow> 'm
     \<Rightarrow> nat option option" where
  "findClass equivalent msgs [] i msg = Some None"
| "findClass equivalent msgs (cls # classes) i msg = do {
     representativeMsg \<leftarrow> msgs (representativeReplica cls);
     if equivalent representativeMsg msg then Some (Some i)
     else findClass equivalent msgs classes (i + 1) msg
   }"

definition growClass :: "nat \<Rightarrow> 'm MsgsCertificate \<Rightarrow> 'm MsgsCertificate" where
  "growClass i c =
     c\<lparr>msgClasses := (msgClasses c)[i := (msgClasses c ! i)\<lparr>clsSize := clsSize (msgClasses c ! i) + 1\<rparr>]\<rparr>"

text \<open>The second half of \<open>addPeerMsg\<close>: a message that opened no class, and one that joined class
  \<open>i\<close>, whose size has been increased by then.\<close>

definition openClass :: "ReplicaId \<Rightarrow> 'm MsgsCertificate \<Rightarrow> 'm MsgsCertificate" where
  "openClass replicaId c =
     (if numOfClasses c \<ge> numOfReps c then c
      else let relevantClass = numOfClasses c;
               c = c\<lparr>numOfClasses := numOfClasses c + 1,
                     msgClasses := (msgClasses c)[relevantClass :=
                       \<lparr>clsSize = 1, representativeReplica = replicaId\<rparr>]\<rparr> in
           if bestClass c = None then c\<lparr>bestClass := Some relevantClass, sizeOfBestClass := 1\<rparr> else c)"

definition joinClass :: "bool \<Rightarrow> nat \<Rightarrow> 'm MsgsCertificate \<Rightarrow> 'm MsgsCertificate" where
  "joinClass SelfIsRequired i c =
     (let size = clsSize (msgClasses c ! i);
          c = (if size > sizeOfBestClass c
               then c\<lparr>bestClass := Some i, sizeOfBestClass := size\<rparr> else c) in
      if bestClass c = Some i \<and> sizeOfBestClass c \<ge> required c
      then tryToMarkComplete SelfIsRequired c else c)"

definition addPeerMsg ::
  "('m \<Rightarrow> 'm \<Rightarrow> bool) \<Rightarrow> bool \<Rightarrow> 'm \<Rightarrow> ReplicaId \<Rightarrow> 'm MsgsCertificate \<Rightarrow> 'm MsgsCertificate option" where
  "addPeerMsg equivalent SelfIsRequired msg replicaId c =
     (if hasTrustedSelfClass c
      then do {
        cls \<leftarrow> at (msgClasses c) 0;
        representativeMsg \<leftarrow> msgsFromReplicas c (representativeReplica cls);
        if \<not> equivalent representativeMsg msg then Some c
        else Some (joinClass SelfIsRequired 0 (growClass 0 c))
      }
      else do {
        relevantClass \<leftarrow> findClass equivalent (msgsFromReplicas c)
                          (take (numOfClasses c) (msgClasses c)) 0 msg;
        case relevantClass of
          None \<Rightarrow> Some (openClass replicaId c)
        | Some i \<Rightarrow> Some (joinClass SelfIsRequired i (growClass i c))
      })"

definition addSelfMsg ::
  "('m \<Rightarrow> 'm \<Rightarrow> bool) \<Rightarrow> bool \<Rightarrow> 'm \<Rightarrow> 'm MsgsCertificate \<Rightarrow> 'm MsgsCertificate option" where
  "addSelfMsg equivalent SelfIsRequired msg c = do {
     relevantClass \<leftarrow> findClass equivalent (msgsFromReplicas c)
                       (take (numOfClasses c) (msgClasses c)) 0 msg;
     let c = (case relevantClass of None \<Rightarrow> c | Some i \<Rightarrow> growClass i c);
         size = (case relevantClass of None \<Rightarrow> 1 | Some i \<Rightarrow> clsSize (msgClasses c ! i) + 1);
         classInfo = \<lparr>clsSize = size, representativeReplica = selfId c\<rparr>;
         cleared = zeroFirstClasses (numOfClasses c) (msgClasses c);
         c = c\<lparr>msgClasses := cleared[0 := classInfo], numOfClasses := 1, bestClass := Some 0,
               sizeOfBestClass := size, hasTrustedSelfClass := True\<rparr>
     in Some (if size \<ge> required c then tryToMarkComplete SelfIsRequired c else c)
   }"

definition cert_addMsg ::
  "('m \<Rightarrow> 'm \<Rightarrow> bool) \<Rightarrow> bool \<Rightarrow> bool \<Rightarrow> 'm \<Rightarrow> ReplicaId \<Rightarrow> 'm MsgsCertificate
     \<Rightarrow> (bool \<times> 'm MsgsCertificate) option" where
  "cert_addMsg equivalent SelfTrust SelfIsRequired msg replicaId c =
     (if msgsFromReplicas c replicaId \<noteq> None then Some (False, c)
      else do {
        let c = c\<lparr>msgsFromReplicas := (msgsFromReplicas c)(replicaId \<mapsto> msg)\<rparr>;
        c \<leftarrow> (if complete c then Some c
              else if SelfTrust \<and> replicaId = selfId c then addSelfMsg equivalent SelfIsRequired msg c
              else addPeerMsg equivalent SelfIsRequired msg replicaId c);
        Some (True, c)
      })"

definition isInconsistent :: "'m MsgsCertificate \<Rightarrow> bool" where
  "isInconsistent c \<longleftrightarrow> numOfClasses c \<ge> maxFails c + 1"

definition selfMsg :: "'m MsgsCertificate \<Rightarrow> 'm option" where
  "selfMsg c = msgsFromReplicas c (selfId c)"

text \<open>The outer \<open>option\<close> is the failed operation, the inner one the null pointer.\<close>

definition bestCorrectMsg :: "'m MsgsCertificate \<Rightarrow> 'm option option" where
  "bestCorrectMsg c =
     (if hasTrustedSelfClass c \<or> sizeOfBestClass c \<ge> maxFails c + 1
      then do {
        i \<leftarrow> bestClass c;
        mci \<leftarrow> at (msgClasses c) i;
        m \<leftarrow> msgsFromReplicas c (representativeReplica mci);
        Some (Some m)
      }
      else Some None)"

text \<open>A run of \<open>cert_addMsg\<close> over the messages in the order they arrive.\<close>

fun addMsgs ::
  "('m \<Rightarrow> 'm \<Rightarrow> bool) \<Rightarrow> bool \<Rightarrow> bool \<Rightarrow> (ReplicaId \<times> 'm) list \<Rightarrow> 'm MsgsCertificate
     \<Rightarrow> 'm MsgsCertificate option" where
  "addMsgs equivalent SelfTrust SelfIsRequired [] c = Some c"
| "addMsgs equivalent SelfTrust SelfIsRequired ((r, m) # ms) c = do {
     (_, c) \<leftarrow> cert_addMsg equivalent SelfTrust SelfIsRequired m r c;
     addMsgs equivalent SelfTrust SelfIsRequired ms c
   }"

section \<open>The counting invariant\<close>

text \<open>The senders whose message is equivalent to \<open>m\<close>.\<close>

definition supporters :: "('m \<Rightarrow> 'm \<Rightarrow> bool) \<Rightarrow> (ReplicaId \<Rightarrow> 'm option) \<Rightarrow> 'm \<Rightarrow> ReplicaId set" where
  "supporters equivalent msgs m = {r. \<exists>m'. msgs r = Some m' \<and> equivalent m m'}"

text \<open>One class describes the messages: its representative has sent one, and its size is the number
  of supporters, or one more than that after a self message joined it.\<close>

definition class_ok ::
  "('m \<Rightarrow> 'm \<Rightarrow> bool) \<Rightarrow> (ReplicaId \<Rightarrow> 'm option) \<Rightarrow> nat \<Rightarrow> MsgClassInfo \<Rightarrow> bool" where
  "class_ok equivalent msgs slack cls \<longleftrightarrow>
     (case msgs (representativeReplica cls) of
        None \<Rightarrow> False
      | Some m \<Rightarrow> card (supporters equivalent msgs m) \<le> clsSize cls \<and>
                  clsSize cls \<le> card (supporters equivalent msgs m) + slack)"

definition class_list_ok ::
  "('m \<Rightarrow> 'm \<Rightarrow> bool) \<Rightarrow> (ReplicaId \<Rightarrow> 'm option) \<Rightarrow> nat \<Rightarrow> MsgClassInfo list \<Rightarrow> bool" where
  "class_list_ok equivalent msgs slack classes \<longleftrightarrow>
     (\<forall>cls \<in> set classes. class_ok equivalent msgs slack cls) \<and>
     sorted_wrt (\<lambda>r s. \<not> equivalent (the (msgs r)) (the (msgs s)))
       (map representativeReplica classes)"

definition covered ::
  "('m \<Rightarrow> 'm \<Rightarrow> bool) \<Rightarrow> (ReplicaId \<Rightarrow> 'm option) \<Rightarrow> MsgClassInfo list \<Rightarrow> bool" where
  "covered equivalent msgs classes \<longleftrightarrow>
     (\<forall>m \<in> ran msgs. \<exists>cls \<in> set classes. equivalent (the (msgs (representativeReplica cls))) m)"

abbreviation usedClasses :: "'m MsgsCertificate \<Rightarrow> MsgClassInfo list" where
  "usedClasses c \<equiv> take (numOfClasses c) (msgClasses c)"

abbreviation trustSlack :: "'m MsgsCertificate \<Rightarrow> nat" where
  "trustSlack c \<equiv> (if hasTrustedSelfClass c then 1 else 0)"

definition cert_shape :: "bool \<Rightarrow> 'm MsgsCertificate \<Rightarrow> bool" where
  "cert_shape SelfTrust c \<longleftrightarrow>
     2 \<le> required c \<and> length (msgClasses c) = numOfReps c \<and> numOfClasses c \<le> numOfReps c \<and>
     dom (msgsFromReplicas c) \<subseteq> {..<numOfReps c} \<and>
     (hasTrustedSelfClass c \<longrightarrow> SelfTrust \<and> msgsFromReplicas c (selfId c) \<noteq> None)"

definition best_ok :: "'m MsgsCertificate \<Rightarrow> bool" where
  "best_ok c \<longleftrightarrow>
     (\<forall>cls \<in> set (usedClasses c). clsSize cls \<le> sizeOfBestClass c) \<and>
     (case bestClass c of
        None \<Rightarrow> numOfClasses c = 0 \<and> sizeOfBestClass c = 0
      | Some b \<Rightarrow> b < numOfClasses c \<and> clsSize (msgClasses c ! b) = sizeOfBestClass c)"

definition cert_classes :: "('m \<Rightarrow> 'm \<Rightarrow> bool) \<Rightarrow> bool \<Rightarrow> 'm MsgsCertificate \<Rightarrow> bool" where
  "cert_classes equivalent SelfTrust c \<longleftrightarrow>
     class_list_ok equivalent (msgsFromReplicas c) (trustSlack c) (usedClasses c) \<and>
     (if hasTrustedSelfClass c then map representativeReplica (usedClasses c) = [selfId c]
      else covered equivalent (msgsFromReplicas c) (usedClasses c) \<and>
           (SelfTrust \<longrightarrow> msgsFromReplicas c (selfId c) = None))"

definition cert_counts :: "('m \<Rightarrow> 'm \<Rightarrow> bool) \<Rightarrow> bool \<Rightarrow> bool \<Rightarrow> 'm MsgsCertificate \<Rightarrow> bool" where
  "cert_counts equivalent SelfTrust SelfIsRequired c \<longleftrightarrow>
     cert_classes equivalent SelfTrust c \<and> best_ok c \<and>
     (sizeOfBestClass c \<ge> required c \<longrightarrow> SelfIsRequired \<and> msgsFromReplicas c (selfId c) = None)"

text \<open>What completion means: the supporters of some message reach the required number, up to the
  slack of the self class; where the own message is required, it is that message.\<close>

definition cert_quorum :: "('m \<Rightarrow> 'm \<Rightarrow> bool) \<Rightarrow> bool \<Rightarrow> 'm MsgsCertificate \<Rightarrow> bool" where
  "cert_quorum equivalent SelfIsRequired c \<longleftrightarrow>
     (\<exists>r \<in> dom (msgsFromReplicas c).
        required c \<le> card (supporters equivalent (msgsFromReplicas c) (the (msgsFromReplicas c r)))
                     + trustSlack c \<and>
        (SelfIsRequired \<longrightarrow> r = selfId c))"

definition cert_ok :: "('m \<Rightarrow> 'm \<Rightarrow> bool) \<Rightarrow> bool \<Rightarrow> bool \<Rightarrow> 'm MsgsCertificate \<Rightarrow> bool" where
  "cert_ok equivalent SelfTrust SelfIsRequired c \<longleftrightarrow>
     cert_shape SelfTrust c \<and>
     (if complete c then cert_quorum equivalent SelfIsRequired c
      else cert_counts equivalent SelfTrust SelfIsRequired c)"

text \<open>The class of the own message: the number of its supporters, counted once more when it joins
  a class that peers had opened.\<close>

definition selfClassSize :: "'m MsgsCertificate \<Rightarrow> nat option \<Rightarrow> nat" where
  "selfClassSize c res = (case res of None \<Rightarrow> 1 | Some i \<Rightarrow> clsSize (msgClasses c ! i) + 2)"

text \<open>No operation changes the configuration, and only \<open>cert_addMsg\<close> stores messages.\<close>

definition same_config :: "'m MsgsCertificate \<Rightarrow> 'm MsgsCertificate \<Rightarrow> bool" where
  "same_config c d \<longleftrightarrow> numOfReps d = numOfReps c \<and> maxFails d = maxFails c \<and> required d = required c \<and>
     selfId d = selfId c \<and> msgsFromReplicas d = msgsFromReplicas c"

lemma growClass_sel [simp]:
  "msgsFromReplicas (growClass i c) = msgsFromReplicas c" "maxFails (growClass i c) = maxFails c"
  "numOfClasses (growClass i c) = numOfClasses c"
  "complete (growClass i c) = complete c" "required (growClass i c) = required c"
  "selfId (growClass i c) = selfId c" "numOfReps (growClass i c) = numOfReps c"
  "hasTrustedSelfClass (growClass i c) = hasTrustedSelfClass c"
  "bestClass (growClass i c) = bestClass c" "sizeOfBestClass (growClass i c) = sizeOfBestClass c"
  "length (msgClasses (growClass i c)) = length (msgClasses c)"
  by (simp_all add: growClass_def)

lemma same_config_steps:
  "same_config c (growClass i c)" "same_config c (tryToMarkComplete sr c)"
  "same_config c (openClass r c)"
  by (simp_all add: same_config_def tryToMarkComplete_def openClass_def Let_def)

lemma same_config_trans: "same_config a b \<Longrightarrow> same_config b c \<Longrightarrow> same_config a c"
  by (simp add: same_config_def)

lemma same_config_joinClass: "same_config c (joinClass sr i c)"
proof -
  have "same_config c (c\<lparr>bestClass := b, sizeOfBestClass := n\<rparr>)" for b n
    by (simp add: same_config_def)
  moreover have "same_config c c" by (simp add: same_config_def)
  ultimately show ?thesis
    unfolding joinClass_def Let_def
    by (auto intro: same_config_steps same_config_trans [OF _ same_config_steps(2)])
qed

lemma same_config_addPeerMsg:
  assumes "addPeerMsg equivalent sr m r c = Some c'"
  shows "same_config c c'"
proof -
  have "same_config c (joinClass sr i (growClass i c))" for i
    using same_config_trans same_config_steps(1) same_config_joinClass by blast
  moreover have "same_config c c" by (simp add: same_config_def)
  ultimately show ?thesis
    using assms same_config_steps(3)
    by (auto simp: addPeerMsg_def Option.bind_eq_Some_conv split: if_splits option.splits)
qed

lemma same_config_addSelfMsg:
  assumes "addSelfMsg equivalent sr m c = Some c'"
  shows "same_config c c'"
proof -
  obtain res where res: "findClass equivalent (msgsFromReplicas c) (usedClasses c) 0 m = Some res"
    using assms by (auto simp: addSelfMsg_def Option.bind_eq_Some_conv)
  have "same_config c (tryToMarkComplete sr (c\<lparr>msgClasses := cs, numOfClasses := n, bestClass := b,
          sizeOfBestClass := k, hasTrustedSelfClass := t\<rparr>))" for cs n b k t
    by (rule same_config_trans [OF _ same_config_steps(2)]) (simp add: same_config_def)
  moreover have "same_config c (c\<lparr>msgClasses := cs, numOfClasses := n, bestClass := b,
          sizeOfBestClass := k, hasTrustedSelfClass := t\<rparr>)" for cs n b k t
    by (simp add: same_config_def)
  ultimately show ?thesis
    using assms res by (cases res) (auto simp: addSelfMsg_def Let_def growClass_def split: if_splits)
qed

lemma cert_addMsg_config:
  assumes "cert_addMsg equivalent st sr m r c = Some (b, c')"
  shows "same_config (if b then c\<lparr>msgsFromReplicas := (msgsFromReplicas c)(r \<mapsto> m)\<rparr> else c) c' \<and>
         (b \<longleftrightarrow> msgsFromReplicas c r = None)"
proof -
  have "same_config d d" for d :: "'m MsgsCertificate" by (simp add: same_config_def)
  then show ?thesis
    using assms same_config_addPeerMsg same_config_addSelfMsg
    unfolding cert_addMsg_def Let_def
    by (fastforce simp: Option.bind_eq_Some_conv split: if_splits)
qed

section \<open>Certificates over an equivalence of messages\<close>

text \<open>The contract of \<open>ExternalFunc::equivalent\<close>: the certificate counts correctly over any
  equivalence relation.\<close>

locale msg_equivalence =
  fixes equivalent :: "'m \<Rightarrow> 'm \<Rightarrow> bool"
  assumes eq_refl: "equivalent m m"
    and eq_sym: "equivalent a b \<Longrightarrow> equivalent b a"
    and eq_trans: "equivalent a b \<Longrightarrow> equivalent b c \<Longrightarrow> equivalent a c"
begin

lemma supporters_upd:
  assumes "msgs r = None"
  shows "supporters equivalent (msgs(r \<mapsto> x)) m =
           (if equivalent m x then insert r (supporters equivalent msgs m)
            else supporters equivalent msgs m)"
  using assms by (auto simp: supporters_def)

lemma supporters_finite [simp]: "finite (dom msgs) \<Longrightarrow> finite (supporters equivalent msgs m)"
  by (rule finite_subset [of _ "dom msgs"]) (auto simp: supporters_def)

lemma card_supporters_upd:
  assumes "finite (dom msgs)" "msgs r = None"
  shows "card (supporters equivalent (msgs(r \<mapsto> x)) m) =
           card (supporters equivalent msgs m) + (if equivalent m x then 1 else 0)"
proof -
  have "r \<notin> supporters equivalent msgs m" using assms(2) by (auto simp: supporters_def)
  then show ?thesis using assms by (simp add: supporters_upd)
qed

lemma supporters_cong_equivalent:
  "equivalent a b \<Longrightarrow> supporters equivalent msgs a = supporters equivalent msgs b"
  unfolding supporters_def using eq_sym eq_trans by blast

lemma class_ok_upd:
  assumes "class_ok equivalent msgs s cls" "finite (dom msgs)" "msgs r = None"
    "\<not> equivalent (the (msgs (representativeReplica cls))) x"
  shows "class_ok equivalent (msgs(r \<mapsto> x)) s cls"
  using assms by (auto simp: class_ok_def card_supporters_upd split: option.splits)

lemma class_ok_grow:
  assumes "class_ok equivalent msgs s cls" "finite (dom msgs)" "msgs r = None"
    "equivalent (the (msgs (representativeReplica cls))) x"
  shows "class_ok equivalent (msgs(r \<mapsto> x)) s (cls\<lparr>clsSize := clsSize cls + 1\<rparr>)"
  using assms by (auto simp: class_ok_def card_supporters_upd split: option.splits)

lemma findClass_total:
  assumes "\<forall>cls \<in> set classes. class_ok equivalent msgs s cls"
  shows "\<exists>res. findClass equivalent msgs classes k x = Some res"
  using assms by (induction classes arbitrary: k) (auto simp: class_ok_def split: option.splits)

lemma findClass_None:
  assumes "findClass equivalent msgs classes k x = Some None" "cls \<in> set classes"
  shows "\<not> equivalent (the (msgs (representativeReplica cls))) x"
  using assms
  by (induction classes arbitrary: k) (auto simp: Option.bind_eq_Some_conv split: if_splits)

lemma findClass_Some:
  assumes "findClass equivalent msgs classes k x = Some (Some i)"
  shows "k \<le> i \<and> i - k < length classes \<and>
         equivalent (the (msgs (representativeReplica (classes ! (i - k))))) x"
  using assms
proof (induction classes arbitrary: k)
  case (Cons cls classes)
  then consider "i = k" "equivalent (the (msgs (representativeReplica cls))) x"
    | "findClass equivalent msgs classes (k + 1) x = Some (Some i)"
    by (auto simp: Option.bind_eq_Some_conv split: if_splits)
  then show ?case
  proof cases
    case 2
    from Cons.IH [OF this] have "k + 1 \<le> i" "i - (k + 1) < length classes"
      "equivalent (the (msgs (representativeReplica (classes ! (i - (k + 1)))))) x" by auto
    moreover from this(1) have "i - k = Suc (i - (k + 1))" by simp
    ultimately show ?thesis by simp
  qed simp
qed simp

lemma class_list_reps:
  assumes "class_list_ok equivalent msgs s classes"
  shows "set (map representativeReplica classes) \<subseteq> dom msgs"
  using assms by (auto simp: class_list_ok_def class_ok_def split: option.splits)

lemma class_list_distinct:
  assumes "class_list_ok equivalent msgs s classes"
  shows "distinct (map representativeReplica classes)"
proof -
  have "sorted_wrt (\<lambda>r s. r \<noteq> s) (map representativeReplica classes)"
    using assms eq_refl unfolding class_list_ok_def
    by (auto elim!: sorted_wrt_mono_rel [rotated])
  then show ?thesis by (auto simp: sorted_wrt_iff_nth_less distinct_conv_nth) (metis linorder_neqE_nat)
qed

lemma sorted_reps_upd:
  assumes "sorted_wrt (\<lambda>a b. \<not> equivalent (the (msgs a)) (the (msgs b))) rs" "r \<notin> set rs"
  shows "sorted_wrt (\<lambda>a b. \<not> equivalent (the ((msgs(r \<mapsto> x)) a)) (the ((msgs(r \<mapsto> x)) b))) rs"
  using assms by (elim sorted_wrt_mono_rel [rotated]) (auto split: if_splits)

lemma class_list_other:
  assumes ok: "class_list_ok equivalent msgs s classes" and i: "i < length classes" and j: "j < length classes"
    and eq: "equivalent (the (msgs (representativeReplica (classes ! i)))) x" and "i \<noteq> j"
  shows "\<not> equivalent (the (msgs (representativeReplica (classes ! j)))) x"
proof
  let ?m = "\<lambda>k. the (msgs (representativeReplica (classes ! k)))"
  assume "equivalent (?m j) x"
  then have e: "equivalent (?m i) (?m j)" "equivalent (?m j) (?m i)"
    using eq eq_sym eq_trans by blast+
  have "\<not> equivalent (?m a) (?m b)" if "a < b" "b < length classes" for a b
    using ok that by (auto simp: class_list_ok_def sorted_wrt_iff_nth_less)
  then show False using e i j \<open>i \<noteq> j\<close> by (metis linorder_neqE_nat)
qed

lemma class_list_grow:
  assumes ok: "class_list_ok equivalent msgs s classes" and "finite (dom msgs)" "msgs r = None"
    and i: "i < length classes"
    and eq: "equivalent (the (msgs (representativeReplica (classes ! i)))) x"
  shows "class_list_ok equivalent (msgs(r \<mapsto> x)) s
           (classes[i := (classes ! i)\<lparr>clsSize := clsSize (classes ! i) + 1\<rparr>])"
    (is "class_list_ok _ _ _ ?classes")
proof -
  have reps: "map representativeReplica ?classes = map representativeReplica classes"
    using i by (simp add: map_update list_update_same_conv)
  have "r \<notin> set (map representativeReplica classes)"
    using class_list_reps [OF ok] assms(3) by blast
  then have "sorted_wrt (\<lambda>a b. \<not> equivalent (the ((msgs(r \<mapsto> x)) a)) (the ((msgs(r \<mapsto> x)) b)))
      (map representativeReplica ?classes)"
    unfolding reps using ok by (intro sorted_reps_upd) (simp_all add: class_list_ok_def)
  moreover have "class_ok equivalent (msgs(r \<mapsto> x)) s (?classes ! j)" if "j < length classes" for j
  proof (cases "j = i")
    case True
    then show ?thesis using ok i eq assms(2,3) class_ok_grow by (simp add: class_list_ok_def)
  next
    case False
    then show ?thesis using ok that i assms(2,3) class_list_other [OF ok i that eq] class_ok_upd
      by (simp add: class_list_ok_def)
  qed
  ultimately show ?thesis
    unfolding class_list_ok_def by (metis in_set_conv_nth length_list_update)
qed

lemma class_list_open:
  assumes ok: "class_list_ok equivalent msgs s classes" and fin: "finite (dom msgs)" and r: "msgs r = None"
    and cov: "covered equivalent msgs classes"
    and new: "\<forall>cls \<in> set classes. \<not> equivalent (the (msgs (representativeReplica cls))) x"
  shows "class_list_ok equivalent (msgs(r \<mapsto> x)) s (classes @ [\<lparr>clsSize = 1, representativeReplica = r\<rparr>])"
proof -
  have "supporters equivalent msgs x = {}"
    using cov new eq_sym eq_trans unfolding covered_def supporters_def ran_def by blast
  then have "class_ok equivalent (msgs(r \<mapsto> x)) s \<lparr>clsSize = 1, representativeReplica = r\<rparr>"
    using fin r eq_refl by (simp add: class_ok_def card_supporters_upd)
  moreover have "r \<notin> representativeReplica ` set classes"
    using class_list_reps [OF ok] r by auto
  ultimately show ?thesis
    using ok new r fin class_ok_upd sorted_reps_upd [of msgs "map representativeReplica classes" r x]
    unfolding class_list_ok_def by (auto simp: sorted_wrt_append)
qed

lemma covered_grow:
  assumes "covered equivalent msgs classes" "msgs r = None"
    "set (map representativeReplica classes) \<subseteq> dom msgs"
    "map representativeReplica classes' = map representativeReplica classes"
    "i < length classes" "equivalent (the (msgs (representativeReplica (classes ! i)))) x"
  shows "covered equivalent (msgs(r \<mapsto> x)) classes'"
proof -
  have reps: "representativeReplica ` set classes' = representativeReplica ` set classes"
    using assms(4) by (metis image_set)
  have "r \<notin> representativeReplica ` set classes" using assms(2,3) by auto
  moreover have "\<exists>rep \<in> representativeReplica ` set classes. equivalent (the (msgs rep)) m"
    if "m = x \<or> m \<in> ran msgs" for m
    using that assms(1,5,6) unfolding covered_def by (metis (no_types, lifting) imageI nth_mem)
  ultimately have "\<exists>rep \<in> representativeReplica ` set classes'. equivalent (the ((msgs(r \<mapsto> x)) rep)) m"
    if "m \<in> ran (msgs(r \<mapsto> x))" for m
    using that assms(2) unfolding reps by (auto simp: ran_map_upd) (metis imageI)+
  then show ?thesis unfolding covered_def by blast
qed

lemma covered_open:
  assumes "covered equivalent msgs classes" "msgs r = None"
    "set (map representativeReplica classes) \<subseteq> dom msgs"
  shows "covered equivalent (msgs(r \<mapsto> x)) (classes @ [\<lparr>clsSize = k, representativeReplica = r\<rparr>])"
proof -
  have "r \<notin> representativeReplica ` set classes" using assms(2,3) by auto
  then show ?thesis
    using assms(1,2) eq_refl unfolding covered_def by (auto simp: ran_map_upd) (metis imageI)
qed

text \<open>Marking a certificate whose class \<open>i\<close> has reached the required size.\<close>

lemma tryToMarkComplete_ok:
  assumes shape: "cert_shape st c" and sr: "sr \<longrightarrow> st" and cl: "cert_classes equivalent st c"
    and best: "best_ok c" and i: "i < numOfClasses c"
    and size: "required c \<le> clsSize (msgClasses c ! i)" and nc: "\<not> complete c"
  shows "cert_ok equivalent st sr (tryToMarkComplete sr c)"
proof (cases "sr \<and> msgsFromReplicas c (selfId c) = None")
  case True
  then show ?thesis using assms
    by (simp add: cert_ok_def cert_counts_def tryToMarkComplete_def hasMsgFromReplica_def)
next
  case False
  let ?cls = "msgClasses c ! i"
  have i': "i < length (usedClasses c)" using i shape by (simp add: cert_shape_def)
  then have cls: "?cls \<in> set (usedClasses c)" by (metis i nth_mem nth_take)
  then have "class_ok equivalent (msgsFromReplicas c) (trustSlack c) ?cls"
    using cl by (simp add: cert_classes_def class_list_ok_def)
  then obtain m where m: "msgsFromReplicas c (representativeReplica ?cls) = Some m"
    "clsSize ?cls \<le> card (supporters equivalent (msgsFromReplicas c) m) + trustSlack c"
    by (auto simp: class_ok_def split: option.splits)
  have "representativeReplica ?cls = selfId c" if sr
  proof -
    have "hasTrustedSelfClass c" using False that sr cl by (auto simp: cert_classes_def split: if_splits)
    then have "map representativeReplica (usedClasses c) = [selfId c]"
      using cl by (simp add: cert_classes_def)
    then show ?thesis using cls by (metis image_eqI image_set list.set(1,2) singletonD)
  qed
  then have "cert_quorum equivalent sr (tryToMarkComplete sr c)"
    using m size by (auto simp: cert_quorum_def tryToMarkComplete_def dom_def
        intro!: exI [of _ "representativeReplica ?cls"])
  then show ?thesis using shape False
    by (auto simp: cert_ok_def cert_shape_def tryToMarkComplete_def hasMsgFromReplica_def)
qed

lemma joinClass_ok:
  assumes shape: "cert_shape st c" and sr: "sr \<longrightarrow> st" and cl: "cert_classes equivalent st c"
    and nc: "\<not> complete c" and i: "i < numOfClasses c"
    and others: "\<And>j. j < numOfClasses c \<Longrightarrow> j \<noteq> i \<Longrightarrow> clsSize (msgClasses c ! j) \<le> sizeOfBestClass c"
    and best: "bestClass c = Some b" "b < numOfClasses c"
      "if b = i then clsSize (msgClasses c ! i) = sizeOfBestClass c + 1
       else clsSize (msgClasses c ! b) = sizeOfBestClass c"
    and low: "sizeOfBestClass c \<ge> required c \<Longrightarrow> sr \<and> msgsFromReplicas c (selfId c) = None"
  shows "cert_ok equivalent st sr (joinClass sr i c)"
proof -
  let ?size = "clsSize (msgClasses c ! i)"
  define d where "d = (if ?size > sizeOfBestClass c
    then c\<lparr>bestClass := Some i, sizeOfBestClass := ?size\<rparr> else c)"
  have same: "msgsFromReplicas d = msgsFromReplicas c" "msgClasses d = msgClasses c"
    "numOfClasses d = numOfClasses c" "complete d = complete c" "required d = required c"
    "selfId d = selfId c" "numOfReps d = numOfReps c" "hasTrustedSelfClass d = hasTrustedSelfClass c"
    by (simp_all add: d_def)
  have shape': "cert_shape st d" and cl': "cert_classes equivalent st d"
    using shape cl by (simp_all add: cert_shape_def cert_classes_def same)
  have len: "numOfClasses c \<le> length (msgClasses c)" using shape by (simp add: cert_shape_def)
  have best': "best_ok d"
    unfolding best_ok_def same using others best i len
    by (force simp: d_def in_set_conv_nth split: if_splits)
  have jc: "joinClass sr i c =
      (if bestClass d = Some i \<and> sizeOfBestClass d \<ge> required d then tryToMarkComplete sr d else d)"
    by (simp add: joinClass_def d_def Let_def)
  show ?thesis
  proof (cases "bestClass d = Some i \<and> sizeOfBestClass d \<ge> required d")
    case True
    then have "required d \<le> clsSize (msgClasses d ! i)"
      using best by (auto simp: d_def split: if_splits)
    then show ?thesis
      using tryToMarkComplete_ok [OF shape' sr cl' best'] True i nc by (simp add: jc same)
  next
    case False
    then have "sizeOfBestClass d \<ge> required d \<longrightarrow> sr \<and> msgsFromReplicas d (selfId d) = None"
      using low by (auto simp: d_def split: if_splits)
    then have "cert_ok equivalent st sr d"
      using shape' cl' best' nc by (simp add: cert_ok_def cert_counts_def same)
    then show ?thesis unfolding jc if_not_P [OF False] .
  qed
qed

lemma findClass_upd:
  assumes "\<forall>cls \<in> set classes. representativeReplica cls \<noteq> r"
  shows "findClass equivalent (msgs(r \<mapsto> x)) classes k y = findClass equivalent msgs classes k y"
  using assms by (induction classes arbitrary: k) (auto cong: if_cong)

text \<open>A fresh sender \<open>r\<close> whose message \<open>x\<close> belongs to class \<open>i\<close>.\<close>

lemma growClass_classes:
  assumes shape: "cert_shape st c" and cl: "cert_classes equivalent st c"
    and r: "msgsFromReplicas c r = None" "r < numOfReps c" "st \<longrightarrow> r \<noteq> selfId c"
    and i: "i < numOfClasses c"
    and eq: "equivalent (the (msgsFromReplicas c (representativeReplica (msgClasses c ! i)))) x"
  shows "cert_shape st (growClass i (c\<lparr>msgsFromReplicas := (msgsFromReplicas c)(r \<mapsto> x)\<rparr>)) \<and>
         cert_classes equivalent st (growClass i (c\<lparr>msgsFromReplicas := (msgsFromReplicas c)(r \<mapsto> x)\<rparr>))"
    (is "cert_shape st ?d \<and> _")
proof
  show "cert_shape st ?d" using shape r by (auto simp: cert_shape_def)
  let ?cs = "usedClasses c"
  have i': "i < length ?cs" "?cs ! i = msgClasses c ! i"
    using i shape by (simp_all add: cert_shape_def)
  have ok: "class_list_ok equivalent (msgsFromReplicas c) (trustSlack c) ?cs"
    using cl by (simp add: cert_classes_def)
  have fin: "finite (dom (msgsFromReplicas c))"
    using shape finite_subset by (auto simp: cert_shape_def)
  have used: "usedClasses ?d = ?cs[i := (?cs ! i)\<lparr>clsSize := clsSize (?cs ! i) + 1\<rparr>]"
    using i' by (simp add: growClass_def take_update_swap)
  have reps: "map representativeReplica (usedClasses ?d) = map representativeReplica ?cs"
    unfolding used using i'(1) by (simp add: map_update list_update_same_conv)
  have "class_list_ok equivalent (msgsFromReplicas ?d) (trustSlack ?d) (usedClasses ?d)"
    unfolding used using class_list_grow [OF ok fin r(1) i'(1)] eq i' by simp
  moreover have "covered equivalent (msgsFromReplicas ?d) (usedClasses ?d)"
    if "\<not> hasTrustedSelfClass c"
    using covered_grow [OF _ r(1) class_list_reps [OF ok] reps i'(1)] that cl eq i'(2)
    by (simp add: cert_classes_def)
  ultimately show "cert_classes equivalent st ?d"
    using cl r unfolding cert_classes_def reps by auto
qed

lemma join_peer_ok:
  assumes shape: "cert_shape st c" and sr: "sr \<longrightarrow> st" and cnt: "cert_counts equivalent st sr c"
    and nc: "\<not> complete c"
    and r: "msgsFromReplicas c r = None" "r < numOfReps c" "st \<longrightarrow> r \<noteq> selfId c"
    and i: "i < numOfClasses c"
    and eq: "equivalent (the (msgsFromReplicas c (representativeReplica (msgClasses c ! i)))) x"
  shows "cert_ok equivalent st sr
           (joinClass sr i (growClass i (c\<lparr>msgsFromReplicas := (msgsFromReplicas c)(r \<mapsto> x)\<rparr>)))"
    (is "cert_ok _ _ _ (joinClass sr i ?d)")
proof -
  have cl: "cert_classes equivalent st c" and best: "best_ok c"
    and low: "sizeOfBestClass c \<ge> required c \<longrightarrow> sr \<and> msgsFromReplicas c (selfId c) = None"
    using cnt by (simp_all add: cert_counts_def)
  obtain b where b: "bestClass c = Some b" "b < numOfClasses c"
    "clsSize (msgClasses c ! b) = sizeOfBestClass c"
    using best i by (auto simp: best_ok_def split: option.splits)
  have len: "numOfClasses c \<le> length (msgClasses c)" using shape by (simp add: cert_shape_def)
  have size: "clsSize (msgClasses ?d ! j) = clsSize (msgClasses c ! j) + (if j = i then 1 else 0)"
    if "j < numOfClasses c" for j
    using that len by (simp add: growClass_def nth_list_update)
  have "clsSize (msgClasses c ! j) \<le> sizeOfBestClass c" if "j < numOfClasses c" for j
  proof -
    have "msgClasses c ! j \<in> set (usedClasses c)" using that len by (auto simp: in_set_conv_nth)
    then show ?thesis using best by (simp add: best_ok_def)
  qed
  then have others: "clsSize (msgClasses ?d ! j) \<le> sizeOfBestClass ?d" if "j < numOfClasses ?d" "j \<noteq> i" for j
    using size [of j] that by simp
  have best': "if b = i then clsSize (msgClasses ?d ! i) = sizeOfBestClass ?d + 1
     else clsSize (msgClasses ?d ! b) = sizeOfBestClass ?d"
    using size [OF b(2)] b(3) by (cases "b = i") simp_all
  have low': "sr \<and> msgsFromReplicas ?d (selfId ?d) = None" if "sizeOfBestClass ?d \<ge> required ?d"
    using low r(3) sr that by auto
  show ?thesis
    using growClass_classes [OF shape cl r i eq]
    by (intro joinClass_ok [OF _ sr _ _ _ others _ _ best' low']) (simp_all add: nc i b)
qed

lemma class_positive:
  assumes "class_ok equivalent msgs s cls" "finite (dom msgs)"
  shows "0 < clsSize cls"
proof -
  obtain m where m: "msgs (representativeReplica cls) = Some m"
    "card (supporters equivalent msgs m) \<le> clsSize cls"
    using assms(1) by (auto simp: class_ok_def split: option.splits)
  then have "representativeReplica cls \<in> supporters equivalent msgs m"
    using eq_refl by (auto simp: supporters_def)
  then have "0 < card (supporters equivalent msgs m)" using assms(2) by (auto simp: card_gt_0_iff)
  then show ?thesis using m(2) by simp
qed

lemma best_positive:
  assumes "class_list_ok equivalent msgs s (usedClasses c)" "finite (dom msgs)" "best_ok c"
    "bestClass c = Some b" "numOfClasses c \<le> length (msgClasses c)"
  shows "1 \<le> sizeOfBestClass c"
proof -
  have b: "b < numOfClasses c" "clsSize (msgClasses c ! b) = sizeOfBestClass c"
    using assms(3,4) by (simp_all add: best_ok_def)
  then have "msgClasses c ! b \<in> set (usedClasses c)" using assms(5) by (auto simp: in_set_conv_nth)
  then have "class_ok equivalent msgs s (msgClasses c ! b)" using assms(1) by (simp add: class_list_ok_def)
  from class_positive [OF this assms(2)] show ?thesis using b by simp
qed

lemma open_peer_ok:
  assumes shape: "cert_shape st c" and sr: "sr \<longrightarrow> st" and cnt: "cert_counts equivalent st sr c"
    and nc: "\<not> complete c" and ht: "\<not> hasTrustedSelfClass c"
    and r: "msgsFromReplicas c r = None" "r < numOfReps c" "st \<longrightarrow> r \<noteq> selfId c"
    and new: "\<forall>cls \<in> set (usedClasses c). \<not> equivalent (the (msgsFromReplicas c (representativeReplica cls))) x"
  shows "cert_ok equivalent st sr (openClass r (c\<lparr>msgsFromReplicas := (msgsFromReplicas c)(r \<mapsto> x)\<rparr>))"
    (is "cert_ok _ _ _ (openClass r ?c)")
proof -
  let ?cs = "usedClasses c" and ?n = "numOfClasses c"
  have cl: "cert_classes equivalent st c" and best: "best_ok c"
    and low: "sizeOfBestClass c \<ge> required c \<longrightarrow> sr \<and> msgsFromReplicas c (selfId c) = None"
    using cnt by (simp_all add: cert_counts_def)
  have ok: "class_list_ok equivalent (msgsFromReplicas c) 0 ?cs"
    and cov: "covered equivalent (msgsFromReplicas c) ?cs"
    using cl ht by (simp_all add: cert_classes_def)
  have dom: "dom (msgsFromReplicas c) \<subseteq> {..<numOfReps c} - {r}"
    using shape r by (auto simp: cert_shape_def)
  then have fin: "finite (dom (msgsFromReplicas c))" by (rule finite_subset) simp
  have "length ?cs = card (set (map representativeReplica ?cs))"
    using class_list_distinct [OF ok] by (metis distinct_card length_map)
  also have "\<dots> \<le> card ({..<numOfReps c} - {r})"
    using class_list_reps [OF ok] dom by (intro card_mono) auto
  also have "\<dots> < numOfReps c" using r(2) by simp
  finally have room: "?n < numOfReps c" using shape by (auto simp: cert_shape_def)
  then have len: "?n < length (msgClasses c)" using shape by (simp add: cert_shape_def)
  let ?d = "openClass r ?c" and ?new = "\<lparr>clsSize = 1, representativeReplica = r\<rparr>"
  have sel: "msgsFromReplicas ?d = (msgsFromReplicas c)(r \<mapsto> x)" "numOfClasses ?d = Suc ?n"
    "complete ?d = complete c" "required ?d = required c" "selfId ?d = selfId c"
    "numOfReps ?d = numOfReps c" "hasTrustedSelfClass ?d = hasTrustedSelfClass c"
    "msgClasses ?d = (msgClasses c)[?n := ?new]"
    "bestClass ?d = (if bestClass c = None then Some ?n else bestClass c)"
    "sizeOfBestClass ?d = (if bestClass c = None then 1 else sizeOfBestClass c)"
    using room by (simp_all add: openClass_def Let_def)
  have used: "usedClasses ?d = ?cs @ [?new]"
    using len by (simp add: sel take_Suc_conv_app_nth take_update_swap list_update_append)
  have "cert_shape st ?d" using shape r room by (auto simp: cert_shape_def sel)
  moreover have "cert_classes equivalent st ?d"
    using class_list_open [OF ok fin r(1) cov new] covered_open [OF cov r(1) class_list_reps [OF ok]]
      cl ht r unfolding cert_classes_def used by (auto simp: sel)
  moreover have "best_ok ?d"
  proof (cases "bestClass c")
    case None
    then have "?n = 0" using best by (simp add: best_ok_def)
    then show ?thesis using None len unfolding best_ok_def used by (simp add: sel)
  next
    case (Some b)
    have "1 \<le> sizeOfBestClass c" using best_positive [OF ok fin best Some] shape by (simp add: cert_shape_def)
    then show ?thesis using Some best len unfolding best_ok_def used
      by (auto simp: sel nth_list_update)
  qed
  ultimately show ?thesis using nc low r shape sr
    by (auto simp: cert_ok_def cert_counts_def sel cert_shape_def)
qed

lemma addPeerMsg_ok:
  assumes ok: "cert_ok equivalent st sr c" and sr: "sr \<longrightarrow> st" and nc: "\<not> complete c"
    and r: "msgsFromReplicas c r = None" "r < numOfReps c" "st \<longrightarrow> r \<noteq> selfId c"
  shows "\<exists>c'. addPeerMsg equivalent sr x r (c\<lparr>msgsFromReplicas := (msgsFromReplicas c)(r \<mapsto> x)\<rparr>) = Some c' \<and>
           cert_ok equivalent st sr c'"
    (is "\<exists>c'. addPeerMsg _ _ _ _ ?c = Some c' \<and> _")
proof -
  have shape: "cert_shape st c" and cnt: "cert_counts equivalent st sr c" using ok nc by (simp_all add: cert_ok_def)
  have cl: "cert_classes equivalent st c" using cnt by (simp add: cert_counts_def)
  have lok: "class_list_ok equivalent (msgsFromReplicas c) (trustSlack c) (usedClasses c)"
    using cl by (simp add: cert_classes_def)
  have notr: "\<forall>cls \<in> set (usedClasses c). representativeReplica cls \<noteq> r"
    using class_list_reps [OF lok] r(1) by auto
  have fin: "finite (dom (msgsFromReplicas c))" using shape finite_subset by (auto simp: cert_shape_def)
  show ?thesis
  proof (cases "hasTrustedSelfClass c")
    case True
    then have reps: "map representativeReplica (usedClasses c) = [selfId c]" using cl by (simp add: cert_classes_def)
    then obtain cls where cls: "usedClasses c = [cls]" "representativeReplica cls = selfId c" by auto
    then have n: "0 < numOfClasses c" "msgClasses c ! 0 = cls" "0 < length (msgClasses c)"
      by (metis bot_nat_0.not_eq_extremum list.distinct(1) nth_Cons_0 nth_take take0 take_Nil length_greater_0_conv)+
    obtain m where m: "msgsFromReplicas c (selfId c) = Some m"
      using shape True by (auto simp: cert_shape_def)
    have self: "r \<noteq> selfId c" using m r(1) by auto
    show ?thesis
    proof (cases "equivalent m x")
      case eq: True
      then show ?thesis using join_peer_ok [OF shape sr cnt nc r n(1), of x] True n m cls self
        by (simp add: addPeerMsg_def at_def)
    next
      case False
      have "class_list_ok equivalent ((msgsFromReplicas c)(r \<mapsto> x)) (trustSlack c) (usedClasses c)"
        using lok class_ok_upd [of "msgsFromReplicas c" "trustSlack c" cls r x] fin r(1) False m cls
        by (simp add: class_list_ok_def)
      then have "cert_ok equivalent st sr ?c"
        using ok nc r reps True m self
        by (auto simp: cert_ok_def cert_shape_def cert_counts_def cert_classes_def best_ok_def split: option.splits)
      then show ?thesis using False True n m cls self by (simp add: addPeerMsg_def at_def)
    qed
  next
    case False
    obtain res where res: "findClass equivalent (msgsFromReplicas c) (usedClasses c) 0 x = Some res"
      using findClass_total lok unfolding class_list_ok_def by blast
    show ?thesis
    proof (cases res)
      case None
      then show ?thesis
        using res False findClass_None open_peer_ok [OF shape sr cnt nc False r] notr
        by (auto simp: addPeerMsg_def findClass_upd)
    next
      case (Some i)
      then have "i < numOfClasses c"
        "equivalent (the (msgsFromReplicas c (representativeReplica (msgClasses c ! i)))) x"
        using findClass_Some [of "msgsFromReplicas c" "usedClasses c" 0 x i] res by auto
      then show ?thesis
        using res Some False join_peer_ok [OF shape sr cnt nc r] notr
        by (simp add: addPeerMsg_def findClass_upd)
    qed
  qed
qed

lemma self_class_ok:
  assumes ok: "class_list_ok equivalent msgs 0 classes" and cov: "covered equivalent msgs classes"
    and fin: "finite (dom msgs)" and r: "msgs r = None"
    and res: "findClass equivalent msgs classes 0 x = Some res"
    and size: "k = (case res of None \<Rightarrow> 1 | Some i \<Rightarrow> clsSize (classes ! i) + 2)"
  shows "class_ok equivalent (msgs(r \<mapsto> x)) 1 \<lparr>clsSize = k, representativeReplica = r\<rparr>"
proof (cases res)
  case None
  then have "supporters equivalent msgs x = {}"
    using cov findClass_None res eq_sym eq_trans unfolding covered_def supporters_def ran_def by blast
  then show ?thesis using None size fin r eq_refl by (simp add: class_ok_def card_supporters_upd)
next
  case (Some i)
  let ?m = "the (msgs (representativeReplica (classes ! i)))"
  have i: "i < length classes" and eq: "equivalent ?m x"
    using findClass_Some [of msgs classes 0 x i] res Some by auto
  then have "class_ok equivalent msgs 0 (classes ! i)" using ok by (simp add: class_list_ok_def)
  then have "card (supporters equivalent msgs ?m) = clsSize (classes ! i)"
    by (auto simp: class_ok_def split: option.splits)
  then have "card (supporters equivalent msgs x) = clsSize (classes ! i)"
    using supporters_cong_equivalent [OF eq, of msgs] by simp
  then show ?thesis using Some size fin r eq_refl by (simp add: class_ok_def card_supporters_upd)
qed

lemma addSelfMsg_ok:
  assumes ok: "cert_ok equivalent st sr c" and st: st and nc: "\<not> complete c"
    and r: "msgsFromReplicas c (selfId c) = None" "selfId c < numOfReps c"
  shows "\<exists>c'. addSelfMsg equivalent sr x (c\<lparr>msgsFromReplicas := (msgsFromReplicas c)(selfId c \<mapsto> x)\<rparr>) = Some c' \<and>
           cert_ok equivalent st sr c'"
    (is "\<exists>c'. addSelfMsg _ _ _ ?c = Some c' \<and> _")
proof -
  let ?ms = "msgsFromReplicas c" and ?cs = "usedClasses c"
  have shape: "cert_shape st c" and cnt: "cert_counts equivalent st sr c" using ok nc by (simp_all add: cert_ok_def)
  have ht: "\<not> hasTrustedSelfClass c" using shape r(1) by (auto simp: cert_shape_def)
  have lok: "class_list_ok equivalent ?ms 0 ?cs" and cov: "covered equivalent ?ms ?cs"
    using cnt ht by (simp_all add: cert_counts_def cert_classes_def)
  have fin: "finite (dom ?ms)" using shape finite_subset by (auto simp: cert_shape_def)
  have notr: "\<forall>cls \<in> set ?cs. representativeReplica cls \<noteq> selfId c"
    using class_list_reps [OF lok] r(1) by auto
  obtain res where res: "findClass equivalent ?ms ?cs 0 x = Some res"
    using findClass_total lok unfolding class_list_ok_def by blast
  have bnd: "i < numOfClasses c" "i < length (msgClasses c)" if "res = Some i" for i
    using findClass_Some [of ?ms ?cs 0 x i] res that by auto
  let ?size = "selfClassSize c res"
  define d where "d = ?c\<lparr>msgClasses := (zeroFirstClasses (numOfClasses c)
      (case res of None \<Rightarrow> msgClasses c | Some i \<Rightarrow> msgClasses (growClass i c)))[0 :=
        \<lparr>clsSize = ?size, representativeReplica = selfId c\<rparr>],
      numOfClasses := 1, bestClass := Some 0, sizeOfBestClass := ?size, hasTrustedSelfClass := True\<rparr>"
  have add: "addSelfMsg equivalent sr x ?c =
      Some (if ?size \<ge> required c then tryToMarkComplete sr d else d)"
    using res notr bnd
    by (cases res) (simp_all add: addSelfMsg_def findClass_upd d_def selfClassSize_def Let_def growClass_def)
  have len: "length (msgClasses d) = numOfReps c" "0 < numOfReps c"
    using shape r(2) by (auto simp: d_def zeroFirstClasses_def cert_shape_def split: option.splits)
  have hd0: "msgClasses d ! 0 = \<lparr>clsSize = ?size, representativeReplica = selfId c\<rparr>"
    using len by (simp add: d_def)
  then have hd: "usedClasses d = [\<lparr>clsSize = ?size, representativeReplica = selfId c\<rparr>]"
    using len by (cases "msgClasses d") (simp_all add: d_def)
  have sel: "msgsFromReplicas d = ?ms(selfId c \<mapsto> x)" "numOfClasses d = 1" "complete d = complete c"
    "required d = required c" "selfId d = selfId c" "numOfReps d = numOfReps c" "hasTrustedSelfClass d"
    "bestClass d = Some 0" "sizeOfBestClass d = ?size" by (simp_all add: d_def)
  have "?size = (case res of None \<Rightarrow> 1 | Some i \<Rightarrow> clsSize (?cs ! i) + 2)"
    using bnd by (auto simp: selfClassSize_def split: option.splits)
  from self_class_ok [OF lok cov fin r(1) res this]
  have cl: "cert_classes equivalent st d"
    unfolding cert_classes_def hd by (simp add: sel class_list_ok_def)
  have shape': "cert_shape st d" using shape r len st by (auto simp: cert_shape_def sel)
  have best: "best_ok d" unfolding best_ok_def hd by (simp add: sel hd0)
  have "cert_ok equivalent st sr (tryToMarkComplete sr d)" if "?size \<ge> required c"
    using tryToMarkComplete_ok [OF shape' _ cl best, of sr 0] st nc that by (simp add: sel hd0)
  moreover have "cert_ok equivalent st sr d" if "\<not> ?size \<ge> required c"
    using that shape' cl best nc by (simp add: cert_ok_def cert_counts_def sel)
  ultimately show ?thesis unfolding add by auto
qed

lemma cert_addMsg_ok:
  assumes ok: "cert_ok equivalent st sr c" and sr: "sr \<longrightarrow> st" and r: "r < numOfReps c"
  shows "\<exists>b c'. cert_addMsg equivalent st sr x r c = Some (b, c') \<and> cert_ok equivalent st sr c'"
proof (cases "msgsFromReplicas c r")
  case (Some m)
  then show ?thesis using ok by (intro exI [of _ False] exI [of _ c]) (simp add: cert_addMsg_def)
next
  case None
  let ?c = "c\<lparr>msgsFromReplicas := (msgsFromReplicas c)(r \<mapsto> x)\<rparr>"
  have fin: "finite (dom (msgsFromReplicas c))"
    using ok finite_subset by (auto simp: cert_ok_def cert_shape_def)
  have "cert_ok equivalent st sr ?c" if cc: "complete c"
  proof -
    have "cert_shape st ?c" using ok r by (auto simp: cert_ok_def cert_shape_def)
    moreover obtain q where q: "q \<in> dom (msgsFromReplicas c)" "sr \<longrightarrow> q = selfId c"
      "required c \<le> card (supporters equivalent (msgsFromReplicas c) (the (msgsFromReplicas c q))) + trustSlack c"
      using ok cc by (auto simp: cert_ok_def cert_quorum_def)
    then have "q \<noteq> r" using None by auto
    then have "cert_quorum equivalent sr ?c"
      unfolding cert_quorum_def
      using q card_supporters_upd [OF fin None, of x "the (msgsFromReplicas c q)"]
      by (intro bexI [of _ q]) auto
    ultimately show ?thesis using cc by (simp add: cert_ok_def)
  qed
  then show ?thesis
    using None addSelfMsg_ok [OF ok, of x] addPeerMsg_ok [OF ok sr _ None r, of x] r
    by (cases "complete c"; cases "st \<and> r = selfId c") (auto simp: cert_addMsg_def)
qed

lemma addMsgs_ok:
  assumes "cert_ok equivalent st sr c" "sr \<longrightarrow> st" "\<forall>(r, m) \<in> set ms. r < numOfReps c"
  shows "\<exists>c'. addMsgs equivalent st sr ms c = Some c' \<and> cert_ok equivalent st sr c'"
  using assms
proof (induction ms arbitrary: c)
  case (Cons p ms)
  obtain r m where p: "p = (r, m)" by (cases p)
  then obtain b d where d: "cert_addMsg equivalent st sr m r c = Some (b, d)" "cert_ok equivalent st sr d"
    using cert_addMsg_ok [OF Cons.prems(1,2), of r m] Cons.prems(3) by auto
  moreover have "numOfReps d = numOfReps c" using cert_addMsg_config [OF d(1)] by (simp add: same_config_def split: if_splits)
  ultimately show ?case using Cons p by auto
qed simp

text \<open>What the invariant says of a certificate: completion is backed by enough equivalent messages,
  and enough equivalent messages complete it.\<close>

lemma complete_quorum:
  assumes "cert_ok equivalent st sr c" "complete c"
  shows "\<exists>r \<in> dom (msgsFromReplicas c).
           required c \<le> card (supporters equivalent (msgsFromReplicas c) (the (msgsFromReplicas c r)))
                        + trustSlack c \<and> (sr \<longrightarrow> r = selfId c)"
  using assms by (simp add: cert_ok_def cert_quorum_def)

lemma untrusted_slack:
  "cert_ok equivalent False sr c \<Longrightarrow> \<not> hasTrustedSelfClass c"
  by (simp add: cert_ok_def cert_shape_def)

lemma quorum_completes:
  assumes ok: "cert_ok equivalent st sr c" and sr: "sr \<longrightarrow> st" and m: "msgsFromReplicas c r = Some m"
    and self: "st \<Longrightarrow> r = selfId c"
    and q: "required c \<le> card (supporters equivalent (msgsFromReplicas c) m)"
  shows "complete c"
proof (rule ccontr)
  assume nc: "\<not> complete c"
  then have cnt: "cert_counts equivalent st sr c" using ok by (simp add: cert_ok_def)
  have "\<exists>cls \<in> set (usedClasses c). equivalent (the (msgsFromReplicas c (representativeReplica cls))) m"
  proof (cases "hasTrustedSelfClass c")
    case True
    then have "map representativeReplica (usedClasses c) = [selfId c]" "st"
      using cnt ok by (simp_all add: cert_counts_def cert_classes_def cert_ok_def cert_shape_def)
    then show ?thesis using m self eq_refl by auto
  next
    case False
    then show ?thesis using cnt m by (auto simp: cert_counts_def cert_classes_def covered_def ran_def)
  qed
  then obtain cls where cls: "cls \<in> set (usedClasses c)"
    and eq: "equivalent (the (msgsFromReplicas c (representativeReplica cls))) m" by blast
  then have "class_ok equivalent (msgsFromReplicas c) (trustSlack c) cls"
    using cnt by (simp add: cert_counts_def cert_classes_def class_list_ok_def)
  then have "card (supporters equivalent (msgsFromReplicas c) m) \<le> clsSize cls"
    using supporters_cong_equivalent [OF eq] by (auto simp: class_ok_def split: option.splits)
  also have "\<dots> \<le> sizeOfBestClass c" using cnt cls by (auto simp: cert_counts_def best_ok_def)
  finally have "required c \<le> sizeOfBestClass c" using q by simp
  then have "sr" "msgsFromReplicas c (selfId c) = None" using cnt by (simp_all add: cert_counts_def)
  then show False using m self sr by simp
qed

lemma newMsgsCertificate_ok:
  assumes "2 \<le> q"
  shows "cert_ok equivalent st sr (newMsgsCertificate n f q me)"
  using assms by (simp add: newMsgsCertificate_def cert_ok_def cert_shape_def cert_counts_def cert_classes_def
      class_list_ok_def covered_def best_ok_def)

lemma cert_resetAndFree_ok:
  assumes shape: "cert_shape st c" and "complete c \<longrightarrow> msgsFromReplicas c \<noteq> Map.empty"
    and "\<not> complete c \<longrightarrow> cert_counts equivalent st sr c"
  shows "cert_ok equivalent st sr (cert_resetAndFree c) \<and> \<not> complete (cert_resetAndFree c) \<and>
         msgsFromReplicas (cert_resetAndFree c) = Map.empty"
proof (cases "msgsFromReplicas c = Map.empty")
  case True
  then have "cert_resetAndFree c = c" "\<not> complete c"
    using assms by (simp_all add: cert_resetAndFree_def cert_isEmpty_def)
  then show ?thesis using True assms by (simp add: cert_ok_def)
next
  case False
  then show ?thesis using shape
    by (simp add: cert_resetAndFree_def cert_isEmpty_def cert_ok_def cert_shape_def cert_counts_def
        cert_classes_def class_list_ok_def covered_def best_ok_def zeroFirstClasses_def Let_def)
qed

end

end
