(* ===== verification/Message_Base.thy ===== *)
theory Message_Base
  imports Engine_Prelude
begin

text \<open>
  \<^verbatim>\<open>MessageBase.cpp\<close>, \<^verbatim>\<open>MsgCode.hpp\<close> and the packed structures messages are made of. A message
  owns a block of bytes; a packed header is read and written with \<open>rd\<close> and \<open>wr\<close>, which stop
  (\<open>None\<close>) when they leave the block, so a total operation is one without an out-of-bounds access.
\<close>

section \<open>Access to blocks of bytes\<close>

definition rd :: "nat \<Rightarrow> nat \<Rightarrow> byte list \<Rightarrow> byte list option" where
  "rd off n body = (if off + n \<le> length body then Some (take n (drop off body)) else None)"

definition wr :: "nat \<Rightarrow> byte list \<Rightarrow> byte list \<Rightarrow> byte list option" where
  "wr off bs body =
     (if off + length bs \<le> length body
      then Some (take off body @ bs @ drop (off + length bs) body) else None)"

definition rd_nat :: "nat \<Rightarrow> nat \<Rightarrow> byte list \<Rightarrow> nat option" where
  "rd_nat off n body = map_option le_val (rd off n body)"

definition rd_i64 :: "nat \<Rightarrow> byte list \<Rightarrow> int option" where
  "rd_i64 off body = map_option i64_of (rd_nat off 8 body)"

lemma rd_eq_Some: "rd off n body = Some bs \<longleftrightarrow> off + n \<le> length body \<and> bs = take n (drop off body)"
  by (auto simp: rd_def)

lemma rd_eq_None: "rd off n body = None \<longleftrightarrow> length body < off + n"
  by (auto simp: rd_def)

lemma wr_eq_None: "wr off bs body = None \<longleftrightarrow> length body < off + length bs"
  by (auto simp: wr_def)

lemma wr_total: "off + length bs \<le> length body \<Longrightarrow> \<exists>body'. wr off bs body = Some body'"
  by (auto simp: wr_def)

lemma length_wr: "wr off bs body = Some body' \<Longrightarrow> length body' = length body"
  by (auto simp: wr_def split: if_splits)

lemma wr_bound: "wr off bs body = Some body' \<Longrightarrow> off + length bs \<le> length body"
  by (auto simp: wr_def split: if_splits)

lemma rd_wr_same: "wr off bs body = Some body' \<Longrightarrow> rd off (length bs) body' = Some bs"
  by (auto simp: wr_def rd_def split: if_splits)

lemma rd_wr_after:
  assumes "wr off bs body = Some body'" "off + length bs \<le> p"
  shows "rd p n body' = rd p n body"
proof -
  have "drop p body' = drop p body"
    using assms by (auto simp: wr_def drop_take split: if_splits)
  then show ?thesis using length_wr [OF assms(1)] by (simp add: rd_def)
qed

lemma rd_wr_before:
  assumes "wr off bs body = Some body'" "p + n \<le> off"
  shows "rd p n body' = rd p n body"
proof -
  have "take off body' = take off body"
    using assms by (auto simp: wr_def split: if_splits)
  then have "take n (drop p (take off body')) = take n (drop p (take off body))" by simp
  moreover have "n \<le> off - p" using assms(2) by simp
  ultimately have "take n (drop p body') = take n (drop p body)" by (simp add: drop_take min_absorb1)
  then show ?thesis using length_wr [OF assms(1)] by (simp add: rd_def)
qed

lemma length_rd: "rd off n body = Some bs \<Longrightarrow> length bs = n"
  by (auto simp: rd_def split: if_splits)

lemma rd_nat_bound: "rd_nat off n body = Some v \<Longrightarrow> v < 256 ^ n"
  using le_val_bound length_rd by (auto simp: rd_nat_def) metis

lemma rd_take: "off + n \<le> m \<Longrightarrow> m \<le> length body \<Longrightarrow> rd off n (take m body) = rd off n body"
  by (simp add: rd_def drop_take min_def)

text \<open>The assignments of a constructor to the fields of a packed header, in order.\<close>

fun wrs :: "(nat \<times> byte list) list \<Rightarrow> byte list \<Rightarrow> byte list option" where
  "wrs [] body = Some body"
| "wrs ((off, bs) # fs) body = do { body \<leftarrow> wr off bs body; wrs fs body }"

definition apart :: "nat \<times> byte list \<Rightarrow> nat \<times> byte list \<Rightarrow> bool" where
  [simp]: "apart f g \<longleftrightarrow> fst f + length (snd f) \<le> fst g \<or> fst g + length (snd g) \<le> fst f"

lemma wrs_total:
  assumes "\<forall>(off, bs) \<in> set fs. off + length bs \<le> length body"
  shows "\<exists>body'. wrs fs body = Some body' \<and> length body' = length body"
  using assms
proof (induction fs arbitrary: body)
  case (Cons f fs)
  obtain off bs where f: "f = (off, bs)" by (cases f)
  then obtain b where b: "wr off bs body = Some b" using Cons.prems wr_total by fastforce
  moreover have "\<exists>body'. wrs fs b = Some body' \<and> length body' = length b"
    using Cons.prems length_wr [OF b] by (intro Cons.IH) auto
  ultimately show ?case using f length_wr [OF b] by auto
qed simp

lemma length_wrs: "wrs fs body = Some body' \<Longrightarrow> length body' = length body"
proof (induction fs arbitrary: body)
  case (Cons f fs)
  then show ?case by (cases f) (auto simp: Option.bind_eq_Some_conv length_wr)
qed simp

lemma rd_wrs_other:
  assumes "wrs fs body = Some body'" "\<forall>(off, bs) \<in> set fs. p + n \<le> off \<or> off + length bs \<le> p"
  shows "rd p n body' = rd p n body"
  using assms
proof (induction fs arbitrary: body)
  case (Cons f fs)
  obtain off bs where f: "f = (off, bs)" by (cases f)
  then obtain b where b: "wr off bs body = Some b" "wrs fs b = Some body'"
    using Cons.prems by (auto simp: Option.bind_eq_Some_conv)
  then have "rd p n b = rd p n body"
    using Cons.prems(2) f rd_wr_before [OF b(1)] rd_wr_after [OF b(1)] by auto
  then show ?case using Cons.IH [OF b(2)] Cons.prems(2) by simp
qed simp

lemma rd_wrs:
  assumes "wrs fs body = Some body'" "(off, bs) \<in> set fs" "sorted_wrt apart fs"
  shows "rd off (length bs) body' = Some bs"
  using assms
proof (induction fs arbitrary: body)
  case (Cons f fs)
  obtain off1 bs1 where f: "f = (off1, bs1)" by (cases f)
  then obtain b where b: "wr off1 bs1 body = Some b" "wrs fs b = Some body'"
    using Cons.prems by (auto simp: Option.bind_eq_Some_conv)
  show ?case
  proof (cases "(off, bs) = f")
    case True
    have "rd off (length bs) body' = rd off (length bs) b"
      using Cons.prems(3) True by (intro rd_wrs_other [OF b(2)]) auto
    then show ?thesis using rd_wr_same [OF b(1)] True f by simp
  next
    case False
    then show ?thesis using Cons.IH [OF b(2)] Cons.prems by simp
  qed
qed simp

declare wrs.simps [simp del]

section \<open>Message codes\<close>

definition MsgCode_Checkpoint :: nat where [simp]: "MsgCode_Checkpoint = 100"
definition MsgCode_CommitPartial :: nat where [simp]: "MsgCode_CommitPartial = 101"
definition MsgCode_CommitFull :: nat where [simp]: "MsgCode_CommitFull = 102"
definition MsgCode_FullCommitProof :: nat where [simp]: "MsgCode_FullCommitProof = 103"
definition MsgCode_FullExecProof :: nat where [simp]: "MsgCode_FullExecProof = 104"
definition MsgCode_NewView :: nat where [simp]: "MsgCode_NewView = 105"
definition MsgCode_PrePrepare :: nat where [simp]: "MsgCode_PrePrepare = 106"
definition MsgCode_PartialCommitProof :: nat where [simp]: "MsgCode_PartialCommitProof = 107"
definition MsgCode_PartialExecProof :: nat where [simp]: "MsgCode_PartialExecProof = 108"
definition MsgCode_PreparePartial :: nat where [simp]: "MsgCode_PreparePartial = 109"
definition MsgCode_PrepareFull :: nat where [simp]: "MsgCode_PrepareFull = 110"
definition MsgCode_ReqMissingData :: nat where [simp]: "MsgCode_ReqMissingData = 111"
definition MsgCode_SimpleAck :: nat where [simp]: "MsgCode_SimpleAck = 112"
definition MsgCode_StartSlowCommit :: nat where [simp]: "MsgCode_StartSlowCommit = 113"
definition MsgCode_ViewChange :: nat where [simp]: "MsgCode_ViewChange = 114"
definition MsgCode_ReplicaStatus :: nat where [simp]: "MsgCode_ReplicaStatus = 115"
definition MsgCode_StateTransfer :: nat where [simp]: "MsgCode_StateTransfer = 116"
definition MsgCode_Request :: nat where [simp]: "MsgCode_Request = 700"
definition MsgCode_Reply :: nat where [simp]: "MsgCode_Reply = 800"

section \<open>Messages\<close>

record MessageBase =
  msgBody :: "byte list"
  msgSize :: nat
  storageSize :: nat
  sender :: NodeIdType
  owner :: bool

definition wf_msg :: "MessageBase \<Rightarrow> bool" where
  "wf_msg m \<longleftrightarrow> storageSize m = length (msgBody m) \<and> msgSize m \<le> storageSize m \<and> sender m < 2 ^ 16"

definition newMessage :: "NodeIdType \<Rightarrow> nat \<Rightarrow> nat \<Rightarrow> MessageBase option" where
  "newMessage sndr type len = do {
     Assert (len > 0);
     body \<leftarrow> wr 0 (le_bytes 2 type) (replicate len 0);
     Some \<lparr>msgBody = body, msgSize = len, storageSize = len, sender = sndr, owner = True\<rparr>
   }"

definition messageFromBody :: "NodeIdType \<Rightarrow> byte list \<Rightarrow> nat \<Rightarrow> bool \<Rightarrow> MessageBase" where
  "messageFromBody sndr body len ownerOfStorage =
     \<lparr>msgBody = body, msgSize = len, storageSize = len, sender = sndr, owner = ownerOfStorage\<rparr>"

definition msgType :: "MessageBase \<Rightarrow> nat option" where
  "msgType m = rd_nat 0 2 (msgBody m)"

definition setMsgSize :: "MessageBase \<Rightarrow> nat \<Rightarrow> MessageBase option" where
  "setMsgSize m len = do {
     Assert (len \<le> storageSize m);
     body \<leftarrow> (if storageSize m > len
               then wr len (replicate (storageSize m - len) 0) (msgBody m)
               else Some (msgBody m));
     Some (m\<lparr>msgBody := body, msgSize := len\<rparr>)
   }"

definition shrinkToFit :: "MessageBase \<Rightarrow> MessageBase option" where
  "shrinkToFit m = do {
     Assert (owner m);
     Some (m\<lparr>msgBody := take (msgSize m) (msgBody m), storageSize := msgSize m\<rparr>)
   }"

definition cloneObjAndMsg :: "MessageBase \<Rightarrow> MessageBase option" where
  "cloneObjAndMsg m = do {
     Assert (owner m);
     Assert (msgSize m > 0);
     body \<leftarrow> rd 0 (msgSize m) (msgBody m);
     Some (messageFromBody (sender m) body (msgSize m) True)
   }"

definition sizeofRawHeaderOfObjAndMsg :: nat where
  [simp]: "sizeofRawHeaderOfObjAndMsg = 10"

definition magicNumOfRawFormat :: nat where
  [simp]: "magicNumOfRawFormat = 1431668091"

definition sizeNeededForObjAndMsgInLocalBuffer :: "MessageBase \<Rightarrow> nat option" where
  "sizeNeededForObjAndMsgInLocalBuffer m = do {
     Assert (owner m);
     Assert (msgSize m > 0);
     Some (sizeofRawHeaderOfObjAndMsg + msgSize m)
   }"

definition writeObjAndMsgToLocalBuffer ::
  "MessageBase \<Rightarrow> byte list \<Rightarrow> (byte list \<times> nat) option" where
  "writeObjAndMsgToLocalBuffer m buffer = do {
     Assert (owner m);
     Assert (msgSize m > 0);
     let sizeNeeded = sizeofRawHeaderOfObjAndMsg + msgSize m;
     Assert (sizeNeeded \<le> length buffer);
     buffer \<leftarrow> wr 0 (le_bytes 4 magicNumOfRawFormat) buffer;
     buffer \<leftarrow> wr 4 (le_bytes 4 (msgSize m)) buffer;
     buffer \<leftarrow> wr 8 (le_bytes 2 (sender m)) buffer;
     body \<leftarrow> rd 0 (msgSize m) (msgBody m);
     buffer \<leftarrow> wr sizeofRawHeaderOfObjAndMsg body buffer;
     Some (buffer, sizeNeeded)
   }"

text \<open>The result is the message, or a null pointer (the inner \<open>None\<close>), and the number of bytes
  consumed.\<close>

definition createObjAndMsgFromLocalBuffer :: "byte list \<Rightarrow> (MessageBase option \<times> nat) option" where
  "createObjAndMsgFromLocalBuffer buffer =
     (if length buffer \<le> sizeofRawHeaderOfObjAndMsg then Some (None, 0)
      else do {
        magicNum \<leftarrow> rd_nat 0 4 buffer;
        len \<leftarrow> rd_nat 4 4 buffer;
        sndr \<leftarrow> rd_nat 8 2 buffer;
        if magicNum \<noteq> magicNumOfRawFormat then Some (None, 0)
        else if len = 0 then Some (None, 0)
        else if len > maxExternalMessageSize then Some (None, 0)
        else if len + sizeofRawHeaderOfObjAndMsg > length buffer then Some (None, 0)
        else do {
          body \<leftarrow> rd sizeofRawHeaderOfObjAndMsg len buffer;
          Some (Some (messageFromBody sndr body len True), len + sizeofRawHeaderOfObjAndMsg)
        }
      })"

section \<open>Well-formedness and the local-buffer format\<close>

lemma wf_newMessage:
  "newMessage sndr type len = Some m \<Longrightarrow> sndr < 2 ^ 16 \<Longrightarrow>
     wf_msg m \<and> msgSize m = len \<and> sender m = sndr \<and> owner m"
  by (auto simp: newMessage_def wf_msg_def Option.bind_eq_Some_conv dest: length_wr)

lemma newMessage_type:
  assumes "newMessage sndr type len = Some m" "type < 2 ^ 16"
  shows "msgType m = Some type"
  using assms rd_wr_same [of 0 "le_bytes 2 type" "replicate len 0"]
  by (auto simp: newMessage_def msgType_def rd_nat_def Option.bind_eq_Some_conv le_val_le_bytes)

text \<open>A constructor that allocates a message and fills in disjoint fields behind the type.\<close>

lemma new_packed:
  assumes "sndr < 2 ^ 16" "type < 2 ^ 16" "2 \<le> len"
    and "\<forall>(off, bs) \<in> set fs. 2 \<le> off \<and> off + length bs \<le> len" and "sorted_wrt apart fs"
  shows "\<exists>m b. newMessage sndr type len = Some m \<and> wrs fs (msgBody m) = Some b \<and> length b = len \<and>
     wf_msg (m\<lparr>msgBody := b\<rparr>) \<and> msgSize m = len \<and> storageSize m = len \<and> sender m = sndr \<and> owner m \<and>
     rd_nat 0 2 b = Some type \<and> (\<forall>(off, bs) \<in> set fs. rd off (length bs) b = Some bs)"
proof -
  obtain m where m: "newMessage sndr type len = Some m"
    using assms(3) by (auto simp: newMessage_def wr_def)
  have wf: "wf_msg m" "msgSize m = len" "sender m = sndr" "owner m" using wf_newMessage [OF m assms(1)] by auto
  have len: "length (msgBody m) = len" "storageSize m = len"
    using m by (auto simp: newMessage_def Option.bind_eq_Some_conv dest: length_wr)
  obtain b where b: "wrs fs (msgBody m) = Some b" "length b = len"
    using wrs_total [of fs "msgBody m"] assms(4) len by fastforce
  have "rd 0 2 b = rd 0 2 (msgBody m)" using assms(4) by (intro rd_wrs_other [OF b(1)]) fastforce
  then have "rd_nat 0 2 b = Some type" using newMessage_type [OF m assms(2)] by (simp add: msgType_def rd_nat_def)
  moreover have "\<forall>(off, bs) \<in> set fs. rd off (length bs) b = Some bs" using rd_wrs [OF b(1) _ assms(5)] by auto
  ultimately show ?thesis using m b wf len by (auto simp: wf_msg_def)
qed

lemma wf_setMsgSize:
  assumes "wf_msg m" "setMsgSize m len = Some m'"
  shows "wf_msg m' \<and> msgSize m' = len \<and> sender m' = sender m \<and> owner m' = owner m"
  using assms by (auto simp: setMsgSize_def wf_msg_def Option.bind_eq_Some_conv split: if_splits dest: length_wr)

lemma setMsgSize_total:
  assumes "wf_msg m" "len \<le> storageSize m"
  shows "\<exists>m'. setMsgSize m len = Some m' \<and> take len (msgBody m') = take len (msgBody m)"
  using assms by (auto simp: setMsgSize_def wf_msg_def wr_def)

lemma wf_shrinkToFit:
  assumes "wf_msg m" "shrinkToFit m = Some m'"
  shows "wf_msg m' \<and> msgSize m' = msgSize m \<and> sender m' = sender m"
  using assms by (auto simp: shrinkToFit_def wf_msg_def)

lemma write_then_reads:
  assumes "wf_msg m" "owner m" "0 < msgSize m" "msgSize m < 2 ^ 32" "10 + msgSize m \<le> length buffer"
  shows "\<exists>b. writeObjAndMsgToLocalBuffer m buffer = Some (b, 10 + msgSize m) \<and> length b = length buffer \<and>
     rd_nat 0 4 b = Some magicNumOfRawFormat \<and> rd_nat 4 4 b = Some (msgSize m) \<and>
     rd_nat 8 2 b = Some (sender m) \<and> rd 10 (msgSize m) b = Some (take (msgSize m) (msgBody m))"
proof -
  obtain b1 where b1: "wr 0 (le_bytes 4 magicNumOfRawFormat) buffer = Some b1"
    using wr_total assms(5) by fastforce
  obtain b2 where b2: "wr 4 (le_bytes 4 (msgSize m)) b1 = Some b2"
    using wr_total [of 4 "le_bytes 4 (msgSize m)" b1] assms(5) length_wr [OF b1] by auto
  obtain b3 where b3: "wr 8 (le_bytes 2 (sender m)) b2 = Some b3"
    using wr_total [of 8 "le_bytes 2 (sender m)" b2] assms(5) length_wr [OF b1] length_wr [OF b2] by auto
  have body: "rd 0 (msgSize m) (msgBody m) = Some (take (msgSize m) (msgBody m))"
    "length (take (msgSize m) (msgBody m)) = msgSize m"
    using assms(1) by (simp_all add: rd_def wf_msg_def)
  obtain b4 where b4: "wr 10 (take (msgSize m) (msgBody m)) b3 = Some b4"
    using wr_total [of 10 "take (msgSize m) (msgBody m)" b3] assms(5) body(2)
      length_wr [OF b1] length_wr [OF b2] length_wr [OF b3] by auto
  have "rd 0 4 b4 = Some (le_bytes 4 magicNumOfRawFormat)"
    using rd_wr_same [OF b1] rd_wr_before [OF b2, of 0 4] rd_wr_before [OF b3, of 0 4]
      rd_wr_before [OF b4, of 0 4] by simp
  moreover have "rd 4 4 b4 = Some (le_bytes 4 (msgSize m))"
    using rd_wr_same [OF b2] rd_wr_before [OF b3, of 4 4] rd_wr_before [OF b4, of 4 4] by simp
  moreover have "rd 8 2 b4 = Some (le_bytes 2 (sender m))"
    using rd_wr_same [OF b3] rd_wr_before [OF b4, of 8 2] by simp
  moreover have "rd 10 (msgSize m) b4 = Some (take (msgSize m) (msgBody m))"
    using rd_wr_same [OF b4] body(2) by simp
  moreover have "writeObjAndMsgToLocalBuffer m buffer = Some (b4, 10 + msgSize m)"
    using assms b1 b2 b3 b4 body by (simp add: writeObjAndMsgToLocalBuffer_def Let_def)
  moreover have "length b4 = length buffer"
    using length_wr [OF b1] length_wr [OF b2] length_wr [OF b3] length_wr [OF b4] by simp
  ultimately show ?thesis
    using assms(1,4) by (intro exI [of _ b4]) (simp add: rd_nat_def le_val_le_bytes wf_msg_def)
qed


definition sample_msg :: MessageBase where
  "sample_msg = messageFromBody 3 [100, 0, 7] 3 True"


text \<open>reading a message from a local buffer never leaves the buffer, whatever the buffer holds,
  and what it returns is a well-formed message within the size limit of external messages, taken
  from the bytes it reports as consumed.\<close>

theorem create_from_any_buffer:
  "\<exists>r n. createObjAndMsgFromLocalBuffer buffer = Some (r, n) \<and> n \<le> length buffer \<and>
     (case r of
        None \<Rightarrow> n = 0
      | Some m \<Rightarrow> wf_msg m \<and> 0 < msgSize m \<and> msgSize m \<le> maxExternalMessageSize \<and>
          n = sizeofRawHeaderOfObjAndMsg + msgSize m \<and>
          msgBody m = take (msgSize m) (drop sizeofRawHeaderOfObjAndMsg buffer))"
proof (cases "length buffer \<le> 10")
  case True
  then show ?thesis by (simp add: createObjAndMsgFromLocalBuffer_def)
next
  case False
  then obtain a s r where rd: "rd_nat 0 4 buffer = Some a" "rd_nat 4 4 buffer = Some s"
    "rd_nat 8 2 buffer = Some r" by (auto simp: rd_nat_def rd_def)
  then show ?thesis
    using False rd_nat_bound [OF rd(3)]
    by (simp add: createObjAndMsgFromLocalBuffer_def rd_def wf_msg_def messageFromBody_def)
qed

end
