(* ===== verification/Digests.thy ===== *)
theory Digests
  imports Engine_Prelude
begin

text \<open>
  \<^verbatim>\<open>Digest.hpp\<close>: a digest is a block of \<open>DIGEST_SIZE\<close> bytes. \<open>calcCombination\<close> mixes a view and
  a sequence number into the digest of a batch; the result is what the threshold signatures of the
  commit phases sign. The hash functions themselves are an external library.
\<close>

unbundle bit_operations_syntax

section \<open>Digests and their combination\<close>

type_synonym Digest = "byte list"

definition DIGEST_SIZE :: nat where
  [simp]: "DIGEST_SIZE = 32"

definition zeroDigest :: Digest where
  "zeroDigest = replicate DIGEST_SIZE 0"

definition isZero :: "Digest \<Rightarrow> bool" where
  "isZero d \<longleftrightarrow> (\<forall>b \<in> set d. b = 0)"

text \<open>The digest seen as an array of \<open>uint64_t\<close>.\<close>

definition lane :: "Digest \<Rightarrow> nat \<Rightarrow> 64 word" where
  "lane d i = word_of_nat (le_val (take 8 (drop (8 * i) d)))"

definition setLane :: "Digest \<Rightarrow> nat \<Rightarrow> 64 word \<Rightarrow> Digest" where
  "setLane d i w = take (8 * i) d @ le_bytes 8 (unat w) @ drop (8 * i + 8) d"

definition numLanes :: nat where
  [simp]: "numLanes = DIGEST_SIZE div 8 div 2"

definition locationA :: "Digest \<Rightarrow> nat" where
  "locationA d = unat (lane d 0) mod numLanes"

definition locationB :: "Digest \<Rightarrow> nat" where
  "locationB d = unat (drop_bit 8 (lane d 0)) mod numLanes"

definition calcCombination :: "Digest \<Rightarrow> int \<Rightarrow> int \<Rightarrow> Digest" where
  "calcCombination inDigest inDataA inDataB =
     (let a = locationA inDigest; b = locationB inDigest;
          d = setLane inDigest a (lane inDigest a XOR word_of_int inDataA)
      in setLane d b (lane d b XOR word_of_int inDataB))"

section \<open>What the combination determines\<close>

lemma length_setLane: "length d = 32 \<Longrightarrow> i < 4 \<Longrightarrow> length (setLane d i w) = 32"
  by (simp add: setLane_def)

lemma lane_setLane_same:
  assumes "length d = 32" "i < 4"
  shows "lane (setLane d i w) i = w"
proof -
  have "le_val (le_bytes 8 (unat w)) = unat w"
    using unsigned_less [of w] by (intro le_val_le_bytes_id) simp
  then show ?thesis using assms by (simp add: lane_def setLane_def)
qed

lemma lane_setLane_other:
  assumes "length d = 32" "i < 2" "j < 2" "i \<noteq> j"
  shows "lane (setLane d i w) j = lane d j"
proof -
  consider "i = 0" "j = 1" | "i = 1" "j = 0" using assms by linarith
  then show ?thesis
    using assms(1) by cases (simp_all add: lane_def setLane_def)
qed

lemma setLane_eq_iff:
  assumes "length d = 32" "i < 4"
  shows "setLane d i v = setLane d i w \<longleftrightarrow> v = w"
  using lane_setLane_same [OF assms, of v] lane_setLane_same [OF assms, of w] by metis

lemma setLane_setLane:
  assumes "length d = 32" "i < 4"
  shows "setLane (setLane d i v) i w = setLane d i w"
  using assms by (simp add: setLane_def)

lemma locations_less [simp]: "locationA d < 2" "locationB d < 2"
  by (simp_all add: locationA_def locationB_def)

lemma length_calcCombination: "length d = DIGEST_SIZE \<Longrightarrow> length (calcCombination d a b) = DIGEST_SIZE"
  using less_trans [OF locations_less(1), of 4 d] less_trans [OF locations_less(2), of 4 d]
  by (simp add: calcCombination_def Let_def length_setLane)

lemma xor_cancel_left: "v XOR x = v XOR y \<longleftrightarrow> x = y" for v x y :: "64 word"
proof
  assume "v XOR x = v XOR y"
  then have "v XOR (v XOR x) = v XOR (v XOR y)" by simp
  then show "x = y" by (simp flip: xor.assoc)
qed simp

lemma combination_one_lane:
  assumes d: "length d = DIGEST_SIZE" and same: "locationA d = locationB d"
  shows "calcCombination d a b =
           setLane d (locationA d) (lane d (locationA d) XOR (word_of_int a XOR word_of_int b))"
proof -
  have i: "locationA d < 4" "locationB d < 4" using locations_less [of d] by linarith+
  then show ?thesis using d same
    by (simp add: calcCombination_def Let_def lane_setLane_same setLane_setLane xor.assoc)
qed

lemma combination_two_lanes:
  assumes d: "length d = DIGEST_SIZE" and diff: "locationA d \<noteq> locationB d"
  shows "lane (calcCombination d a b) (locationA d) = lane d (locationA d) XOR word_of_int a \<and>
         lane (calcCombination d a b) (locationB d) = lane d (locationB d) XOR word_of_int b"
proof -
  let ?d = "setLane d (locationA d) (lane d (locationA d) XOR word_of_int a)"
  have i: "locationA d < 4" "locationB d < 4" using locations_less [of d] by linarith+
  then have len: "length ?d = 32" using d by (simp add: length_setLane)
  show ?thesis
    using d diff i len
    by (simp add: calcCombination_def Let_def lane_setLane_same lane_setLane_other)
qed

text \<open>C35: what \<open>calcCombination\<close> binds. When the first word of the digest selects two different
  lanes, equal combinations have equal views and equal sequence numbers (as 64-bit values). When it
  selects the same lane twice, only the exclusive or of the two values is bound, so different
  (view, sequence number) pairs such as (1, 2) and (2, 1) give the same signed digest.\<close>

theorem calcCombination_binds:
  assumes "length d = DIGEST_SIZE"
  shows "calcCombination d a b = calcCombination d a' b' \<longleftrightarrow>
           (if locationA d = locationB d
            then word_of_int a XOR word_of_int b = (word_of_int a' XOR word_of_int b' :: 64 word)
            else (word_of_int a :: 64 word) = word_of_int a' \<and> (word_of_int b :: 64 word) = word_of_int b')"
proof (cases "locationA d = locationB d")
  case True
  have "locationA d < 4" using locations_less(1) [of d] by linarith
  then show ?thesis
    using assms True combination_one_lane [OF assms True] by (simp add: setLane_eq_iff xor_cancel_left)
next
  case False
  let ?w = "\<lambda>x. word_of_int x :: 64 word"
  have "?w a = ?w a' \<and> ?w b = ?w b'" if "calcCombination d a b = calcCombination d a' b'"
    using combination_two_lanes [OF assms False, of a b] combination_two_lanes [OF assms False, of a' b']
    unfolding that by (simp add: xor_cancel_left)
  moreover have "calcCombination d a b = calcCombination d a' b'" if "?w a = ?w a' \<and> ?w b = ?w b'"
    using that by (simp add: calcCombination_def)
  ultimately show ?thesis unfolding if_not_P [OF False] by blast
qed

theorem calcCombination_binds_witness:
  "calcCombination zeroDigest 1 2 = calcCombination zeroDigest 2 1 \<and>
   calcCombination (1 # replicate 31 0) 1 2 \<noteq> calcCombination (1 # replicate 31 0) 2 1"
proof
  have "length zeroDigest = DIGEST_SIZE" by (simp add: zeroDigest_def)
  moreover have "locationA zeroDigest = locationB zeroDigest" by code_simp
  moreover have "word_of_int 1 XOR word_of_int 2 = (word_of_int 2 XOR word_of_int 1 :: 64 word)"
    by (simp add: xor.commute)
  ultimately show "calcCombination zeroDigest 1 2 = calcCombination zeroDigest 2 1"
    using calcCombination_binds [of zeroDigest 1 2 2 1] by simp
next
  let ?d = "1 # replicate 31 0 :: Digest"
  have "length ?d = DIGEST_SIZE" by simp
  moreover have "locationA ?d \<noteq> locationB ?d" by code_simp
  moreover have "(word_of_int 1 :: 64 word) \<noteq> word_of_int 2" by simp
  ultimately show "calcCombination ?d 1 2 \<noteq> calcCombination ?d 2 1"
    using calcCombination_binds [of ?d 1 2 2 1] by metis
qed

end
