(* ===== verification/Checkpoint_Info.thy ===== *)
theory Checkpoint_Info
  imports Replicas_Info Active_Window Msgs_Certificate Message_Base Digests
begin

text \<open>
  \<^verbatim>\<open>CheckpointMsg.cpp\<close> and \<^verbatim>\<open>CheckpointInfo.cpp\<close>: the checkpoint message with its packed header
  (type 2 bytes, sequence number 8, state digest 32, flags 1) and the certificate of one checkpoint,
  an instance of \<open>MsgsCertificate\<close> in which the own message is trusted and required. The replica
  keeps the certificates in a window of \<open>kWorkWindowSize + checkpointWindowSize\<close> sequence numbers.
\<close>

section \<open>Checkpoint messages\<close>

record CheckpointMsg =
  cp_sender :: ReplicaId
  cp_seqNum :: SeqNum
  cp_stateDigest :: Digest
  cp_flags :: byte

definition sizeofCheckpointMsgHeader :: nat where
  [simp]: "sizeofCheckpointMsgHeader = 43"

definition isStableState :: "CheckpointMsg \<Rightarrow> bool" where
  "isStableState m \<longleftrightarrow> cp_flags m AND 1 \<noteq> 0"

definition setStateAsStable :: "CheckpointMsg \<Rightarrow> CheckpointMsg" where
  "setStateAsStable m = m\<lparr>cp_flags := cp_flags m OR 1\<rparr>"

definition newCheckpointMsg :: "ReplicaId \<Rightarrow> SeqNum \<Rightarrow> Digest \<Rightarrow> bool \<Rightarrow> MessageBase option" where
  "newCheckpointMsg senderId seqNum stateDigest stateIsStable = do {
     m \<leftarrow> newMessage senderId MsgCode_Checkpoint sizeofCheckpointMsgHeader;
     body \<leftarrow> wr 2 (i64_bytes seqNum) (msgBody m);
     body \<leftarrow> wr 10 stateDigest body;
     body \<leftarrow> wr 42 [if stateIsStable then 0 OR 1 else 0] body;
     Some (m\<lparr>msgBody := body\<rparr>)
   }"

text \<open>The header fields of a message that is known to be a checkpoint message.\<close>

definition checkpointHeader :: "MessageBase \<Rightarrow> CheckpointMsg option" where
  "checkpointHeader m = do {
     seqNum \<leftarrow> rd_i64 2 (msgBody m);
     digest \<leftarrow> rd 10 32 (msgBody m);
     flags \<leftarrow> rd 42 1 (msgBody m);
     Some \<lparr>cp_sender = sender m, cp_seqNum = seqNum, cp_stateDigest = digest, cp_flags = hd flags\<rparr>
   }"

text \<open>The outer \<open>option\<close> is a failed assertion, the inner one the rejection of the message.\<close>

definition CheckpointMsg_ToActualMsgType ::
  "ReplicasInfo \<Rightarrow> MessageBase \<Rightarrow> CheckpointMsg option option" where
  "CheckpointMsg_ToActualMsgType repInfo inMsg = do {
     type \<leftarrow> msgType inMsg;
     Assert (type = MsgCode_Checkpoint);
     if msgSize inMsg < sizeofCheckpointMsgHeader then Some None
     else do {
       t \<leftarrow> checkpointHeader inMsg;
       if cp_sender t = ri_myId repInfo then Some None
       else if \<not> isIdOfReplica repInfo (cp_sender t) then Some None
       else if cp_seqNum t smod checkpointWindowSize \<noteq> 0 then Some None
       else if isZero (cp_stateDigest t) then Some None
       else Some (Some t)
     }
   }"

section \<open>Checkpoint certificates\<close>

definition CheckpointMsgCmp_equivalent :: "CheckpointMsg \<Rightarrow> CheckpointMsg \<Rightarrow> bool" where
  "CheckpointMsgCmp_equivalent a b \<longleftrightarrow>
     cp_seqNum a = cp_seqNum b \<and> cp_stateDigest a = cp_stateDigest b"

record CheckpointInfo =
  checkpointCertificate :: "CheckpointMsg MsgsCertificate"
  sentToAllOrApproved :: bool
  executed :: Time

definition CheckpointInfo_init :: "ReplicasInfo \<Rightarrow> CheckpointInfo option" where
  "CheckpointInfo_init info = do {
     let n = numberOfReplicas info;
     let C = cVal info;
     let F = fVal info;
     Assert (n = 3 * F + 2 * C + 1);
     Some \<lparr>checkpointCertificate =
             newMsgsCertificate (nat n) (nat F) (nat (2 * F + C + 1)) (ri_myId info),
           sentToAllOrApproved = False, executed = MinTime\<rparr>
   }"

definition CheckpointInfo_reset :: "CheckpointInfo \<Rightarrow> CheckpointInfo" where
  "CheckpointInfo_reset i =
     i\<lparr>checkpointCertificate := cert_resetAndFree (checkpointCertificate i),
       sentToAllOrApproved := False, executed := MinTime\<rparr>"

definition addCheckpointMsg ::
  "CheckpointMsg \<Rightarrow> ReplicaId \<Rightarrow> CheckpointInfo \<Rightarrow> (bool \<times> CheckpointInfo) option" where
  "addCheckpointMsg msg replicaId i = do {
     (res, c) \<leftarrow> cert_addMsg CheckpointMsgCmp_equivalent True True msg replicaId (checkpointCertificate i);
     Some (res, i\<lparr>checkpointCertificate := c\<rparr>)
   }"

definition isCheckpointCertificateComplete :: "CheckpointInfo \<Rightarrow> bool" where
  "isCheckpointCertificateComplete i = complete (checkpointCertificate i)"

definition selfCheckpointMsg :: "CheckpointInfo \<Rightarrow> CheckpointMsg option" where
  "selfCheckpointMsg i = selfMsg (checkpointCertificate i)"

definition tryToMarkCheckpointCertificateCompleted :: "CheckpointInfo \<Rightarrow> CheckpointInfo" where
  "tryToMarkCheckpointCertificateCompleted i =
     i\<lparr>checkpointCertificate := tryToMarkComplete True (checkpointCertificate i)\<rparr>"

definition setSelfExecutionTime :: "Time \<Rightarrow> CheckpointInfo \<Rightarrow> CheckpointInfo option" where
  "setSelfExecutionTime t i = do {
     Assert (executed i = MinTime);
     Some (i\<lparr>executed := t\<rparr>)
   }"

definition setCheckpointSentAllOrApproved :: "CheckpointInfo \<Rightarrow> CheckpointInfo" where
  "setCheckpointSentAllOrApproved i = i\<lparr>sentToAllOrApproved := True\<rparr>"

fun addCheckpointMsgs :: "(ReplicaId \<times> CheckpointMsg) list \<Rightarrow> CheckpointInfo \<Rightarrow> CheckpointInfo option" where
  "addCheckpointMsgs [] i = Some i"
| "addCheckpointMsgs ((r, m) # ms) i = do {
     (_, i) \<leftarrow> addCheckpointMsg m r i;
     addCheckpointMsgs ms i
   }"

section \<open>Parsing\<close>

lemma newCheckpointMsg_reads:
  assumes "newCheckpointMsg s n d stb = Some m" "is_i64 n" "length d = DIGEST_SIZE" "s < 2 ^ 16"
  shows "wf_msg m \<and> msgSize m = 43 \<and> msgType m = Some MsgCode_Checkpoint \<and>
         checkpointHeader m = Some \<lparr>cp_sender = s, cp_seqNum = n, cp_stateDigest = d,
                                    cp_flags = (if stb then 1 else 0)\<rparr>"
proof -
  obtain m0 b1 b2 b3 where m0: "newMessage s MsgCode_Checkpoint 43 = Some m0"
    and b1: "wr 2 (i64_bytes n) (msgBody m0) = Some b1" and b2: "wr 10 d b1 = Some b2"
    and b3: "wr 42 [if stb then 0 OR 1 else 0] b2 = Some b3" and m: "m = m0\<lparr>msgBody := b3\<rparr>"
    using assms(1) by (auto simp: newCheckpointMsg_def Option.bind_eq_Some_conv)
  have wf0: "wf_msg m0" "msgSize m0 = 43" "sender m0 = s" using wf_newMessage [OF m0 assms(4)] by auto
  have len: "length b3 = length (msgBody m0)"
    using length_wr [OF b1] length_wr [OF b2] length_wr [OF b3] by simp
  have "rd 0 2 b3 = rd 0 2 (msgBody m0)"
    using rd_wr_before [OF b1, of 0 2] rd_wr_before [OF b2, of 0 2] rd_wr_before [OF b3, of 0 2] by simp
  then have type: "msgType m = Some MsgCode_Checkpoint"
    using newMessage_type [OF m0] by (simp add: m msgType_def rd_nat_def)
  have "rd 2 8 b3 = Some (i64_bytes n)"
    using rd_wr_same [OF b1] rd_wr_before [OF b2, of 2 8] rd_wr_before [OF b3, of 2 8] by simp
  then have "rd_i64 2 b3 = Some n"
    by (simp add: rd_i64_def rd_nat_def i64_roundtrip [OF assms(2)])
  moreover have "rd 10 32 b3 = Some d"
    using rd_wr_same [OF b2] rd_wr_before [OF b3, of 10 32] assms(3) by simp
  moreover have "rd 42 1 b3 = Some [if stb then 1 else 0]"
    using rd_wr_same [OF b3] by simp
  ultimately have "checkpointHeader m = Some \<lparr>cp_sender = s, cp_seqNum = n, cp_stateDigest = d,
      cp_flags = (if stb then 1 else 0)\<rparr>"
    by (simp add: checkpointHeader_def m wf0)
  then show ?thesis using wf0 len type by (simp add: m wf_msg_def)
qed

lemma newCheckpointMsg_total:
  assumes "length d = DIGEST_SIZE"
  shows "\<exists>m. newCheckpointMsg s n d stb = Some m"
proof -
  have "\<exists>m. newMessage s MsgCode_Checkpoint 43 = Some m \<and> length (msgBody m) = 43"
    by (auto simp: newMessage_def wr_def)
  then show ?thesis using assms by (auto simp: newCheckpointMsg_def wr_def)
qed

text \<open>a checkpoint message built by one replica is accepted by every other replica, which reads
  back the sender, the sequence number, the digest and the stability flag, provided the sequence
  number is a checkpoint and the digest is not zero.\<close>

theorem checkpoint_msg_roundtrip:
  assumes "wf_replicas_info info" "isIdOfPeerReplica info s" "is_i64 n" "checkpointWindowSize dvd n"
    "length d = DIGEST_SIZE" "\<not> isZero d"
  shows "\<exists>m t. newCheckpointMsg s n d stb = Some m \<and>
           CheckpointMsg_ToActualMsgType info m = Some (Some t) \<and>
           cp_sender t = s \<and> cp_seqNum t = n \<and> cp_stateDigest t = d \<and> isStableState t = stb"
proof -
  obtain m where m: "newCheckpointMsg s n d stb = Some m"
    using newCheckpointMsg_total [OF assms(5)] by blast
  have s: "s < 2 ^ 16" using assms(1,2) by (auto simp: isIdOfPeerReplica_def wf_replicas_info_def)
  have "n smod checkpointWindowSize = 0"
    using assms(4) by (auto simp: signed_modulo_int_def signed_divide_int_def sgn_if)
  then show ?thesis
    using newCheckpointMsg_reads [OF m assms(3,5) s] m assms(2,6)
    by (auto simp: CheckpointMsg_ToActualMsgType_def isIdOfPeerReplica_def isIdOfReplica_def isStableState_def)
qed

theorem checkpoint_msg_roundtrip_witness:
  "\<exists>m t. newCheckpointMsg 2 300 (replicate 32 7) True = Some m \<and>
     CheckpointMsg_ToActualMsgType sample_info m = Some (Some t) \<and>
     cp_sender t = 2 \<and> cp_seqNum t = 300 \<and> cp_stateDigest t = replicate 32 7 \<and> isStableState t = True"
  by (rule checkpoint_msg_roundtrip [OF sample_info_wf])
    (simp_all add: sample_info_def newReplicasInfo_def isIdOfPeerReplica_def is_i64_def isZero_def)

section \<open>The invariant of a checkpoint certificate\<close>

interpretation ckpt: msg_equivalence CheckpointMsgCmp_equivalent
  by unfold_locales (auto simp: CheckpointMsgCmp_equivalent_def)

text \<open>The replica may also mark a certificate complete by itself, once it holds its own checkpoint
  and other evidence (a full commit proof of a later number, a stable checkpoint reached by state
  transfer); so in general completion only says that the own message is there.\<close>

definition checkpoint_info_ok :: "ReplicasInfo \<Rightarrow> CheckpointInfo \<Rightarrow> bool" where
  "checkpoint_info_ok info i \<longleftrightarrow>
     (let c = checkpointCertificate i in
      cert_shape True c \<and> numOfReps c = nat (numberOfReplicas info) \<and> maxFails c = nat (fVal info) \<and>
      required c = nat (2 * fVal info + cVal info + 1) \<and> selfId c = ri_myId info \<and>
      (if complete c then msgsFromReplicas c (selfId c) \<noteq> None
       else cert_counts CheckpointMsgCmp_equivalent True True c))"

definition checkpoint_info_clean :: "CheckpointInfo \<Rightarrow> bool" where
  "checkpoint_info_clean i \<longleftrightarrow>
     msgsFromReplicas (checkpointCertificate i) = Map.empty \<and> \<not> isCheckpointCertificateComplete i \<and>
     \<not> sentToAllOrApproved i \<and> executed i = MinTime"

lemma cert_ok_self:
  "cert_ok equivalent True True c \<Longrightarrow> complete c \<Longrightarrow> msgsFromReplicas c (selfId c) \<noteq> None"
  by (auto simp: cert_ok_def cert_quorum_def)

lemma checkpoint_info_ok_cert:
  assumes "cert_ok CheckpointMsgCmp_equivalent True True (checkpointCertificate i)"
    "numOfReps (checkpointCertificate i) = nat (numberOfReplicas info)"
    "maxFails (checkpointCertificate i) = nat (fVal info)"
    "required (checkpointCertificate i) = nat (2 * fVal info + cVal info + 1)"
    "selfId (checkpointCertificate i) = ri_myId info"
  shows "checkpoint_info_ok info i"
  using assms cert_ok_self [OF assms(1)] by (auto simp: checkpoint_info_ok_def cert_ok_def Let_def)

lemma CheckpointInfo_init_ok:
  assumes "wf_replicas_info info"
  shows "\<exists>i. CheckpointInfo_init info = Some i \<and> checkpoint_info_ok info i \<and> checkpoint_info_clean i \<and>
           cert_ok CheckpointMsgCmp_equivalent True True (checkpointCertificate i)"
proof -
  let ?c = "newMsgsCertificate (nat (numberOfReplicas info)) (nat (fVal info))
              (nat (2 * fVal info + cVal info + 1)) (ri_myId info) :: CheckpointMsg MsgsCertificate"
  let ?i = "\<lparr>checkpointCertificate = ?c, sentToAllOrApproved = False, executed = MinTime\<rparr>"
  have ok: "cert_ok CheckpointMsgCmp_equivalent True True ?c"
    using assms by (intro ckpt.newMsgsCertificate_ok) (auto simp: wf_replicas_info_def)
  moreover have "CheckpointInfo_init info = Some ?i"
    using assms by (simp add: CheckpointInfo_init_def wf_replicas_info_def Let_def)
  moreover have "checkpoint_info_ok info ?i"
    using ok by (intro checkpoint_info_ok_cert) (simp_all add: newMsgsCertificate_def)
  moreover have "checkpoint_info_clean ?i"
    by (simp add: checkpoint_info_clean_def isCheckpointCertificateComplete_def newMsgsCertificate_def)
  ultimately show ?thesis by simp
qed

lemma CheckpointInfo_reset_ok:
  assumes "checkpoint_info_ok info i"
  shows "checkpoint_info_ok info (CheckpointInfo_reset i) \<and> checkpoint_info_clean (CheckpointInfo_reset i)"
proof -
  let ?c = "checkpointCertificate i"
  have "cert_ok CheckpointMsgCmp_equivalent True True (cert_resetAndFree ?c) \<and>
      \<not> complete (cert_resetAndFree ?c) \<and> msgsFromReplicas (cert_resetAndFree ?c) = Map.empty"
    using assms by (intro ckpt.cert_resetAndFree_ok) (auto simp: checkpoint_info_ok_def Let_def split: if_splits)
  moreover have "numOfReps (cert_resetAndFree ?c) = numOfReps ?c" "maxFails (cert_resetAndFree ?c) = maxFails ?c"
    "required (cert_resetAndFree ?c) = required ?c" "selfId (cert_resetAndFree ?c) = selfId ?c"
    by (simp_all add: cert_resetAndFree_def Let_def)
  ultimately show ?thesis
    using assms checkpoint_info_ok_cert [of "CheckpointInfo_reset i" info]
    by (auto simp: CheckpointInfo_reset_def checkpoint_info_ok_def checkpoint_info_clean_def
        isCheckpointCertificateComplete_def Let_def)
qed

lemma addCheckpointMsg_ok:
  assumes ok: "checkpoint_info_ok info i" and r: "isIdOfReplica info r"
  shows "\<exists>b i'. addCheckpointMsg m r i = Some (b, i') \<and> checkpoint_info_ok info i'"
proof (cases "complete (checkpointCertificate i)")
  case False
  let ?c = "checkpointCertificate i"
  have "cert_ok CheckpointMsgCmp_equivalent True True ?c" and n: "r < numOfReps ?c"
    using ok False r by (auto simp: checkpoint_info_ok_def cert_ok_def Let_def isIdOfReplica_def)
  then obtain b c' where c': "cert_addMsg CheckpointMsgCmp_equivalent True True m r ?c = Some (b, c')"
    "cert_ok CheckpointMsgCmp_equivalent True True c'"
    using ckpt.cert_addMsg_ok by blast
  have "numOfReps c' = numOfReps ?c" "maxFails c' = maxFails ?c" "required c' = required ?c" "selfId c' = selfId ?c"
    using cert_addMsg_config [OF c'(1)] by (simp_all add: same_config_def split: if_splits)
  then have "checkpoint_info_ok info (i\<lparr>checkpointCertificate := c'\<rparr>)"
    using ok c'(2) by (intro checkpoint_info_ok_cert) (simp_all add: checkpoint_info_ok_def Let_def)
  then show ?thesis using c'(1) by (simp add: addCheckpointMsg_def)
next
  case True
  let ?c = "checkpointCertificate i"
  let ?d = "?c\<lparr>msgsFromReplicas := (msgsFromReplicas ?c)(r \<mapsto> m)\<rparr>"
  have "checkpoint_info_ok info (i\<lparr>checkpointCertificate := ?d\<rparr>)"
    using ok r True by (simp add: checkpoint_info_ok_def cert_shape_def Let_def isIdOfReplica_def) auto
  then show ?thesis
    using ok True by (cases "msgsFromReplicas ?c r") (auto simp: addCheckpointMsg_def cert_addMsg_def)
qed

lemma tryToMark_ok:
  "checkpoint_info_ok info i \<Longrightarrow> checkpoint_info_ok info (tryToMarkCheckpointCertificateCompleted i)"
  by (auto simp: checkpoint_info_ok_def tryToMarkCheckpointCertificateCompleted_def tryToMarkComplete_def
      hasMsgFromReplica_def cert_shape_def Let_def)

text \<open>The window of checkpoints: its items satisfy the contract of the active window.\<close>

interpretation checkpointsLog: window_items "kWorkWindowSize + checkpointWindowSize" checkpointWindowSize
    CheckpointInfo_reset "checkpoint_info_ok info" checkpoint_info_clean
  for info
  using CheckpointInfo_reset_ok by unfold_locales (auto simp: window_params_def)

section \<open>What a complete checkpoint certificate says\<close>

lemma addCheckpointMsgs_cert:
  "addCheckpointMsgs ms i =
     map_option (\<lambda>c. i\<lparr>checkpointCertificate := c\<rparr>)
       (addMsgs CheckpointMsgCmp_equivalent True True ms (checkpointCertificate i))"
proof (induction ms i rule: addCheckpointMsgs.induct)
  case (2 r m ms i)
  then show ?case
    by (cases "cert_addMsg CheckpointMsgCmp_equivalent True True m r (checkpointCertificate i)")
      (auto simp: addCheckpointMsg_def split: prod.splits)
qed simp

lemma addMsgs_config:
  assumes "addMsgs equivalent st sr ms c = Some c'"
  shows "numOfReps c' = numOfReps c \<and> maxFails c' = maxFails c \<and> required c' = required c \<and> selfId c' = selfId c"
  using assms
proof (induction equivalent st sr ms c rule: addMsgs.induct)
  case (2 equivalent st sr r m ms c)
  then obtain b d where d: "cert_addMsg equivalent st sr m r c = Some (b, d)"
    and rest: "addMsgs equivalent st sr ms d = Some c'"
    by (auto simp: Option.bind_eq_Some_conv)
  show ?case using "2.IH" [OF d refl rest] cert_addMsg_config [OF d] by (simp add: same_config_def split: if_splits)
qed simp

abbreviation checkpointSupport :: "CheckpointInfo \<Rightarrow> CheckpointMsg \<Rightarrow> ReplicaId set" where
  "checkpointSupport i m \<equiv>
     supporters CheckpointMsgCmp_equivalent (msgsFromReplicas (checkpointCertificate i)) m"

text \<open>C9: a fresh checkpoint certificate takes the checkpoint messages of the replicas in any order.
  It never stops; when it is complete, the own message is there and at least \<open>2F + C\<close> replicas
  (itself included) reported the same sequence number and state digest; and once the own message has
  \<open>2F + C + 1\<close> supporters it is complete. The lower bound is one below the required number because
  the own message is counted twice when it arrives after an equal one.\<close>

theorem checkpoint_certificate_support:
  assumes "wf_replicas_info info" "CheckpointInfo_init info = Some i0"
    "\<forall>(r, m) \<in> set ms. isIdOfReplica info r"
  shows "\<exists>i. addCheckpointMsgs ms i0 = Some i \<and>
     (isCheckpointCertificateComplete i \<longrightarrow>
        (\<exists>own. selfCheckpointMsg i = Some own \<and>
               2 * fVal info + cVal info \<le> int (card (checkpointSupport i own)))) \<and>
     (\<forall>own. selfCheckpointMsg i = Some own \<and>
        2 * fVal info + cVal info + 1 \<le> int (card (checkpointSupport i own)) \<longrightarrow>
          isCheckpointCertificateComplete i)"
proof -
  let ?c0 = "checkpointCertificate i0"
  have c0: "cert_ok CheckpointMsgCmp_equivalent True True ?c0" "checkpoint_info_ok info i0"
    using CheckpointInfo_init_ok [OF assms(1)] assms(2) by auto
  then have n: "\<forall>(r, m) \<in> set ms. r < numOfReps ?c0"
    using assms(3) by (auto simp: checkpoint_info_ok_def isIdOfReplica_def Let_def)
  then obtain c where c: "addMsgs CheckpointMsgCmp_equivalent True True ms ?c0 = Some c"
    "cert_ok CheckpointMsgCmp_equivalent True True c"
    using ckpt.addMsgs_ok [OF c0(1)] by blast
  let ?i = "i0\<lparr>checkpointCertificate := c\<rparr>"
  have req: "int (required c) = 2 * fVal info + cVal info + 1"
    using addMsgs_config [OF c(1)] c0(2) assms(1)
    by (auto simp: checkpoint_info_ok_def Let_def wf_replicas_info_def)
  have "\<exists>own. selfCheckpointMsg ?i = Some own \<and>
      2 * fVal info + cVal info \<le> int (card (checkpointSupport ?i own))" if "complete c"
    using ckpt.complete_quorum [OF c(2) that] req by (auto simp: selfCheckpointMsg_def selfMsg_def split: if_splits)
  moreover have "complete c" if "selfCheckpointMsg ?i = Some own"
    "2 * fVal info + cVal info + 1 \<le> int (card (checkpointSupport ?i own))" for own
    using ckpt.quorum_completes [OF c(2)] that req by (simp add: selfCheckpointMsg_def selfMsg_def)
  ultimately show ?thesis
    using c(1) by (auto simp: addCheckpointMsgs_cert isCheckpointCertificateComplete_def)
qed

definition sample_checkpoint :: "ReplicaId \<Rightarrow> CheckpointMsg" where
  "sample_checkpoint r = \<lparr>cp_sender = r, cp_seqNum = 150, cp_stateDigest = replicate 32 7, cp_flags = 0\<rparr>"

lemma sample_certificate_complete:
  "isCheckpointCertificateComplete (the (addCheckpointMsgs
     [(0, sample_checkpoint 0), (1, sample_checkpoint 1), (2, sample_checkpoint 2)]
     (the (CheckpointInfo_init sample_info))))"
  by (auto simp: sample_info_def newReplicasInfo_def CheckpointInfo_init_def addCheckpointMsg_def cert_addMsg_def
      addPeerMsg_def addSelfMsg_def openClass_def joinClass_def growClass_def tryToMarkComplete_def
      hasMsgFromReplica_def newMsgsCertificate_def zeroFirstClasses_def CheckpointMsgCmp_equivalent_def
      sample_checkpoint_def isCheckpointCertificateComplete_def Let_def at_def numeral_eq_Suc)

theorem checkpoint_certificate_support_witness:
  "\<exists>i own. addCheckpointMsgs [(0, sample_checkpoint 0), (1, sample_checkpoint 1), (2, sample_checkpoint 2)]
         (the (CheckpointInfo_init sample_info)) = Some i \<and> selfCheckpointMsg i = Some own \<and>
       2 * fVal sample_info + cVal sample_info \<le> int (card (checkpointSupport i own))"
proof -
  let ?i0 = "the (CheckpointInfo_init sample_info)"
  have "CheckpointInfo_init sample_info = Some ?i0"
    by (simp add: sample_info_def newReplicasInfo_def CheckpointInfo_init_def Let_def)
  then show ?thesis
    using checkpoint_certificate_support [OF sample_info_wf,
        of ?i0 "[(0, sample_checkpoint 0), (1, sample_checkpoint 1), (2, sample_checkpoint 2)]"]
      sample_certificate_complete
    by (auto simp: isIdOfReplica_def)
qed


end
