(* ===== verification/Client_Msgs.thy ===== *)
theory Client_Msgs
  imports Message_Base
begin

text \<open>
  \<^verbatim>\<open>ClientMsgs.hpp\<close>, \<^verbatim>\<open>ClientRequestMsg.cpp\<close> and \<^verbatim>\<open>ClientReplyMsg.cpp\<close>: the packed requests and
  replies. A request header is 17 bytes (type 2, client 2, flags 1, request number 8, length 4), a
  reply header 16 bytes (type 2, primary 2, request number 8, length 4).
\<close>

unbundle bit_operations_syntax

section \<open>Requests\<close>

definition sizeofClientRequestMsgHeader :: nat where
  [simp]: "sizeofClientRequestMsgHeader = 17"

record ClientRequest =
  cr_clientProxyId :: NodeIdType
  cr_flags :: byte
  cr_reqSeqNum :: ReqId
  cr_requestLength :: nat

definition cr_isReadOnly :: "ClientRequest \<Rightarrow> bool" where
  "cr_isReadOnly r \<longleftrightarrow> cr_flags r AND 1 \<noteq> 0"

definition requestHeader :: "byte list \<Rightarrow> ClientRequest option" where
  "requestHeader body = do {
     client \<leftarrow> rd_nat 2 2 body;
     flags \<leftarrow> rd 4 1 body;
     seq \<leftarrow> rd_nat 5 8 body;
     len \<leftarrow> rd_nat 13 4 body;
     Some \<lparr>cr_clientProxyId = client, cr_flags = hd flags, cr_reqSeqNum = seq, cr_requestLength = len\<rparr>
   }"

definition requestBuf :: "byte list \<Rightarrow> byte list option" where
  "requestBuf body = do {
     h \<leftarrow> requestHeader body;
     rd sizeofClientRequestMsgHeader (cr_requestLength h) body
   }"

text \<open>\<open>compRequestMsgSize\<close> returns the sum as an \<open>int32_t\<close>; \<open>getRequestSizeTemp\<close> reads it as a
  \<open>uint32_t\<close>.\<close>

definition compRequestMsgSize :: "byte list \<Rightarrow> nat option" where
  "compRequestMsgSize body = do {
     h \<leftarrow> requestHeader body;
     Some (u32 (int (sizeofClientRequestMsgHeader + cr_requestLength h)))
   }"

definition newClientRequestMsg ::
  "NodeIdType \<Rightarrow> bool \<Rightarrow> ReqId \<Rightarrow> byte list \<Rightarrow> MessageBase option" where
  "newClientRequestMsg sndr isReadOnly reqSeqNum request = do {
     m \<leftarrow> newMessage sndr MsgCode_Request (sizeofClientRequestMsgHeader + length request);
     body \<leftarrow> wrs [(2, le_bytes 2 sndr), (4, [if isReadOnly then 0 OR 1 else 0]),
       (5, le_bytes 8 reqSeqNum), (13, le_bytes 4 (length request)),
       (sizeofClientRequestMsgHeader, request)] (msgBody m);
     Some (m\<lparr>msgBody := body\<rparr>)
   }"

text \<open>The request with room for any length that a caller fills in later, with \<open>set\<close>.\<close>

definition newBlankClientRequestMsg :: "NodeIdType \<Rightarrow> MessageBase option" where
  "newBlankClientRequestMsg sndr = do {
     m \<leftarrow> newMessage sndr MsgCode_Request maxExternalMessageSize;
     body \<leftarrow> wrs [(2, le_bytes 2 sndr), (5, le_bytes 8 0), (13, le_bytes 4 0), (4, [0])] (msgBody m);
     setMsgSize (m\<lparr>msgBody := body\<rparr>) sizeofClientRequestMsgHeader
   }"

definition ClientRequestMsg_set :: "MessageBase \<Rightarrow> ReqId \<Rightarrow> nat \<Rightarrow> bool \<Rightarrow> MessageBase option" where
  "ClientRequestMsg_set m reqSeqNum requestLength isReadOnly = do {
     Assert (requestLength > 0);
     Assert (int requestLength \<le> int (storageSize m) - int sizeofClientRequestMsgHeader);
     body \<leftarrow> wrs [(5, le_bytes 8 reqSeqNum), (4, [if isReadOnly then 0 OR 1 else 0]),
       (13, le_bytes 4 requestLength)] (msgBody m);
     setMsgSize (m\<lparr>msgBody := body\<rparr>) (sizeofClientRequestMsgHeader + requestLength)
   }"

definition setAsReadWrite :: "MessageBase \<Rightarrow> MessageBase option" where
  "setAsReadWrite m = do {
     h \<leftarrow> requestHeader (msgBody m);
     body \<leftarrow> wr 4 [cr_flags h AND NOT 1] (msgBody m);
     Some (m\<lparr>msgBody := body\<rparr>)
   }"

definition ClientRequestMsg_ToActualMsgType :: "MessageBase \<Rightarrow> ClientRequest option option" where
  "ClientRequestMsg_ToActualMsgType inMsg = do {
     type \<leftarrow> msgType inMsg;
     Assert (type = MsgCode_Request);
     if msgSize inMsg < sizeofClientRequestMsgHeader then Some None
     else do {
       h \<leftarrow> requestHeader (msgBody inMsg);
       if msgSize inMsg < sizeofClientRequestMsgHeader + cr_requestLength h then Some None
       else Some (Some h)
     }
   }"

section \<open>Replies\<close>

definition sizeofClientReplyMsgHeader :: nat where
  [simp]: "sizeofClientReplyMsgHeader = 16"

record ClientReply =
  rp_currentPrimaryId :: ReplicaId
  rp_reqSeqNum :: ReqId
  rp_replyLength :: nat

definition replyHeader :: "byte list \<Rightarrow> ClientReply option" where
  "replyHeader body = do {
     primary \<leftarrow> rd_nat 2 2 body;
     seq \<leftarrow> rd_nat 4 8 body;
     len \<leftarrow> rd_nat 12 4 body;
     Some \<lparr>rp_currentPrimaryId = primary, rp_reqSeqNum = seq, rp_replyLength = len\<rparr>
   }"

definition replyBuf :: "byte list \<Rightarrow> byte list option" where
  "replyBuf body = do {
     h \<leftarrow> replyHeader body;
     rd sizeofClientReplyMsgHeader (rp_replyLength h) body
   }"

text \<open>The fields the three constructors write; \<open>setMsgSize\<close> clears what lies behind the message.\<close>

definition writeReplyHeader :: "ReplicaId \<Rightarrow> ReqId \<Rightarrow> nat \<Rightarrow> byte list \<Rightarrow> byte list option" where
  "writeReplyHeader primaryId reqSeqNum replyLength body =
     wrs [(4, le_bytes 8 reqSeqNum), (2, le_bytes 2 primaryId), (12, le_bytes 4 replyLength)] body"

definition newEmptyClientReplyMsg :: "ReplicaId \<Rightarrow> ReqId \<Rightarrow> ReplicaId \<Rightarrow> MessageBase option" where
  "newEmptyClientReplyMsg primaryId reqSeqNum replicaId = do {
     m \<leftarrow> newMessage replicaId MsgCode_Reply maxExternalMessageSize;
     body \<leftarrow> writeReplyHeader primaryId reqSeqNum 0 (msgBody m);
     setMsgSize (m\<lparr>msgBody := body\<rparr>) sizeofClientReplyMsgHeader
   }"

definition newClientReplyMsg :: "ReplicaId \<Rightarrow> ReqId \<Rightarrow> byte list \<Rightarrow> MessageBase option" where
  "newClientReplyMsg replicaId reqSeqNum reply = do {
     m \<leftarrow> newMessage replicaId MsgCode_Reply (sizeofClientReplyMsgHeader + length reply);
     body \<leftarrow> writeReplyHeader 0 reqSeqNum (length reply) (msgBody m);
     body \<leftarrow> wr sizeofClientReplyMsgHeader reply body;
     setMsgSize (m\<lparr>msgBody := body\<rparr>) (sizeofClientReplyMsgHeader + length reply)
   }"

definition newBlankClientReplyMsg :: "ReplicaId \<Rightarrow> nat \<Rightarrow> MessageBase option" where
  "newBlankClientReplyMsg replicaId replyLength = do {
     m \<leftarrow> newMessage replicaId MsgCode_Reply (sizeofClientReplyMsgHeader + replyLength);
     body \<leftarrow> writeReplyHeader 0 0 replyLength (msgBody m);
     setMsgSize (m\<lparr>msgBody := body\<rparr>) (sizeofClientReplyMsgHeader + replyLength)
   }"

definition setReplyLength :: "MessageBase \<Rightarrow> nat \<Rightarrow> MessageBase option" where
  "setReplyLength m replyLength = do {
     Assert (int replyLength \<le> int (storageSize m) - int sizeofClientReplyMsgHeader);
     body \<leftarrow> wr 12 (le_bytes 4 replyLength) (msgBody m);
     setMsgSize (m\<lparr>msgBody := body\<rparr>) (sizeofClientReplyMsgHeader + replyLength)
   }"

definition setPrimaryId :: "MessageBase \<Rightarrow> ReplicaId \<Rightarrow> MessageBase option" where
  "setPrimaryId m primaryId = do {
     body \<leftarrow> wr 2 (le_bytes 2 primaryId) (msgBody m);
     Some (m\<lparr>msgBody := body\<rparr>)
   }"

text \<open>The comparison of sizes is done in \<open>uint32_t\<close>.\<close>

definition ClientReplyMsg_ToActualMsgType :: "MessageBase \<Rightarrow> ClientReply option option" where
  "ClientReplyMsg_ToActualMsgType inMsg = do {
     type \<leftarrow> msgType inMsg;
     Assert (type = MsgCode_Reply);
     if msgSize inMsg < sizeofClientReplyMsgHeader then Some None
     else do {
       h \<leftarrow> replyHeader (msgBody inMsg);
       if msgSize inMsg < u32 (int (sizeofClientReplyMsgHeader + rp_replyLength h)) then Some None
       else Some (Some h)
     }
   }"

text \<open>The hash that log lines print: the first, possibly shorter, word and the exclusive or of the
  others.\<close>

definition debugHash :: "byte list \<Rightarrow> 64 word option" where
  "debugHash reply = do {
     let replyLen = length reply;
     Assert (replyLen > 0);
     let firstWordLen = (if replyLen mod 8 = 0 then 8 else replyLen mod 8);
     Assert ((replyLen - firstWordLen) mod 8 = 0);
     let numberOfWords = (replyLen - firstWordLen) div 8 + 1;
     Some (fold (\<lambda>i h. h XOR word_of_nat (le_val (take 8 (drop (firstWordLen + 8 * i) reply))))
            [0..<numberOfWords - 1] (word_of_nat (le_val (take firstWordLen reply))))
   }"

section \<open>Round trips and bounds\<close>

lemma requestHeader_total:
  "17 \<le> length body \<Longrightarrow> \<exists>h. requestHeader body = Some h \<and> cr_requestLength h < 2 ^ 32 \<and>
     cr_reqSeqNum h < 2 ^ 64 \<and> cr_clientProxyId h < 2 ^ 16"
  using le_val_bound [of "take 4 (drop 13 body)"] le_val_bound [of "take 8 (drop 5 body)"]
    le_val_bound [of "take 2 (drop 2 body)"]
  by (auto simp: requestHeader_def rd_nat_def rd_def)

lemma replyHeader_total:
  "16 \<le> length body \<Longrightarrow> \<exists>h. replyHeader body = Some h \<and> rp_replyLength h < 2 ^ 32"
  using le_val_bound [of "take 4 (drop 12 body)"]
  by (auto simp: replyHeader_def rd_nat_def rd_def)

text \<open>a client's request survives the wire: a replica accepts the message and reads the client,
  the flag, the request number and exactly the request bytes.\<close>

theorem client_request_roundtrip:
  assumes "client < 2 ^ 16" "seq < 2 ^ 64" "length req < 2 ^ 32"
  shows "\<exists>m h. newClientRequestMsg client ro seq req = Some m \<and>
           ClientRequestMsg_ToActualMsgType m = Some (Some h) \<and>
           cr_clientProxyId h = client \<and> cr_isReadOnly h = ro \<and> cr_reqSeqNum h = seq \<and>
           requestBuf (msgBody m) = Some req"
proof -
  let ?fs = "[(2, le_bytes 2 client), (4, [if ro then 0 OR 1 else 0 :: byte]), (5, le_bytes 8 seq),
      (13, le_bytes 4 (length req)), (17, req)]"
  obtain m0 where m0: "newMessage client MsgCode_Request (17 + length req) = Some m0"
    by (auto simp: newMessage_def wr_def)
  have wf: "wf_msg m0" "msgSize m0 = 17 + length req" using wf_newMessage [OF m0] assms(1) by auto
  then have len: "length (msgBody m0) = 17 + length req"
    using m0 by (auto simp: newMessage_def Option.bind_eq_Some_conv dest: length_wr)
  then obtain b where b: "wrs ?fs (msgBody m0) = Some b" using wrs_total [of ?fs "msgBody m0"] by auto
  note rd_b = rd_wrs [OF b]
  have "rd 2 2 b = Some (le_bytes 2 client)" "rd 4 1 b = Some [if ro then 0 OR 1 else 0]"
    "rd 5 8 b = Some (le_bytes 8 seq)" "rd 13 4 b = Some (le_bytes 4 (length req))"
    "rd 17 (length req) b = Some req"
    using rd_b [of 2 "le_bytes 2 client"] rd_b [of 4 "[if ro then 0 OR 1 else 0]"]
      rd_b [of 5 "le_bytes 8 seq"] rd_b [of 13 "le_bytes 4 (length req)"] rd_b [of 17 req] by simp_all
  moreover have "rd 0 2 b = rd 0 2 (msgBody m0)" by (rule rd_wrs_other [OF b]) simp
  ultimately have
    "requestHeader b = Some \<lparr>cr_clientProxyId = client, cr_flags = (if ro then 0 OR 1 else 0),
        cr_reqSeqNum = seq, cr_requestLength = length req\<rparr>"
    "msgType (m0\<lparr>msgBody := b\<rparr>) = Some MsgCode_Request" "rd 17 (length req) b = Some req"
    using newMessage_type [OF m0] assms
    by (simp_all add: requestHeader_def msgType_def rd_nat_def le_val_le_bytes)
  moreover have "newClientRequestMsg client ro seq req = Some (m0\<lparr>msgBody := b\<rparr>)"
    using m0 b by (simp add: newClientRequestMsg_def)
  ultimately show ?thesis
    using wf by (simp add: ClientRequestMsg_ToActualMsgType_def requestBuf_def cr_isReadOnly_def)
qed

theorem client_request_roundtrip_witness:
  "\<exists>m h. newClientRequestMsg 9 True 77 [1, 2, 3] = Some m \<and>
     ClientRequestMsg_ToActualMsgType m = Some (Some h) \<and>
     cr_clientProxyId h = 9 \<and> cr_isReadOnly h = True \<and> cr_reqSeqNum h = 77 \<and>
     requestBuf (msgBody m) = Some [1, 2, 3]"
  by (rule client_request_roundtrip) simp_all

text \<open>C33: an accepted reply names a reply that lies inside the message exactly when its length field
  is below \<open>2 ^ 32 - 16\<close>: the check adds the header size in 32 bits, so a length of \<open>2 ^ 32 - 16\<close> or
  more wraps around and is accepted although no such bytes exist.\<close>

theorem accepted_reply_readable:
  assumes "wf_msg m" "storageSize m \<le> 65536" "ClientReplyMsg_ToActualMsgType m = Some (Some h)"
  shows "(\<exists>reply. replyBuf (msgBody m) = Some reply) \<longleftrightarrow> rp_replyLength h < 2 ^ 32 - 16"
proof -
  have h: "replyHeader (msgBody m) = Some h" and sz: "16 \<le> msgSize m"
    and ok: "u32 (int (16 + rp_replyLength h)) \<le> msgSize m"
    using assms(3)
    by (auto simp: ClientReplyMsg_ToActualMsgType_def Option.bind_eq_Some_conv split: if_splits)
  have lt: "rp_replyLength h < 2 ^ 32"
    using replyHeader_total [of "msgBody m"] h sz assms(1) by (auto simp: wf_msg_def)
  show ?thesis
  proof
    assume "\<exists>reply. replyBuf (msgBody m) = Some reply"
    then have "16 + rp_replyLength h \<le> length (msgBody m)"
      using h by (auto simp: replyBuf_def rd_def split: if_splits)
    then show "rp_replyLength h < 2 ^ 32 - 16" using assms(1,2) by (simp add: wf_msg_def)
  next
    assume "rp_replyLength h < 2 ^ 32 - 16"
    then have "u32 (int (16 + rp_replyLength h)) = 16 + rp_replyLength h" by (simp add: u32_def)
    then show "\<exists>reply. replyBuf (msgBody m) = Some reply"
      using ok h assms(1) by (auto simp: replyBuf_def rd_def wf_msg_def)
  qed
qed

definition hostile_reply :: MessageBase where
  "hostile_reply = messageFromBody 2 (le_bytes 2 800 @ le_bytes 2 0 @ le_bytes 8 5 @ le_bytes 4 (2 ^ 32 - 16)) 16 True"

theorem accepted_reply_readable_witness:
  "ClientReplyMsg_ToActualMsgType hostile_reply =
     Some (Some \<lparr>rp_currentPrimaryId = 0, rp_reqSeqNum = 5, rp_replyLength = 2 ^ 32 - 16\<rparr>) \<and>
   \<not> (\<exists>reply. replyBuf (msgBody hostile_reply) = Some reply)"
proof
  show acc: "ClientReplyMsg_ToActualMsgType hostile_reply =
     Some (Some \<lparr>rp_currentPrimaryId = 0, rp_reqSeqNum = 5, rp_replyLength = 2 ^ 32 - 16\<rparr>)"
    by (simp add: hostile_reply_def messageFromBody_def ClientReplyMsg_ToActualMsgType_def msgType_def
        replyHeader_def rd_nat_def rd_def le_val_le_bytes u32_def)
  have "wf_msg hostile_reply" "storageSize hostile_reply \<le> 65536"
    by (simp_all add: hostile_reply_def messageFromBody_def wf_msg_def)
  from accepted_reply_readable [OF this acc]
  show "\<not> (\<exists>reply. replyBuf (msgBody hostile_reply) = Some reply)" by simp
qed

end
