(* ===== verification/Threshold_Collector.thy ===== *)
theory Threshold_Collector
  imports Digests
begin

text \<open>
  \<^verbatim>\<open>CollectorOfThresholdSignatures.hpp\<close>: the collector of the signature shares of one phase of one
  sequence number. Shares and full signatures are checked by jobs of a thread pool, whose results
  come back as internal messages. An operation returns the new collector and the job it adds to the
  pool, if any. The iteration order of \<open>std::unordered_map\<close> is the argument \<open>iter\<close>; the interface
  \<^verbatim>\<open>IThresholdVerifier\<close>/\<^verbatim>\<open>IThresholdAccumulator\<close> of the signature library is the record
  \<open>ThresholdVerifier\<close>, whose fields are the virtual methods the engine calls.
\<close>

section \<open>Data\<close>

record 'acc ThresholdVerifier =
  tv_newAccumulator :: "bool \<Rightarrow> 'acc"
  tv_add :: "'acc \<Rightarrow> byte list \<Rightarrow> 'acc \<times> int"
  tv_setExpectedDigest :: "'acc \<Rightarrow> Digest \<Rightarrow> 'acc"
  tv_getFullSignedData :: "'acc \<Rightarrow> nat \<Rightarrow> byte list"
  tv_verify :: "Digest \<Rightarrow> byte list \<Rightarrow> bool"
  tv_requiredLengthForSignedData :: nat

record SignedShare =
  ss_sender :: ReplicaId
  ss_viewNumber :: ViewNum
  ss_seqNumber :: SeqNum
  ss_signature :: "byte list"

datatype SigState = Unknown | Invalid

record RepInfo =
  partialSigMsg :: SignedShare
  sigState :: SigState

datatype Job =
  SignaturesProcessingJob SeqNum ViewNum Digest nat "(ReplicaId \<times> byte list) list"
| CombinedSigVerificationJob SeqNum ViewNum Digest "byte list"

datatype SigInternalMsg =
  CombinedSigFailed SeqNum ViewNum "ReplicaId set"
| CombinedSigSucceeded SeqNum ViewNum "byte list"
| VerifyCombinedSigResult SeqNum ViewNum bool

type_synonym RepInfos = "ReplicaId \<Rightarrow> RepInfo option"

record Collector =
  numOfRequiredSigs :: nat
  processingInBackground :: bool
  numberOfUnknownSignatures :: nat
  replicasInfo :: RepInfos
  combinedValidSignatureMsg :: "SignedShare option"
  candidateCombinedSignatureMsg :: "SignedShare option"
  expectedSeqNumber :: SeqNum
  expectedView :: ViewNum
  expectedDigest :: Digest

definition newCollector :: Collector where
  "newCollector = \<lparr>numOfRequiredSigs = 0, processingInBackground = False, numberOfUnknownSignatures = 0,
     replicasInfo = Map.empty, combinedValidSignatureMsg = None, candidateCombinedSignatureMsg = None,
     expectedSeqNumber = 0, expectedView = 0, expectedDigest = zeroDigest\<rparr>"

section \<open>Scheduling jobs\<close>

text \<open>The loop over \<open>replicasInfo\<close>: shares that are not known to be bad, until the job is full. Adding
  a share to a full job fails its assertion.\<close>

fun collectShares ::
  "nat \<Rightarrow> RepInfos \<Rightarrow> ReplicaId list \<Rightarrow> (ReplicaId \<times> byte list) list \<Rightarrow> (ReplicaId \<times> byte list) list option" where
  "collectShares req infos [] items = Some items"
| "collectShares req infos (r # rs) items = do {
     info \<leftarrow> infos r;
     items \<leftarrow> (if sigState info \<noteq> Invalid
               then do { Assert (length items < req);
                         Some (items @ [(r, ss_signature (partialSigMsg info))]) }
               else Some items);
     if length items = req then Some items else collectShares req infos rs items
   }"

definition trySendToBkThread ::
  "(RepInfos \<Rightarrow> ReplicaId list) \<Rightarrow> nat \<Rightarrow> Collector \<Rightarrow> (Collector \<times> Job option) option" where
  "trySendToBkThread iter requiredSignatures c = do {
     Assert (combinedValidSignatureMsg c = None);
     let c = (if numOfRequiredSigs c = 0 then c\<lparr>numOfRequiredSigs := requiredSignatures\<rparr> else c);
     if processingInBackground c \<or> expectedSeqNumber c = 0 then Some (c, None)
     else case candidateCombinedSignatureMsg c of
       Some m \<Rightarrow> Some (c\<lparr>processingInBackground := True\<rparr>,
                   Some (CombinedSigVerificationJob (expectedSeqNumber c) (expectedView c) (expectedDigest c)
                          (ss_signature m)))
     | None \<Rightarrow>
         if numberOfUnknownSignatures c \<ge> numOfRequiredSigs c
         then do {
           items \<leftarrow> collectShares (numOfRequiredSigs c) (replicasInfo c) (iter (replicasInfo c)) [];
           Assert (length items = numOfRequiredSigs c);
           Some (c\<lparr>processingInBackground := True\<rparr>,
             Some (SignaturesProcessingJob (expectedSeqNumber c) (expectedView c) (expectedDigest c)
                    (numOfRequiredSigs c) items))
         }
         else Some (c, None)
   }"

section \<open>Operations\<close>

definition addMsgWithPartialSignature ::
  "(RepInfos \<Rightarrow> ReplicaId list) \<Rightarrow> nat \<Rightarrow> SignedShare \<Rightarrow> ReplicaId \<Rightarrow> Collector
     \<Rightarrow> (bool \<times> Collector \<times> Job option) option" where
  "addMsgWithPartialSignature iter requiredSignatures msg repId c =
     (if combinedValidSignatureMsg c \<noteq> None \<or> replicasInfo c repId \<noteq> None then Some (False, c, None)
      else do {
        (c, job) \<leftarrow> trySendToBkThread iter requiredSignatures
          (c\<lparr>replicasInfo := (replicasInfo c)(repId \<mapsto> \<lparr>partialSigMsg = msg, sigState = Unknown\<rparr>),
             numberOfUnknownSignatures := numberOfUnknownSignatures c + 1\<rparr>);
        Some (True, c, job)
      })"

definition addMsgWithCombinedSignature ::
  "(RepInfos \<Rightarrow> ReplicaId list) \<Rightarrow> nat \<Rightarrow> SignedShare \<Rightarrow> Collector \<Rightarrow> (bool \<times> Collector \<times> Job option) option" where
  "addMsgWithCombinedSignature iter requiredSignatures msg c =
     (if combinedValidSignatureMsg c \<noteq> None \<or> candidateCombinedSignatureMsg c \<noteq> None
      then Some (False, c, None)
      else do {
        (c, job) \<leftarrow> trySendToBkThread iter requiredSignatures (c\<lparr>candidateCombinedSignatureMsg := Some msg\<rparr>);
        Some (True, c, job)
      })"

definition setExpected ::
  "(RepInfos \<Rightarrow> ReplicaId list) \<Rightarrow> nat \<Rightarrow> SeqNum \<Rightarrow> ViewNum \<Rightarrow> Digest \<Rightarrow> Collector
     \<Rightarrow> (Collector \<times> Job option) option" where
  "setExpected iter requiredSignatures seq view digest c = do {
     Assert (seq \<noteq> 0);
     Assert (expectedSeqNumber c = 0);
     Assert (\<not> processingInBackground c);
     trySendToBkThread iter requiredSignatures
       (c\<lparr>expectedSeqNumber := seq, expectedView := view, expectedDigest := digest\<rparr>)
   }"

definition resetContent :: "Collector \<Rightarrow> Collector" where
  "resetContent c =
     (let c = c\<lparr>processingInBackground := False, numberOfUnknownSignatures := 0, replicasInfo := Map.empty,
                combinedValidSignatureMsg := None, candidateCombinedSignatureMsg := None\<rparr> in
      if expectedSeqNumber c \<noteq> 0
      then c\<lparr>expectedSeqNumber := 0, expectedView := 0, expectedDigest := zeroDigest\<rparr> else c)"

definition alreadyEmpty :: "Collector \<Rightarrow> bool" where
  "alreadyEmpty c \<longleftrightarrow> dom (replicasInfo c) = {} \<and> combinedValidSignatureMsg c = None \<and>
     candidateCombinedSignatureMsg c = None \<and> expectedSeqNumber c = 0"

definition col_resetAndFree :: "Collector \<Rightarrow> Collector" where
  "col_resetAndFree c = (if alreadyEmpty c then c else resetContent c)"

definition col_getAndReset :: "Collector \<Rightarrow> SignedShare option \<times> Collector" where
  "col_getAndReset c =
     (combinedValidSignatureMsg c,
      if alreadyEmpty c then c else resetContent (c\<lparr>combinedValidSignatureMsg := None\<rparr>))"

definition hasPartialMsgFromReplica :: "Collector \<Rightarrow> ReplicaId \<Rightarrow> bool" where
  "hasPartialMsgFromReplica c r \<longleftrightarrow> replicasInfo c r \<noteq> None"

definition getPartialMsgFromReplica :: "Collector \<Rightarrow> ReplicaId \<Rightarrow> SignedShare option" where
  "getPartialMsgFromReplica c r = map_option partialSigMsg (replicasInfo c r)"

definition col_isComplete :: "Collector \<Rightarrow> bool" where
  "col_isComplete c \<longleftrightarrow> combinedValidSignatureMsg c \<noteq> None"

text \<open>The common assertions of the three completions.\<close>

definition completionGuard :: "SeqNum \<Rightarrow> ViewNum \<Rightarrow> Collector \<Rightarrow> bool" where
  "completionGuard seq view c \<longleftrightarrow> expectedSeqNumber c = seq \<and> expectedView c = view \<and>
     processingInBackground c \<and> combinedValidSignatureMsg c = None"

definition markInvalid :: "ReplicaId \<Rightarrow> Collector \<Rightarrow> Collector option" where
  "markInvalid repId c = do {
     info \<leftarrow> replicasInfo c repId;
     Some (c\<lparr>replicasInfo := (replicasInfo c)(repId \<mapsto> info\<lparr>sigState := Invalid\<rparr>),
             numberOfUnknownSignatures := u16 (int (numberOfUnknownSignatures c) - 1)\<rparr>)
   }"

fun markAllInvalid :: "ReplicaId list \<Rightarrow> Collector \<Rightarrow> Collector option" where
  "markAllInvalid [] c = Some c"
| "markAllInvalid (r # rs) c = do { c \<leftarrow> markInvalid r c; markAllInvalid rs c }"

definition onSigsFailed ::
  "(RepInfos \<Rightarrow> ReplicaId list) \<Rightarrow> nat \<Rightarrow> SeqNum \<Rightarrow> ViewNum \<Rightarrow> ReplicaId set \<Rightarrow> Collector
     \<Rightarrow> (Collector \<times> Job option) option" where
  "onSigsFailed iter requiredSignatures seq view replicasWithBadSigs c = do {
     Assert (completionGuard seq view c);
     c \<leftarrow> markAllInvalid (sorted_list_of_set replicasWithBadSigs) (c\<lparr>processingInBackground := False\<rparr>);
     trySendToBkThread iter requiredSignatures c
   }"

definition onSigsSucceeded ::
  "ReplicaId \<Rightarrow> SeqNum \<Rightarrow> ViewNum \<Rightarrow> byte list \<Rightarrow> Collector \<Rightarrow> (Collector \<times> Job option) option" where
  "onSigsSucceeded myId seq view combinedSig c = do {
     Assert (completionGuard seq view c);
     Some (c\<lparr>processingInBackground := False, candidateCombinedSignatureMsg := None,
             combinedValidSignatureMsg :=
               Some \<lparr>ss_sender = myId, ss_viewNumber = view, ss_seqNumber = seq, ss_signature = combinedSig\<rparr>\<rparr>,
           None)
   }"

definition onCombinedSigVerification ::
  "(RepInfos \<Rightarrow> ReplicaId list) \<Rightarrow> nat \<Rightarrow> SeqNum \<Rightarrow> ViewNum \<Rightarrow> bool \<Rightarrow> Collector
     \<Rightarrow> (Collector \<times> Job option) option" where
  "onCombinedSigVerification iter requiredSignatures seq view isValid c = do {
     Assert (completionGuard seq view c);
     Assert (candidateCombinedSignatureMsg c \<noteq> None);
     let c = c\<lparr>processingInBackground := False\<rparr>;
     if isValid
     then Some (c\<lparr>combinedValidSignatureMsg := candidateCombinedSignatureMsg c,
                  candidateCombinedSignatureMsg := None\<rparr>, None)
     else trySendToBkThread iter requiredSignatures (c\<lparr>candidateCombinedSignatureMsg := None\<rparr>)
   }"

text \<open>An internal message is handed to the operation it is about.\<close>

fun onSigInternalMsg ::
  "(RepInfos \<Rightarrow> ReplicaId list) \<Rightarrow> nat \<Rightarrow> ReplicaId \<Rightarrow> SigInternalMsg \<Rightarrow> Collector
     \<Rightarrow> (Collector \<times> Job option) option" where
  "onSigInternalMsg iter req myId (CombinedSigFailed s v bad) c = onSigsFailed iter req s v bad c"
| "onSigInternalMsg iter req myId (CombinedSigSucceeded s v sig) c = onSigsSucceeded myId s v sig c"
| "onSigInternalMsg iter req myId (VerifyCombinedSigResult s v ok) c = onCombinedSigVerification iter req s v ok c"

section \<open>The jobs\<close>

text \<open>The second pass of \<open>SignaturesProcessingJob::execute\<close>: a share after which the number of valid
  shares is not one more than before is bad.\<close>

fun findBadSigs ::
  "'acc ThresholdVerifier \<Rightarrow> 'acc \<Rightarrow> nat \<Rightarrow> (ReplicaId \<times> byte list) list \<Rightarrow> ReplicaId set" where
  "findBadSigs tv acc prevNumOfValidShares [] = {}"
| "findBadSigs tv acc prevNumOfValidShares ((r, sig) # items) =
     (let (acc, n) = tv_add tv acc sig; currNumOfValidShares = u16 n;
          rest = findBadSigs tv acc currNumOfValidShares items
      in if prevNumOfValidShares + 1 \<noteq> currNumOfValidShares then insert r rest else rest)"

definition combineShares :: "'acc ThresholdVerifier \<Rightarrow> Digest \<Rightarrow> (ReplicaId \<times> byte list) list \<Rightarrow> byte list" where
  "combineShares tv digest items =
     (let acc = fold (\<lambda>(r, sig) acc. fst (tv_add tv acc sig)) items (tv_newAccumulator tv False)
      in tv_getFullSignedData tv (tv_setExpectedDigest tv acc digest) (u16 (int (tv_requiredLengthForSignedData tv))))"

fun execute :: "'acc ThresholdVerifier \<Rightarrow> Job \<Rightarrow> SigInternalMsg option" where
  "execute tv (SignaturesProcessingJob seq view digest req items) = do {
     Assert (length items = req);
     let sig = combineShares tv digest items;
     if tv_verify tv digest sig then Some (CombinedSigSucceeded seq view sig)
     else Some (CombinedSigFailed seq view
            (findBadSigs tv (tv_setExpectedDigest tv (tv_newAccumulator tv True) digest) 0 items))
   }"
| "execute tv (CombinedSigVerificationJob seq view digest sig) =
     Some (VerifyCombinedSigResult seq view (tv_verify tv digest sig))"

section \<open>The collector with its background job\<close>

text \<open>The state of the system is the collector and the job in the pool whose result has not arrived
  yet. A result that arrives after a reset is dropped by the replica, which compares view and window
  before it calls the collector; so \<open>reset\<close> discards the job. Senders are replicas, whose number
  is an \<open>int16_t\<close>.\<close>

type_synonym CollectorSystem = "Collector \<times> Job option"

definition later :: "Job option \<Rightarrow> Job option \<Rightarrow> Job option" where
  "later j j' = (if j' = None then j else j')"

inductive collector_step ::
  "'acc ThresholdVerifier \<Rightarrow> (RepInfos \<Rightarrow> ReplicaId list) \<Rightarrow> nat \<Rightarrow> ReplicaId
     \<Rightarrow> CollectorSystem \<Rightarrow> CollectorSystem \<Rightarrow> bool"
  for tv iter req myId where
  partial: "r < 32768 \<Longrightarrow> addMsgWithPartialSignature iter req m r c = Some (b, c', j') \<Longrightarrow>
     collector_step tv iter req myId (c, j) (c', later j j')"
| combined: "addMsgWithCombinedSignature iter req m c = Some (b, c', j') \<Longrightarrow>
     collector_step tv iter req myId (c, j) (c', later j j')"
| expect: "setExpected iter req seq view digest c = Some (c', j') \<Longrightarrow>
     collector_step tv iter req myId (c, j) (c', later j j')"
| complete: "execute tv job = Some im \<Longrightarrow> onSigInternalMsg iter req myId im c = Some (c', j') \<Longrightarrow>
     collector_step tv iter req myId (c, Some job) (c', j')"
| reset: "collector_step tv iter req myId (c, j) (col_resetAndFree c, None)"

inductive collector_reachable ::
  "'acc ThresholdVerifier \<Rightarrow> (RepInfos \<Rightarrow> ReplicaId list) \<Rightarrow> nat \<Rightarrow> ReplicaId \<Rightarrow> CollectorSystem \<Rightarrow> bool"
  for tv iter req myId where
  start: "collector_reachable tv iter req myId (newCollector, None)"
| step: "collector_reachable tv iter req myId s \<Longrightarrow> collector_step tv iter req myId s s' \<Longrightarrow>
     collector_reachable tv iter req myId s'"

inductive_cases collector_stepE: "collector_step tv iter req myId s s'"

text \<open>What the iteration over an \<open>unordered_map\<close> guarantees: every key once, in some order.\<close>

definition iter_ok :: "(RepInfos \<Rightarrow> ReplicaId list) \<Rightarrow> bool" where
  "iter_ok iter \<longleftrightarrow> (\<forall>infos. finite (dom infos) \<longrightarrow> distinct (iter infos) \<and> set (iter infos) = dom infos)"

section \<open>The invariant\<close>

definition isUnknown :: "RepInfos \<Rightarrow> ReplicaId \<Rightarrow> bool" where
  "isUnknown infos r \<longleftrightarrow> (case infos r of None \<Rightarrow> False | Some i \<Rightarrow> sigState i = Unknown)"

definition shareOf :: "RepInfos \<Rightarrow> ReplicaId \<Rightarrow> byte list" where
  "shareOf infos r = ss_signature (partialSigMsg (the (infos r)))"

fun job_ok :: "nat \<Rightarrow> Collector \<Rightarrow> Job \<Rightarrow> bool" where
  "job_ok req c (SignaturesProcessingJob s v d n items) \<longleftrightarrow>
     s = expectedSeqNumber c \<and> v = expectedView c \<and> d = expectedDigest c \<and> n = req \<and>
     length items = req \<and> distinct (map fst items) \<and>
     (\<forall>(r, sig) \<in> set items. isUnknown (replicasInfo c) r \<and> sig = shareOf (replicasInfo c) r)"
| "job_ok req c (CombinedSigVerificationJob s v d sig) \<longleftrightarrow>
     s = expectedSeqNumber c \<and> v = expectedView c \<and> d = expectedDigest c \<and>
     map_option ss_signature (candidateCombinedSignatureMsg c) = Some sig"

definition counts_ok :: "nat \<Rightarrow> Collector \<Rightarrow> bool" where
  "counts_ok req c \<longleftrightarrow> dom (replicasInfo c) \<subseteq> {..<32768} \<and>
     numberOfUnknownSignatures c = card {r. isUnknown (replicasInfo c) r} \<and>
     (numOfRequiredSigs c = 0 \<or> numOfRequiredSigs c = req)"

text \<open>A collector that waits has nothing it could check: no candidate and too few shares.\<close>

definition nothing_to_do :: "nat \<Rightarrow> Collector \<Rightarrow> bool" where
  "nothing_to_do req c \<longleftrightarrow> candidateCombinedSignatureMsg c = None \<and> numberOfUnknownSignatures c < req"

definition collector_inv :: "'acc ThresholdVerifier \<Rightarrow> nat \<Rightarrow> CollectorSystem \<Rightarrow> bool" where
  "collector_inv tv req s \<longleftrightarrow>
     (let (c, j) = s in
      counts_ok req c \<and> (processingInBackground c \<longleftrightarrow> j \<noteq> None) \<and>
      (\<forall>job. j = Some job \<longrightarrow> job_ok req c job \<and> expectedSeqNumber c \<noteq> 0) \<and>
      (\<forall>m. combinedValidSignatureMsg c = Some m \<longrightarrow>
         j = None \<and> expectedSeqNumber c \<noteq> 0 \<and> tv_verify tv (expectedDigest c) (ss_signature m)) \<and>
      (j = None \<and> expectedSeqNumber c \<noteq> 0 \<and> combinedValidSignatureMsg c = None \<longrightarrow> nothing_to_do req c))"

lemma isUnknown_dom: "isUnknown infos r \<Longrightarrow> r \<in> dom infos"
  by (auto simp: isUnknown_def split: option.splits)

lemma finite_unknown: "finite (dom infos) \<Longrightarrow> finite {r. isUnknown infos r}"
  by (rule finite_subset [of _ "dom infos"]) (auto dest: isUnknown_dom)

lemma collectShares_eq:
  assumes "length items < req" "\<forall>r \<in> set rs. infos r \<noteq> None"
  shows "collectShares req infos rs items =
           Some (items @ map (\<lambda>r. (r, shareOf infos r)) (take (req - length items) (filter (isUnknown infos) rs)))"
  using assms
proof (induction rs arbitrary: items)
  case (Cons r rs)
  obtain info where info: "infos r = Some info" using Cons.prems(2) by auto
  show ?case
  proof (cases "sigState info")
    case Invalid
    then show ?thesis using Cons info by (simp add: isUnknown_def)
  next
    case Unknown
    let ?items = "items @ [(r, shareOf infos r)]"
    have "collectShares req infos (r # rs) items =
        (if length ?items = req then Some ?items else collectShares req infos rs ?items)"
      using Unknown info Cons.prems(1) by (simp add: shareOf_def)
    moreover have "isUnknown infos r" using Unknown info by (simp add: isUnknown_def)
    moreover have "take (req - length items) (r # xs) = r # take (req - length ?items) xs" for xs :: "ReplicaId list"
      using Cons.prems(1) by (simp add: take_Cons' Suc_diff_Suc)
    ultimately show ?thesis using Cons.IH [of ?items] Cons.prems by auto
  qed
qed simp

lemma unknown_count:
  assumes "iter_ok iter" "finite (dom infos)"
  shows "length (filter (isUnknown infos) (iter infos)) = card {r. isUnknown infos r}"
proof -
  have eq: "{r. isUnknown infos r} = set (filter (isUnknown infos) (iter infos))"
    using assms by (auto simp: iter_ok_def isUnknown_def split: option.splits)
  have "distinct (filter (isUnknown infos) (iter infos))" using assms by (simp add: iter_ok_def)
  then show ?thesis unfolding eq by (rule distinct_card [symmetric])
qed

lemma counts_finite: "counts_ok req c \<Longrightarrow> finite (dom (replicasInfo c))"
  by (auto simp: counts_ok_def intro: finite_subset)

text \<open>Calling \<open>trySendToBkThread\<close> from a state that is correct except that it may have something to
  do restores the invariant, and never fails.\<close>

lemma trySendToBkThread_ok:
  assumes iter: "iter_ok iter" and req: "0 < req" and cnt: "counts_ok req c"
    and nv: "combinedValidSignatureMsg c = None"
    and proc: "processingInBackground c \<longleftrightarrow> j \<noteq> None"
    and job: "\<And>job. j = Some job \<Longrightarrow> job_ok req c job \<and> expectedSeqNumber c \<noteq> 0"
  shows "\<exists>c' j'. trySendToBkThread iter req c = Some (c', j') \<and> collector_inv tv req (c', later j j')"
proof -
  define d where "d = (if numOfRequiredSigs c = 0 then c\<lparr>numOfRequiredSigs := req\<rparr> else c)"
  have d: "numOfRequiredSigs d = req" "counts_ok req d" "replicasInfo d = replicasInfo c"
    "processingInBackground d = processingInBackground c" "combinedValidSignatureMsg d = None"
    "candidateCombinedSignatureMsg d = candidateCombinedSignatureMsg c"
    "expectedSeqNumber d = expectedSeqNumber c" "expectedView d = expectedView c"
    "expectedDigest d = expectedDigest c" "numberOfUnknownSignatures d = numberOfUnknownSignatures c"
    using cnt nv by (auto simp: d_def counts_ok_def)
  have jd: "job_ok req d job \<longleftrightarrow> job_ok req c job" for job
    using d by (cases job) simp_all
  have try_eq: "trySendToBkThread iter req c =
     (if processingInBackground c \<or> expectedSeqNumber c = 0 then Some (d, None)
      else case candidateCombinedSignatureMsg c of
        Some m \<Rightarrow> Some (d\<lparr>processingInBackground := True\<rparr>,
          Some (CombinedSigVerificationJob (expectedSeqNumber c) (expectedView c) (expectedDigest c) (ss_signature m)))
      | None \<Rightarrow>
         if numberOfUnknownSignatures c \<ge> req
         then do {
           items \<leftarrow> collectShares req (replicasInfo c) (iter (replicasInfo c)) [];
           Assert (length items = req);
           Some (d\<lparr>processingInBackground := True\<rparr>,
             Some (SignaturesProcessingJob (expectedSeqNumber c) (expectedView c) (expectedDigest c) req items))
         }
         else Some (d, None))"
    unfolding trySendToBkThread_def Let_def d_def [symmetric] using nv d
    by (simp cong: if_cong option.case_cong)
  consider (idle) "processingInBackground c \<or> expectedSeqNumber c = 0"
    | (cand) m where "\<not> processingInBackground c" "expectedSeqNumber c \<noteq> 0" "candidateCombinedSignatureMsg c = Some m"
    | (shares) "\<not> processingInBackground c" "expectedSeqNumber c \<noteq> 0" "candidateCombinedSignatureMsg c = None"
        "numberOfUnknownSignatures c \<ge> req"
    | (none) "\<not> processingInBackground c" "expectedSeqNumber c \<noteq> 0" "candidateCombinedSignatureMsg c = None"
        "numberOfUnknownSignatures c < req"
    by fastforce
  then show ?thesis
  proof cases
    case idle
    have "collector_inv tv req (d, j)"
      using idle proc job d jd by (auto simp: collector_inv_def)
    then show ?thesis using idle by (simp add: try_eq later_def)
  next
    case cand
    let ?job = "CombinedSigVerificationJob (expectedSeqNumber c) (expectedView c) (expectedDigest c) (ss_signature m)"
    have "collector_inv tv req (d\<lparr>processingInBackground := True\<rparr>, Some ?job)"
      using cand d by (simp add: collector_inv_def counts_ok_def)
    then show ?thesis using cand by (simp add: try_eq later_def)
  next
    case shares
    let ?infos = "replicasInfo c"
    obtain rs where rs: "collectShares req ?infos (iter ?infos) [] = Some (map (\<lambda>r. (r, shareOf ?infos r)) rs)"
      "length rs = req" "distinct rs" "\<forall>r \<in> set rs. isUnknown ?infos r"
    proof -
      let ?rs = "take req (filter (isUnknown ?infos) (iter ?infos))"
      have "\<forall>r \<in> set (iter ?infos). ?infos r \<noteq> None"
        using iter counts_finite [OF cnt] by (auto simp: iter_ok_def)
      then have "collectShares req ?infos (iter ?infos) [] = Some (map (\<lambda>r. (r, shareOf ?infos r)) ?rs)"
        using collectShares_eq [of "[]" req "iter ?infos" ?infos] req by simp
      moreover have "length ?rs = req"
        using shares(4) unknown_count [OF iter counts_finite [OF cnt]] cnt by (simp add: counts_ok_def)
      moreover have "distinct ?rs" using iter counts_finite [OF cnt] by (simp add: iter_ok_def)
      moreover have "\<forall>r \<in> set ?rs. isUnknown ?infos r"
        using set_take_subset [of req "filter (isUnknown ?infos) (iter ?infos)"] by auto
      ultimately show thesis by (rule that)
    qed
    let ?items = "map (\<lambda>r. (r, shareOf ?infos r)) rs"
    let ?job = "SignaturesProcessingJob (expectedSeqNumber c) (expectedView c) (expectedDigest c) req ?items"
    have "job_ok req (d\<lparr>processingInBackground := True\<rparr>) ?job"
      using rs d by (simp add: comp_def)
    then have "collector_inv tv req (d\<lparr>processingInBackground := True\<rparr>, Some ?job)"
      using shares d by (simp add: collector_inv_def counts_ok_def)
    then show ?thesis using shares rs(1,2) by (simp add: try_eq later_def)
  next
    case none
    have "collector_inv tv req (d, None)"
      using none d proc by (simp add: collector_inv_def nothing_to_do_def)
    moreover have "j = None" using none proc by simp
    ultimately show ?thesis using none by (simp add: try_eq later_def)
  qed
qed

section \<open>Every operation keeps the invariant\<close>

lemma isUnknown_upd:
  "isUnknown (infos(r \<mapsto> i)) q \<longleftrightarrow> (if q = r then sigState i = Unknown else isUnknown infos q)"
  by (simp add: isUnknown_def)

lemma unknown_set_upd:
  "{q. isUnknown (infos(r \<mapsto> i)) q} =
     (if sigState i = Unknown then insert r {q. isUnknown infos q} else {q. isUnknown infos q} - {r})"
  by (auto simp: isUnknown_upd)

lemma isUnknown_None: "infos r = None \<Longrightarrow> \<not> isUnknown infos r"
  by (simp add: isUnknown_def)

lemma addMsgWithPartialSignature_ok:
  assumes "iter_ok iter" "0 < req" and inv: "collector_inv tv req (c, j)" and r: "r < 32768"
  shows "\<exists>b c' j'. addMsgWithPartialSignature iter req m r c = Some (b, c', j') \<and>
           collector_inv tv req (c', later j j')"
proof (cases "combinedValidSignatureMsg c \<noteq> None \<or> replicasInfo c r \<noteq> None")
  case True
  then show ?thesis using inv
    by (intro exI [of _ False] exI [of _ c] exI [of _ None])
      (simp add: addMsgWithPartialSignature_def later_def)
next
  case False
  let ?c = "c\<lparr>replicasInfo := (replicasInfo c)(r \<mapsto> \<lparr>partialSigMsg = m, sigState = Unknown\<rparr>),
             numberOfUnknownSignatures := numberOfUnknownSignatures c + 1\<rparr>"
  have cnt: "counts_ok req c" using inv by (simp add: collector_inv_def)
  have "card {q. isUnknown (replicasInfo ?c) q} = card {q. isUnknown (replicasInfo c) q} + 1"
    using finite_unknown [OF counts_finite [OF cnt]] False isUnknown_None [of "replicasInfo c" r]
    by (simp add: unknown_set_upd)
  then have "counts_ok req ?c" using cnt r by (auto simp: counts_ok_def)
  moreover have other: "isUnknown (replicasInfo ?c) q \<and> shareOf (replicasInfo ?c) q = shareOf (replicasInfo c) q"
    if "isUnknown (replicasInfo c) q" for q
    using that False isUnknown_None [of "replicasInfo c" r] by (auto simp: isUnknown_upd shareOf_def)
  moreover have "job_ok req ?c job" if "job_ok req c job" for job
    using that other by (cases job) fastforce+
  ultimately obtain c' j' where "trySendToBkThread iter req ?c = Some (c', j')"
    "collector_inv tv req (c', later j j')"
    using trySendToBkThread_ok [OF assms(1,2), of ?c j tv] False inv by (auto simp: collector_inv_def)
  then show ?thesis
    using False by (intro exI [of _ True] exI [of _ c'] exI [of _ j']) (simp add: addMsgWithPartialSignature_def)
qed

lemma addMsgWithCombinedSignature_ok:
  assumes "iter_ok iter" "0 < req" and inv: "collector_inv tv req (c, j)"
  shows "\<exists>b c' j'. addMsgWithCombinedSignature iter req m c = Some (b, c', j') \<and>
           collector_inv tv req (c', later j j')"
proof (cases "combinedValidSignatureMsg c \<noteq> None \<or> candidateCombinedSignatureMsg c \<noteq> None")
  case True
  then show ?thesis using inv
    by (intro exI [of _ False] exI [of _ c] exI [of _ None])
      (simp add: addMsgWithCombinedSignature_def later_def)
next
  case False
  let ?c = "c\<lparr>candidateCombinedSignatureMsg := Some m\<rparr>"
  have "counts_ok req ?c" using inv by (simp add: collector_inv_def counts_ok_def)
  moreover have "job_ok req ?c job" if "job_ok req c job" for job
    using that False by (cases job) auto
  ultimately obtain c' j' where "trySendToBkThread iter req ?c = Some (c', j')"
    "collector_inv tv req (c', later j j')"
    using trySendToBkThread_ok [OF assms(1,2), of ?c j tv] False inv by (auto simp: collector_inv_def)
  then show ?thesis
    using False by (intro exI [of _ True] exI [of _ c'] exI [of _ j']) (simp add: addMsgWithCombinedSignature_def)
qed

lemma setExpected_ok:
  assumes "iter_ok iter" "0 < req" and inv: "collector_inv tv req (c, j)"
    and "seq \<noteq> 0" "expectedSeqNumber c = 0"
  shows "\<exists>c' j'. setExpected iter req seq view digest c = Some (c', j') \<and> collector_inv tv req (c', later j j')"
proof -
  let ?c = "c\<lparr>expectedSeqNumber := seq, expectedView := view, expectedDigest := digest\<rparr>"
  have j: "j = None" "\<not> processingInBackground c" "combinedValidSignatureMsg c = None"
    using inv assms(5) by (auto simp: collector_inv_def)
  have "counts_ok req ?c" using inv by (simp add: collector_inv_def counts_ok_def)
  then show ?thesis
    using trySendToBkThread_ok [OF assms(1,2), of ?c j tv] j assms(4,5) by (simp add: setExpected_def)
qed

lemma markInvalid_ok:
  assumes "counts_ok req c" "isUnknown (replicasInfo c) r"
  shows "\<exists>c'. markInvalid r c = Some c' \<and> counts_ok req c' \<and>
           (\<exists>infos n. c' = c\<lparr>replicasInfo := infos, numberOfUnknownSignatures := n\<rparr>) \<and>
           shareOf (replicasInfo c') = shareOf (replicasInfo c) \<and>
           {q. isUnknown (replicasInfo c') q} = {q. isUnknown (replicasInfo c) q} - {r}"
proof -
  obtain info where info: "replicasInfo c r = Some info" using assms(2) by (auto simp: isUnknown_def split: option.splits)
  let ?U = "{q. isUnknown (replicasInfo c) q}"
  have fin: "finite ?U" using finite_unknown counts_finite [OF assms(1)] by blast
  have n: "numberOfUnknownSignatures c = card ?U" using assms(1) by (simp add: counts_ok_def)
  have sub: "?U \<subseteq> {..<32768}" using assms(1) isUnknown_dom by (fastforce simp: counts_ok_def)
  have "0 < card ?U" using fin assms(2) by (auto simp: card_gt_0_iff)
  moreover have "card ?U \<le> 32768" using card_mono [OF _ sub] by simp
  ultimately have "u16 (int (numberOfUnknownSignatures c) - 1) = card (?U - {r})"
    using assms(2) fin by (simp add: n u16_id nat_diff_distrib' card_Diff_singleton)
  then show ?thesis
    using info assms(1)
    by (auto simp: markInvalid_def counts_ok_def unknown_set_upd shareOf_def fun_eq_iff)
qed

lemma markAllInvalid_ok:
  assumes "counts_ok req c" "distinct rs" "\<forall>r \<in> set rs. isUnknown (replicasInfo c) r"
  shows "\<exists>c'. markAllInvalid rs c = Some c' \<and> counts_ok req c' \<and>
           (\<exists>infos n. c' = c\<lparr>replicasInfo := infos, numberOfUnknownSignatures := n\<rparr>) \<and>
           shareOf (replicasInfo c') = shareOf (replicasInfo c) \<and>
           {q. isUnknown (replicasInfo c') q} = {q. isUnknown (replicasInfo c) q} - set rs"
  using assms
proof (induction rs arbitrary: c)
  case Nil
  then show ?case
    by (intro exI [of _ c] conjI exI [of _ "replicasInfo c"] exI [of _ "numberOfUnknownSignatures c"]) simp_all
next
  case (Cons r rs)
  obtain d infos n where d: "markInvalid r c = Some d" "counts_ok req d"
    "d = c\<lparr>replicasInfo := infos, numberOfUnknownSignatures := n\<rparr>"
    "{q. isUnknown (replicasInfo d) q} = {q. isUnknown (replicasInfo c) q} - {r}"
    "shareOf (replicasInfo d) = shareOf (replicasInfo c)"
    using markInvalid_ok [OF Cons.prems(1), of r] Cons.prems(3) by auto
  have "\<forall>q \<in> set rs. isUnknown (replicasInfo d) q"
    using d(4) Cons.prems(2,3) by auto
  then obtain e infos' n' where e: "markAllInvalid rs d = Some e" "counts_ok req e"
    "e = d\<lparr>replicasInfo := infos', numberOfUnknownSignatures := n'\<rparr>"
    "{q. isUnknown (replicasInfo e) q} = {q. isUnknown (replicasInfo d) q} - set rs"
    "shareOf (replicasInfo e) = shareOf (replicasInfo d)"
    using Cons.IH [OF d(2)] Cons.prems(2) by auto
  have "e = c\<lparr>replicasInfo := infos', numberOfUnknownSignatures := n'\<rparr>" using d(3) e(3) by simp
  moreover have "{q. isUnknown (replicasInfo e) q} = {q. isUnknown (replicasInfo c) q} - set (r # rs)"
    unfolding e(4) d(4) by auto
  ultimately show ?case using d(1,5) e(1,2,5) by auto
qed

lemma findBadSigs_subset: "findBadSigs tv acc n items \<subseteq> fst ` set items"
proof (induction items arbitrary: acc n)
  case (Cons p items)
  obtain r sig where p: "p = (r, sig)" by (cases p)
  show ?case
    using Cons [of "fst (tv_add tv acc sig)" "u16 (snd (tv_add tv acc sig))"]
    by (auto simp: p Let_def split: prod.splits if_splits)
qed simp

text \<open>The result of the job that is out is accepted: no assertion fails and the invariant is back.\<close>

lemma job_completes:
  assumes iter: "iter_ok iter" and req: "0 < req" and inv: "collector_inv tv req (c, Some job)"
  shows "\<exists>im c' j'. execute tv job = Some im \<and> onSigInternalMsg iter req myId im c = Some (c', j') \<and>
           collector_inv tv req (c', j')"
proof -
  have cnt: "counts_ok req c" and pr: "processingInBackground c" and nv: "combinedValidSignatureMsg c = None"
    and job: "job_ok req c job" and ex: "expectedSeqNumber c \<noteq> 0"
    using inv by (auto simp: collector_inv_def)
  have guard: "completionGuard (expectedSeqNumber c) (expectedView c) c"
    using pr nv by (simp add: completionGuard_def)
  let ?c = "c\<lparr>processingInBackground := False\<rparr>"
  have cnt': "counts_ok req ?c" using cnt by (simp add: counts_ok_def)
  show ?thesis
  proof (cases job)
    case (CombinedSigVerificationJob s v d sig)
    then obtain m where m: "candidateCombinedSignatureMsg c = Some m" "ss_signature m = sig"
      and svd: "s = expectedSeqNumber c" "v = expectedView c" "d = expectedDigest c" using job by auto
    let ?d = "?c\<lparr>candidateCombinedSignatureMsg := None\<rparr>"
    show ?thesis
    proof (cases "tv_verify tv d sig")
      case True
      have "collector_inv tv req (?c\<lparr>combinedValidSignatureMsg := Some m, candidateCombinedSignatureMsg := None\<rparr>, None)"
        using cnt True svd m ex by (simp add: collector_inv_def counts_ok_def)
      then show ?thesis using True CombinedSigVerificationJob svd guard m
        by (simp add: onCombinedSigVerification_def)
    next
      case False
      have "counts_ok req ?d" using cnt by (simp add: counts_ok_def)
      then obtain c' j' where "trySendToBkThread iter req ?d = Some (c', j')" "collector_inv tv req (c', j')"
        using trySendToBkThread_ok [OF iter req, of ?d None tv] nv by (auto simp: later_def split: if_splits)
      then show ?thesis using False CombinedSigVerificationJob svd guard m
        by (simp add: onCombinedSigVerification_def)
    qed
  next
    case (SignaturesProcessingJob s v d n items)
    then have svd: "s = expectedSeqNumber c" "v = expectedView c" "d = expectedDigest c" "length items = n"
      and it: "\<forall>(r, sig) \<in> set items. isUnknown (replicasInfo c) r" using job by auto
    let ?sig = "combineShares tv d items"
    show ?thesis
    proof (cases "tv_verify tv d ?sig")
      case True
      let ?m = "\<lparr>ss_sender = myId, ss_viewNumber = v, ss_seqNumber = s, ss_signature = ?sig\<rparr>"
      have "collector_inv tv req (?c\<lparr>candidateCombinedSignatureMsg := None, combinedValidSignatureMsg := Some ?m\<rparr>, None)"
        using cnt True svd ex by (simp add: collector_inv_def counts_ok_def)
      then show ?thesis using True SignaturesProcessingJob svd guard
        by (simp add: onSigsSucceeded_def Let_def)
    next
      case False
      let ?bad = "findBadSigs tv (tv_setExpectedDigest tv (tv_newAccumulator tv True) d) 0 items"
      have fin: "finite ?bad" by (rule finite_subset [OF findBadSigs_subset]) simp
      have "\<forall>r \<in> ?bad. isUnknown (replicasInfo c) r" using findBadSigs_subset it by fastforce
      then obtain e infos k where e: "markAllInvalid (sorted_list_of_set ?bad) ?c = Some e" "counts_ok req e"
        "e = ?c\<lparr>replicasInfo := infos, numberOfUnknownSignatures := k\<rparr>"
        using markAllInvalid_ok [OF cnt', of "sorted_list_of_set ?bad"] fin by auto
      then obtain c' j' where "trySendToBkThread iter req e = Some (c', j')" "collector_inv tv req (c', j')"
        using trySendToBkThread_ok [OF iter req e(2), of None tv] nv by (auto simp: later_def split: if_splits)
      then show ?thesis using False SignaturesProcessingJob svd guard e(1)
        by (simp add: onSigsFailed_def Let_def)
    qed
  qed
qed

lemma col_reset_ok:
  assumes "collector_inv tv req (c, j)"
  shows "collector_inv tv req (col_resetAndFree c, None)"
proof (cases "alreadyEmpty c")
  case True
  then have "j = None" using assms by (cases j) (auto simp: collector_inv_def alreadyEmpty_def)
  then show ?thesis using assms True by (simp add: col_resetAndFree_def)
next
  case False
  have "counts_ok req (resetContent c)" "combinedValidSignatureMsg (resetContent c) = None"
    "expectedSeqNumber (resetContent c) = 0" "\<not> processingInBackground (resetContent c)"
    using assms by (simp_all add: resetContent_def Let_def counts_ok_def isUnknown_def collector_inv_def)
  then show ?thesis using False by (simp add: col_resetAndFree_def collector_inv_def)
qed

lemma newCollector_ok: "0 < req \<Longrightarrow> collector_inv tv req (newCollector, None)"
  by (simp add: newCollector_def collector_inv_def counts_ok_def isUnknown_def)

lemma setExpected_Some:
  "setExpected iter req seq view digest c = Some x \<Longrightarrow> seq \<noteq> 0 \<and> expectedSeqNumber c = 0"
  by (auto simp: setExpected_def)

lemma collector_step_inv:
  assumes "iter_ok iter" "0 < req" "collector_step tv iter req myId s s'" "collector_inv tv req s"
  shows "collector_inv tv req s'"
  using assms(3,4)
proof cases
  case (partial r m c b c' j' j)
  then show ?thesis using addMsgWithPartialSignature_ok [OF assms(1,2), of tv c j r m] assms(4) by auto
next
  case (combined m c b c' j' j)
  then show ?thesis using addMsgWithCombinedSignature_ok [OF assms(1,2), of tv c j m] assms(4) by auto
next
  case (expect seq view digest c c' j' j)
  then show ?thesis
    using setExpected_ok [OF assms(1,2), of tv c j seq view digest] setExpected_Some assms(4) by auto
next
  case (complete job im c c' j')
  then show ?thesis using job_completes [OF assms(1,2), of tv c job myId] assms(4) by auto
next
  case (reset c j)
  then show ?thesis using col_reset_ok assms(4) by blast
qed

lemma collector_reachable_inv:
  assumes "iter_ok iter" "0 < req" "collector_reachable tv iter req myId s"
  shows "collector_inv tv req s"
  using assms(3)
  by (induction rule: collector_reachable.induct)
    (auto simp: newCollector_ok assms(2) intro: collector_step_inv [OF assms(1,2)])

section \<open>A verifier\<close>

text \<open>The documented behaviour of the signature library that progress depends on: adding a share to a
  verifying accumulator raises its size by one exactly when the share is valid, and the combination of
  the required number of valid shares verifies.\<close>

definition sound_scheme ::
  "'acc ThresholdVerifier \<Rightarrow> ('acc \<Rightarrow> nat) \<Rightarrow> (Digest \<Rightarrow> byte list \<Rightarrow> bool) \<Rightarrow> ('acc \<Rightarrow> Digest option) \<Rightarrow> nat \<Rightarrow> bool" where
  "sound_scheme tv accSize share_ok accDigest req \<longleftrightarrow>
     req < 65536 \<and>
     (\<forall>d. accSize (tv_setExpectedDigest tv (tv_newAccumulator tv True) d) = 0 \<and>
          accDigest (tv_setExpectedDigest tv (tv_newAccumulator tv True) d) = Some d) \<and>
     (\<forall>acc d sig. accDigest acc = Some d \<longrightarrow>
        accSize (fst (tv_add tv acc sig)) = accSize acc + (if share_ok d sig then 1 else 0) \<and>
        accDigest (fst (tv_add tv acc sig)) = Some d \<and>
        snd (tv_add tv acc sig) = int (accSize (fst (tv_add tv acc sig)))) \<and>
     (\<forall>d items. length items = req \<and> distinct (map fst items) \<and> (\<forall>(r, sig) \<in> set items. share_ok d sig) \<longrightarrow>
        tv_verify tv d (combineShares tv d items))"

text \<open>C7: in every reachable state of a collector, a combined signature it holds verifies against the
  digest it expects, whatever shares and full signatures were received and in whatever order the
  background results arrived; and a signature job in the pool carries exactly the required number of
  shares, from distinct senders.\<close>

theorem collector_holds_only_valid_signatures:
  assumes "iter_ok iter" "0 < req" "collector_reachable tv iter req myId (c, j)"
  shows "(\<forall>m. combinedValidSignatureMsg c = Some m \<longrightarrow>
            expectedSeqNumber c \<noteq> 0 \<and> tv_verify tv (expectedDigest c) (ss_signature m)) \<and>
         (\<forall>s v d n items. j = Some (SignaturesProcessingJob s v d n items) \<longrightarrow>
            s = expectedSeqNumber c \<and> v = expectedView c \<and> d = expectedDigest c \<and>
            length items = req \<and> distinct (map fst items))"
  using collector_reachable_inv [OF assms] by (auto simp: collector_inv_def)

text \<open>C16: a reachable collector never fails an assertion: the operations that receive a share or a
  full signature always return; so does \<open>setExpected\<close> the first time; and when a job is out, running
  it and handling its result succeeds. While no job is out and the signature is still missing, there
  is nothing the collector could check.\<close>

theorem collector_never_stuck:
  assumes "iter_ok iter" "0 < req" "collector_reachable tv iter req myId (c, j)"
  shows "(r < 32768 \<longrightarrow> addMsgWithPartialSignature iter req m r c \<noteq> None) \<and>
         addMsgWithCombinedSignature iter req m c \<noteq> None \<and>
         (seq \<noteq> 0 \<and> expectedSeqNumber c = 0 \<longrightarrow> setExpected iter req seq view digest c \<noteq> None) \<and>
         (\<forall>job. j = Some job \<longrightarrow>
            (\<exists>im. execute tv job = Some im \<and> onSigInternalMsg iter req myId im c \<noteq> None)) \<and>
         (j = None \<and> expectedSeqNumber c \<noteq> 0 \<and> \<not> col_isComplete c \<longrightarrow>
            candidateCombinedSignatureMsg c = None \<and> numberOfUnknownSignatures c < req)"
proof -
  note inv = collector_reachable_inv [OF assms]
  have "\<exists>im. execute tv job = Some im \<and> onSigInternalMsg iter req myId im c \<noteq> None" if "j = Some job" for job
    using job_completes [OF assms(1,2), of tv c job myId] inv that by blast
  moreover have "j = None \<and> expectedSeqNumber c \<noteq> 0 \<and> \<not> col_isComplete c \<longrightarrow>
      candidateCombinedSignatureMsg c = None \<and> numberOfUnknownSignatures c < req"
    using inv by (auto simp: collector_inv_def nothing_to_do_def col_isComplete_def)
  ultimately show ?thesis
    using addMsgWithPartialSignature_ok [OF assms(1,2) inv, of r m]
      addMsgWithCombinedSignature_ok [OF assms(1,2) inv, of m]
      setExpected_ok [OF assms(1,2) inv, of seq view digest] by auto
qed

section \<open>Progress\<close>

text \<open>The pool runs the jobs one after the other; fuel bounds their number.\<close>

fun runJobs ::
  "'acc ThresholdVerifier \<Rightarrow> (RepInfos \<Rightarrow> ReplicaId list) \<Rightarrow> nat \<Rightarrow> ReplicaId \<Rightarrow> nat \<Rightarrow> CollectorSystem
     \<Rightarrow> CollectorSystem option" where
  "runJobs tv iter req myId n (c, None) = Some (c, None)"
| "runJobs tv iter req myId 0 (c, Some job) = None"
| "runJobs tv iter req myId (Suc n) (c, Some job) = do {
     im \<leftarrow> execute tv job;
     s \<leftarrow> onSigInternalMsg iter req myId im c;
     runJobs tv iter req myId n s
   }"

definition honestShares :: "(Digest \<Rightarrow> byte list \<Rightarrow> bool) \<Rightarrow> Collector \<Rightarrow> ReplicaId set" where
  "honestShares share_ok c =
     {r. isUnknown (replicasInfo c) r \<and> share_ok (expectedDigest c) (shareOf (replicasInfo c) r)}"

lemma findBadSigs_exact:
  assumes scheme: "sound_scheme tv accSize share_ok accDigest req"
    and "accDigest acc = Some d" "accSize acc + length items < 65536"
  shows "findBadSigs tv acc (accSize acc) items = fst ` {(r, sig). (r, sig) \<in> set items \<and> \<not> share_ok d sig}"
  using assms(2,3)
proof (induction items arbitrary: acc)
  case (Cons p items)
  obtain r sig where p: "p = (r, sig)" by (cases p)
  obtain acc' n where a: "tv_add tv acc sig = (acc', n)" by (cases "tv_add tv acc sig")
  have acc': "accSize acc' = accSize acc + (if share_ok d sig then 1 else 0)" "accDigest acc' = Some d"
    "n = int (accSize acc')"
    using scheme Cons.prems(1) a unfolding sound_scheme_def by (metis fst_conv snd_conv)+
  have n: "u16 n = accSize acc'" using acc' Cons.prems(2) by (simp add: u16_id split: if_splits)
  have "findBadSigs tv acc' (accSize acc') items = fst ` {(r, sig). (r, sig) \<in> set items \<and> \<not> share_ok d sig}"
    using Cons.IH [OF acc'(2)] Cons.prems(2) acc'(1) by (auto split: if_splits)
  then show ?case using a n acc'(1) by (auto simp: p Let_def image_iff)
qed simp

lemma trySend_frame:
  assumes "trySendToBkThread iter req c = Some (c', j')"
  shows "replicasInfo c' = replicasInfo c \<and> numberOfUnknownSignatures c' = numberOfUnknownSignatures c \<and>
    candidateCombinedSignatureMsg c' = candidateCombinedSignatureMsg c \<and> expectedDigest c' = expectedDigest c \<and>
    expectedSeqNumber c' = expectedSeqNumber c \<and> combinedValidSignatureMsg c' = combinedValidSignatureMsg c"
proof -
  define d where "d = (if numOfRequiredSigs c = 0 then c\<lparr>numOfRequiredSigs := req\<rparr> else c)"
  have "c' = d \<or> c' = d\<lparr>processingInBackground := True\<rparr>"
    using assms unfolding trySendToBkThread_def Let_def d_def [symmetric]
    by (auto simp: Option.bind_eq_Some_conv split: if_splits option.splits)
  then show ?thesis by (auto simp: d_def)
qed

text \<open>One round: the job out is a combined signature that fails, or a batch with a bad share; the bad
  shares are marked and the honest ones stay.\<close>

lemma failed_batch_progress:
  assumes req: "0 < req" and scheme: "sound_scheme tv accSize share_ok accDigest req"
    and inv: "collector_inv tv req (c, Some (SignaturesProcessingJob s v d n items))"
    and fails: "\<not> tv_verify tv d (combineShares tv d items)"
    and bad: "bad = findBadSigs tv (tv_setExpectedDigest tv (tv_newAccumulator tv True) d) 0 items"
    and on: "onSigsFailed iter req s v bad c = Some (c', j')"
  shows "honestShares share_ok c' = honestShares share_ok c \<and> expectedSeqNumber c' = expectedSeqNumber c \<and>
     candidateCombinedSignatureMsg c' = candidateCombinedSignatureMsg c \<and>
     numberOfUnknownSignatures c' < numberOfUnknownSignatures c"
proof -
  let ?U = "\<lambda>c. {q. isUnknown (replicasInfo c) q}"
  have cnt: "counts_ok req c" and job: "d = expectedDigest c" "length items = req" "distinct (map fst items)"
    and it: "\<forall>(r, sig) \<in> set items. isUnknown (replicasInfo c) r \<and> sig = shareOf (replicasInfo c) r"
    using inv by (auto simp: collector_inv_def)
  let ?c = "c\<lparr>processingInBackground := False\<rparr>"
  have cnt': "counts_ok req ?c" using cnt by (simp add: counts_ok_def)
  have "accSize (tv_setExpectedDigest tv (tv_newAccumulator tv True) d) = 0"
    "accDigest (tv_setExpectedDigest tv (tv_newAccumulator tv True) d) = Some d" "req < 65536"
    using scheme by (simp_all add: sound_scheme_def)
  then have bad_eq: "bad = fst ` {(r, sig). (r, sig) \<in> set items \<and> \<not> share_ok d sig}"
    using findBadSigs_exact [OF scheme, of "tv_setExpectedDigest tv (tv_newAccumulator tv True) d" d items] job(2) bad
    by simp
  have "\<exists>(r, sig) \<in> set items. \<not> share_ok d sig"
    using fails scheme job unfolding sound_scheme_def by blast
  then have ne: "bad \<noteq> {}" unfolding bad_eq by auto
  have badU: "\<forall>r \<in> bad. isUnknown (replicasInfo c) r \<and> \<not> share_ok d (shareOf (replicasInfo c) r)"
    unfolding bad_eq using it by fastforce
  have fin: "finite bad" unfolding bad_eq by (rule finite_subset [of _ "fst ` set items"]) auto
  obtain e infos k where e: "markAllInvalid (sorted_list_of_set bad) ?c = Some e" "counts_ok req e"
    "e = ?c\<lparr>replicasInfo := infos, numberOfUnknownSignatures := k\<rparr>"
    "shareOf (replicasInfo e) = shareOf (replicasInfo c)" "?U e = ?U c - bad"
    using markAllInvalid_ok [OF cnt', of "sorted_list_of_set bad"] badU fin by auto
  have c': "replicasInfo c' = replicasInfo e" "numberOfUnknownSignatures c' = numberOfUnknownSignatures e"
    "candidateCombinedSignatureMsg c' = candidateCombinedSignatureMsg c" "expectedDigest c' = d"
    "expectedSeqNumber c' = expectedSeqNumber c"
    using on e(1,3) trySend_frame [of iter req e c' j'] job(1) by (auto simp: onSigsFailed_def)
  have "card (?U c - bad) < card (?U c)"
    using ne badU finite_unknown [OF counts_finite [OF cnt]] by (intro psubset_card_mono) auto
  then have "numberOfUnknownSignatures c' < numberOfUnknownSignatures c"
    using e(2,5) cnt c'(2) by (simp add: counts_ok_def)
  moreover have "isUnknown (replicasInfo e) r \<longleftrightarrow> isUnknown (replicasInfo c) r \<and> r \<notin> bad" for r
    using e(5) by auto
  then have "honestShares share_ok c' = honestShares share_ok c"
    using badU by (auto simp: honestShares_def c' e(4) job(1))
  ultimately show ?thesis using c' by simp
qed

lemma round_progress:
  assumes req: "0 < req" and scheme: "sound_scheme tv accSize share_ok accDigest req"
    and inv: "collector_inv tv req (c, Some job)"
    and ex: "execute tv job = Some im" and on: "onSigInternalMsg iter req myId im c = Some (c', j')"
    and nc: "\<not> col_isComplete c'"
  shows "honestShares share_ok c' = honestShares share_ok c \<and> expectedSeqNumber c' = expectedSeqNumber c \<and>
     numberOfUnknownSignatures c' + (if candidateCombinedSignatureMsg c' = None then 0 else 1) <
     numberOfUnknownSignatures c + (if candidateCombinedSignatureMsg c = None then 0 else 1)"
proof (cases job)
  case (CombinedSigVerificationJob s v d sig)
  then have im: "im = VerifyCombinedSigResult s v (tv_verify tv d sig)" using ex by simp
  have cand: "candidateCombinedSignatureMsg c \<noteq> None"
    using inv CombinedSigVerificationJob by (auto simp: collector_inv_def)
  have "\<not> tv_verify tv d sig"
    using on nc cand by (auto simp: im onCombinedSigVerification_def col_isComplete_def)
  then have "trySendToBkThread iter req (c\<lparr>processingInBackground := False, candidateCombinedSignatureMsg := None\<rparr>) = Some (c', j')"
    using on by (simp add: im onCombinedSigVerification_def)
  from trySend_frame [OF this] cand show ?thesis by (simp add: honestShares_def)
next
  case (SignaturesProcessingJob s v d n items)
  have fails: "\<not> tv_verify tv d (combineShares tv d items)"
    using ex on nc SignaturesProcessingJob by (auto simp: onSigsSucceeded_def col_isComplete_def Let_def)
  then have "im = CombinedSigFailed s v
      (findBadSigs tv (tv_setExpectedDigest tv (tv_newAccumulator tv True) d) 0 items)"
    using ex SignaturesProcessingJob by (simp add: Let_def)
  then show ?thesis
    using failed_batch_progress [OF req scheme inv [unfolded SignaturesProcessingJob] fails refl] on by simp
qed

lemma runJobs_completes:
  assumes iter: "iter_ok iter" and req: "0 < req" and scheme: "sound_scheme tv accSize share_ok accDigest req"
    and "collector_inv tv req (c, j)" "expectedSeqNumber c \<noteq> 0" "req \<le> card (honestShares share_ok c)"
    "numberOfUnknownSignatures c + (if candidateCombinedSignatureMsg c = None then 0 else 1) < n"
  shows "\<exists>c'. runJobs tv iter req myId n (c, j) = Some (c', None) \<and> col_isComplete c'"
  using assms(4-7)
proof (induction n arbitrary: c j)
  case (Suc n)
  show ?case
  proof (cases j)
    case None
    have sub: "honestShares share_ok c \<subseteq> {q. isUnknown (replicasInfo c) q}" by (auto simp: honestShares_def)
    have cnt: "counts_ok req c" using Suc.prems(1) by (simp add: collector_inv_def)
    have "req \<le> card {q. isUnknown (replicasInfo c) q}"
      using Suc.prems(3) card_mono [OF finite_unknown [OF counts_finite [OF cnt]] sub] by linarith
    then have "req \<le> numberOfUnknownSignatures c" using cnt by (simp add: counts_ok_def)
    then have "col_isComplete c"
      using Suc.prems(1,2) None by (auto simp: collector_inv_def nothing_to_do_def col_isComplete_def)
    then show ?thesis using None by simp
  next
    case (Some job)
    obtain im c' j' where st: "execute tv job = Some im" "onSigInternalMsg iter req myId im c = Some (c', j')"
      "collector_inv tv req (c', j')"
      using job_completes [OF iter req, of tv c job myId] Suc.prems(1) Some by auto
    show ?thesis
    proof (cases "col_isComplete c'")
      case True
      then have "j' = None" using st(3) by (auto simp: collector_inv_def col_isComplete_def)
      then show ?thesis using True st Some by simp
    next
      case False
      note pr = round_progress [OF req scheme Suc.prems(1) [unfolded Some] st(1,2) False]
      have "\<exists>c''. runJobs tv iter req myId n (c', j') = Some (c'', None) \<and> col_isComplete c''"
        using pr Suc.prems by (intro Suc.IH [OF st(3)]) simp_all
      then show ?thesis using st Some by simp
    qed
  qed
qed simp


section \<open>A concrete run\<close>

text \<open>A verifier with the documented behaviour: a share is valid when it is not empty, the combined
  signature is the digest when all shares are valid.\<close>

definition sample_verifier :: "(Digest option \<times> bool \<times> nat \<times> bool) ThresholdVerifier" where
  "sample_verifier =
     \<lparr>tv_newAccumulator = (\<lambda>ver. (None, ver, 0, True)),
      tv_add = (\<lambda>(d, ver, n, good) sig.
        let n' = (if ver \<and> sig = [] then n else n + 1) in ((d, ver, n', good \<and> sig \<noteq> []), int n')),
      tv_setExpectedDigest = (\<lambda>(d0, ver, n, good) d. (Some d, ver, n, good)),
      tv_getFullSignedData = (\<lambda>(d, ver, n, good) len. if good then the d else []),
      tv_verify = (\<lambda>d sig. sig = d),
      tv_requiredLengthForSignedData = 32\<rparr>"

definition sample_iter :: "RepInfos \<Rightarrow> ReplicaId list" where
  "sample_iter infos = sorted_list_of_set (dom infos)"

lemma sample_iter_ok: "iter_ok sample_iter"
  by (simp add: iter_ok_def sample_iter_def)

lemma sample_fold:
  "fold (\<lambda>(r, sig) acc. fst (tv_add sample_verifier acc sig)) items (d, False, n, g) =
     (d, False, n + length items, g \<and> (\<forall>(r, sig) \<in> set items. sig \<noteq> []))"
  by (induction items arbitrary: n g) (auto simp: sample_verifier_def Let_def)

lemma sample_scheme:
  assumes "req < 65536"
  shows "sound_scheme sample_verifier (\<lambda>(d, ver, n, good). n) (\<lambda>d sig. sig \<noteq> [])
           (\<lambda>(d, ver, n, good). if ver then d else None) req"
proof -
  have "tv_newAccumulator sample_verifier False = (None, False, 0, True)" by (simp add: sample_verifier_def)
  then have "combineShares sample_verifier d items = d" if "\<forall>(r, sig) \<in> set items. sig \<noteq> []" for d items
    using that by (simp add: combineShares_def sample_fold Let_def) (simp add: sample_verifier_def)
  then show ?thesis using assms
    by (auto simp: sound_scheme_def sample_verifier_def Let_def split: if_splits)
qed

definition sample_share :: "ReplicaId \<Rightarrow> byte list \<Rightarrow> SignedShare" where
  "sample_share r sig = \<lparr>ss_sender = r, ss_viewNumber = 0, ss_seqNumber = 7, ss_signature = sig\<rparr>"

text \<open>Three shares, one of them bad, arrive before the digest is known; then the digest is set.\<close>

definition sample_collector :: CollectorSystem where
  "sample_collector =
     (let add = (\<lambda>r sig c. the (addMsgWithPartialSignature sample_iter 2 (sample_share r sig) r c));
          (_, c1, _) = add 0 [] newCollector; (_, c2, _) = add 1 [5] c1; (_, c3, _) = add 2 [6] c2
      in the (setExpected sample_iter 2 7 0 (replicate 32 9) c3))"

definition sample_infos :: RepInfos where
  "sample_infos = (Map.empty(0 \<mapsto> \<lparr>partialSigMsg = sample_share 0 [], sigState = Unknown\<rparr>,
     1 \<mapsto> \<lparr>partialSigMsg = sample_share 1 [5], sigState = Unknown\<rparr>,
     2 \<mapsto> \<lparr>partialSigMsg = sample_share 2 [6], sigState = Unknown\<rparr>))"

lemma sample_iter_infos: "sample_iter sample_infos = [0, 1, 2]"
proof -
  have "dom sample_infos = {0, 1, 2}" by (auto simp: sample_infos_def)
  moreover have "sorted_list_of_set {0, 1, 2 :: nat} = [0, 1, 2]" by code_simp
  ultimately show ?thesis by (simp add: sample_iter_def)
qed

lemma sample_collector_eq:
  "sample_collector =
     (\<lparr>numOfRequiredSigs = 2, processingInBackground = True, numberOfUnknownSignatures = 3,
       replicasInfo = sample_infos, combinedValidSignatureMsg = None, candidateCombinedSignatureMsg = None,
       expectedSeqNumber = 7, expectedView = 0, expectedDigest = replicate 32 9\<rparr>,
      Some (SignaturesProcessingJob 7 0 (replicate 32 9) 2 [(0, []), (1, [5])]))"
proof -
  have items: "collectShares 2 sample_infos [0, 1, 2] [] = Some [(0, []), (1, [5])]"
    by (simp add: sample_infos_def sample_share_def)
  show ?thesis
    by (simp add: sample_collector_def addMsgWithPartialSignature_def newCollector_def setExpected_def
        trySendToBkThread_def Let_def sample_iter_infos [unfolded sample_infos_def]
        items [unfolded sample_infos_def] sample_infos_def del: collectShares.simps One_nat_def)
qed

lemma trySend_idle:
  assumes "combinedValidSignatureMsg c = None" "expectedSeqNumber c = 0"
  shows "\<exists>d. trySendToBkThread iter req c = Some (d, None) \<and> replicasInfo d = replicasInfo c \<and> expectedSeqNumber d = 0"
  using assms by (cases "numOfRequiredSigs c = 0") (simp_all add: trySendToBkThread_def Let_def)

lemma sample_collector_reachable:
  "collector_reachable sample_verifier sample_iter 2 3 sample_collector"
proof -
  let ?add = "\<lambda>r sig c. addMsgWithPartialSignature sample_iter 2 (sample_share r sig) r c"
  let ?reach = "\<lambda>c. collector_reachable sample_verifier sample_iter 2 3 (c, None)"
  have add: "\<exists>c'. ?add r sig c = Some (True, c', None) \<and> ?reach c' \<and> expectedSeqNumber c' = 0 \<and>
      replicasInfo c' = (replicasInfo c)(r \<mapsto> \<lparr>partialSigMsg = sample_share r sig, sigState = Unknown\<rparr>)"
    if pre: "?reach c" "expectedSeqNumber c = 0" "replicasInfo c r = None" "r < 32768" for r sig c
  proof -
    have nv: "combinedValidSignatureMsg c = None" "\<not> processingInBackground c"
      using collector_reachable_inv [OF sample_iter_ok _ pre(1)] pre(2) by (auto simp: collector_inv_def)
    then obtain c' where c': "?add r sig c = Some (True, c', None)" "expectedSeqNumber c' = 0"
      "replicasInfo c' = (replicasInfo c)(r \<mapsto> \<lparr>partialSigMsg = sample_share r sig, sigState = Unknown\<rparr>)"
      using pre trySend_idle [of "c\<lparr>replicasInfo := (replicasInfo c)(r \<mapsto> \<lparr>partialSigMsg = sample_share r sig,
          sigState = Unknown\<rparr>), numberOfUnknownSignatures := numberOfUnknownSignatures c + 1\<rparr>" sample_iter 2]
      by (auto simp: addMsgWithPartialSignature_def)
    have "?reach c'"
      using collector_reachable.step [OF pre(1) collector_step.partial [OF pre(4) c'(1)]] by (simp add: later_def)
    then show ?thesis using c' by blast
  qed
  have "?reach newCollector" by (rule collector_reachable.start)
  then obtain c1 where c1: "?add 0 [] newCollector = Some (True, c1, None)" "?reach c1" "expectedSeqNumber c1 = 0"
    "replicasInfo c1 = Map.empty(0 \<mapsto> \<lparr>partialSigMsg = sample_share 0 [], sigState = Unknown\<rparr>)"
    using add [of newCollector 0 "[]"] by (auto simp: newCollector_def)
  then obtain c2 where c2: "?add 1 [5] c1 = Some (True, c2, None)" "?reach c2" "expectedSeqNumber c2 = 0"
    "replicasInfo c2 = (replicasInfo c1)(1 \<mapsto> \<lparr>partialSigMsg = sample_share 1 [5], sigState = Unknown\<rparr>)"
    using add [of c1 1 "[5]"] by auto
  then obtain c3 where c3: "?add 2 [6] c2 = Some (True, c3, None)" "?reach c3" "expectedSeqNumber c3 = 0"
    using add [of c2 2 "[6]"] c1(4) by auto
  obtain c4 j4 where c4: "setExpected sample_iter 2 7 0 (replicate 32 9) c3 = Some (c4, j4)"
    using setExpected_ok [OF sample_iter_ok _ collector_reachable_inv [OF sample_iter_ok _ c3(2)], of 7] c3(3)
    by fastforce
  have "collector_reachable sample_verifier sample_iter 2 3 (c4, j4)"
    using collector_reachable.step [OF c3(2) collector_step.expect [OF c4]] by (simp add: later_def split: if_splits)
  moreover have "sample_collector = (c4, j4)"
    using c1(1) c2(1) c3(1) c4 by (simp add: sample_collector_def)
  ultimately show ?thesis by simp
qed

lemma sample_honest: "honestShares (\<lambda>d sig. sig \<noteq> []) (fst sample_collector) = {1, 2}"
  by (auto simp: sample_collector_eq honestShares_def isUnknown_def shareOf_def sample_infos_def sample_share_def
      split: if_splits)


theorem collector_holds_only_valid_signatures_witness:
  "\<exists>items. snd sample_collector = Some (SignaturesProcessingJob 7 0 (replicate 32 9) 2 items) \<and>
     length items = 2 \<and> distinct (map fst items)"
proof -
  have r: "collector_reachable sample_verifier sample_iter 2 3 (fst sample_collector, snd sample_collector)"
    using sample_collector_reachable by simp
  obtain items where "snd sample_collector = Some (SignaturesProcessingJob 7 0 (replicate 32 9) 2 items)"
    by (simp add: sample_collector_eq)
  then show ?thesis using collector_holds_only_valid_signatures [OF sample_iter_ok _ r] by auto
qed

theorem collector_never_stuck_witness:
  "addMsgWithPartialSignature sample_iter 2 (sample_share 3 [4]) 3 (fst sample_collector) \<noteq> None \<and>
   (\<exists>im. execute sample_verifier (the (snd sample_collector)) = Some im \<and>
      onSigInternalMsg sample_iter 2 3 im (fst sample_collector) \<noteq> None)"
  using collector_never_stuck [OF sample_iter_ok _ sample_collector_reachable [unfolded sample_collector_eq],
      of 3 "sample_share 3 [4]"]
  by (simp add: sample_collector_eq)

end
