(* ===== verification/Partial_Proofs.thy ===== *)
theory Partial_Proofs
  imports Replicas_Info Threshold_Collector
begin

text \<open>
  \<^verbatim>\<open>PartialProofsSet.cpp\<close> and \<^verbatim>\<open>PartialExecProofsSet.cpp\<close>: the shares of the fast commit paths and of
  the execution proofs of one sequence number. Shares go straight into an accumulator; once the own
  share and the required number of others are there, a job of the thread pool builds the full proof.
\<close>

section \<open>Accumulators\<close>

text \<open>What was done to an accumulator, in order. \<open>accApply\<close> replays it.\<close>

datatype AccOp = AddShare ReplicaId "byte list" | SetDigest Digest

definition accStep :: "'acc ThresholdVerifier \<Rightarrow> AccOp \<Rightarrow> 'acc \<Rightarrow> 'acc" where
  "accStep tv op acc = (case op of AddShare r sig \<Rightarrow> fst (tv_add tv acc sig) | SetDigest d \<Rightarrow> tv_setExpectedDigest tv acc d)"

definition accApply :: "'acc ThresholdVerifier \<Rightarrow> AccOp list \<Rightarrow> 'acc" where
  "accApply tv ops = fold (accStep tv) ops (tv_newAccumulator tv False)"

fun senders :: "AccOp list \<Rightarrow> ReplicaId list" where
  "senders [] = []"
| "senders (AddShare r sig # ops) = r # senders ops"
| "senders (SetDigest d # ops) = senders ops"

lemma senders_append [simp]: "senders (xs @ ys) = senders xs @ senders ys"
  by (induction xs rule: senders.induct) auto

lemma accApply_snoc: "accApply tv (ops @ [op]) = accStep tv op (accApply tv ops)"
  by (simp add: accApply_def)

lemma accApply_Nil: "accApply tv [] = tv_newAccumulator tv False"
  by (simp add: accApply_def)

section \<open>The commit proofs of the fast paths\<close>

record PartialCommitProof =
  pcp_sender :: ReplicaId
  pcp_view :: ViewNum
  pcp_seq :: SeqNum
  pcp_path :: CommitPath
  pcp_signature :: "byte list"

record FullCommitProof =
  fcp_sender :: ReplicaId
  fcp_view :: ViewNum
  fcp_seq :: SeqNum
  fcp_signature :: "byte list"

text \<open>\<open>replica->getThresholdVerifierForCommit()\<close> and \<open>...ForOptimisticCommit()\<close>.\<close>

record 'acc CommitVerifiers =
  verifierForCommit :: "'acc ThresholdVerifier"
  verifierForOptimisticCommit :: "'acc ThresholdVerifier"

record 'acc PartialProofsSet =
  numRequiredFast :: nat
  numRequiredOptimistic :: nat
  pps_seqNumber :: SeqNum
  fullCommitProof :: "FullCommitProof option"
  selfPartialCommitProof :: "PartialCommitProof option"
  participatingInFast :: "ReplicaId set"
  participatingInOptimistic :: "ReplicaId set"
  pps_expectedDigest :: Digest
  timeOfSelfPartialProof :: Time
  accumulatorForFast :: "'acc option"
  accumulatorForOptimistic :: "'acc option"

datatype 'acc ProofJob = AsynchProofCreationJob CommitPath 'acc Digest SeqNum ViewNum

definition newPartialProofsSet :: "ReplicasInfo \<Rightarrow> 'acc PartialProofsSet" where
  "newPartialProofsSet info =
     \<lparr>numRequiredFast = nat (3 * fVal info + cVal info + 1),
      numRequiredOptimistic = nat (3 * fVal info + 2 * cVal info + 1),
      pps_seqNumber = 0, fullCommitProof = None, selfPartialCommitProof = None,
      participatingInFast = {}, participatingInOptimistic = {}, pps_expectedDigest = zeroDigest,
      timeOfSelfPartialProof = MinTime, accumulatorForFast = None, accumulatorForOptimistic = None\<rparr>"

definition pps_resetAndFree :: "'acc PartialProofsSet \<Rightarrow> 'acc PartialProofsSet" where
  "pps_resetAndFree p =
     p\<lparr>pps_seqNumber := 0, fullCommitProof := None, selfPartialCommitProof := None,
       participatingInFast := {}, participatingInOptimistic := {}, pps_expectedDigest := zeroDigest,
       timeOfSelfPartialProof := MinTime, accumulatorForFast := None, accumulatorForOptimistic := None\<rparr>"

definition pps_thresholdVerifier :: "'acc CommitVerifiers \<Rightarrow> CommitPath \<Rightarrow> 'acc ThresholdVerifier" where
  "pps_thresholdVerifier pv cPath =
     (if cPath = OPTIMISTIC_FAST then verifierForOptimisticCommit pv else verifierForCommit pv)"

text \<open>The two groups of fields a commit path selects.\<close>

definition participating :: "CommitPath \<Rightarrow> 'acc PartialProofsSet \<Rightarrow> ReplicaId set" where
  "participating cPath p = (if cPath = OPTIMISTIC_FAST then participatingInOptimistic p else participatingInFast p)"

definition numRequired :: "CommitPath \<Rightarrow> 'acc PartialProofsSet \<Rightarrow> nat" where
  "numRequired cPath p = (if cPath = OPTIMISTIC_FAST then numRequiredOptimistic p else numRequiredFast p)"

definition accumulatorOf :: "CommitPath \<Rightarrow> 'acc PartialProofsSet \<Rightarrow> 'acc option" where
  "accumulatorOf cPath p = (if cPath = OPTIMISTIC_FAST then accumulatorForOptimistic p else accumulatorForFast p)"

definition setAccumulator :: "CommitPath \<Rightarrow> 'acc \<Rightarrow> 'acc PartialProofsSet \<Rightarrow> 'acc PartialProofsSet" where
  "setAccumulator cPath acc p =
     (if cPath = OPTIMISTIC_FAST then p\<lparr>accumulatorForOptimistic := Some acc\<rparr> else p\<lparr>accumulatorForFast := Some acc\<rparr>)"

definition insertParticipating :: "CommitPath \<Rightarrow> ReplicaId \<Rightarrow> 'acc PartialProofsSet \<Rightarrow> 'acc PartialProofsSet" where
  "insertParticipating cPath r p =
     (if cPath = OPTIMISTIC_FAST then p\<lparr>participatingInOptimistic := insert r (participatingInOptimistic p)\<rparr>
      else p\<lparr>participatingInFast := insert r (participatingInFast p)\<rparr>)"

text \<open>\<open>thresholdAccumulator\<close> creates the accumulator of a path on its first use.\<close>

definition thresholdAccumulator :: "'acc CommitVerifiers \<Rightarrow> CommitPath \<Rightarrow> 'acc PartialProofsSet \<Rightarrow> 'acc" where
  "thresholdAccumulator pv cPath p =
     (case accumulatorOf cPath p of
        None \<Rightarrow> tv_newAccumulator (pps_thresholdVerifier pv cPath) False
      | Some acc \<Rightarrow> acc)"

definition tryToCreateFullProof :: "'acc PartialProofsSet \<Rightarrow> 'acc ProofJob option option" where
  "tryToCreateFullProof p = do {
     Assert (fullCommitProof p = None);
     case selfPartialCommitProof p of
       None \<Rightarrow> Some None
     | Some myPCP \<Rightarrow>
         let cPath = pcp_path myPCP in
         if card (participating cPath p) = numRequired cPath p - 1
         then do {
           acc \<leftarrow> accumulatorOf cPath p;
           Some (Some (AsynchProofCreationJob cPath acc (pps_expectedDigest p) (pcp_seq myPCP) (pcp_view myPCP)))
         }
         else Some None
   }"

definition pps_addImp ::
  "'acc CommitVerifiers \<Rightarrow> PartialCommitProof \<Rightarrow> CommitPath \<Rightarrow> 'acc PartialProofsSet
     \<Rightarrow> ('acc PartialProofsSet \<times> 'acc ProofJob option) option" where
  "pps_addImp pv m cPath p = do {
     let acc = thresholdAccumulator pv cPath p;
     let p = setAccumulator cPath (fst (tv_add (pps_thresholdVerifier pv cPath) acc (pcp_signature m))) p;
     if card (participating cPath p) = numRequired cPath p - 1 \<and> selfPartialCommitProof p \<noteq> None
     then do { job \<leftarrow> tryToCreateFullProof p; Some (p, job) }
     else Some (p, None)
   }"

definition addSelfMsgAndPPDigest ::
  "ReplicasInfo \<Rightarrow> 'acc CommitVerifiers \<Rightarrow> PartialCommitProof \<Rightarrow> Digest \<Rightarrow> 'acc PartialProofsSet
     \<Rightarrow> ('acc PartialProofsSet \<times> 'acc ProofJob option) option" where
  "addSelfMsgAndPPDigest info pv m digest p = do {
     Assert (pcp_sender m = ri_myId info);
     Assert (pps_seqNumber p = 0);
     Assert (isZero (pps_expectedDigest p));
     Assert (selfPartialCommitProof p = None);
     Assert (fullCommitProof p = None);
     let p = p\<lparr>pps_seqNumber := pcp_seq m, pps_expectedDigest := digest\<rparr>;
     let acc = thresholdAccumulator pv (pcp_path m) p;
     let p = setAccumulator (pcp_path m)
               (tv_setExpectedDigest (pps_thresholdVerifier pv (pcp_path m)) acc digest) p;
     let p = p\<lparr>selfPartialCommitProof := Some m\<rparr>;
     pps_addImp pv m (pcp_path m) p
   }"

definition pps_addMsg ::
  "ReplicasInfo \<Rightarrow> 'acc CommitVerifiers \<Rightarrow> PartialCommitProof \<Rightarrow> 'acc PartialProofsSet
     \<Rightarrow> (bool \<times> 'acc PartialProofsSet \<times> 'acc ProofJob option) option" where
  "pps_addMsg info pv m p = do {
     let repId = pcp_sender m;
     Assert (repId \<noteq> ri_myId info);
     Assert (pps_seqNumber p = 0 \<or> pps_seqNumber p = pcp_seq m);
     Assert (isIdOfReplica info repId);
     let cPath = pcp_path m;
     if fullCommitProof p \<noteq> None then Some (False, p, None)
     else if (case selfPartialCommitProof p of None \<Rightarrow> False | Some s \<Rightarrow> pcp_path s \<noteq> cPath) then Some (False, p, None)
     else if repId \<in> participating cPath p then Some (False, p, None)
     else if card (participating cPath p) < numRequired cPath p - 1
     then do {
       (p, job) \<leftarrow> pps_addImp pv m cPath (insertParticipating cPath repId p);
       Some (True, p, job)
     }
     else Some (False, p, None)
   }"

definition hasPartialProofFromReplica :: "'acc PartialProofsSet \<Rightarrow> ReplicaId \<Rightarrow> bool" where
  "hasPartialProofFromReplica p r \<longleftrightarrow> r \<in> participatingInOptimistic p \<or> r \<in> participatingInFast p"

definition pps_addFullMsg ::
  "'acc CommitVerifiers \<Rightarrow> FullCommitProof \<Rightarrow> 'acc PartialProofsSet \<Rightarrow> bool \<times> 'acc PartialProofsSet" where
  "pps_addFullMsg pv m p =
     (if fullCommitProof p \<noteq> None then (False, p)
      else case selfPartialCommitProof p of
        None \<Rightarrow> (False, p)
      | Some myPCP \<Rightarrow>
          if fcp_seq m \<noteq> pcp_seq myPCP \<or> fcp_view m \<noteq> pcp_view myPCP then (False, p)
          else if tv_verify (pps_thresholdVerifier pv (pcp_path myPCP)) (pps_expectedDigest p) (fcp_signature m)
          then (True, p\<lparr>fullCommitProof := Some m\<rparr>)
          else (False, p))"

definition setTimeOfSelfPartialProof :: "Time \<Rightarrow> 'acc PartialProofsSet \<Rightarrow> 'acc PartialProofsSet" where
  "setTimeOfSelfPartialProof t p = p\<lparr>timeOfSelfPartialProof := t\<rparr>"

definition hasFullProof :: "'acc PartialProofsSet \<Rightarrow> bool" where
  "hasFullProof p \<longleftrightarrow> fullCommitProof p \<noteq> None"

text \<open>The job: it delivers a full proof to the replica, or nothing.\<close>

definition proofJob_execute :: "'acc CommitVerifiers \<Rightarrow> ReplicaId \<Rightarrow> 'acc ProofJob \<Rightarrow> FullCommitProof option" where
  "proofJob_execute pv myId job =
     (case job of AsynchProofCreationJob cPath acc digest seq view \<Rightarrow>
        let tv = pps_thresholdVerifier pv cPath; sigLength = tv_requiredLengthForSignedData tv in
        if sigLength > 65535 \<or> sigLength = 0 then None
        else let sig = tv_getFullSignedData tv acc sigLength in
          if \<not> tv_verify tv digest sig then None
          else Some \<lparr>fcp_sender = myId, fcp_view = view, fcp_seq = seq, fcp_signature = sig\<rparr>)"

text \<open>\<open>atoh\<close>, the hexadecimal dump of a signature that is logged.\<close>

definition hex_str :: "char list" where
  "hex_str = ''0123456789abcdef''"

definition atoh :: "byte list \<Rightarrow> char list" where
  "atoh bin = concat (map (\<lambda>b. [hex_str ! (unat b div 16 mod 16), hex_str ! (unat b mod 16)]) bin)"

section \<open>The invariant of the commit proofs\<close>

definition sameGroup :: "CommitPath \<Rightarrow> CommitPath \<Rightarrow> bool" where
  "sameGroup a b \<longleftrightarrow> (a = OPTIMISTIC_FAST \<longleftrightarrow> b = OPTIMISTIC_FAST)"

text \<open>The replicas whose shares are in the accumulator of a path.\<close>

definition contributors :: "ReplicasInfo \<Rightarrow> CommitPath \<Rightarrow> 'acc PartialProofsSet \<Rightarrow> ReplicaId set" where
  "contributors info cPath p = participating cPath p \<union>
     (case selfPartialCommitProof p of
        None \<Rightarrow> {} | Some s \<Rightarrow> if sameGroup (pcp_path s) cPath then {ri_myId info} else {})"

definition holds_shares :: "'acc ThresholdVerifier \<Rightarrow> ReplicaId set \<Rightarrow> 'acc \<Rightarrow> bool" where
  "holds_shares tv rs acc \<longleftrightarrow> (\<exists>ops. acc = accApply tv ops \<and> distinct (senders ops) \<and> set (senders ops) = rs)"

definition acc_ok :: "ReplicasInfo \<Rightarrow> 'acc CommitVerifiers \<Rightarrow> CommitPath \<Rightarrow> 'acc PartialProofsSet \<Rightarrow> bool" where
  "acc_ok info pv cPath p \<longleftrightarrow>
     (case accumulatorOf cPath p of
        None \<Rightarrow> contributors info cPath p = {}
      | Some acc \<Rightarrow> holds_shares (pps_thresholdVerifier pv cPath) (contributors info cPath p) acc)"

definition pps_inv :: "ReplicasInfo \<Rightarrow> 'acc CommitVerifiers \<Rightarrow> 'acc PartialProofsSet \<Rightarrow> bool" where
  "pps_inv info pv p \<longleftrightarrow>
     numRequiredFast p = nat (3 * fVal info + cVal info + 1) \<and>
     numRequiredOptimistic p = nat (3 * fVal info + 2 * cVal info + 1) \<and>
     (\<forall>c. participating c p \<subseteq> {r. isIdOfPeerReplica info r} \<and> card (participating c p) \<le> numRequired c p - 1 \<and>
          acc_ok info pv c p) \<and>
     (case selfPartialCommitProof p of
        None \<Rightarrow> pps_seqNumber p = 0 \<and> pps_expectedDigest p = zeroDigest \<and> fullCommitProof p = None
      | Some s \<Rightarrow> pcp_sender s = ri_myId info \<and> pps_seqNumber p = pcp_seq s \<and>
          (\<forall>m. fullCommitProof p = Some m \<longrightarrow> fcp_seq m = pcp_seq s \<and> fcp_view m = pcp_view s \<and>
             tv_verify (pps_thresholdVerifier pv (pcp_path s)) (pps_expectedDigest p) (fcp_signature m)))"

text \<open>What a job carries: exactly the required number of shares, each of a different replica, the own
  one among them.\<close>

definition proofJob_ok :: "ReplicasInfo \<Rightarrow> 'acc CommitVerifiers \<Rightarrow> 'acc PartialProofsSet \<Rightarrow> 'acc ProofJob \<Rightarrow> bool" where
  "proofJob_ok info pv p job \<longleftrightarrow>
     (case job of AsynchProofCreationJob cPath acc digest seq view \<Rightarrow>
        digest = pps_expectedDigest p \<and>
        (\<exists>s. selfPartialCommitProof p = Some s \<and> cPath = pcp_path s \<and> seq = pcp_seq s \<and> view = pcp_view s) \<and>
        (\<exists>rs. holds_shares (pps_thresholdVerifier pv cPath) rs acc \<and> card rs = numRequired cPath p \<and>
              ri_myId info \<in> rs \<and> (\<forall>r \<in> rs. isIdOfReplica info r)))"

lemma holds_shares_new: "holds_shares tv {} (tv_newAccumulator tv False)"
  unfolding holds_shares_def by (rule exI [of _ "[]"]) (simp add: accApply_Nil)

lemma holds_shares_add:
  assumes "holds_shares tv rs acc" "r \<notin> rs"
  shows "holds_shares tv (insert r rs) (fst (tv_add tv acc sig))"
proof -
  obtain ops where "acc = accApply tv ops" "distinct (senders ops)" "set (senders ops) = rs"
    using assms(1) by (auto simp: holds_shares_def)
  then show ?thesis using assms(2) unfolding holds_shares_def
    by (intro exI [of _ "ops @ [AddShare r sig]"]) (simp add: accApply_snoc accStep_def)
qed

lemma holds_shares_setDigest:
  assumes "holds_shares tv rs acc"
  shows "holds_shares tv rs (tv_setExpectedDigest tv acc d)"
proof -
  obtain ops where "acc = accApply tv ops" "distinct (senders ops)" "set (senders ops) = rs"
    using assms(1) by (auto simp: holds_shares_def)
  then show ?thesis unfolding holds_shares_def
    by (intro exI [of _ "ops @ [SetDigest d]"]) (simp add: accApply_snoc accStep_def)
qed

lemma thresholdAccumulator_holds:
  "acc_ok info pv c p \<Longrightarrow>
     holds_shares (pps_thresholdVerifier pv c) (contributors info c p) (thresholdAccumulator pv c p)"
  by (auto simp: acc_ok_def thresholdAccumulator_def holds_shares_new split: option.splits)

lemma setAccumulator_sel [simp]:
  "participating g (setAccumulator c acc p) = participating g p"
  "numRequired g (setAccumulator c acc p) = numRequired g p"
  "selfPartialCommitProof (setAccumulator c acc p) = selfPartialCommitProof p"
  "fullCommitProof (setAccumulator c acc p) = fullCommitProof p"
  "pps_seqNumber (setAccumulator c acc p) = pps_seqNumber p"
  "pps_expectedDigest (setAccumulator c acc p) = pps_expectedDigest p"
  "contributors info g (setAccumulator c acc p) = contributors info g p"
  "numRequiredFast (setAccumulator c acc p) = numRequiredFast p"
  "numRequiredOptimistic (setAccumulator c acc p) = numRequiredOptimistic p"
  by (simp_all add: setAccumulator_def participating_def numRequired_def contributors_def)

lemma accumulatorOf_set:
  "accumulatorOf g (setAccumulator c acc p) = (if sameGroup g c then Some acc else accumulatorOf g p)"
  by (simp add: accumulatorOf_def setAccumulator_def sameGroup_def)

lemma sameGroup_eqs:
  assumes "sameGroup g c"
  shows "participating g p = participating c p" "numRequired g p = numRequired c p"
    "accumulatorOf g p = accumulatorOf c p" "contributors info g p = contributors info c p"
    "pps_thresholdVerifier pv g = pps_thresholdVerifier pv c"
  using assms by (auto simp: sameGroup_def participating_def numRequired_def accumulatorOf_def
      contributors_def pps_thresholdVerifier_def split: option.splits)

lemma finite_peers: "finite {r. isIdOfPeerReplica info r}"
  by (rule finite_subset [of _ "{..<nat (numberOfReplicas info)}"]) (auto simp: isIdOfPeerReplica_def)

text \<open>Adding a share to the accumulator: everything is right but the accumulator of the group, which
  still lacks the share of \<open>r\<close>.\<close>

lemma addImp_ok:
  assumes shares: "holds_shares (pps_thresholdVerifier pv c) (contributors info c p - {r}) (thresholdAccumulator pv c p)"
    and r: "r \<in> contributors info c p"
    and others: "\<And>g. \<not> sameGroup g c \<Longrightarrow> acc_ok info pv g p"
    and parts: "\<And>g. participating g p \<subseteq> {r. isIdOfPeerReplica info r} \<and> card (participating g p) \<le> numRequired g p - 1"
    and cfg: "numRequiredFast p = nat (3 * fVal info + cVal info + 1)"
      "numRequiredOptimistic p = nat (3 * fVal info + 2 * cVal info + 1)"
    and wf: "wf_replicas_info info"
    and full: "fullCommitProof p = None"
    and self: "case selfPartialCommitProof p of
        None \<Rightarrow> pps_seqNumber p = 0 \<and> pps_expectedDigest p = zeroDigest
      | Some s \<Rightarrow> pcp_sender s = ri_myId info \<and> pps_seqNumber p = pcp_seq s \<and> pcp_path s = c"
  shows "\<exists>p' job. pps_addImp pv m c p = Some (p', job) \<and> pps_inv info pv p' \<and>
           (\<forall>j. job = Some j \<longrightarrow> proofJob_ok info pv p' j)"
proof -
  let ?tv = "pps_thresholdVerifier pv c"
  let ?acc = "fst (tv_add ?tv (thresholdAccumulator pv c p) (pcp_signature m))"
  let ?p = "setAccumulator c ?acc p"
  have hs: "holds_shares ?tv (contributors info c p) ?acc"
    using holds_shares_add [OF shares, of r] r by (simp add: insert_absorb)
  have acc: "acc_ok info pv g ?p" for g
  proof (cases "sameGroup g c")
    case True
    then show ?thesis using hs by (simp add: acc_ok_def accumulatorOf_set sameGroup_eqs [OF True])
  next
    case False
    then show ?thesis using others [OF False] by (simp add: acc_ok_def accumulatorOf_set cong: option.case_cong)
  qed
  have inv: "pps_inv info pv ?p"
    using acc parts cfg full self by (auto simp: pps_inv_def split: option.splits)
  show ?thesis
  proof (cases "card (participating c p) = numRequired c p - 1 \<and> selfPartialCommitProof p \<noteq> None")
    case False
    then show ?thesis using inv by (auto simp: pps_addImp_def Let_def)
  next
    case True
    then obtain s where s: "selfPartialCommitProof p = Some s" "pcp_path s = c" "pcp_sender s = ri_myId info"
      using self by auto
    have cont: "contributors info c p = insert (ri_myId info) (participating c p)"
      using s by (simp add: contributors_def sameGroup_def)
    have me: "ri_myId info \<notin> participating c p" using parts by (auto simp: isIdOfPeerReplica_def)
    have "finite (participating c p)"
      using parts [of c] finite_peers by (blast intro: finite_subset)
    then have "card (contributors info c p) = numRequired c p"
      using True cont me cfg wf by (auto simp: numRequired_def wf_replicas_info_def)
    moreover have "\<forall>r \<in> contributors info c p. isIdOfReplica info r"
      using cont parts wf by (auto simp: isIdOfPeerReplica_def isIdOfReplica_def wf_replicas_info_def)
    ultimately have "proofJob_ok info pv ?p
        (AsynchProofCreationJob c ?acc (pps_expectedDigest ?p) (pcp_seq s) (pcp_view s))"
      using hs s cont by (auto simp: proofJob_ok_def)
    then show ?thesis
      using inv True s full
      by (simp add: pps_addImp_def Let_def tryToCreateFullProof_def accumulatorOf_set sameGroup_def)
  qed
qed

lemma newPartialProofsSet_ok: "pps_inv info pv (newPartialProofsSet info)"
  by (simp add: pps_inv_def newPartialProofsSet_def participating_def acc_ok_def accumulatorOf_def contributors_def)

lemma pps_reset_ok:
  assumes "pps_inv info pv p"
  shows "pps_inv info pv (pps_resetAndFree p)"
  using assms
  by (simp add: pps_inv_def pps_resetAndFree_def participating_def acc_ok_def accumulatorOf_def contributors_def)

lemma pps_inv_parts:
  assumes "pps_inv info pv p"
  shows "participating g p \<subseteq> {r. isIdOfPeerReplica info r} \<and> card (participating g p) \<le> numRequired g p - 1"
    and "acc_ok info pv g p"
  using assms unfolding pps_inv_def by blast+

lemma insertParticipating_sel [simp]:
  "numRequired g (insertParticipating c r p) = numRequired g p"
  "selfPartialCommitProof (insertParticipating c r p) = selfPartialCommitProof p"
  "fullCommitProof (insertParticipating c r p) = fullCommitProof p"
  "pps_seqNumber (insertParticipating c r p) = pps_seqNumber p"
  "pps_expectedDigest (insertParticipating c r p) = pps_expectedDigest p"
  "accumulatorOf g (insertParticipating c r p) = accumulatorOf g p"
  "numRequiredFast (insertParticipating c r p) = numRequiredFast p"
  "numRequiredOptimistic (insertParticipating c r p) = numRequiredOptimistic p"
  "participating g (insertParticipating c r p) =
     (if sameGroup g c then insert r (participating g p) else participating g p)"
  by (simp_all add: insertParticipating_def participating_def numRequired_def accumulatorOf_def sameGroup_def)

lemma pps_addMsg_ok:
  assumes wf: "wf_replicas_info info" and inv: "pps_inv info pv p"
    and m: "isIdOfPeerReplica info (pcp_sender m)" "pps_seqNumber p = 0 \<or> pps_seqNumber p = pcp_seq m"
  shows "\<exists>b p' job. pps_addMsg info pv m p = Some (b, p', job) \<and> pps_inv info pv p' \<and>
           (\<forall>j. job = Some j \<longrightarrow> proofJob_ok info pv p' j)"
proof -
  let ?r = "pcp_sender m" and ?c = "pcp_path m"
  let ?reject = "fullCommitProof p \<noteq> None \<or>
     (case selfPartialCommitProof p of None \<Rightarrow> False | Some s \<Rightarrow> pcp_path s \<noteq> ?c) \<or>
     ?r \<in> participating ?c p \<or> \<not> card (participating ?c p) < numRequired ?c p - 1"
  have pre: "?r \<noteq> ri_myId info" "isIdOfReplica info ?r"
    using m(1) by (auto simp: isIdOfPeerReplica_def isIdOfReplica_def)
  show ?thesis
  proof (cases ?reject)
    case True
    then have "pps_addMsg info pv m p = Some (False, p, None)"
      using pre m(2) by (auto simp: pps_addMsg_def Let_def)
    then show ?thesis using inv by auto
  next
    case False
    let ?p = "insertParticipating ?c ?r p"
    have cont: "contributors info g ?p =
        (if sameGroup g ?c then insert ?r (contributors info g p) else contributors info g p)" for g
      by (auto simp: contributors_def split: option.splits)
    have fresh: "?r \<notin> contributors info ?c p"
      using False pre by (auto simp: contributors_def split: option.splits if_splits)
    have fin: "finite (participating ?c p)"
      using pps_inv_parts(1) [OF inv, of ?c] finite_peers by (blast intro: finite_subset)
    have "\<exists>p' job. pps_addImp pv m ?c ?p = Some (p', job) \<and> pps_inv info pv p' \<and>
           (\<forall>j. job = Some j \<longrightarrow> proofJob_ok info pv p' j)"
    proof (rule addImp_ok)
      show "holds_shares (pps_thresholdVerifier pv ?c) (contributors info ?c ?p - {?r}) (thresholdAccumulator pv ?c ?p)"
        using thresholdAccumulator_holds [OF pps_inv_parts(2) [OF inv, of ?c]] fresh cont [of ?c]
        by (simp add: sameGroup_def thresholdAccumulator_def)
      show "?r \<in> contributors info ?c ?p" using cont [of ?c] by (simp add: sameGroup_def)
      show "acc_ok info pv g ?p" if "\<not> sameGroup g ?c" for g
        using pps_inv_parts(2) [OF inv, of g] that cont [of g] by (simp add: acc_ok_def cong: option.case_cong)
      show "participating g ?p \<subseteq> {r. isIdOfPeerReplica info r} \<and> card (participating g ?p) \<le> numRequired g ?p - 1" for g
        using pps_inv_parts(1) [OF inv, of g] m(1) False fin
        by (auto simp: card_insert_if sameGroup_eqs(1,2) [of g ?c])
    qed (use wf inv False in \<open>auto simp: pps_inv_def split: option.splits\<close>)
    then show ?thesis using False pre m(2) by (auto simp: pps_addMsg_def Let_def)
  qed
qed

lemma addSelfMsgAndPPDigest_ok:
  assumes wf: "wf_replicas_info info" and inv: "pps_inv info pv p"
    and m: "pcp_sender m = ri_myId info" and none: "selfPartialCommitProof p = None"
  shows "\<exists>p' job. addSelfMsgAndPPDigest info pv m digest p = Some (p', job) \<and> pps_inv info pv p' \<and>
           (\<forall>j. job = Some j \<longrightarrow> proofJob_ok info pv p' j)"
proof -
  let ?c = "pcp_path m"
  let ?tv = "pps_thresholdVerifier pv ?c"
  let ?q = "p\<lparr>pps_seqNumber := pcp_seq m, pps_expectedDigest := digest\<rparr>"
  let ?acc = "tv_setExpectedDigest ?tv (thresholdAccumulator pv ?c ?q) digest"
  let ?p = "setAccumulator ?c ?acc ?q\<lparr>selfPartialCommitProof := Some m\<rparr>"
  have start: "pps_seqNumber p = 0" "isZero (pps_expectedDigest p)" "fullCommitProof p = None"
    using inv none by (simp_all add: pps_inv_def zeroDigest_def isZero_def)
  have self: "selfPartialCommitProof ?p = Some m" by simp
  have part: "participating g ?p = participating g p" "numRequired g ?p = numRequired g p"
    "accumulatorOf g ?p = (if sameGroup g ?c then Some ?acc else accumulatorOf g p)" for g
    by (simp_all add: participating_def numRequired_def accumulatorOf_def setAccumulator_def sameGroup_def)
  have ta: "thresholdAccumulator pv ?c ?q = thresholdAccumulator pv ?c p"
    by (simp add: thresholdAccumulator_def accumulatorOf_def)
  have tp: "thresholdAccumulator pv ?c ?p = tv_setExpectedDigest ?tv (thresholdAccumulator pv ?c p) digest"
    using part(3) [of ?c] unfolding thresholdAccumulator_def [of pv ?c ?p] by (simp add: sameGroup_def ta)
  have cont0: "contributors info g p = participating g p" for g using none by (simp add: contributors_def)
  have cont: "contributors info g ?p =
      (if sameGroup g ?c then insert (ri_myId info) (participating g p) else participating g p)" for g
    unfolding contributors_def part self by (auto simp: sameGroup_def)
  have me: "ri_myId info \<notin> participating g p" for g
    using pps_inv_parts(1) [OF inv, of g] by (auto simp: isIdOfPeerReplica_def)
  have "\<exists>p' job. pps_addImp pv m ?c ?p = Some (p', job) \<and> pps_inv info pv p' \<and>
           (\<forall>j. job = Some j \<longrightarrow> proofJob_ok info pv p' j)"
  proof (rule addImp_ok)
    show "holds_shares ?tv (contributors info ?c ?p - {ri_myId info}) (thresholdAccumulator pv ?c ?p)"
      using holds_shares_setDigest [OF thresholdAccumulator_holds [OF pps_inv_parts(2) [OF inv, of ?c]]] cont [of ?c] me [of ?c]
      unfolding tp by (simp add: cont0 sameGroup_def)
    show "ri_myId info \<in> contributors info ?c ?p" using cont [of ?c] by (simp add: sameGroup_def)
    show "acc_ok info pv g ?p" if "\<not> sameGroup g ?c" for g
      using pps_inv_parts(2) [OF inv, of g] that cont [of g] cont0 part by (simp add: acc_ok_def cong: option.case_cong)
    show "participating g ?p \<subseteq> {r. isIdOfPeerReplica info r} \<and> card (participating g ?p) \<le> numRequired g ?p - 1" for g
      using pps_inv_parts(1) [OF inv, of g] part by simp
  qed (use wf inv start m in \<open>auto simp: pps_inv_def\<close>)
  then show ?thesis using start none m by (simp add: addSelfMsgAndPPDigest_def Let_def)
qed

lemma pps_addFullMsg_ok:
  assumes inv: "pps_inv info pv p"
  shows "pps_inv info pv (snd (pps_addFullMsg pv m p))"
proof (cases "fst (pps_addFullMsg pv m p)")
  case True
  then obtain s where s: "selfPartialCommitProof p = Some s" "fcp_seq m = pcp_seq s" "fcp_view m = pcp_view s"
    "tv_verify (pps_thresholdVerifier pv (pcp_path s)) (pps_expectedDigest p) (fcp_signature m)"
    "snd (pps_addFullMsg pv m p) = p\<lparr>fullCommitProof := Some m\<rparr>"
    by (auto simp: pps_addFullMsg_def split: if_splits option.splits)
  have "acc_ok info pv c (p\<lparr>fullCommitProof := Some m\<rparr>) = acc_ok info pv c p"
    "participating c (p\<lparr>fullCommitProof := Some m\<rparr>) = participating c p"
    "numRequired c (p\<lparr>fullCommitProof := Some m\<rparr>) = numRequired c p" for c
    by (simp_all add: acc_ok_def accumulatorOf_def contributors_def participating_def numRequired_def cong: option.case_cong)
  then show ?thesis using inv s by (simp add: pps_inv_def)
next
  case False
  then have "snd (pps_addFullMsg pv m p) = p"
    by (auto simp: pps_addFullMsg_def split: if_splits option.splits)
  then show ?thesis using inv by simp
qed

text \<open>The jobs submitted to the thread pool along a run, and the invariant of the runs.\<close>

inductive pps_reachable ::
  "ReplicasInfo \<Rightarrow> 'acc CommitVerifiers \<Rightarrow> 'acc PartialProofsSet \<Rightarrow> 'acc ProofJob list \<Rightarrow> bool"
  for info pv where
  start: "pps_reachable info pv (newPartialProofsSet info) []"
| peer: "pps_reachable info pv p jobs \<Longrightarrow> isIdOfPeerReplica info (pcp_sender m) \<Longrightarrow>
     pps_addMsg info pv m p = Some (b, p', job) \<Longrightarrow>
     pps_reachable info pv p' (jobs @ (case job of None \<Rightarrow> [] | Some j \<Rightarrow> [j]))"
| own: "pps_reachable info pv p jobs \<Longrightarrow> addSelfMsgAndPPDigest info pv m digest p = Some (p', job) \<Longrightarrow>
     pps_reachable info pv p' (jobs @ (case job of None \<Rightarrow> [] | Some j \<Rightarrow> [j]))"
| full: "pps_reachable info pv p jobs \<Longrightarrow> pps_reachable info pv (snd (pps_addFullMsg pv m p)) jobs"
| reset: "pps_reachable info pv p jobs \<Longrightarrow> pps_reachable info pv (pps_resetAndFree p) jobs"

text \<open>A job carries the shares of a quorum of different replicas, the own one among them.\<close>

definition carries_quorum :: "ReplicasInfo \<Rightarrow> 'acc CommitVerifiers \<Rightarrow> 'acc ProofJob \<Rightarrow> bool" where
  "carries_quorum info pv job \<longleftrightarrow>
     (case job of AsynchProofCreationJob cPath acc digest seq view \<Rightarrow>
        \<exists>rs. holds_shares (pps_thresholdVerifier pv cPath) rs acc \<and> ri_myId info \<in> rs \<and>
             (\<forall>r \<in> rs. isIdOfReplica info r) \<and>
             int (card rs) = 3 * fVal info + (if cPath = OPTIMISTIC_FAST then 2 else 1) * cVal info + 1)"

text \<open>Once the own share and enough others are there, a job was submitted for them.\<close>

definition job_submitted :: "'acc PartialProofsSet \<Rightarrow> 'acc ProofJob list \<Rightarrow> bool" where
  "job_submitted p jobs \<longleftrightarrow>
     (\<forall>s. selfPartialCommitProof p = Some s \<and>
          card (participating (pcp_path s) p) = numRequired (pcp_path s) p - 1 \<longrightarrow>
        (\<exists>acc. AsynchProofCreationJob (pcp_path s) acc (pps_expectedDigest p) (pcp_seq s) (pcp_view s) \<in> set jobs))"

lemma proofJob_ok_carries:
  assumes "wf_replicas_info info" "pps_inv info pv p" "proofJob_ok info pv p job"
  shows "carries_quorum info pv job"
proof -
  have "int (numRequired c p) = 3 * fVal info + (if c = OPTIMISTIC_FAST then 2 else 1) * cVal info + 1" for c
    using assms(1,2) by (auto simp: pps_inv_def numRequired_def wf_replicas_info_def)
  then show ?thesis using assms(3)
    by (cases job) (fastforce simp: proofJob_ok_def carries_quorum_def)
qed

lemma addImp_submits:
  assumes "pps_addImp pv m c p = Some (p', job)" "fullCommitProof p = None"
    "\<forall>s. selfPartialCommitProof p = Some s \<longrightarrow> pcp_path s = c"
  shows "job_submitted p' (case job of None \<Rightarrow> [] | Some j \<Rightarrow> [j])"
  using assms
  by (auto simp: pps_addImp_def Let_def tryToCreateFullProof_def job_submitted_def accumulatorOf_set
      sameGroup_def Option.bind_eq_Some_conv split: if_splits option.splits)

lemma job_submitted_later: "job_submitted p jobs \<Longrightarrow> job_submitted p (jobs @ js)"
  by (fastforce simp: job_submitted_def)

lemma job_submitted_new: "job_submitted p js \<Longrightarrow> job_submitted p (jobs @ js)"
  by (fastforce simp: job_submitted_def)

lemma peer_submits:
  assumes "pps_addMsg info pv m p = Some (b, p', job)" "job_submitted p jobs"
  shows "job_submitted p' (jobs @ (case job of None \<Rightarrow> [] | Some j \<Rightarrow> [j]))"
proof (cases b)
  case True
  then have imp: "pps_addImp pv m (pcp_path m) (insertParticipating (pcp_path m) (pcp_sender m) p) = Some (p', job)"
    and "fullCommitProof p = None" "\<forall>s. selfPartialCommitProof p = Some s \<longrightarrow> pcp_path s = pcp_path m"
    using assms(1)
    by (auto simp: pps_addMsg_def Let_def Option.bind_eq_Some_conv split: if_splits option.splits)
  then show ?thesis using addImp_submits [OF imp] job_submitted_new by simp
next
  case False
  then have "p' = p" "job = None"
    using assms(1)
    by (auto simp: pps_addMsg_def Let_def Option.bind_eq_Some_conv split: if_splits option.splits)
  then show ?thesis using assms(2) by simp
qed

lemma own_submits:
  assumes "addSelfMsgAndPPDigest info pv m digest p = Some (p', job)"
  shows "job_submitted p' (jobs @ (case job of None \<Rightarrow> [] | Some j \<Rightarrow> [j]))"
proof -
  have "\<exists>q. pps_addImp pv m (pcp_path m) q = Some (p', job) \<and> fullCommitProof q = None \<and>
      selfPartialCommitProof q = Some m"
    using assms by (auto simp: addSelfMsgAndPPDigest_def Let_def)
  then show ?thesis using addImp_submits job_submitted_new by fastforce
qed

lemma full_submits:
  assumes "job_submitted p jobs"
  shows "job_submitted (snd (pps_addFullMsg pv m p)) jobs"
proof -
  have "snd (pps_addFullMsg pv m p) = p \<or> snd (pps_addFullMsg pv m p) = p\<lparr>fullCommitProof := Some m\<rparr>"
    by (auto simp: pps_addFullMsg_def split: option.splits)
  then show ?thesis using assms
    by (auto simp: job_submitted_def participating_def numRequired_def)
qed

lemma pps_reachable_inv:
  assumes "pps_reachable info pv p jobs" "wf_replicas_info info"
  shows "pps_inv info pv p \<and> (\<forall>job \<in> set jobs. carries_quorum info pv job) \<and> job_submitted p jobs"
  using assms(1)
proof induction
  case start
  then show ?case using newPartialProofsSet_ok by (auto simp: newPartialProofsSet_def job_submitted_def)
next
  case (peer p jobs m b p' job)
  have "pps_seqNumber p = 0 \<or> pps_seqNumber p = pcp_seq m"
    using peer.hyps by (auto simp: pps_addMsg_def Let_def)
  then have "pps_inv info pv p' \<and> (\<forall>j. job = Some j \<longrightarrow> proofJob_ok info pv p' j)"
    using pps_addMsg_ok [OF assms(2), of pv p m] peer by auto
  then show ?case
    using peer proofJob_ok_carries [OF assms(2), of pv p'] peer_submits [OF peer.hyps(3), of jobs]
    by (auto split: option.splits)
next
  case (own p jobs m digest p' job)
  have "pcp_sender m = ri_myId info" "selfPartialCommitProof p = None"
    using own.hyps by (auto simp: addSelfMsgAndPPDigest_def)
  then have "pps_inv info pv p' \<and> (\<forall>j. job = Some j \<longrightarrow> proofJob_ok info pv p' j)"
    using addSelfMsgAndPPDigest_ok [OF assms(2), of pv p m digest] own by auto
  then show ?case
    using own proofJob_ok_carries [OF assms(2), of pv p'] own_submits [OF own.hyps(2), of jobs]
    by (auto split: option.splits)
next
  case (full p jobs m)
  then show ?case using pps_addFullMsg_ok full_submits by blast
next
  case (reset p jobs)
  then show ?case using pps_reset_ok by (auto simp: pps_resetAndFree_def job_submitted_def)
qed


text \<open>C14: the fast paths make progress: in every reachable state with the own share and the required
  number of others but no full proof, a job for this digest, sequence number and view was submitted,
  and when the combination that a submitted job computes verifies, the proof it delivers is accepted
  and completes the sequence number.\<close>

theorem fast_commit_progress:
  assumes "pps_reachable info pv p jobs" "wf_replicas_info info"
    and "selfPartialCommitProof p = Some s" "fullCommitProof p = None"
    and "card (participating (pcp_path s) p) = numRequired (pcp_path s) p - 1"
    and "0 < tv_requiredLengthForSignedData (pps_thresholdVerifier pv (pcp_path s))"
      "tv_requiredLengthForSignedData (pps_thresholdVerifier pv (pcp_path s)) \<le> 65535"
  shows "\<exists>acc. let job = AsynchProofCreationJob (pcp_path s) acc (pps_expectedDigest p) (pcp_seq s) (pcp_view s);
                  tv = pps_thresholdVerifier pv (pcp_path s);
                  sig = tv_getFullSignedData tv acc (tv_requiredLengthForSignedData tv) in
           job \<in> set jobs \<and>
           (tv_verify tv (pps_expectedDigest p) sig \<longrightarrow>
             (\<exists>m. proofJob_execute pv (ri_myId info) job = Some m \<and> fcp_signature m = sig \<and>
                fst (pps_addFullMsg pv m p) \<and> hasFullProof (snd (pps_addFullMsg pv m p))))"
proof -
  obtain acc where "AsynchProofCreationJob (pcp_path s) acc (pps_expectedDigest p) (pcp_seq s) (pcp_view s) \<in> set jobs"
    using pps_reachable_inv [OF assms(1,2)] assms(3,5) by (auto simp: job_submitted_def)
  then show ?thesis using assms(3,4,6,7)
    by (intro exI [of _ acc]) (simp add: Let_def proofJob_execute_def pps_addFullMsg_def hasFullProof_def)
qed

definition sample_pv :: "(Digest option \<times> bool \<times> nat \<times> bool) CommitVerifiers" where
  "sample_pv = \<lparr>verifierForCommit = sample_verifier, verifierForOptimisticCommit = sample_verifier\<rparr>"

definition sample_pcp :: "ReplicaId \<Rightarrow> PartialCommitProof" where
  "sample_pcp r = \<lparr>pcp_sender = r, pcp_view = 0, pcp_seq = 7, pcp_path = FAST_WITH_THRESHOLD, pcp_signature = [5]\<rparr>"

text \<open>The state after \<open>n\<close> shares of others, and the one after the own share.\<close>

definition sample_pps :: "ReplicaId list \<Rightarrow> (Digest option \<times> bool \<times> nat \<times> bool) PartialProofsSet" where
  "sample_pps rs = (newPartialProofsSet sample_info)\<lparr>participatingInFast := set rs,
     accumulatorForFast := (if rs = [] then None else Some (None, False, length rs, True))\<rparr>"

definition sample_pps_own :: "(Digest option \<times> bool \<times> nat \<times> bool) PartialProofsSet" where
  "sample_pps_own = (sample_pps [4, 3, 2, 0])\<lparr>pps_seqNumber := 7, pps_expectedDigest := replicate 32 9,
     selfPartialCommitProof := Some (sample_pcp 1),
     accumulatorForFast := Some (Some (replicate 32 9), False, 5, True)\<rparr>"

definition sample_job :: "(Digest option \<times> bool \<times> nat \<times> bool) ProofJob" where
  "sample_job = AsynchProofCreationJob FAST_WITH_THRESHOLD (Some (replicate 32 9), False, 5, True) (replicate 32 9) 7 0"

lemma sample_peer:
  assumes "pps_reachable sample_info sample_pv (sample_pps rs) []" "r \<in> {0, 2, 3, 4}" "r \<notin> set rs"
    "distinct rs" "length rs < 4"
  shows "pps_reachable sample_info sample_pv (sample_pps (r # rs)) []"
proof -
  have "pps_addMsg sample_info sample_pv (sample_pcp r) (sample_pps rs) = Some (True, sample_pps (r # rs), None)"
    using assms(2-) distinct_card [OF assms(4)]
    by (auto simp: pps_addMsg_def sample_pps_def newPartialProofsSet_def sample_pcp_def isIdOfReplica_def
        participating_def numRequired_def insertParticipating_def pps_addImp_def thresholdAccumulator_def
        accumulatorOf_def setAccumulator_def pps_thresholdVerifier_def sample_pv_def sample_verifier_def Let_def)
  then show ?thesis
    using pps_reachable.peer [OF assms(1), of "sample_pcp r" True "sample_pps (r # rs)" None] assms(2)
    by (auto simp: sample_pcp_def isIdOfPeerReplica_def)
qed

lemma sample_run: "pps_reachable sample_info sample_pv sample_pps_own [sample_job]"
proof -
  have "pps_reachable sample_info sample_pv (sample_pps []) []"
    using pps_reachable.start [of sample_info sample_pv] by (simp add: sample_pps_def newPartialProofsSet_def)
  then have r: "pps_reachable sample_info sample_pv (sample_pps [4, 3, 2, 0]) []"
    by (intro sample_peer) auto
  have "addSelfMsgAndPPDigest sample_info sample_pv (sample_pcp 1) (replicate 32 9) (sample_pps [4, 3, 2, 0]) =
      Some (sample_pps_own, Some sample_job)"
    by (simp add: addSelfMsgAndPPDigest_def sample_pps_def sample_pps_own_def newPartialProofsSet_def sample_pcp_def
        participating_def numRequired_def pps_addImp_def thresholdAccumulator_def accumulatorOf_def
        setAccumulator_def pps_thresholdVerifier_def sample_pv_def sample_verifier_def Let_def
        tryToCreateFullProof_def zeroDigest_def isZero_def sample_job_def)
  from pps_reachable.own [OF r this] show ?thesis by simp
qed


theorem fast_commit_progress_witness:
  "\<exists>m. proofJob_execute sample_pv 1 sample_job = Some m \<and> fst (pps_addFullMsg sample_pv m sample_pps_own)"
proof -
  have "pps_thresholdVerifier sample_pv FAST_WITH_THRESHOLD = sample_verifier"
    by (simp add: pps_thresholdVerifier_def sample_pv_def)
  then show ?thesis
    using fast_commit_progress [OF sample_run sample_info_wf, of "sample_pcp 1"]
    by (auto simp: Let_def sample_pps_own_def sample_pps_def newPartialProofsSet_def participating_def
        numRequired_def sample_pcp_def sample_verifier_def sample_job_def)
qed

section \<open>The execution proofs\<close>

record PartialExecProof =
  pep_sender :: ReplicaId
  pep_view :: ViewNum
  pep_seq :: SeqNum
  pep_signature :: "byte list"

record FullExecProof =
  fep_client :: NodeIdType
  fep_requestId :: ReqId
  fep_isNotReady :: bool
  fep_signatureLength :: nat
  fep_signature :: "byte list"

record 'acc PartialExecProofsSet =
  numOfRequiredPartialProofs :: nat
  peps_seqNumber :: SeqNum
  myPartialExecProof :: "PartialExecProof option"
  participatingReplicas :: "ReplicaId set"
  peps_expectedDigest :: Digest
  peps_accumulator :: "'acc option"
  setOfFullExecProofs :: "FullExecProof list"

datatype 'acc ExecProofJob = AsynchExecProofCreationJob 'acc Digest SeqNum ViewNum

datatype MerkleExecSignature = MerkleExecSignatureInternalMsg ViewNum SeqNum "byte list"

definition newPartialExecProofsSet :: "ReplicasInfo \<Rightarrow> 'acc PartialExecProofsSet" where
  "newPartialExecProofsSet info =
     \<lparr>numOfRequiredPartialProofs = nat (fVal info + 1), peps_seqNumber = 0, myPartialExecProof = None,
      participatingReplicas = {}, peps_expectedDigest = zeroDigest, peps_accumulator = None,
      setOfFullExecProofs = []\<rparr>"

definition peps_resetAndFree :: "'acc PartialExecProofsSet \<Rightarrow> 'acc PartialExecProofsSet" where
  "peps_resetAndFree p =
     (if myPartialExecProof p = None \<and> card (participatingReplicas p) = 0 then p
      else p\<lparr>peps_seqNumber := 0, myPartialExecProof := None, participatingReplicas := {},
             peps_expectedDigest := zeroDigest, peps_accumulator := None, setOfFullExecProofs := []\<rparr>)"

definition execAccumulator :: "'acc ThresholdVerifier \<Rightarrow> 'acc PartialExecProofsSet \<Rightarrow> 'acc" where
  "execAccumulator tv p = (case peps_accumulator p of None \<Rightarrow> tv_newAccumulator tv False | Some acc \<Rightarrow> acc)"

definition peps_tryToCreateFullProof :: "'acc PartialExecProofsSet \<Rightarrow> 'acc ExecProofJob option option" where
  "peps_tryToCreateFullProof p = do {
     acc \<leftarrow> peps_accumulator p;
     Some (case myPartialExecProof p of
       None \<Rightarrow> None
     | Some myPEP \<Rightarrow>
         if card (participatingReplicas p) = numOfRequiredPartialProofs p - 1
         then Some (AsynchExecProofCreationJob acc (peps_expectedDigest p) (pep_seq myPEP) (pep_view myPEP))
         else None)
   }"

definition peps_addImp ::
  "'acc ThresholdVerifier \<Rightarrow> PartialExecProof \<Rightarrow> 'acc PartialExecProofsSet
     \<Rightarrow> ('acc PartialExecProofsSet \<times> 'acc ExecProofJob option) option" where
  "peps_addImp tv m p = do {
     let p = p\<lparr>peps_accumulator := Some (fst (tv_add tv (execAccumulator tv p) (pep_signature m)))\<rparr>;
     if card (participatingReplicas p) = numOfRequiredPartialProofs p - 1 \<and> myPartialExecProof p \<noteq> None
     then do { job \<leftarrow> peps_tryToCreateFullProof p; Some (p, job) }
     else Some (p, None)
   }"

definition peps_addSelf ::
  "ReplicasInfo \<Rightarrow> 'acc ThresholdVerifier \<Rightarrow> PartialExecProof \<Rightarrow> Digest \<Rightarrow> FullExecProof list \<Rightarrow> 'acc PartialExecProofsSet
     \<Rightarrow> ('acc PartialExecProofsSet \<times> 'acc ExecProofJob option) option" where
  "peps_addSelf info tv m merkleRoot fullExecProofs p = do {
     Assert (pep_sender m = ri_myId info);
     Assert (peps_seqNumber p = 0);
     Assert (myPartialExecProof p = None);
     let p = p\<lparr>peps_seqNumber := pep_seq m, peps_expectedDigest := merkleRoot\<rparr>;
     let p = p\<lparr>peps_accumulator := Some (tv_setExpectedDigest tv (execAccumulator tv p) merkleRoot)\<rparr>;
     let p = p\<lparr>myPartialExecProof := Some m, setOfFullExecProofs := fullExecProofs\<rparr>;
     peps_addImp tv m p
   }"

definition peps_addMsg ::
  "ReplicasInfo \<Rightarrow> 'acc ThresholdVerifier \<Rightarrow> PartialExecProof \<Rightarrow> 'acc PartialExecProofsSet
     \<Rightarrow> (bool \<times> 'acc PartialExecProofsSet \<times> 'acc ExecProofJob option) option" where
  "peps_addMsg info tv m p = do {
     let repId = pep_sender m;
     Assert (repId \<noteq> ri_myId info);
     Assert (peps_seqNumber p = 0 \<or> peps_seqNumber p = pep_seq m);
     Assert (isIdOfReplica info repId);
     if repId \<notin> participatingReplicas p \<and> card (participatingReplicas p) < numOfRequiredPartialProofs p - 1
     then do {
       (p, job) \<leftarrow> peps_addImp tv m (p\<lparr>participatingReplicas := insert repId (participatingReplicas p)\<rparr>);
       Some (True, p, job)
     }
     else Some (False, p, None)
   }"

definition execProofJob_execute :: "'acc ThresholdVerifier \<Rightarrow> 'acc ExecProofJob \<Rightarrow> MerkleExecSignature option" where
  "execProofJob_execute tv job =
     (case job of AsynchExecProofCreationJob acc digest seq view \<Rightarrow>
        let sigLength = tv_requiredLengthForSignedData tv in
        if sigLength > 65535 \<or> sigLength = 0 then None
        else let sig = tv_getFullSignedData tv acc sigLength in
          if tv_verify tv digest sig then Some (MerkleExecSignatureInternalMsg view seq sig) else None)"

definition setSignature :: "byte list \<Rightarrow> FullExecProof \<Rightarrow> FullExecProof option" where
  "setSignature sig m = do {
     Assert (fep_signatureLength m \<ge> length sig);
     Some (m\<lparr>fep_signature := sig, fep_signatureLength := length sig, fep_isNotReady := False\<rparr>)
   }"

definition setMerkleSignature :: "byte list \<Rightarrow> 'acc PartialExecProofsSet \<Rightarrow> 'acc PartialExecProofsSet option" where
  "setMerkleSignature sig p = do {
     proofs \<leftarrow> those (map (setSignature sig) (setOfFullExecProofs p));
     Some (p\<lparr>setOfFullExecProofs := proofs\<rparr>)
   }"

section \<open>The invariant of the execution proofs\<close>

definition execContributors :: "ReplicasInfo \<Rightarrow> 'acc PartialExecProofsSet \<Rightarrow> ReplicaId set" where
  "execContributors info p =
     participatingReplicas p \<union> (if myPartialExecProof p = None then {} else {ri_myId info})"

definition peps_inv :: "ReplicasInfo \<Rightarrow> 'acc ThresholdVerifier \<Rightarrow> 'acc PartialExecProofsSet \<Rightarrow> bool" where
  "peps_inv info tv p \<longleftrightarrow>
     numOfRequiredPartialProofs p = nat (fVal info + 1) \<and>
     participatingReplicas p \<subseteq> {r. isIdOfPeerReplica info r} \<and>
     card (participatingReplicas p) \<le> numOfRequiredPartialProofs p - 1 \<and>
     (case peps_accumulator p of
        None \<Rightarrow> execContributors info p = {} | Some acc \<Rightarrow> holds_shares tv (execContributors info p) acc) \<and>
     (case myPartialExecProof p of None \<Rightarrow> peps_seqNumber p = 0 | Some s \<Rightarrow> peps_seqNumber p = pep_seq s)"

definition execJob_ok :: "ReplicasInfo \<Rightarrow> 'acc ThresholdVerifier \<Rightarrow> 'acc ExecProofJob \<Rightarrow> bool" where
  "execJob_ok info tv job \<longleftrightarrow>
     (case job of AsynchExecProofCreationJob acc digest seq view \<Rightarrow>
        \<exists>rs. holds_shares tv rs acc \<and> ri_myId info \<in> rs \<and> (\<forall>r \<in> rs. isIdOfReplica info r) \<and>
             int (card rs) = fVal info + 1)"

lemma execAccumulator_holds:
  "peps_inv info tv p \<Longrightarrow> holds_shares tv (execContributors info p) (execAccumulator tv p)"
  by (auto simp: peps_inv_def execAccumulator_def holds_shares_new split: option.splits)

lemma peps_addImp_ok:
  assumes wf: "wf_replicas_info info"
    and shares: "holds_shares tv (execContributors info p - {r}) (execAccumulator tv p)" "r \<in> execContributors info p"
    and cfg: "numOfRequiredPartialProofs p = nat (fVal info + 1)"
    and parts: "participatingReplicas p \<subseteq> {r. isIdOfPeerReplica info r}"
      "card (participatingReplicas p) \<le> numOfRequiredPartialProofs p - 1"
    and self: "case myPartialExecProof p of None \<Rightarrow> peps_seqNumber p = 0 | Some s \<Rightarrow> peps_seqNumber p = pep_seq s"
  shows "\<exists>p' job. peps_addImp tv m p = Some (p', job) \<and> peps_inv info tv p' \<and>
           (\<forall>j. job = Some j \<longrightarrow> execJob_ok info tv j)"
proof -
  let ?acc = "fst (tv_add tv (execAccumulator tv p) (pep_signature m))"
  let ?p = "p\<lparr>peps_accumulator := Some ?acc\<rparr>"
  have hs: "holds_shares tv (execContributors info p) ?acc"
    using holds_shares_add [OF shares(1), of r] shares(2) by (simp add: insert_absorb)
  have inv: "peps_inv info tv ?p"
    using hs cfg parts self by (simp add: peps_inv_def execContributors_def cong: option.case_cong)
  show ?thesis
  proof (cases "card (participatingReplicas p) = numOfRequiredPartialProofs p - 1 \<and> myPartialExecProof p \<noteq> None")
    case False
    then show ?thesis using inv by (auto simp: peps_addImp_def Let_def)
  next
    case True
    have fin: "finite (participatingReplicas p)" using parts(1) finite_peers by (blast intro: finite_subset)
    have cont: "execContributors info p = insert (ri_myId info) (participatingReplicas p)"
      using True by (auto simp: execContributors_def)
    have "ri_myId info \<notin> participatingReplicas p" using parts(1) by (auto simp: isIdOfPeerReplica_def)
    then have "int (card (execContributors info p)) = fVal info + 1"
      using True cfg wf fin by (simp add: cont wf_replicas_info_def)
    moreover have "\<forall>r \<in> execContributors info p. isIdOfReplica info r"
      using cont parts(1) wf by (auto simp: isIdOfPeerReplica_def isIdOfReplica_def wf_replicas_info_def)
    ultimately have "execJob_ok info tv (AsynchExecProofCreationJob ?acc d s v)" for d s v
      using hs cont by (auto simp: execJob_ok_def)
    then show ?thesis using inv True by (auto simp: peps_addImp_def Let_def peps_tryToCreateFullProof_def)
  qed
qed

lemma peps_addMsg_ok:
  assumes wf: "wf_replicas_info info" and inv: "peps_inv info tv p" and peer: "isIdOfPeerReplica info (pep_sender m)"
    and seq: "peps_seqNumber p = 0 \<or> peps_seqNumber p = pep_seq m"
  shows "\<exists>b p' job. peps_addMsg info tv m p = Some (b, p', job) \<and> peps_inv info tv p' \<and>
           (\<forall>j. job = Some j \<longrightarrow> execJob_ok info tv j)"
proof -
  let ?r = "pep_sender m"
  have pre: "?r \<noteq> ri_myId info" "isIdOfReplica info ?r"
    using peer by (auto simp: isIdOfPeerReplica_def isIdOfReplica_def)
  show ?thesis
  proof (cases "?r \<notin> participatingReplicas p \<and> card (participatingReplicas p) < numOfRequiredPartialProofs p - 1")
    case False
    then have "peps_addMsg info tv m p = Some (False, p, None)" using pre seq by (auto simp: peps_addMsg_def Let_def)
    then show ?thesis using inv by auto
  next
    case True
    let ?p = "p\<lparr>participatingReplicas := insert ?r (participatingReplicas p)\<rparr>"
    have cont: "execContributors info ?p = insert ?r (execContributors info p)" "?r \<notin> execContributors info p"
      using True pre by (auto simp: execContributors_def)
    have fin: "finite (participatingReplicas p)"
      using inv finite_peers by (auto simp: peps_inv_def intro: finite_subset)
    have "execAccumulator tv ?p = execAccumulator tv p" by (simp add: execAccumulator_def)
    then have "\<exists>p' job. peps_addImp tv m ?p = Some (p', job) \<and> peps_inv info tv p' \<and>
           (\<forall>j. job = Some j \<longrightarrow> execJob_ok info tv j)"
      using execAccumulator_holds [OF inv] cont True inv peer fin
      by (intro peps_addImp_ok [OF wf, of _ _ ?r]) (auto simp: peps_inv_def cong: option.case_cong)
    then show ?thesis using True pre seq by (auto simp: peps_addMsg_def Let_def)
  qed
qed

lemma peps_addSelf_ok:
  assumes wf: "wf_replicas_info info" and inv: "peps_inv info tv p"
    and m: "pep_sender m = ri_myId info" "myPartialExecProof p = None"
  shows "\<exists>p' job. peps_addSelf info tv m root proofs p = Some (p', job) \<and> peps_inv info tv p' \<and>
           (\<forall>j. job = Some j \<longrightarrow> execJob_ok info tv j)"
proof -
  let ?acc = "tv_setExpectedDigest tv (execAccumulator tv p) root"
  let ?p = "p\<lparr>peps_seqNumber := pep_seq m, peps_expectedDigest := root, peps_accumulator := Some ?acc,
    myPartialExecProof := Some m, setOfFullExecProofs := proofs\<rparr>"
  have me: "ri_myId info \<notin> participatingReplicas p" using inv by (auto simp: peps_inv_def isIdOfPeerReplica_def)
  have cont: "execContributors info ?p = insert (ri_myId info) (execContributors info p)"
    "ri_myId info \<notin> execContributors info p" using m me by (auto simp: execContributors_def)
  have "holds_shares tv (execContributors info p) ?acc"
    using holds_shares_setDigest [OF execAccumulator_holds [OF inv]] .
  moreover have "execAccumulator tv ?p = ?acc" by (simp add: execAccumulator_def)
  ultimately have "\<exists>p' job. peps_addImp tv m ?p = Some (p', job) \<and> peps_inv info tv p' \<and>
           (\<forall>j. job = Some j \<longrightarrow> execJob_ok info tv j)"
    using cont inv by (intro peps_addImp_ok [OF wf, of _ _ "ri_myId info"]) (auto simp: peps_inv_def)
  moreover have "execAccumulator tv (p\<lparr>peps_seqNumber := s, peps_expectedDigest := d\<rparr>) = execAccumulator tv p" for s d
    by (simp add: execAccumulator_def)
  ultimately show ?thesis using inv m by (simp add: peps_addSelf_def Let_def peps_inv_def)
qed

lemma newPartialExecProofsSet_ok: "peps_inv info tv (newPartialExecProofsSet info)"
  by (simp add: peps_inv_def newPartialExecProofsSet_def execContributors_def)

lemma peps_reset_ok: "peps_inv info tv p \<Longrightarrow> peps_inv info tv (peps_resetAndFree p)"
  by (auto simp: peps_inv_def peps_resetAndFree_def execContributors_def)

lemma setMerkleSignature_ok:
  "peps_inv info tv p \<Longrightarrow> setMerkleSignature sig p = Some p' \<Longrightarrow> peps_inv info tv p'"
  by (auto simp: peps_inv_def setMerkleSignature_def Option.bind_eq_Some_conv execContributors_def cong: option.case_cong)

inductive peps_reachable ::
  "ReplicasInfo \<Rightarrow> 'acc ThresholdVerifier \<Rightarrow> 'acc PartialExecProofsSet \<Rightarrow> 'acc ExecProofJob list \<Rightarrow> bool"
  for info tv where
  start: "peps_reachable info tv (newPartialExecProofsSet info) []"
| peer: "peps_reachable info tv p jobs \<Longrightarrow> isIdOfPeerReplica info (pep_sender m) \<Longrightarrow>
     peps_addMsg info tv m p = Some (b, p', job) \<Longrightarrow>
     peps_reachable info tv p' (jobs @ (case job of None \<Rightarrow> [] | Some j \<Rightarrow> [j]))"
| own: "peps_reachable info tv p jobs \<Longrightarrow> peps_addSelf info tv m root proofs p = Some (p', job) \<Longrightarrow>
     peps_reachable info tv p' (jobs @ (case job of None \<Rightarrow> [] | Some j \<Rightarrow> [j]))"
| merkle: "peps_reachable info tv p jobs \<Longrightarrow> setMerkleSignature sig p = Some p' \<Longrightarrow> peps_reachable info tv p' jobs"
| reset: "peps_reachable info tv p jobs \<Longrightarrow> peps_reachable info tv (peps_resetAndFree p) jobs"

lemma peps_reachable_inv:
  assumes "peps_reachable info tv p jobs" "wf_replicas_info info"
  shows "peps_inv info tv p \<and> (\<forall>job \<in> set jobs. execJob_ok info tv job)"
  using assms(1)
proof induction
  case start
  then show ?case using newPartialExecProofsSet_ok by auto
next
  case (peer p jobs m b p' job)
  have "peps_seqNumber p = 0 \<or> peps_seqNumber p = pep_seq m"
    using peer.hyps by (auto simp: peps_addMsg_def Let_def)
  then show ?case using peps_addMsg_ok [OF assms(2), of tv p m] peer by (auto split: option.splits)
next
  case (own p jobs m root proofs p' job)
  have "pep_sender m = ri_myId info" "myPartialExecProof p = None"
    using own.hyps by (auto simp: peps_addSelf_def)
  then show ?case using peps_addSelf_ok [OF assms(2), of tv p m root proofs] own by (auto split: option.splits)
next
  case (merkle p jobs sig p')
  then show ?case using setMerkleSignature_ok by blast
next
  case (reset p jobs)
  then show ?case using peps_reset_ok by blast
qed


definition sample_pep :: "ReplicaId \<Rightarrow> PartialExecProof" where
  "sample_pep r = \<lparr>pep_sender = r, pep_view = 0, pep_seq = 7, pep_signature = [5]\<rparr>"

definition sample_execJob :: "(Digest option \<times> bool \<times> nat \<times> bool) ExecProofJob" where
  "sample_execJob = AsynchExecProofCreationJob (Some (replicate 32 9), False, 2, True) (replicate 32 9) 7 0"

lemma sample_exec_run: "\<exists>p. peps_reachable sample_info sample_verifier p [sample_execJob]"
proof -
  obtain p1 where p1: "peps_addMsg sample_info sample_verifier (sample_pep 3) (newPartialExecProofsSet sample_info) =
      Some (True, p1, None)" "p1 = (newPartialExecProofsSet sample_info)\<lparr>participatingReplicas := {3},
      peps_accumulator := Some (None, False, 1, True)\<rparr>"
    by (simp add: peps_addMsg_def newPartialExecProofsSet_def sample_pep_def isIdOfReplica_def peps_addImp_def
        execAccumulator_def sample_verifier_def Let_def)
  have r: "peps_reachable sample_info sample_verifier p1 []"
    using peps_reachable.peer [OF peps_reachable.start _ p1(1)] by (simp add: sample_pep_def isIdOfPeerReplica_def)
  have "\<exists>p2. peps_addSelf sample_info sample_verifier (sample_pep 1) (replicate 32 9) [] p1 = Some (p2, Some sample_execJob)"
    by (simp add: p1(2) peps_addSelf_def newPartialExecProofsSet_def sample_pep_def peps_addImp_def
        execAccumulator_def sample_verifier_def Let_def peps_tryToCreateFullProof_def sample_execJob_def)
  then show ?thesis using peps_reachable.own [OF r] by fastforce
qed


end
