(* ===== verification/Share_Msgs.thy ===== *)
theory Share_Msgs
  imports Partial_Proofs Message_Base
begin

text \<open>
  The messages that carry signature shares and full signatures: \<^verbatim>\<open>SignedShareMsgs.cpp\<close> (prepare and
  commit phases of the slow path), \<^verbatim>\<open>PartialCommitProofMsg.cpp\<close> and \<^verbatim>\<open>FullCommitProofMsg.cpp\<close> (fast
  paths), \<^verbatim>\<open>PartialExecProofMsg.cpp\<close> and \<^verbatim>\<open>FullExecProofMsg.cpp\<close> (execution results), byte by byte.
  What the receiver reads are the records the collectors work on.
\<close>

section \<open>Signers\<close>

text \<open>\<^verbatim>\<open>IThresholdSigner\<close> of the signature library: \<open>signData\<close> fills the buffer of the length it asks for.\<close>

record ThresholdSigner =
  ts_requiredLength :: nat
  ts_signData :: "byte list \<Rightarrow> byte list"

definition signer_ok :: "ThresholdSigner \<Rightarrow> bool" where
  "signer_ok ts \<longleftrightarrow> ts_requiredLength ts < 2 ^ 16 \<and> (\<forall>d. length (ts_signData ts d) = ts_requiredLength ts)"

section \<open>Shares of the slow path\<close>

definition sizeofSignedShareBaseHeader :: nat where
  [simp]: "sizeofSignedShareBaseHeader = 20"

definition SignedShareBase_create ::
  "nat \<Rightarrow> ViewNum \<Rightarrow> SeqNum \<Rightarrow> ReplicaId \<Rightarrow> Digest \<Rightarrow> ThresholdSigner \<Rightarrow> MessageBase option" where
  "SignedShareBase_create type v s senderId digest signer = do {
     let sigLen = ts_requiredLength signer;
     m \<leftarrow> newMessage senderId type (sizeofSignedShareBaseHeader + sigLen);
     let tmpDigest = calcCombination digest v s;
     body \<leftarrow> wrs [(10, i64_bytes s), (2, i64_bytes v), (18, le_bytes 2 sigLen),
       (sizeofSignedShareBaseHeader, ts_signData signer tmpDigest)] (msgBody m);
     Some (m\<lparr>msgBody := body\<rparr>)
   }"

definition SignedShareBase_createFull ::
  "nat \<Rightarrow> ViewNum \<Rightarrow> SeqNum \<Rightarrow> ReplicaId \<Rightarrow> byte list \<Rightarrow> MessageBase option" where
  "SignedShareBase_createFull type v s senderId sig = do {
     m \<leftarrow> newMessage senderId type (sizeofSignedShareBaseHeader + length sig);
     body \<leftarrow> wrs [(10, i64_bytes s), (2, i64_bytes v), (18, le_bytes 2 (length sig)),
       (sizeofSignedShareBaseHeader, sig)] (msgBody m);
     Some (m\<lparr>msgBody := body\<rparr>)
   }"

text \<open>The accessors; the signature is read once the size was checked.\<close>

definition signedShareOf :: "MessageBase \<Rightarrow> SignedShare option" where
  "signedShareOf m = do {
     v \<leftarrow> rd_i64 2 (msgBody m);
     s \<leftarrow> rd_i64 10 (msgBody m);
     sigLen \<leftarrow> rd_nat 18 2 (msgBody m);
     sig \<leftarrow> rd sizeofSignedShareBaseHeader sigLen (msgBody m);
     Some \<lparr>ss_sender = sender m, ss_viewNumber = v, ss_seqNumber = s, ss_signature = sig\<rparr>
   }"

definition SignedShareBase_ToActualMsgType ::
  "ReplicasInfo \<Rightarrow> nat \<Rightarrow> MessageBase \<Rightarrow> SignedShare option option" where
  "SignedShareBase_ToActualMsgType repInfo type inMsg = do {
     t \<leftarrow> msgType inMsg;
     Assert (t = type);
     if msgSize inMsg < sizeofSignedShareBaseHeader then Some None
     else do {
       sigLen \<leftarrow> rd_nat 18 2 (msgBody inMsg);
       if msgSize inMsg < sizeofSignedShareBaseHeader + sigLen then Some None
       else if sender inMsg = ri_myId repInfo then Some None
       else if \<not> isIdOfReplica repInfo (sender inMsg) then Some None
       else do { share \<leftarrow> signedShareOf inMsg; Some (Some share) }
     }
   }"

definition PreparePartialMsg_create ::
  "ViewNum \<Rightarrow> SeqNum \<Rightarrow> ReplicaId \<Rightarrow> Digest \<Rightarrow> ThresholdSigner \<Rightarrow> MessageBase option" where
  "PreparePartialMsg_create = SignedShareBase_create MsgCode_PreparePartial"

definition CommitPartialMsg_create ::
  "ViewNum \<Rightarrow> SeqNum \<Rightarrow> ReplicaId \<Rightarrow> Digest \<Rightarrow> ThresholdSigner \<Rightarrow> MessageBase option" where
  "CommitPartialMsg_create = SignedShareBase_create MsgCode_CommitPartial"

definition PrepareFullMsg_create :: "ViewNum \<Rightarrow> SeqNum \<Rightarrow> ReplicaId \<Rightarrow> byte list \<Rightarrow> MessageBase option" where
  "PrepareFullMsg_create = SignedShareBase_createFull MsgCode_PrepareFull"

definition CommitFullMsg_create :: "ViewNum \<Rightarrow> SeqNum \<Rightarrow> ReplicaId \<Rightarrow> byte list \<Rightarrow> MessageBase option" where
  "CommitFullMsg_create = SignedShareBase_createFull MsgCode_CommitFull"

text \<open>Shares go to the primary of their view only.\<close>

definition onlyAtPrimary :: "ReplicasInfo \<Rightarrow> SignedShare option option \<Rightarrow> SignedShare option option" where
  "onlyAtPrimary repInfo r = do {
     r \<leftarrow> r;
     case r of
       None \<Rightarrow> Some None
     | Some share \<Rightarrow>
         if ri_myId repInfo \<noteq> primaryOfView repInfo (ss_viewNumber share) then Some None else Some (Some share)
   }"

definition PreparePartialMsg_ToActualMsgType :: "ReplicasInfo \<Rightarrow> MessageBase \<Rightarrow> SignedShare option option" where
  "PreparePartialMsg_ToActualMsgType repInfo inMsg =
     onlyAtPrimary repInfo (SignedShareBase_ToActualMsgType repInfo MsgCode_PreparePartial inMsg)"

definition CommitPartialMsg_ToActualMsgType :: "ReplicasInfo \<Rightarrow> MessageBase \<Rightarrow> SignedShare option option" where
  "CommitPartialMsg_ToActualMsgType repInfo inMsg =
     onlyAtPrimary repInfo (SignedShareBase_ToActualMsgType repInfo MsgCode_CommitPartial inMsg)"

definition PrepareFullMsg_ToActualMsgType :: "ReplicasInfo \<Rightarrow> MessageBase \<Rightarrow> SignedShare option option" where
  "PrepareFullMsg_ToActualMsgType repInfo inMsg = SignedShareBase_ToActualMsgType repInfo MsgCode_PrepareFull inMsg"

definition CommitFullMsg_ToActualMsgType :: "ReplicasInfo \<Rightarrow> MessageBase \<Rightarrow> SignedShare option option" where
  "CommitFullMsg_ToActualMsgType repInfo inMsg = SignedShareBase_ToActualMsgType repInfo MsgCode_CommitFull inMsg"

definition maxSizeOfCombinedsignature :: nat where
  [simp]: "maxSizeOfCombinedsignature = 1024"

definition maxSizeOfPrepareFull :: nat where
  "maxSizeOfPrepareFull = sizeofSignedShareBaseHeader + maxSizeOfCombinedsignature"

definition maxSizeOfPrepareFullInLocalBuffer :: nat where
  "maxSizeOfPrepareFullInLocalBuffer = maxSizeOfPrepareFull + sizeofRawHeaderOfObjAndMsg"

definition maxSizeOfCommitFull :: nat where
  "maxSizeOfCommitFull = sizeofSignedShareBaseHeader + maxSizeOfCombinedsignature"

definition maxSizeOfCommitFullInLocalBuffer :: nat where
  "maxSizeOfCommitFullInLocalBuffer = maxSizeOfCommitFull + sizeofRawHeaderOfObjAndMsg"

section \<open>Commit proofs of the fast paths\<close>

text \<open>The enumeration is stored as a 32-bit integer; the engine only compares a received path with the
  named ones and with its own, so every other value behaves like \<open>NA\<close>.\<close>

fun commitPath_code :: "CommitPath \<Rightarrow> nat" where
  "commitPath_code NA = 4294967295"
| "commitPath_code OPTIMISTIC_FAST = 0"
| "commitPath_code FAST_WITH_THRESHOLD = 1"
| "commitPath_code SLOW = 2"

definition commitPath_of :: "nat \<Rightarrow> CommitPath" where
  "commitPath_of n =
     (if n = 0 then OPTIMISTIC_FAST else if n = 1 then FAST_WITH_THRESHOLD else if n = 2 then SLOW else NA)"

definition sizeofPartialCommitProofMsgHeader :: nat where
  [simp]: "sizeofPartialCommitProofMsgHeader = 24"

definition newPartialCommitProofMsg ::
  "ReplicaId \<Rightarrow> ViewNum \<Rightarrow> SeqNum \<Rightarrow> CommitPath \<Rightarrow> Digest \<Rightarrow> ThresholdSigner \<Rightarrow> MessageBase option" where
  "newPartialCommitProofMsg senderId v s commitPath digest signer = do {
     m \<leftarrow> newMessage senderId MsgCode_PartialCommitProof (sizeofPartialCommitProofMsgHeader + ts_requiredLength signer);
     let sigLength = u16 (int (ts_requiredLength signer));
     body \<leftarrow> wrs [(2, i64_bytes v), (10, i64_bytes s), (18, le_bytes 4 (commitPath_code commitPath)),
       (22, le_bytes 2 sigLength), (sizeofPartialCommitProofMsgHeader, ts_signData signer digest)] (msgBody m);
     Some (m\<lparr>msgBody := body\<rparr>)
   }"

definition partialCommitProofOf :: "MessageBase \<Rightarrow> PartialCommitProof option" where
  "partialCommitProofOf m = do {
     v \<leftarrow> rd_i64 2 (msgBody m);
     s \<leftarrow> rd_i64 10 (msgBody m);
     path \<leftarrow> rd_nat 18 4 (msgBody m);
     sigLen \<leftarrow> rd_nat 22 2 (msgBody m);
     sig \<leftarrow> rd sizeofPartialCommitProofMsgHeader sigLen (msgBody m);
     Some \<lparr>pcp_sender = sender m, pcp_view = v, pcp_seq = s, pcp_path = commitPath_of path, pcp_signature = sig\<rparr>
   }"

definition PartialCommitProofMsg_ToActualMsgType ::
  "ReplicasInfo \<Rightarrow> MessageBase \<Rightarrow> PartialCommitProof option option" where
  "PartialCommitProofMsg_ToActualMsgType repInfo inMsg = do {
     type \<leftarrow> msgType inMsg;
     Assert (type = MsgCode_PartialCommitProof);
     if msgSize inMsg < sizeofPartialCommitProofMsgHeader then Some None
     else if sender inMsg = ri_myId repInfo then Some None
     else if \<not> isIdOfReplica repInfo (sender inMsg) then Some None
     else do {
       path \<leftarrow> rd_nat 18 4 (msgBody inMsg);
       if commitPath_of path = FAST_WITH_THRESHOLD \<and> cVal repInfo = 0 then Some None
       else if commitPath_of path = SLOW then Some None
       else do {
         sigLen \<leftarrow> rd_nat 22 2 (msgBody inMsg);
         if msgSize inMsg < sizeofPartialCommitProofMsgHeader + sigLen then Some None
         else do {
           v \<leftarrow> rd_i64 2 (msgBody inMsg);
           s \<leftarrow> rd_i64 10 (msgBody inMsg);
           if \<not> isCollectorForPartialProofs repInfo v s then Some None
           else do { pcp \<leftarrow> partialCommitProofOf inMsg; Some (Some pcp) }
         }
       }
     }
   }"

definition sizeofFullCommitProofMsgHeader :: nat where
  [simp]: "sizeofFullCommitProofMsgHeader = 20"

definition newFullCommitProofMsg :: "ReplicaId \<Rightarrow> ViewNum \<Rightarrow> SeqNum \<Rightarrow> byte list \<Rightarrow> MessageBase option" where
  "newFullCommitProofMsg senderId v s sig = do {
     m \<leftarrow> newMessage senderId MsgCode_FullCommitProof (sizeofFullCommitProofMsgHeader + length sig);
     body \<leftarrow> wrs [(2, i64_bytes v), (10, i64_bytes s), (18, le_bytes 2 (length sig)),
       (sizeofFullCommitProofMsgHeader, sig)] (msgBody m);
     Some (m\<lparr>msgBody := body\<rparr>)
   }"

definition fullCommitProofOf :: "MessageBase \<Rightarrow> FullCommitProof option" where
  "fullCommitProofOf m = do {
     v \<leftarrow> rd_i64 2 (msgBody m);
     s \<leftarrow> rd_i64 10 (msgBody m);
     sigLen \<leftarrow> rd_nat 18 2 (msgBody m);
     sig \<leftarrow> rd sizeofFullCommitProofMsgHeader sigLen (msgBody m);
     Some \<lparr>fcp_sender = sender m, fcp_view = v, fcp_seq = s, fcp_signature = sig\<rparr>
   }"

definition FullCommitProofMsg_ToActualMsgType ::
  "ReplicasInfo \<Rightarrow> MessageBase \<Rightarrow> FullCommitProof option option" where
  "FullCommitProofMsg_ToActualMsgType repInfo inMsg = do {
     type \<leftarrow> msgType inMsg;
     Assert (type = MsgCode_FullCommitProof);
     if msgSize inMsg < sizeofFullCommitProofMsgHeader then Some None
     else if sender inMsg = ri_myId repInfo then Some None
     else if \<not> isIdOfReplica repInfo (sender inMsg) then Some None
     else do {
       sigLen \<leftarrow> rd_nat 18 2 (msgBody inMsg);
       if msgSize inMsg < sizeofFullCommitProofMsgHeader + sigLen then Some None
       else do { fcp \<leftarrow> fullCommitProofOf inMsg; Some (Some fcp) }
     }
   }"

definition maxSizeOfFullCommitProofMsg :: nat where
  "maxSizeOfFullCommitProofMsg = sizeofFullCommitProofMsgHeader + maxSizeOfCombinedsignature"

definition maxSizeOfFullCommitProofMsgInLocalBuffer :: nat where
  "maxSizeOfFullCommitProofMsgInLocalBuffer = maxSizeOfFullCommitProofMsg + sizeofRawHeaderOfObjAndMsg"

section \<open>Execution proofs\<close>

definition sizeofPartialExecProofMsgHeader :: nat where
  [simp]: "sizeofPartialExecProofMsgHeader = 20"

definition newPartialExecProofMsg ::
  "ReplicaId \<Rightarrow> ViewNum \<Rightarrow> SeqNum \<Rightarrow> Digest \<Rightarrow> ThresholdSigner \<Rightarrow> MessageBase option" where
  "newPartialExecProofMsg senderId v s digest signer = do {
     m \<leftarrow> newMessage senderId MsgCode_PartialExecProof (sizeofPartialExecProofMsgHeader + ts_requiredLength signer);
     let sigLength = u16 (int (ts_requiredLength signer));
     body \<leftarrow> wrs [(2, i64_bytes v), (10, i64_bytes s), (18, le_bytes 2 sigLength),
       (sizeofPartialExecProofMsgHeader, ts_signData signer digest)] (msgBody m);
     Some (m\<lparr>msgBody := body\<rparr>)
   }"

definition partialExecProofOf :: "MessageBase \<Rightarrow> PartialExecProof option" where
  "partialExecProofOf m = do {
     v \<leftarrow> rd_i64 2 (msgBody m);
     s \<leftarrow> rd_i64 10 (msgBody m);
     sigLen \<leftarrow> rd_nat 18 2 (msgBody m);
     sig \<leftarrow> rd sizeofPartialExecProofMsgHeader sigLen (msgBody m);
     Some \<lparr>pep_sender = sender m, pep_view = v, pep_seq = s, pep_signature = sig\<rparr>
   }"

definition PartialExecProofMsg_ToActualMsgType ::
  "ReplicasInfo \<Rightarrow> MessageBase \<Rightarrow> PartialExecProof option option" where
  "PartialExecProofMsg_ToActualMsgType repInfo inMsg = do {
     type \<leftarrow> msgType inMsg;
     Assert (type = MsgCode_PartialExecProof);
     if msgSize inMsg < sizeofPartialExecProofMsgHeader then Some None
     else do {
       sigLen \<leftarrow> rd_nat 18 2 (msgBody inMsg);
       if msgSize inMsg < sizeofPartialExecProofMsgHeader + sigLen then Some None
       else if sender inMsg = ri_myId repInfo then Some None
       else if \<not> isIdOfReplica repInfo (sender inMsg) then Some None
       else do { pep \<leftarrow> partialExecProofOf inMsg; Some (Some pep) }
     }
   }"

definition sizeofFullExecProofMsgHeader :: nat where
  [simp]: "sizeofFullExecProofMsgHeader = 20"

text \<open>The proof of a request, made without its signature; and the proof of a read, which has one.\<close>

definition newFullExecProofMsg ::
  "ReplicaId \<Rightarrow> NodeIdType \<Rightarrow> ReqId \<Rightarrow> nat \<Rightarrow> byte list \<Rightarrow> byte list \<Rightarrow> MessageBase option" where
  "newFullExecProofMsg senderId clientId requestId sigLength root executionProof = do {
     m \<leftarrow> newMessage senderId MsgCode_FullExecProof
       (sizeofFullExecProofMsgHeader + sigLength + length root + length executionProof);
     body \<leftarrow> wrs [(12, le_bytes 2 1), (2, le_bytes 2 clientId), (4, le_bytes 8 requestId), (14, le_bytes 2 sigLength),
       (16, le_bytes 2 (length root)), (18, le_bytes 2 (length executionProof)),
       (sizeofFullExecProofMsgHeader, root), (sizeofFullExecProofMsgHeader + length root, executionProof)] (msgBody m);
     Some (m\<lparr>msgBody := body\<rparr>)
   }"

definition newReadProofMsg ::
  "ReplicaId \<Rightarrow> NodeIdType \<Rightarrow> byte list \<Rightarrow> byte list \<Rightarrow> byte list \<Rightarrow> MessageBase option" where
  "newReadProofMsg senderId clientId sig root readProof = do {
     m \<leftarrow> newMessage senderId MsgCode_FullExecProof
       (sizeofFullExecProofMsgHeader + length sig + length root + length readProof);
     body \<leftarrow> wrs [(12, le_bytes 2 0), (2, le_bytes 2 clientId), (4, le_bytes 8 0), (14, le_bytes 2 (length sig)),
       (16, le_bytes 2 (length root)), (18, le_bytes 2 (length readProof)),
       (sizeofFullExecProofMsgHeader, root), (sizeofFullExecProofMsgHeader + length root, readProof),
       (sizeofFullExecProofMsgHeader + length root + length readProof, sig)] (msgBody m);
     Some (m\<lparr>msgBody := body\<rparr>)
   }"

definition FullExecProofMsg_setSignature :: "byte list \<Rightarrow> MessageBase \<Rightarrow> MessageBase option" where
  "FullExecProofMsg_setSignature sig m = do {
     sigLen \<leftarrow> rd_nat 14 2 (msgBody m);
     Assert (sigLen \<ge> length sig);
     rootLen \<leftarrow> rd_nat 16 2 (msgBody m);
     proofLen \<leftarrow> rd_nat 18 2 (msgBody m);
     body \<leftarrow> wrs [(sizeofFullExecProofMsgHeader + rootLen + proofLen, sig), (14, le_bytes 2 (length sig)),
       (12, le_bytes 2 0)] (msgBody m);
     Some (m\<lparr>msgBody := body\<rparr>)
   }"

definition fullExecProofOf :: "MessageBase \<Rightarrow> FullExecProof option" where
  "fullExecProofOf m = do {
     client \<leftarrow> rd_nat 2 2 (msgBody m);
     req \<leftarrow> rd_nat 4 8 (msgBody m);
     notReady \<leftarrow> rd_nat 12 2 (msgBody m);
     sigLen \<leftarrow> rd_nat 14 2 (msgBody m);
     rootLen \<leftarrow> rd_nat 16 2 (msgBody m);
     proofLen \<leftarrow> rd_nat 18 2 (msgBody m);
     sig \<leftarrow> rd (sizeofFullExecProofMsgHeader + rootLen + proofLen) sigLen (msgBody m);
     Some \<lparr>fep_client = client, fep_requestId = req, fep_isNotReady = (notReady \<noteq> 0),
           fep_signatureLength = sigLen, fep_signature = sig\<rparr>
   }"

text \<open>The receiver checks nothing but the size of the header.\<close>

definition FullExecProofMsg_ToActualMsgType :: "MessageBase \<Rightarrow> MessageBase option option" where
  "FullExecProofMsg_ToActualMsgType inMsg = do {
     type \<leftarrow> msgType inMsg;
     Assert (type = MsgCode_FullExecProof);
     if msgSize inMsg < sizeofFullExecProofMsgHeader then Some None else Some (Some inMsg)
   }"

section \<open>Round trips\<close>

lemma rd_i64_bytes: "rd off (length (i64_bytes x)) b = Some (i64_bytes x) \<Longrightarrow> is_i64 x \<Longrightarrow> rd_i64 off b = Some x"
  by (simp add: rd_i64_def rd_nat_def i64_roundtrip)

lemma rd_nat_bytes: "rd off (length (le_bytes n x)) b = Some (le_bytes n x) \<Longrightarrow> x < 256 ^ n \<Longrightarrow> rd_nat off n b = Some x"
  by (simp add: rd_nat_def le_val_le_bytes)

text \<open>A message with the fields of \<open>SignedShareBaseHeader\<close> and a signature behind them.\<close>

lemma signed_fields:
  assumes "r < 2 ^ 16" "type < 2 ^ 16" "is_i64 v" "is_i64 n" "length sig < 2 ^ 16"
    and fs: "fs = [(10, i64_bytes n), (2, i64_bytes v), (18, le_bytes 2 (length sig)), (20, sig)] \<or>
      fs = [(2, i64_bytes v), (10, i64_bytes n), (18, le_bytes 2 (length sig)), (20, sig)]"
  shows "\<exists>m b. newMessage r type (20 + length sig) = Some m \<and> wrs fs (msgBody m) = Some b \<and>
     wf_msg (m\<lparr>msgBody := b\<rparr>) \<and> msgSize m = 20 + length sig \<and> sender m = r \<and>
     rd_nat 0 2 b = Some type \<and> rd_i64 2 b = Some v \<and> rd_i64 10 b = Some n \<and>
     rd_nat 18 2 b = Some (length sig) \<and> rd 20 (length sig) b = Some sig"
proof -
  have "sorted_wrt apart fs" "\<forall>(off, bs) \<in> set fs. 2 \<le> off \<and> off + length bs \<le> 20 + length sig"
    using fs by auto
  then obtain m b where m: "newMessage r type (20 + length sig) = Some m" "wrs fs (msgBody m) = Some b"
    "wf_msg (m\<lparr>msgBody := b\<rparr>)" "msgSize m = 20 + length sig" "sender m = r" "rd_nat 0 2 b = Some type"
    and rds: "\<forall>(off, bs) \<in> set fs. rd off (length bs) b = Some bs"
    using new_packed [OF assms(1,2), of "20 + length sig" fs] by auto
  have "set fs = {(10, i64_bytes n), (2, i64_bytes v), (18, le_bytes 2 (length sig)), (20, sig)}"
    using fs by auto
  then have "rd_i64 2 b = Some v" "rd_i64 10 b = Some n" "rd_nat 18 2 b = Some (length sig)" "rd 20 (length sig) b = Some sig"
    using rds assms(3-5) by (auto intro!: rd_i64_bytes rd_nat_bytes)
  then show ?thesis using m by blast
qed

lemma signed_share_accepted:
  assumes "wf_msg (m\<lparr>msgBody := b\<rparr>)" "msgSize m = 20 + length sig" "isIdOfPeerReplica info (sender m)"
    "rd_nat 0 2 b = Some type" "rd_i64 2 b = Some v" "rd_i64 10 b = Some n"
    "rd_nat 18 2 b = Some (length sig)" "rd 20 (length sig) b = Some sig"
  shows "SignedShareBase_ToActualMsgType info type (m\<lparr>msgBody := b\<rparr>) =
    Some (Some \<lparr>ss_sender = sender m, ss_viewNumber = v, ss_seqNumber = n, ss_signature = sig\<rparr>)"
  using assms
  by (auto simp: SignedShareBase_ToActualMsgType_def msgType_def signedShareOf_def isIdOfPeerReplica_def isIdOfReplica_def)

lemma peer_id16: "wf_replicas_info info \<Longrightarrow> isIdOfPeerReplica info r \<Longrightarrow> r < 2 ^ 16"
  by (auto simp: isIdOfPeerReplica_def wf_replicas_info_def)

lemma SignedShareBase_create_accepted:
  assumes "wf_replicas_info info" "isIdOfPeerReplica info r" "type < 2 ^ 16" "is_i64 v" "is_i64 n" "signer_ok signer"
  shows "\<exists>m. SignedShareBase_create type v n r d signer = Some m \<and>
    SignedShareBase_ToActualMsgType info type m = Some (Some \<lparr>ss_sender = r, ss_viewNumber = v, ss_seqNumber = n,
      ss_signature = ts_signData signer (calcCombination d v n)\<rparr>)"
proof -
  let ?sig = "ts_signData signer (calcCombination d v n)"
  have len: "length ?sig = ts_requiredLength signer" "ts_requiredLength signer < 2 ^ 16"
    using assms(6) by (auto simp: signer_ok_def)
  obtain m b where m: "newMessage r type (20 + length ?sig) = Some m"
    "wrs [(10, i64_bytes n), (2, i64_bytes v), (18, le_bytes 2 (length ?sig)), (20, ?sig)] (msgBody m) = Some b"
    "wf_msg (m\<lparr>msgBody := b\<rparr>)" "msgSize m = 20 + length ?sig" "sender m = r"
    "rd_nat 0 2 b = Some type" "rd_i64 2 b = Some v" "rd_i64 10 b = Some n"
    "rd_nat 18 2 b = Some (length ?sig)" "rd 20 (length ?sig) b = Some ?sig"
    using signed_fields [OF peer_id16 [OF assms(1,2)] assms(3-5) _ disjI1 [OF refl], of ?sig] len by auto
  then show ?thesis
    using signed_share_accepted [OF m(3,4) _ m(6-)] assms(2) len
    by (simp add: SignedShareBase_create_def Let_def)
qed

lemma SignedShareBase_createFull_accepted:
  assumes "wf_replicas_info info" "isIdOfPeerReplica info r" "type < 2 ^ 16" "is_i64 v" "is_i64 n" "length sig < 2 ^ 16"
  shows "\<exists>m. SignedShareBase_createFull type v n r sig = Some m \<and> msgSize m = 20 + length sig \<and>
    SignedShareBase_ToActualMsgType info type m = Some (Some \<lparr>ss_sender = r, ss_viewNumber = v, ss_seqNumber = n,
      ss_signature = sig\<rparr>)"
proof -
  obtain m b where m: "newMessage r type (20 + length sig) = Some m"
    "wrs [(10, i64_bytes n), (2, i64_bytes v), (18, le_bytes 2 (length sig)), (20, sig)] (msgBody m) = Some b"
    "wf_msg (m\<lparr>msgBody := b\<rparr>)" "msgSize m = 20 + length sig" "sender m = r"
    "rd_nat 0 2 b = Some type" "rd_i64 2 b = Some v" "rd_i64 10 b = Some n"
    "rd_nat 18 2 b = Some (length sig)" "rd 20 (length sig) b = Some sig"
    using signed_fields [OF peer_id16 [OF assms(1,2)] assms(3-6) disjI1 [OF refl]] by auto
  then show ?thesis
    using signed_share_accepted [OF m(3,4) _ m(6-)] assms(2) by (simp add: SignedShareBase_createFull_def)
qed

text \<open>a share of the slow path reaches the primary as it was made: what the primary reads is the
  sender, the view, the sequence number and the signature of the digest combined with both. Every
  other replica drops it, so only the primary collects shares.\<close>

theorem slow_path_share_roundtrip:
  assumes "wf_replicas_info info" "isIdOfPeerReplica info r" "is_i64 v" "is_i64 n" "signer_ok signer"
  shows "\<exists>mp mc. PreparePartialMsg_create v n r d signer = Some mp \<and> CommitPartialMsg_create v n r d signer = Some mc \<and>
    (let share = \<lparr>ss_sender = r, ss_viewNumber = v, ss_seqNumber = n,
                  ss_signature = ts_signData signer (calcCombination d v n)\<rparr>;
         expected = (if ri_myId info = primaryOfView info v then Some share else None) in
     PreparePartialMsg_ToActualMsgType info mp = Some expected \<and>
     CommitPartialMsg_ToActualMsgType info mc = Some expected)"
  using SignedShareBase_create_accepted [OF assms(1,2) _ assms(3-5), of MsgCode_PreparePartial d]
    SignedShareBase_create_accepted [OF assms(1,2) _ assms(3-5), of MsgCode_CommitPartial d]
  by (auto simp: PreparePartialMsg_create_def CommitPartialMsg_create_def PreparePartialMsg_ToActualMsgType_def
      CommitPartialMsg_ToActualMsgType_def onlyAtPrimary_def Let_def)

definition sample_signer :: ThresholdSigner where
  "sample_signer = \<lparr>ts_requiredLength = 2, ts_signData = (\<lambda>d. [hd d, 7])\<rparr>"

lemma sample_signer_ok: "signer_ok sample_signer"
  by (simp add: signer_ok_def sample_signer_def)

theorem slow_path_share_roundtrip_witness:
  "\<exists>mp. PreparePartialMsg_create 1 5 3 (replicate 32 9) sample_signer = Some mp \<and>
     PreparePartialMsg_ToActualMsgType sample_info mp = Some (Some \<lparr>ss_sender = 3, ss_viewNumber = 1, ss_seqNumber = 5,
       ss_signature = ts_signData sample_signer (calcCombination (replicate 32 9) 1 5)\<rparr>)"
proof -
  have "primaryOfView sample_info 1 = 1" by code_simp
  then show ?thesis
    using slow_path_share_roundtrip [OF sample_info_wf, of 3 1 5 sample_signer "replicate 32 9"] sample_signer_ok
    by (auto simp: isIdOfPeerReplica_def is_i64_def Let_def)
qed

text \<open>Full signatures reach every other replica.\<close>

lemma full_signature_accepted:
  assumes "wf_replicas_info info" "isIdOfPeerReplica info r" "is_i64 v" "is_i64 n" "length sig < 2 ^ 16"
  shows "\<exists>mp mc mf. PrepareFullMsg_create v n r sig = Some mp \<and> CommitFullMsg_create v n r sig = Some mc \<and>
    newFullCommitProofMsg r v n sig = Some mf \<and>
    (let share = \<lparr>ss_sender = r, ss_viewNumber = v, ss_seqNumber = n, ss_signature = sig\<rparr> in
     PrepareFullMsg_ToActualMsgType info mp = Some (Some share) \<and>
     CommitFullMsg_ToActualMsgType info mc = Some (Some share)) \<and>
    FullCommitProofMsg_ToActualMsgType info mf =
      Some (Some \<lparr>fcp_sender = r, fcp_view = v, fcp_seq = n, fcp_signature = sig\<rparr>) \<and>
    (length sig \<le> maxSizeOfCombinedsignature \<longrightarrow>
       msgSize mp \<le> maxSizeOfPrepareFull \<and> msgSize mc \<le> maxSizeOfCommitFull \<and>
       msgSize mf \<le> maxSizeOfFullCommitProofMsg)"
proof -
  obtain m b where m: "newMessage r MsgCode_FullCommitProof (20 + length sig) = Some m"
    "wrs [(2, i64_bytes v), (10, i64_bytes n), (18, le_bytes 2 (length sig)), (20, sig)] (msgBody m) = Some b"
    "msgSize m = 20 + length sig" "sender m = r"
    "rd_nat 0 2 b = Some MsgCode_FullCommitProof" "rd_i64 2 b = Some v" "rd_i64 10 b = Some n"
    "rd_nat 18 2 b = Some (length sig)" "rd 20 (length sig) b = Some sig"
    using signed_fields [OF peer_id16 [OF assms(1,2)] _ assms(3-5) disjI2 [OF refl], of MsgCode_FullCommitProof] by auto
  then have "newFullCommitProofMsg r v n sig = Some (m\<lparr>msgBody := b\<rparr>)"
    "FullCommitProofMsg_ToActualMsgType info (m\<lparr>msgBody := b\<rparr>) =
      Some (Some \<lparr>fcp_sender = r, fcp_view = v, fcp_seq = n, fcp_signature = sig\<rparr>)"
    using assms(2) by (auto simp: newFullCommitProofMsg_def FullCommitProofMsg_ToActualMsgType_def msgType_def
        fullCommitProofOf_def isIdOfPeerReplica_def isIdOfReplica_def)
  then show ?thesis
    using SignedShareBase_createFull_accepted [OF assms(1,2) _ assms(3-5), of MsgCode_PrepareFull]
      SignedShareBase_createFull_accepted [OF assms(1,2) _ assms(3-5), of MsgCode_CommitFull] m(3)
    by (auto simp: PrepareFullMsg_create_def CommitFullMsg_create_def PrepareFullMsg_ToActualMsgType_def Let_def
        CommitFullMsg_ToActualMsgType_def maxSizeOfPrepareFull_def maxSizeOfCommitFull_def maxSizeOfFullCommitProofMsg_def)
qed

lemma commitPath_roundtrip [simp]: "commitPath_of (commitPath_code p) = p"
  by (cases p) (simp_all add: commitPath_of_def)

lemma commitPath_code_bound: "commitPath_code p < 2 ^ 32"
  by (cases p) simp_all

text \<open>A share of a fast path is accepted exactly by the collectors of its slot, and the path with
  threshold only where \<open>c > 0\<close>.\<close>

lemma commit_proof_share_accepted:
  assumes "wf_replicas_info info" "isIdOfPeerReplica info r" "is_i64 v" "is_i64 n" "signer_ok signer"
  shows "\<exists>m. newPartialCommitProofMsg r v n path d signer = Some m \<and>
    PartialCommitProofMsg_ToActualMsgType info m = Some
      (if path = SLOW \<or> (path = FAST_WITH_THRESHOLD \<and> cVal info = 0) \<or> \<not> isCollectorForPartialProofs info v n then None
       else Some \<lparr>pcp_sender = r, pcp_view = v, pcp_seq = n, pcp_path = path, pcp_signature = ts_signData signer d\<rparr>)"
proof -
  let ?sig = "ts_signData signer d"
  let ?fs = "[(2, i64_bytes v), (10, i64_bytes n), (18, le_bytes 4 (commitPath_code path)),
    (22, le_bytes 2 (length ?sig)), (24, ?sig)]"
  have len: "length ?sig = ts_requiredLength signer" "ts_requiredLength signer < 2 ^ 16"
    using assms(5) by (auto simp: signer_ok_def)
  obtain m b where m: "newMessage r MsgCode_PartialCommitProof (24 + length ?sig) = Some m"
    "wrs ?fs (msgBody m) = Some b" "msgSize m = 24 + length ?sig" "sender m = r"
    "rd_nat 0 2 b = Some MsgCode_PartialCommitProof" and rds: "\<forall>(off, bs) \<in> set ?fs. rd off (length bs) b = Some bs"
    using new_packed [OF peer_id16 [OF assms(1,2)], of MsgCode_PartialCommitProof "24 + length ?sig" ?fs] by auto
  have "rd_i64 2 b = Some v" "rd_i64 10 b = Some n" "rd_nat 18 4 b = Some (commitPath_code path)"
    "rd_nat 22 2 b = Some (length ?sig)" "rd 24 (length ?sig) b = Some ?sig"
    using rds assms(3,4) len commitPath_code_bound [of path] by (auto intro!: rd_i64_bytes rd_nat_bytes)
  moreover have "u16 (int (ts_requiredLength signer)) = length ?sig" using len by (simp add: u16_id)
  ultimately show ?thesis
    using m assms(2) len
    by (auto simp: newPartialCommitProofMsg_def PartialCommitProofMsg_ToActualMsgType_def msgType_def Let_def
        partialCommitProofOf_def isIdOfPeerReplica_def isIdOfReplica_def)
qed

section \<open>Hostile messages\<close>

lemma rd_ok: "off + n \<le> length b \<Longrightarrow> rd off n b = Some (take n (drop off b))"
  by (simp add: rd_def)

lemma rd_nat_ok: "off + n \<le> length b \<Longrightarrow> \<exists>x. rd_nat off n b = Some x"
  by (simp add: rd_nat_def rd_def)

lemma rd_i64_ok: "off + 8 \<le> length b \<Longrightarrow> \<exists>x. rd_i64 off b = Some x"
  by (simp add: rd_i64_def rd_nat_def rd_def)

text \<open>C30: whatever bytes arrive in a message of a well-formed container, deciding whether it is a share
  or a full signature and reading its fields stays inside the message, for all seven message types
  whose receivers check the size; an accepted one carries the container's sender, which is a peer.\<close>

theorem share_messages_safe:
  assumes "wf_msg m" "msgType m = Some type"
  shows "(\<exists>r. SignedShareBase_ToActualMsgType info type m = Some r \<and>
             (\<forall>x. r = Some x \<longrightarrow> ss_sender x = sender m \<and> isIdOfPeerReplica info (sender m))) \<and>
    (type = MsgCode_PartialCommitProof \<longrightarrow>
      (\<exists>r. PartialCommitProofMsg_ToActualMsgType info m = Some r \<and>
         (\<forall>x. r = Some x \<longrightarrow> pcp_sender x = sender m \<and> isIdOfPeerReplica info (sender m) \<and> pcp_path x \<noteq> SLOW))) \<and>
    (type = MsgCode_FullCommitProof \<longrightarrow>
      (\<exists>r. FullCommitProofMsg_ToActualMsgType info m = Some r \<and>
         (\<forall>x. r = Some x \<longrightarrow> fcp_sender x = sender m \<and> isIdOfPeerReplica info (sender m)))) \<and>
    (type = MsgCode_PartialExecProof \<longrightarrow>
      (\<exists>r. PartialExecProofMsg_ToActualMsgType info m = Some r \<and>
         (\<forall>x. r = Some x \<longrightarrow> pep_sender x = sender m \<and> isIdOfPeerReplica info (sender m))))"
proof -
  have len: "msgSize m \<le> length (msgBody m)" using assms(1) by (simp add: wf_msg_def)
  have "\<exists>v s k. rd_i64 2 (msgBody m) = Some v \<and> rd_i64 10 (msgBody m) = Some s \<and> rd_nat 18 2 (msgBody m) = Some k"
    if "20 \<le> msgSize m" using that len rd_i64_ok [of 2] rd_i64_ok [of 10] rd_nat_ok [of 18 2] by auto
  moreover have "\<exists>p k. rd_nat 18 4 (msgBody m) = Some p \<and> rd_nat 22 2 (msgBody m) = Some k" if "24 \<le> msgSize m"
    using that len rd_nat_ok [of 18 4] rd_nat_ok [of 22 2] by auto
  ultimately show ?thesis
    using assms(2) len
    by (cases "20 \<le> msgSize m"; cases "24 \<le> msgSize m")
      (fastforce simp: SignedShareBase_ToActualMsgType_def PartialCommitProofMsg_ToActualMsgType_def
        FullCommitProofMsg_ToActualMsgType_def PartialExecProofMsg_ToActualMsgType_def signedShareOf_def
        partialCommitProofOf_def fullCommitProofOf_def partialExecProofOf_def rd_ok isIdOfPeerReplica_def
        isIdOfReplica_def)+
qed

theorem share_messages_safe_witness:
  "\<exists>r. PartialCommitProofMsg_ToActualMsgType sample_info (messageFromBody 3 (le_bytes 2 107 @ replicate 30 255) 32 True) = Some r"
proof -
  let ?m = "messageFromBody 3 (le_bytes 2 107 @ replicate 30 255) 32 True"
  have "wf_msg ?m" "msgType ?m = Some 107"
    by (simp_all add: wf_msg_def messageFromBody_def msgType_def rd_nat_def rd_def le_val_le_bytes)
  from share_messages_safe [OF this, of sample_info] show ?thesis by auto
qed

section \<open>The signature of an execution proof\<close>

text \<open>filling the signature into the bytes of an execution proof is the operation on the abstract
  proof: it fails exactly when the signature is longer than the room reserved for it, and otherwise
  changes the signature, its length and the ready mark and nothing else.\<close>

theorem exec_signature_refines:
  assumes "fullExecProofOf m = Some f"
  shows "(case FullExecProofMsg_setSignature sig m of
            None \<Rightarrow> setSignature sig f = None
          | Some m' \<Rightarrow> fullExecProofOf m' = setSignature sig f \<and> setSignature sig f \<noteq> None \<and>
              msgSize m' = msgSize m \<and> sender m' = sender m)"
proof -
  obtain client req nr sl rl pl where rds: "rd_nat 2 2 (msgBody m) = Some client" "rd_nat 4 8 (msgBody m) = Some req"
    "rd_nat 12 2 (msgBody m) = Some nr" "rd_nat 14 2 (msgBody m) = Some sl" "rd_nat 16 2 (msgBody m) = Some rl"
    "rd_nat 18 2 (msgBody m) = Some pl" "rd (20 + rl + pl) sl (msgBody m) = Some (fep_signature f)"
    "f = \<lparr>fep_client = client, fep_requestId = req, fep_isNotReady = (nr \<noteq> 0), fep_signatureLength = sl,
          fep_signature = fep_signature f\<rparr>"
    using assms by (auto simp: fullExecProofOf_def Option.bind_eq_Some_conv)
  show ?thesis
  proof (cases "length sig \<le> sl")
    case False
    have "fep_signatureLength f = sl" using rds(8) by (metis FullExecProof.select_convs(4))
    then show ?thesis using False rds(4) by (simp add: FullExecProofMsg_setSignature_def setSignature_def)
  next
    case True
    let ?fs = "[(20 + rl + pl, sig), (14, le_bytes 2 (length sig)), (12, le_bytes 2 0)]"
    have room: "20 + rl + pl + sl \<le> length (msgBody m)" using rds(7) by (simp add: rd_eq_Some)
    then obtain b where b: "wrs ?fs (msgBody m) = Some b" using wrs_total [of ?fs "msgBody m"] True by auto
    have same: "rd 2 2 b = rd 2 2 (msgBody m)" "rd 4 8 b = rd 4 8 (msgBody m)" "rd 16 2 b = rd 16 2 (msgBody m)"
      "rd 18 2 b = rd 18 2 (msgBody m)" by (rule rd_wrs_other [OF b], simp)+
    have new: "rd 12 2 b = Some (le_bytes 2 0)" "rd 14 2 b = Some (le_bytes 2 (length sig))"
      "rd (20 + rl + pl) (length sig) b = Some sig"
      using rd_wrs [OF b, of 12 "le_bytes 2 0"] rd_wrs [OF b, of 14 "le_bytes 2 (length sig)"]
        rd_wrs [OF b, of "20 + rl + pl" sig] by simp_all
    have "length sig < 65536" using True rd_nat_bound [OF rds(4)] by simp
    then have "fullExecProofOf (m\<lparr>msgBody := b\<rparr>) = Some \<lparr>fep_client = client, fep_requestId = req,
        fep_isNotReady = False, fep_signatureLength = length sig, fep_signature = sig\<rparr>"
      using same new rds(1,2,5,6) by (auto simp: fullExecProofOf_def rd_nat_def le_val_le_bytes)
    moreover have "setSignature sig f = Some \<lparr>fep_client = client, fep_requestId = req,
        fep_isNotReady = False, fep_signatureLength = length sig, fep_signature = sig\<rparr>"
      using True by (subst rds(8)) (simp add: setSignature_def)
    moreover have "FullExecProofMsg_setSignature sig m = Some (m\<lparr>msgBody := b\<rparr>)"
      using b True rds(4-6) by (simp add: FullExecProofMsg_setSignature_def)
    ultimately show ?thesis by simp
  qed
qed

definition sample_execMsg :: MessageBase where
  "sample_execMsg = messageFromBody 2 (le_bytes 2 104 @ le_bytes 2 9 @ le_bytes 8 77 @ le_bytes 2 1 @ le_bytes 2 4 @
     le_bytes 2 1 @ le_bytes 2 1 @ [5, 6, 0, 0, 0, 0]) 26 True"

theorem exec_signature_refines_witness:
  "\<exists>m'. FullExecProofMsg_setSignature [1, 2, 3] sample_execMsg = Some m' \<and>
     fullExecProofOf m' = Some \<lparr>fep_client = 9, fep_requestId = 77, fep_isNotReady = False,
       fep_signatureLength = 3, fep_signature = [1, 2, 3]\<rparr>"
proof -
  have f: "fullExecProofOf sample_execMsg = Some \<lparr>fep_client = 9, fep_requestId = 77, fep_isNotReady = True,
      fep_signatureLength = 4, fep_signature = [0, 0, 0, 0]\<rparr>" (is "_ = Some ?f")
    by (simp add: sample_execMsg_def messageFromBody_def fullExecProofOf_def rd_nat_def rd_def le_val_le_bytes)
  have "setSignature [1, 2, 3] ?f = Some \<lparr>fep_client = 9, fep_requestId = 77, fep_isNotReady = False,
       fep_signatureLength = 3, fep_signature = [1, 2, 3]\<rparr>"
    by (simp add: setSignature_def)
  then show ?thesis using exec_signature_refines [OF f, of "[1, 2, 3]"] by (auto split: option.splits)
qed

end
