(* ===== verification/Bitmaps.thy ===== *)
theory Bitmaps
  imports Message_Base
begin

text \<open>
  Sets of numbers kept as bits of a block of bytes: \<^verbatim>\<open>Bitmap.hpp\<close>, and the interface \<open>bit_set\<close> that the
  bitmap and the lists of a status message implement.
\<close>

unbundle bit_operations_syntax

section \<open>The interface\<close>

text \<open>Marking every number of a list, in order.\<close>

fun markAll :: "(nat \<Rightarrow> 's \<Rightarrow> 's option) \<Rightarrow> nat list \<Rightarrow> 's \<Rightarrow> 's option" where
  "markAll mark [] s = Some s"
| "markAll mark (i # is) s = do { s \<leftarrow> mark i s; markAll mark is s }"

locale bit_set =
  fixes ok :: "'s \<Rightarrow> bool"
    and cap :: "'s \<Rightarrow> nat"
    and test :: "'s \<Rightarrow> nat \<Rightarrow> bool option"
    and mark :: "nat \<Rightarrow> 's \<Rightarrow> 's option"
  assumes test_total: "ok s \<Longrightarrow> i < cap s \<Longrightarrow> \<exists>b. test s i = Some b"
    and mark_total: "ok s \<Longrightarrow> i < cap s \<Longrightarrow> \<exists>s'. mark i s = Some s'"
    and mark_keeps: "ok s \<Longrightarrow> i < cap s \<Longrightarrow> mark i s = Some s' \<Longrightarrow> ok s' \<and> cap s' = cap s"
    and test_mark: "ok s \<Longrightarrow> i < cap s \<Longrightarrow> j < cap s \<Longrightarrow> mark i s = Some s' \<Longrightarrow>
      test s' j = (if j = i then Some True else test s j)"
begin

lemma markAll_spec:
  assumes "ok s" "set is \<subseteq> {..<cap s}"
  shows "\<exists>s'. markAll mark is s = Some s' \<and> ok s' \<and> cap s' = cap s \<and>
    (\<forall>j < cap s. test s' j = (if j \<in> set is then Some True else test s j))"
  using assms
proof (induction "is" arbitrary: s)
  case (Cons i "is")
  have i: "i < cap s" using Cons.prems(2) by simp
  obtain s1 where s1: "mark i s = Some s1" using mark_total [OF Cons.prems(1) i] by blast
  have ok1: "ok s1" "cap s1 = cap s" using mark_keeps [OF Cons.prems(1) i s1] by auto
  obtain s2 where "markAll mark is s1 = Some s2" "ok s2" "cap s2 = cap s1"
    "\<forall>j < cap s1. test s2 j = (if j \<in> set is then Some True else test s1 j)"
    using Cons.IH [OF ok1(1)] Cons.prems(2) ok1(2) by auto
  then show ?case
    using s1 ok1(2) test_mark [OF Cons.prems(1) i _ s1] by auto
qed simp

text \<open>Starting from an empty set, exactly the marked numbers are members.\<close>

lemma markAll_empty:
  assumes "ok s" "set is \<subseteq> {..<cap s}" "\<forall>j < cap s. test s j = Some False"
  shows "\<exists>s'. markAll mark is s = Some s' \<and> ok s' \<and> (\<forall>j < cap s. test s' j = Some (j \<in> set is))"
  using markAll_spec [OF assms(1,2)] assms(3) by auto

end

section \<open>Bits in bytes\<close>

definition byteBit :: "byte list \<Rightarrow> nat \<Rightarrow> bool option" where
  "byteBit p i = do { b \<leftarrow> at p (i div 8); Some (b AND push_bit (i mod 8) 1 \<noteq> 0) }"

definition byteSet :: "nat \<Rightarrow> byte list \<Rightarrow> byte list option" where
  "byteSet i p = do { b \<leftarrow> at p (i div 8); Some (p[i div 8 := b OR push_bit (i mod 8) 1]) }"

definition byteReset :: "nat \<Rightarrow> byte list \<Rightarrow> byte list option" where
  "byteReset i p = do { b \<leftarrow> at p (i div 8); Some (p[i div 8 := b AND (0xFF AND NOT (push_bit (i mod 8) 1))]) }"

lemma byteBit_eq: "i div 8 < length p \<Longrightarrow> byteBit p i = Some (bit (p ! (i div 8)) (i mod 8))"
  by (simp add: byteBit_def at_def bit_iff_and_push_bit_not_eq_0)

lemma byteSet_total: "i div 8 < length p \<Longrightarrow> \<exists>p'. byteSet i p = Some p' \<and> length p' = length p"
  by (simp add: byteSet_def at_def)

lemma byteReset_total: "i div 8 < length p \<Longrightarrow> \<exists>p'. byteReset i p = Some p' \<and> length p' = length p"
  by (simp add: byteReset_def at_def)

lemma same_bit: "j div 8 = i div 8 \<Longrightarrow> j mod 8 = i mod 8 \<Longrightarrow> j = i" for i j :: nat
  by (metis div_mult_mod_eq)

lemma bit_set_byte:
  fixes b :: byte
  assumes "n < 8" "k < 8"
  shows "bit (b OR push_bit n 1) k \<longleftrightarrow> k = n \<or> bit b k"
  using assms by (auto simp: bit_simps)

lemma bit_reset_byte:
  fixes b :: byte
  assumes "n < 8" "k < 8"
  shows "bit (b AND (0xFF AND NOT (push_bit n 1))) k \<longleftrightarrow> k \<noteq> n \<and> bit b k"
proof -
  have "bit (0xFF :: byte) k"
    using bit_mask_iff [where 'a = byte, of 8 k] assms(2) by (simp add: mask_eq_exp_minus_1)
  then show ?thesis using assms by (auto simp: bit_simps)
qed

lemma byteBit_set:
  assumes "byteSet i p = Some p'" "j div 8 < length p"
  shows "byteBit p' j = (if j = i then Some True else byteBit p j)"
proof -
  have i: "i div 8 < length p" and p': "p' = p[i div 8 := p ! (i div 8) OR push_bit (i mod 8) 1]"
    using assms(1) by (auto simp: byteSet_def Option.bind_eq_Some_conv)
  have "bit (p' ! (j div 8)) (j mod 8) \<longleftrightarrow> j = i \<or> bit (p ! (j div 8)) (j mod 8)"
    using i same_bit [of j i] bit_set_byte [of "i mod 8" "j mod 8" "p ! (i div 8)"]
    by (cases "j div 8 = i div 8") (auto simp: p')
  then show ?thesis using assms(2) i by (simp add: byteBit_eq p')
qed

lemma byteBit_reset:
  assumes "byteReset i p = Some p'" "j div 8 < length p"
  shows "byteBit p' j = (if j = i then Some False else byteBit p j)"
proof -
  have i: "i div 8 < length p"
    and p': "p' = p[i div 8 := p ! (i div 8) AND (0xFF AND NOT (push_bit (i mod 8) 1))]"
    using assms(1) by (auto simp: byteReset_def Option.bind_eq_Some_conv)
  have "bit (p' ! (j div 8)) (j mod 8) \<longleftrightarrow> j \<noteq> i \<and> bit (p ! (j div 8)) (j mod 8)"
    using i same_bit [of j i] bit_reset_byte [of "i mod 8" "j mod 8" "p ! (i div 8)"]
    by (cases "j div 8 = i div 8") (auto simp: p')
  then show ?thesis using assms(2) i by (simp add: byteBit_eq p')
qed

lemma byteBit_zero: "i div 8 < n \<Longrightarrow> byteBit (replicate n 0) i = Some False"
  by (simp add: byteBit_def at_def)

section \<open>The bitmap\<close>

text \<open>\<open>bm_p\<close> is \<open>None\<close> for the null pointer.\<close>

record Bitmap =
  numBits :: nat
  bm_p :: "byte list option"

definition realSize :: "nat \<Rightarrow> nat" where
  "realSize nbits = u32 (int nbits + 7) div 8"

definition emptyBitmap :: Bitmap where
  "emptyBitmap = \<lparr>numBits = 0, bm_p = None\<rparr>"

definition zeroAll :: "Bitmap \<Rightarrow> Bitmap option" where
  "zeroAll b = (case bm_p b of
       None \<Rightarrow> Some b
     | Some p \<Rightarrow> do {
         let s = realSize (numBits b);
         Assert (s > 0);
         p \<leftarrow> wr 0 (replicate s 0) p;
         Some (b\<lparr>bm_p := Some p\<rparr>)
       })"

definition newBitmap :: "nat \<Rightarrow> Bitmap option" where
  "newBitmap n =
     (if n > 0 then zeroAll \<lparr>numBits = n, bm_p = Some (replicate (realSize n) 0)\<rparr>
      else Some \<lparr>numBits = n, bm_p = None\<rparr>)"

definition copyBitmap :: "Bitmap \<Rightarrow> Bitmap option" where
  "copyBitmap other =
     (if numBits other = 0 then Some \<lparr>numBits = 0, bm_p = None\<rparr>
      else do {
        p \<leftarrow> bm_p other;
        bytes \<leftarrow> rd 0 (realSize (numBits other)) p;
        Some \<lparr>numBits = numBits other, bm_p = Some bytes\<rparr>
      })"

definition assignBitmap :: "Bitmap \<Rightarrow> Bitmap \<Rightarrow> Bitmap option" where
  "assignBitmap b other = do {
     Assert (numBits b > 0 \<longrightarrow> bm_p b \<noteq> None);
     copyBitmap other
   }"

definition bm_get :: "Bitmap \<Rightarrow> nat \<Rightarrow> bool option" where
  "bm_get b i = do { Assert (i < numBits b); p \<leftarrow> bm_p b; byteBit p i }"

definition bm_set :: "nat \<Rightarrow> Bitmap \<Rightarrow> Bitmap option" where
  "bm_set i b = do { Assert (i < numBits b); p \<leftarrow> bm_p b; p \<leftarrow> byteSet i p; Some (b\<lparr>bm_p := Some p\<rparr>) }"

definition bm_reset :: "nat \<Rightarrow> Bitmap \<Rightarrow> Bitmap option" where
  "bm_reset i b = do { Assert (i < numBits b); p \<leftarrow> bm_p b; p \<leftarrow> byteReset i p; Some (b\<lparr>bm_p := Some p\<rparr>) }"

definition sizeNeededInBuffer :: "Bitmap \<Rightarrow> nat" where
  "sizeNeededInBuffer b = 4 + realSize (numBits b)"

definition maxSizeNeededToStoreInBuffer :: "nat \<Rightarrow> nat" where
  "maxSizeNeededToStoreInBuffer maxNumOfBits = 4 + realSize maxNumOfBits"

definition bm_writeToBuffer :: "Bitmap \<Rightarrow> byte list \<Rightarrow> (byte list \<times> nat) option" where
  "bm_writeToBuffer b buffer = do {
     let sizeNeeded = sizeNeededInBuffer b;
     Assert (length buffer \<ge> sizeNeeded);
     buffer \<leftarrow> wr 0 (le_bytes 4 (numBits b)) buffer;
     bytes \<leftarrow> rd 0 (realSize (numBits b)) (case bm_p b of None \<Rightarrow> [] | Some p \<Rightarrow> p);
     buffer \<leftarrow> wr 4 bytes buffer;
     Some (buffer, sizeNeeded)
   }"

definition createBitmapFromBuffer :: "byte list \<Rightarrow> (Bitmap option \<times> nat) option" where
  "createBitmapFromBuffer buffer =
     (if length buffer < 4 then Some (None, 0)
      else do {
        nbits \<leftarrow> rd_nat 0 4 buffer;
        let numOfBitmapBytes = realSize nbits;
        let sizeNeeded = 4 + numOfBitmapBytes;
        if length buffer < sizeNeeded then Some (None, 0)
        else if nbits > 0 then do {
          bytes \<leftarrow> rd 4 numOfBitmapBytes buffer;
          Some (Some \<lparr>numBits = nbits, bm_p = Some bytes\<rparr>, sizeNeeded)
        }
        else Some (Some emptyBitmap, sizeNeeded)
      })"

definition wf_bitmap :: "Bitmap \<Rightarrow> bool" where
  "wf_bitmap b \<longleftrightarrow> numBits b < 2 ^ 32 - 7 \<and>
     (case bm_p b of None \<Rightarrow> numBits b = 0 | Some p \<Rightarrow> 0 < numBits b \<and> length p = realSize (numBits b))"

section \<open>Laws of the bitmap\<close>

lemma realSize_eq: "n < 2 ^ 32 - 7 \<Longrightarrow> realSize n = (n + 7) div 8"
  by (simp add: realSize_def u32_def)

lemma realSize_index: "n < 2 ^ 32 - 7 \<Longrightarrow> i < n \<Longrightarrow> i div 8 < realSize n"
  by (simp add: realSize_eq)

lemma wf_bitmap_cases:
  assumes "wf_bitmap b" "i < numBits b"
  obtains p where "bm_p b = Some p" "length p = realSize (numBits b)" "i div 8 < length p"
  using assms realSize_index by (auto simp: wf_bitmap_def split: option.splits)

interpretation bitmap: bit_set wf_bitmap numBits bm_get bm_set
proof unfold_locales
  fix s :: Bitmap and i assume ok: "wf_bitmap s" and i: "i < numBits s"
  obtain p where p: "bm_p s = Some p" "length p = realSize (numBits s)" "i div 8 < length p"
    using wf_bitmap_cases [OF ok i] .
  then obtain p' where p': "byteSet i p = Some p'" "length p' = length p" using byteSet_total by blast
  show "\<exists>b. bm_get s i = Some b" using i p by (simp add: bm_get_def byteBit_eq)
  show "\<exists>s'. bm_set i s = Some s'" using i p p' by (simp add: bm_set_def)
  fix s' assume s': "bm_set i s = Some s'"
  then have eq: "s' = s\<lparr>bm_p := Some p'\<rparr>" using i p p' by (simp add: bm_set_def)
  show "wf_bitmap s' \<and> numBits s' = numBits s" using ok p p' eq by (auto simp: wf_bitmap_def)
  fix j assume j: "j < numBits s"
  have "j div 8 < length p" using wf_bitmap_cases [OF ok j] p(1) by (metis option.inject)
  then show "bm_get s' j = (if j = i then Some True else bm_get s j)"
    using i j p eq byteBit_set [OF p'(1)] by (simp add: bm_get_def)
qed

lemma newBitmap_ok:
  assumes "n < 2 ^ 32 - 7"
  shows "\<exists>b. newBitmap n = Some b \<and> wf_bitmap b \<and> numBits b = n \<and> (\<forall>i < n. bm_get b i = Some False)"
proof (cases "n = 0")
  case False
  let ?b = "\<lparr>numBits = n, bm_p = Some (replicate (realSize n) 0)\<rparr>"
  have pos: "0 < realSize n" using realSize_index [OF assms, of 0] False by simp
  then have "newBitmap n = Some ?b"
    using False by (simp add: newBitmap_def zeroAll_def wr_def Let_def)
  moreover have "bm_get ?b i = Some False" if "i < n" for i
    using that realSize_index [OF assms that] by (simp add: bm_get_def byteBit_zero)
  ultimately show ?thesis using False assms by (simp add: wf_bitmap_def)
qed (simp add: newBitmap_def wf_bitmap_def)

lemma bm_reset_spec:
  assumes ok: "wf_bitmap b" and i: "i < numBits b"
  shows "\<exists>b'. bm_reset i b = Some b' \<and> wf_bitmap b' \<and> numBits b' = numBits b \<and>
    (\<forall>j < numBits b. bm_get b' j = (if j = i then Some False else bm_get b j))"
proof -
  obtain p where p: "bm_p b = Some p" "length p = realSize (numBits b)" "i div 8 < length p"
    using wf_bitmap_cases [OF ok i] .
  then obtain p' where p': "byteReset i p = Some p'" "length p' = length p" using byteReset_total by blast
  have idx: "j div 8 < length p" if "j < numBits b" for j
    using wf_bitmap_cases [OF ok that] p(1) by (metis option.inject)
  have "bm_reset i b = Some (b\<lparr>bm_p := Some p'\<rparr>)" using i p p' by (simp add: bm_reset_def)
  moreover have "wf_bitmap (b\<lparr>bm_p := Some p'\<rparr>)" using ok p p' by (auto simp: wf_bitmap_def)
  ultimately show ?thesis using p idx byteBit_reset [OF p'(1)] by (simp add: bm_get_def)
qed

text \<open>a bitmap written to a buffer is read back unchanged, with the same number of bytes consumed;
  a bitmap made for \<open>n\<close> bits in which the numbers of a list were set contains exactly these numbers,
  also after the round trip.\<close>

theorem bitmap_roundtrip:
  assumes "n < 2 ^ 32 - 7" "set is \<subseteq> {..<n}" "maxSizeNeededToStoreInBuffer n \<le> length buffer"
  shows "\<exists>b b0 buf len. newBitmap n = Some b0 \<and> markAll bm_set is b0 = Some b \<and>
           bm_writeToBuffer b buffer = Some (buf, len) \<and>
           createBitmapFromBuffer buf = Some (Some b, len) \<and>
           (\<forall>i. i < n \<longrightarrow> bm_get b i = Some (i \<in> set is))"
proof -
  obtain b0 where b0: "newBitmap n = Some b0" "wf_bitmap b0" "numBits b0 = n" "\<forall>i < n. bm_get b0 i = Some False"
    using newBitmap_ok [OF assms(1)] by blast
  obtain b where b: "markAll bm_set is b0 = Some b" "wf_bitmap b" "numBits b = n"
    "\<forall>i < n. bm_get b i = Some (i \<in> set is)"
    using bitmap.markAll_spec [OF b0(2), of "is"] assms(2) b0(3,4) by auto
  define p where "p = (case bm_p b of None \<Rightarrow> [] | Some p \<Rightarrow> p)"
  have len: "length p = realSize n"
    using b(2,3) realSize_eq [of 0] by (auto simp: p_def wf_bitmap_def split: option.splits)
  have room: "4 + realSize n \<le> length buffer" using assms(3) by (simp add: maxSizeNeededToStoreInBuffer_def)
  then obtain b1 where b1: "wr 0 (le_bytes 4 n) buffer = Some b1" using wr_total by fastforce
  then obtain b2 where b2: "wr 4 p b1 = Some b2" using wr_total [of 4 p b1] room len length_wr [OF b1] by auto
  have rds: "rd 0 4 b2 = Some (le_bytes 4 n)" "rd 4 (realSize n) b2 = Some p"
    using rd_wr_same [OF b1] rd_wr_before [OF b2, of 0 4] rd_wr_same [OF b2] len by simp_all
  have len2: "length b2 = length buffer" using length_wr [OF b1] length_wr [OF b2] by simp
  have "rd 0 (realSize n) p = Some p" using len by (simp add: rd_def)
  then have "bm_writeToBuffer b buffer = Some (b2, 4 + realSize n)"
    using b(3) b1 b2 room by (simp add: bm_writeToBuffer_def sizeNeededInBuffer_def p_def Let_def)
  moreover have "n = 0 \<Longrightarrow> b = emptyBitmap" "0 < n \<Longrightarrow> b = \<lparr>numBits = n, bm_p = Some p\<rparr>"
    using b(2,3) by (auto simp: wf_bitmap_def emptyBitmap_def p_def split: option.splits)
  then have "createBitmapFromBuffer b2 = Some (Some b, 4 + realSize n)"
    using rds len2 room assms(1)
    by (cases "n = 0") (simp_all add: createBitmapFromBuffer_def rd_nat_def le_val_le_bytes Let_def)
  ultimately show ?thesis using b0(1) b(1,4) by blast
qed

theorem bitmap_roundtrip_witness:
  "\<exists>b b0 buf len. newBitmap 10 = Some b0 \<and> markAll bm_set [3, 9] b0 = Some b \<and>
     bm_writeToBuffer b (replicate 8 1) = Some (buf, len) \<and>
     createBitmapFromBuffer buf = Some (Some b, len) \<and> bm_get b 9 = Some True \<and> bm_get b 4 = Some False"
  using bitmap_roundtrip [of 10 "[3, 9]" "replicate 8 1"]
  by (auto simp: maxSizeNeededToStoreInBuffer_def realSize_def u32_def)

text \<open>C34: reading a bitmap from an arbitrary buffer stays inside the buffer, and the bitmap is usable
  exactly when it claims fewer than \<open>2 ^ 32 - 7\<close> bits: a larger claim wraps around to a size of zero
  bytes and gives a bitmap whose every \<open>get\<close> reads outside its memory.\<close>

theorem bitmap_from_any_buffer:
  "\<exists>r n. createBitmapFromBuffer buffer = Some (r, n) \<and> n \<le> length buffer \<and>
     (case r of
        None \<Rightarrow> n = 0
      | Some b \<Rightarrow> n = sizeNeededInBuffer b \<and>
          (if numBits b < 2 ^ 32 - 7 then wf_bitmap b
           else sizeNeededInBuffer b = 4 \<and> (\<forall>i. bm_get b i = None)))"
proof (cases "length buffer < 4")
  case True
  then show ?thesis by (simp add: createBitmapFromBuffer_def)
next
  case False
  then obtain nb where nb: "rd_nat 0 4 buffer = Some nb" by (auto simp: rd_nat_def rd_def)
  have lt: "nb < 2 ^ 32" using rd_nat_bound [OF nb] by simp
  show ?thesis
  proof (cases "length buffer < 4 + realSize nb \<or> nb = 0")
    case True
    then show ?thesis using False nb realSize_eq [of 0]
      by (auto simp: createBitmapFromBuffer_def Let_def emptyBitmap_def sizeNeededInBuffer_def wf_bitmap_def)
  next
    case big: False
    then obtain bytes where bytes: "rd 4 (realSize nb) buffer = Some bytes" "length bytes = realSize nb"
      by (auto simp: rd_def)
    let ?b = "\<lparr>numBits = nb, bm_p = Some bytes\<rparr>"
    have "createBitmapFromBuffer buffer = Some (Some ?b, sizeNeededInBuffer ?b)"
      using False nb big bytes by (simp add: createBitmapFromBuffer_def Let_def sizeNeededInBuffer_def)
    moreover have "realSize nb = 0" if "\<not> nb < 2 ^ 32 - 7"
    proof -
      define k where "k = nb + 7 - 4294967296"
      have "k < 8" "int nb + 7 = int k + 4294967296" using that lt by (auto simp: k_def)
      then have "(int nb + 7) mod 4294967296 = int k" by simp
      then show ?thesis using \<open>k < 8\<close> by (simp add: realSize_def u32_def)
    qed
    ultimately show ?thesis using big bytes
      by (auto simp: wf_bitmap_def sizeNeededInBuffer_def bm_get_def byteBit_def Option.bind_eq_None_conv)
  qed
qed

end
