(* ===== verification/Status_Msgs.thy ===== *)
theory Status_Msgs
  imports Bitmaps Replicas_Info
begin

text \<open>
  The control messages between replicas: \<^verbatim>\<open>SimpleAckMsg.cpp\<close>, \<^verbatim>\<open>StartSlowCommitMsg.cpp\<close>,
  \<^verbatim>\<open>ReqMissingDataMsg.cpp\<close>, \<^verbatim>\<open>StateTransferMsg.cpp\<close> and \<^verbatim>\<open>ReplicaStatusMsg.cpp\<close>. A status message ends
  in at most one list of bits: which batches of the active window the sender has, or which view-change
  messages or batches it misses during a view change.
\<close>

unbundle bit_operations_syntax

section \<open>Acknowledgements, the start of the slow path, state transfer\<close>

text \<open>The checks every message from another replica passes.\<close>

definition fromPeer :: "ReplicasInfo \<Rightarrow> MessageBase \<Rightarrow> bool" where
  "fromPeer repInfo m \<longleftrightarrow> sender m \<noteq> ri_myId repInfo \<and> isIdOfReplica repInfo (sender m)"

definition sizeofSimpleAckMsgHeader :: nat where
  [simp]: "sizeofSimpleAckMsgHeader = 26"

definition newSimpleAckMsg :: "SeqNum \<Rightarrow> ViewNum \<Rightarrow> ReplicaId \<Rightarrow> nat \<Rightarrow> MessageBase option" where
  "newSimpleAckMsg s v senderId ackData = do {
     m \<leftarrow> newMessage senderId MsgCode_SimpleAck sizeofSimpleAckMsgHeader;
     body \<leftarrow> wrs [(2, i64_bytes s), (10, i64_bytes v), (18, le_bytes 8 ackData)] (msgBody m);
     Some (m\<lparr>msgBody := body\<rparr>)
   }"

definition SimpleAckMsg_ToActualMsgType :: "ReplicasInfo \<Rightarrow> MessageBase \<Rightarrow> (SeqNum \<times> ViewNum \<times> nat) option option" where
  "SimpleAckMsg_ToActualMsgType repInfo inMsg = do {
     type \<leftarrow> msgType inMsg;
     Assert (type = MsgCode_SimpleAck);
     if msgSize inMsg < sizeofSimpleAckMsgHeader then Some None
     else if \<not> fromPeer repInfo inMsg then Some None
     else do {
       s \<leftarrow> rd_i64 2 (msgBody inMsg);
       v \<leftarrow> rd_i64 10 (msgBody inMsg);
       ack \<leftarrow> rd_nat 18 8 (msgBody inMsg);
       Some (Some (s, v, ack))
     }
   }"

definition sizeofStartSlowCommitMsgHeader :: nat where
  [simp]: "sizeofStartSlowCommitMsgHeader = 18"

definition newStartSlowCommitMsg :: "ReplicaId \<Rightarrow> ViewNum \<Rightarrow> SeqNum \<Rightarrow> MessageBase option" where
  "newStartSlowCommitMsg senderId v s = do {
     m \<leftarrow> newMessage senderId MsgCode_StartSlowCommit sizeofStartSlowCommitMsgHeader;
     body \<leftarrow> wrs [(2, i64_bytes v), (10, i64_bytes s)] (msgBody m);
     Some (m\<lparr>msgBody := body\<rparr>)
   }"

definition StartSlowCommitMsg_ToActualMsgType :: "ReplicasInfo \<Rightarrow> MessageBase \<Rightarrow> (ViewNum \<times> SeqNum) option option" where
  "StartSlowCommitMsg_ToActualMsgType repInfo inMsg = do {
     type \<leftarrow> msgType inMsg;
     Assert (type = MsgCode_StartSlowCommit);
     if msgSize inMsg < sizeofStartSlowCommitMsgHeader then Some None
     else do {
       v \<leftarrow> rd_i64 2 (msgBody inMsg);
       s \<leftarrow> rd_i64 10 (msgBody inMsg);
       if primaryOfView repInfo v \<noteq> sender inMsg then Some None else Some (Some (v, s))
     }
   }"

definition StateTransferMsg_ToActualMsgType :: "MessageBase \<Rightarrow> MessageBase option option" where
  "StateTransferMsg_ToActualMsgType inMsg = do {
     type \<leftarrow> msgType inMsg;
     Assert (type = MsgCode_StateTransfer);
     if msgSize inMsg < 2 then Some None else Some (Some inMsg)
   }"

section \<open>Requests for missing data\<close>

definition sizeofReqMissingDataMsgHeader :: nat where
  [simp]: "sizeofReqMissingDataMsgHeader = 20"

text \<open>The kinds of data and their flag bits.\<close>

datatype MissingData = PrePrepareIsMissing | PartialProofIsMissing | PartialPrepareIsMissing | PartialCommitIsMissing
  | FullCommitProofIsMissing | FullPrepareIsMissing | FullCommitIsMissing | SlowPathHasStarted

fun missingFlag :: "MissingData \<Rightarrow> 16 word" where
  "missingFlag PrePrepareIsMissing = 0x2"
| "missingFlag PartialProofIsMissing = 0x4"
| "missingFlag PartialPrepareIsMissing = 0x8"
| "missingFlag PartialCommitIsMissing = 0x10"
| "missingFlag FullCommitProofIsMissing = 0x20"
| "missingFlag FullPrepareIsMissing = 0x40"
| "missingFlag FullCommitIsMissing = 0x80"
| "missingFlag SlowPathHasStarted = 0x100"

definition resetFlags :: "MessageBase \<Rightarrow> MessageBase option" where
  "resetFlags m = do { body \<leftarrow> wr 18 (le_bytes 2 0) (msgBody m); Some (m\<lparr>msgBody := body\<rparr>) }"

definition newReqMissingDataMsg :: "ReplicaId \<Rightarrow> ViewNum \<Rightarrow> SeqNum \<Rightarrow> MessageBase option" where
  "newReqMissingDataMsg senderId v s = do {
     m \<leftarrow> newMessage senderId MsgCode_ReqMissingData sizeofReqMissingDataMsgHeader;
     body \<leftarrow> wrs [(2, i64_bytes v), (10, i64_bytes s)] (msgBody m);
     resetFlags (m\<lparr>msgBody := body\<rparr>)
   }"

definition getMissing :: "MissingData \<Rightarrow> MessageBase \<Rightarrow> bool option" where
  "getMissing d m = do {
     flags \<leftarrow> rd_nat 18 2 (msgBody m);
     Some (word_of_nat flags AND missingFlag d \<noteq> 0)
   }"

definition setMissing :: "MissingData \<Rightarrow> MessageBase \<Rightarrow> MessageBase option" where
  "setMissing d m = do {
     flags \<leftarrow> rd_nat 18 2 (msgBody m);
     body \<leftarrow> wr 18 (le_bytes 2 (unat (word_of_nat flags OR missingFlag d))) (msgBody m);
     Some (m\<lparr>msgBody := body\<rparr>)
   }"

definition ReqMissingDataMsg_ToActualMsgType :: "ReplicasInfo \<Rightarrow> MessageBase \<Rightarrow> MessageBase option option" where
  "ReqMissingDataMsg_ToActualMsgType repInfo inMsg = do {
     type \<leftarrow> msgType inMsg;
     Assert (type = MsgCode_ReqMissingData);
     if msgSize inMsg < sizeofReqMissingDataMsgHeader then Some None
     else if \<not> fromPeer repInfo inMsg then Some None
     else Some (Some inMsg)
   }"

section \<open>Status messages\<close>

definition MaxNumberOfReplicas :: nat where
  [simp]: "MaxNumberOfReplicas = 64"

definition sizeofReplicaStatusMsgHeader :: nat where
  [simp]: "sizeofReplicaStatusMsgHeader = 27"

definition powersOf2 :: "nat \<Rightarrow> byte" where
  "powersOf2 i = [0x1, 0x2, 0x4, 0x8, 0x10, 0x20, 0x40, 0x80] ! i"

definition calcSizeOfReplicaStatusMsg :: "bool \<Rightarrow> bool \<Rightarrow> bool \<Rightarrow> nat" where
  "calcSizeOfReplicaStatusMsg listOfPrePrepareMsgsInActiveWindow listOfMissingViewChangeMsgForViewChange
       listOfMissingPrePrepareMsgForViewChange =
     (if listOfPrePrepareMsgsInActiveWindow then sizeofReplicaStatusMsgHeader + nat ((kWorkWindowSize + 7) div 8)
      else if listOfMissingViewChangeMsgForViewChange then sizeofReplicaStatusMsgHeader + (MaxNumberOfReplicas + 7) div 8
      else if listOfMissingPrePrepareMsgForViewChange then sizeofReplicaStatusMsgHeader + nat ((kWorkWindowSize + 7) div 8)
      else sizeofReplicaStatusMsgHeader)"

definition statusFlags :: "bool \<Rightarrow> bool \<Rightarrow> bool \<Rightarrow> bool \<Rightarrow> bool \<Rightarrow> byte" where
  "statusFlags viewIsActive hasNewChangeMsg pp vc mpp =
     (let flags = 0;
          flags = (if viewIsActive then flags OR powersOf2 0 else flags);
          flags = (if hasNewChangeMsg then flags OR powersOf2 1 else flags)
      in if pp then flags OR powersOf2 2 else if vc then flags OR powersOf2 3
         else if mpp then flags OR powersOf2 4 else flags)"

definition atMostOne :: "bool \<Rightarrow> bool \<Rightarrow> bool \<Rightarrow> bool" where
  "atMostOne a b c \<longleftrightarrow> (if a then 1 else 0) + (if b then 1 else 0) + (if c then 1 else 0) \<le> (1 :: nat)"

definition newReplicaStatusMsg ::
  "ReplicaId \<Rightarrow> ViewNum \<Rightarrow> SeqNum \<Rightarrow> SeqNum \<Rightarrow> bool \<Rightarrow> bool \<Rightarrow> bool \<Rightarrow> bool \<Rightarrow> bool \<Rightarrow> MessageBase option" where
  "newReplicaStatusMsg senderId view lastStable lastExecuted viewIsActive hasNewChangeMsg pp vc mpp = do {
     m \<leftarrow> newMessage senderId MsgCode_ReplicaStatus (calcSizeOfReplicaStatusMsg pp vc mpp);
     Assert (lastExecuted \<ge> lastStable);
     Assert (lastStable smod checkpointWindowSize = 0);
     Assert (\<not> viewIsActive \<or> hasNewChangeMsg);
     Assert (\<not> viewIsActive \<or> \<not> vc);
     Assert (\<not> viewIsActive \<or> \<not> mpp);
     Assert (viewIsActive \<or> \<not> pp);
     Assert (atMostOne pp vc mpp);
     let listSize = msgSize m - sizeofReplicaStatusMsgHeader;
     body \<leftarrow> wrs [(2, i64_bytes view), (10, i64_bytes lastStable), (18, i64_bytes lastExecuted),
       (26, [statusFlags viewIsActive hasNewChangeMsg pp vc mpp]),
       (sizeofReplicaStatusMsgHeader, replicate listSize 0)] (msgBody m);
     Some (m\<lparr>msgBody := body\<rparr>)
   }"

definition getViewNumber :: "MessageBase \<Rightarrow> ViewNum option" where
  "getViewNumber m = rd_i64 2 (msgBody m)"

definition getLastStableSeqNum :: "MessageBase \<Rightarrow> SeqNum option" where
  "getLastStableSeqNum m = rd_i64 10 (msgBody m)"

definition getLastExecutedSeqNum :: "MessageBase \<Rightarrow> SeqNum option" where
  "getLastExecutedSeqNum m = rd_i64 18 (msgBody m)"

definition statusFlag :: "nat \<Rightarrow> MessageBase \<Rightarrow> bool option" where
  "statusFlag i m = do { flags \<leftarrow> at (msgBody m) 26; Some (flags AND powersOf2 i \<noteq> 0) }"

definition ReplicaStatusMsg_ToActualMsgType :: "ReplicasInfo \<Rightarrow> MessageBase \<Rightarrow> MessageBase option option" where
  "ReplicaStatusMsg_ToActualMsgType repInfo inMsg = do {
     type \<leftarrow> msgType inMsg;
     Assert (type = MsgCode_ReplicaStatus);
     if msgSize inMsg < sizeofReplicaStatusMsgHeader then Some None
     else if \<not> fromPeer repInfo inMsg then Some None
     else do {
       lastStable \<leftarrow> getLastStableSeqNum inMsg;
       lastExecuted \<leftarrow> getLastExecutedSeqNum inMsg;
       viewIsActive \<leftarrow> statusFlag 0 inMsg;
       hasNewChangeMsg \<leftarrow> statusFlag 1 inMsg;
       pp \<leftarrow> statusFlag 2 inMsg;
       vc \<leftarrow> statusFlag 3 inMsg;
       mpp \<leftarrow> statusFlag 4 inMsg;
       if lastStable smod checkpointWindowSize \<noteq> 0 then Some None
       else if lastExecuted < lastStable then Some None
       else if \<not> (\<not> viewIsActive \<or> hasNewChangeMsg) then Some None
       else if \<not> (\<not> viewIsActive \<or> \<not> vc) then Some None
       else if \<not> (\<not> viewIsActive \<or> \<not> mpp) then Some None
       else if \<not> (viewIsActive \<or> \<not> pp) then Some None
       else if \<not> atMostOne pp vc mpp then Some None
       else if msgSize inMsg \<noteq> calcSizeOfReplicaStatusMsg pp vc mpp then Some None
       else Some (Some inMsg)
     }
   }"

text \<open>Reading and setting a bit of the list behind the header.\<close>

definition listBit :: "MessageBase \<Rightarrow> nat \<Rightarrow> bool option" where
  "listBit m i = byteBit (drop sizeofReplicaStatusMsgHeader (msgBody m)) i"

definition setListBit :: "nat \<Rightarrow> MessageBase \<Rightarrow> MessageBase option" where
  "setListBit i m = do {
     p \<leftarrow> byteSet i (drop sizeofReplicaStatusMsgHeader (msgBody m));
     Some (m\<lparr>msgBody := take sizeofReplicaStatusMsgHeader (msgBody m) @ p\<rparr>)
   }"

text \<open>The index of a sequence number in a list, with the assertions of its accessors.\<close>

definition listIndex :: "nat \<Rightarrow> MessageBase \<Rightarrow> SeqNum \<Rightarrow> nat option" where
  "listIndex flag m seqNum = do {
     f \<leftarrow> statusFlag flag m;
     Assert f;
     lastStable \<leftarrow> getLastStableSeqNum m;
     Assert (seqNum > lastStable);
     Assert (seqNum \<le> lastStable + kWorkWindowSize);
     Some (nat (seqNum - lastStable - 1))
   }"

definition isPrePrepareInActiveWindow :: "MessageBase \<Rightarrow> SeqNum \<Rightarrow> bool option" where
  "isPrePrepareInActiveWindow m seqNum = do { i \<leftarrow> listIndex 2 m seqNum; listBit m i }"

definition isMissingViewChangeMsgForViewChange :: "MessageBase \<Rightarrow> ReplicaId \<Rightarrow> bool option" where
  "isMissingViewChangeMsgForViewChange m r = do {
     f \<leftarrow> statusFlag 3 m;
     Assert f;
     Assert (r < MaxNumberOfReplicas);
     listBit m r
   }"

definition isMissingPrePrepareMsgForViewChange :: "MessageBase \<Rightarrow> SeqNum \<Rightarrow> bool option" where
  "isMissingPrePrepareMsgForViewChange m seqNum = do { i \<leftarrow> listIndex 4 m seqNum; listBit m i }"

definition setPrePrepareInActiveWindow :: "SeqNum \<Rightarrow> MessageBase \<Rightarrow> MessageBase option" where
  "setPrePrepareInActiveWindow seqNum m = do { i \<leftarrow> listIndex 2 m seqNum; setListBit i m }"

definition setMissingViewChangeMsgForViewChange :: "ReplicaId \<Rightarrow> MessageBase \<Rightarrow> MessageBase option" where
  "setMissingViewChangeMsgForViewChange r m = do {
     f \<leftarrow> statusFlag 3 m;
     Assert f;
     Assert (r < MaxNumberOfReplicas);
     setListBit r m
   }"

definition setMissingPrePrepareMsgForViewChange :: "SeqNum \<Rightarrow> MessageBase \<Rightarrow> MessageBase option" where
  "setMissingPrePrepareMsgForViewChange seqNum m = do { i \<leftarrow> listIndex 4 m seqNum; setListBit i m }"

section \<open>Requests name exactly the missing data\<close>

lemma missingFlag_apart:
  "(w OR missingFlag d) AND missingFlag d' \<noteq> 0 \<longleftrightarrow> d' = d \<or> w AND missingFlag d' \<noteq> 0"
  by (cases d; cases d'; simp add: bit.conj_disj_distrib2 or_eq_0_iff)

lemma setMissing_spec:
  assumes "20 \<le> length (msgBody m)"
  shows "\<exists>m'. setMissing d m = Some m' \<and> length (msgBody m') = length (msgBody m) \<and>
    (\<forall>d'. getMissing d' m' = (if d' = d then Some True else getMissing d' m))"
proof -
  obtain f where f: "rd_nat 18 2 (msgBody m) = Some f" using assms by (auto simp: rd_nat_def rd_def)
  let ?w = "word_of_nat f OR missingFlag d"
  have "unat ?w < 65536" using unsigned_less [of ?w] by simp
  moreover obtain b where b: "wr 18 (le_bytes 2 (unat ?w)) (msgBody m) = Some b" using wr_total assms by fastforce
  ultimately have "rd_nat 18 2 b = Some (unat ?w)"
    using rd_wr_same [OF b] by (simp add: rd_nat_def le_val_le_bytes)
  then have "\<forall>d'. getMissing d' (m\<lparr>msgBody := b\<rparr>) = (if d' = d then Some True else getMissing d' m)"
    using f missingFlag_apart [of "word_of_nat f" d] by (simp add: getMissing_def)
  then show ?thesis using f b length_wr [OF b] by (simp add: setMissing_def)
qed

lemma newReqMissingDataMsg_ok:
  assumes "r < 2 ^ 16"
  shows "\<exists>m. newReqMissingDataMsg r v s = Some m \<and> length (msgBody m) = 20 \<and> (\<forall>d. getMissing d m = Some False)"
proof -
  let ?fs = "[(2, i64_bytes v), (10, i64_bytes s)]"
  obtain m b where m: "newMessage r MsgCode_ReqMissingData 20 = Some m" "wrs ?fs (msgBody m) = Some b" "length b = 20"
    using new_packed [OF assms, of MsgCode_ReqMissingData 20 ?fs] by auto
  then obtain b' where b': "wr 18 (le_bytes 2 0) b = Some b'" "length b' = 20"
    using wr_total [of 18 "le_bytes 2 0" b] length_wr by fastforce
  then show ?thesis using m rd_wr_same [OF b'(1)]
    by (simp add: newReqMissingDataMsg_def resetFlags_def getMissing_def rd_nat_def le_val_le_bytes)
qed

lemma StartSlowCommit_only_from_primary:
  "StartSlowCommitMsg_ToActualMsgType info m = Some (Some (v, s)) \<Longrightarrow> primaryOfView info v = sender m"
  by (auto simp: StartSlowCommitMsg_ToActualMsgType_def Option.bind_eq_Some_conv split: if_splits)

lemma SimpleAck_roundtrip:
  assumes "wf_replicas_info info" "isIdOfPeerReplica info r" "is_i64 s" "is_i64 v" "ack < 2 ^ 64"
  shows "\<exists>m. newSimpleAckMsg s v r ack = Some m \<and> SimpleAckMsg_ToActualMsgType info m = Some (Some (s, v, ack))"
proof -
  let ?fs = "[(2, i64_bytes s), (10, i64_bytes v), (18, le_bytes 8 ack)]"
  have "r < 2 ^ 16" using assms(1,2) by (auto simp: isIdOfPeerReplica_def wf_replicas_info_def)
  then obtain m b where m: "newMessage r MsgCode_SimpleAck 26 = Some m" "wrs ?fs (msgBody m) = Some b"
    "msgSize m = 26" "sender m = r" "rd_nat 0 2 b = Some MsgCode_SimpleAck"
    and rds: "\<forall>(off, bs) \<in> set ?fs. rd off (length bs) b = Some bs"
    using new_packed [of r MsgCode_SimpleAck 26 ?fs] by auto
  have "rd_i64 2 b = Some s" "rd_i64 10 b = Some v" "rd_nat 18 8 b = Some ack"
    using rds assms(3-5) by (auto simp: rd_i64_def rd_nat_def i64_roundtrip le_val_le_bytes)
  then show ?thesis using m assms(2)
    by (simp add: newSimpleAckMsg_def SimpleAckMsg_ToActualMsgType_def msgType_def fromPeer_def
        isIdOfPeerReplica_def isIdOfReplica_def)
qed

section \<open>The lists of a status message are sets\<close>

definition sameHeader :: "MessageBase \<Rightarrow> MessageBase \<Rightarrow> bool" where
  "sameHeader m m' \<longleftrightarrow> take 27 (msgBody m') = take 27 (msgBody m) \<and> length (msgBody m') = length (msgBody m) \<and>
     msgSize m' = msgSize m \<and> storageSize m' = storageSize m \<and> sender m' = sender m \<and> owner m' = owner m"

lemma sameHeader_rd:
  assumes "sameHeader m m'" "off + n \<le> 27" "27 \<le> length (msgBody m)"
  shows "rd off n (msgBody m') = rd off n (msgBody m)"
  using assms rd_take [of off n 27 "msgBody m"] rd_take [of off n 27 "msgBody m'"] by (simp add: sameHeader_def)

lemma sameHeader_reads:
  assumes "sameHeader m m'" "27 \<le> length (msgBody m)"
  shows "statusFlag k m' = statusFlag k m" "getLastStableSeqNum m' = getLastStableSeqNum m"
    "getLastExecutedSeqNum m' = getLastExecutedSeqNum m" "msgType m' = msgType m"
proof -
  have "take 27 (msgBody m') ! 26 = take 27 (msgBody m) ! 26" using assms by (simp add: sameHeader_def)
  then show "statusFlag k m' = statusFlag k m" using assms by (simp add: statusFlag_def at_def sameHeader_def)
qed (use assms sameHeader_rd [OF assms(1)] in
  \<open>simp_all add: getLastStableSeqNum_def getLastExecutedSeqNum_def msgType_def rd_i64_def rd_nat_def\<close>)

lemma sameHeader_trans: "sameHeader a b \<Longrightarrow> sameHeader b c \<Longrightarrow> sameHeader a c"
  by (simp add: sameHeader_def)

lemma setListBit_spec:
  assumes "27 + n \<le> length (msgBody m)" "i < 8 * n"
  shows "\<exists>m'. setListBit i m = Some m' \<and> sameHeader m m' \<and>
    (\<forall>j < 8 * n. listBit m' j = (if j = i then Some True else listBit m j))"
proof -
  have len: "j div 8 < length (drop 27 (msgBody m))" if "j < 8 * n" for j using assms(1) that by auto
  obtain p where p: "byteSet i (drop 27 (msgBody m)) = Some p" "length p = length (msgBody m) - 27"
    using byteSet_total [OF len [OF assms(2)]] by auto
  have "drop 27 (take 27 (msgBody m) @ p) = p" using assms(1) by simp
  moreover have "setListBit i m = Some (m\<lparr>msgBody := take 27 (msgBody m) @ p\<rparr>)" using p by (simp add: setListBit_def)
  ultimately show ?thesis
    using p assms(1) byteBit_set [OF p(1) len] by (simp add: sameHeader_def listBit_def)
qed

text \<open>A status message with the list that flag \<open>k\<close> announces, of \<open>n\<close> bytes.\<close>

definition has_list :: "nat \<Rightarrow> nat \<Rightarrow> MessageBase \<Rightarrow> bool" where
  "has_list k n m \<longleftrightarrow> statusFlag k m = Some True \<and> getLastStableSeqNum m \<noteq> None \<and> 27 + n \<le> length (msgBody m)"

lemma has_list_same: "has_list k n m \<Longrightarrow> sameHeader m m' \<Longrightarrow> has_list k n m'"
  using sameHeader_reads [of m m'] by (auto simp: has_list_def sameHeader_def)

definition windowSeq :: "MessageBase \<Rightarrow> nat \<Rightarrow> SeqNum" where
  "windowSeq m i = the (getLastStableSeqNum m) + 1 + int i"

lemma windowSeq_same: "sameHeader m m' \<Longrightarrow> 27 \<le> length (msgBody m) \<Longrightarrow> windowSeq m' i = windowSeq m i"
  by (simp add: windowSeq_def sameHeader_reads)

lemma listIndex_window: "has_list k n m \<Longrightarrow> i < 300 \<Longrightarrow> listIndex k m (windowSeq m i) = Some i"
  by (auto simp: listIndex_def has_list_def windowSeq_def)

lemma listBit_total: "has_list k n m \<Longrightarrow> i < 8 * n \<Longrightarrow> \<exists>b. listBit m i = Some b"
  by (auto simp: has_list_def listBit_def byteBit_eq)

lemma window_list:
  "bit_set (has_list k 38) (\<lambda>m. 300) (\<lambda>m i. do { i \<leftarrow> listIndex k m (windowSeq m i); listBit m i })
     (\<lambda>i m. do { i \<leftarrow> listIndex k m (windowSeq m i); setListBit i m })"
proof unfold_locales
  fix m i assume ok: "has_list k 38 m" and i: "i < (300 :: nat)"
  have len: "27 + 38 \<le> length (msgBody m)" using ok by (simp add: has_list_def)
  obtain m1 where m1: "setListBit i m = Some m1" "sameHeader m m1"
    "\<forall>j < 304. listBit m1 j = (if j = i then Some True else listBit m j)"
    using setListBit_spec [OF len, of i] i by auto
  note index = listIndex_window [OF ok]
  show "\<exists>b. do { i \<leftarrow> listIndex k m (windowSeq m i); listBit m i } = Some b"
    using index [OF i] listBit_total [OF ok] i by simp
  show "\<exists>m'. do { i \<leftarrow> listIndex k m (windowSeq m i); setListBit i m } = Some m'" using index [OF i] m1(1) by simp
  fix m' assume "do { i \<leftarrow> listIndex k m (windowSeq m i); setListBit i m } = Some m'"
  then have m': "m' = m1" using index [OF i] m1(1) by simp
  show "has_list k 38 m' \<and> 300 = (300 :: nat)" using has_list_same [OF ok m1(2)] m' by simp
  fix j assume j: "j < (300 :: nat)"
  show "do { i \<leftarrow> listIndex k m' (windowSeq m' j); listBit m' i } =
      (if j = i then Some True else do { i \<leftarrow> listIndex k m (windowSeq m j); listBit m i })"
    using m' m1(3) j index [OF j] listIndex_window [OF has_list_same [OF ok m1(2)] j] by simp
qed

interpretation inWindow: bit_set "has_list 2 38" "\<lambda>m. 300" "\<lambda>m i. isPrePrepareInActiveWindow m (windowSeq m i)"
  "\<lambda>i m. setPrePrepareInActiveWindow (windowSeq m i) m"
  unfolding isPrePrepareInActiveWindow_def setPrePrepareInActiveWindow_def by (rule window_list)

interpretation missingPP: bit_set "has_list 4 38" "\<lambda>m. 300" "\<lambda>m i. isMissingPrePrepareMsgForViewChange m (windowSeq m i)"
  "\<lambda>i m. setMissingPrePrepareMsgForViewChange (windowSeq m i) m"
  unfolding isMissingPrePrepareMsgForViewChange_def setMissingPrePrepareMsgForViewChange_def by (rule window_list)

interpretation missingVC: bit_set "has_list 3 8" "\<lambda>m. MaxNumberOfReplicas" isMissingViewChangeMsgForViewChange
  setMissingViewChangeMsgForViewChange
proof unfold_locales
  fix m i assume ok: "has_list 3 8 m" and i: "i < MaxNumberOfReplicas"
  have len: "27 + 8 \<le> length (msgBody m)" using ok by (simp add: has_list_def)
  have fl: "statusFlag 3 m = Some True" using ok by (simp add: has_list_def)
  obtain m1 where m1: "setListBit i m = Some m1" "sameHeader m m1"
    "\<forall>j < 64. listBit m1 j = (if j = i then Some True else listBit m j)"
    using setListBit_spec [OF len, of i] i by auto
  have eq: "setMissingViewChangeMsgForViewChange i m = Some m1"
    using m1 i fl by (simp add: setMissingViewChangeMsgForViewChange_def)
  show "\<exists>b. isMissingViewChangeMsgForViewChange m i = Some b"
    using listBit_total [OF ok] i fl by (simp add: isMissingViewChangeMsgForViewChange_def)
  show "\<exists>m'. setMissingViewChangeMsgForViewChange i m = Some m'" using eq by simp
  fix m' assume "setMissingViewChangeMsgForViewChange i m = Some m'"
  then have m': "m' = m1" using eq by simp
  show ok': "has_list 3 8 m' \<and> MaxNumberOfReplicas = MaxNumberOfReplicas"
    using has_list_same [OF ok m1(2)] m' by simp
  fix j assume j: "j < MaxNumberOfReplicas"
  show "isMissingViewChangeMsgForViewChange m' j =
      (if j = i then Some True else isMissingViewChangeMsgForViewChange m j)"
    using m' m1(3) j fl ok' by (simp add: isMissingViewChangeMsgForViewChange_def has_list_def)
qed

section \<open>Status messages between replicas\<close>

text \<open>The combinations of lists a status message may have.\<close>

definition status_args_ok :: "SeqNum \<Rightarrow> SeqNum \<Rightarrow> bool \<Rightarrow> bool \<Rightarrow> bool \<Rightarrow> bool \<Rightarrow> bool \<Rightarrow> bool" where
  "status_args_ok lastStable lastExecuted viewIsActive hasNewChangeMsg pp vc mpp \<longleftrightarrow>
     is_i64 lastStable \<and> is_i64 lastExecuted \<and> lastStable \<le> lastExecuted \<and> lastStable smod 150 = 0 \<and>
     (viewIsActive \<longrightarrow> hasNewChangeMsg \<and> \<not> vc \<and> \<not> mpp) \<and> (\<not> viewIsActive \<longrightarrow> \<not> pp) \<and> \<not> (vc \<and> mpp)"

lemma status_flag_bits:
  assumes "\<not> (pp \<and> vc)" "\<not> (pp \<and> mpp)" "\<not> (vc \<and> mpp)"
  shows "(statusFlags a n pp vc mpp AND powersOf2 0 \<noteq> 0) = a" "(statusFlags a n pp vc mpp AND powersOf2 1 \<noteq> 0) = n"
    "(statusFlags a n pp vc mpp AND powersOf2 2 \<noteq> 0) = pp" "(statusFlags a n pp vc mpp AND powersOf2 3 \<noteq> 0) = vc"
    "(statusFlags a n pp vc mpp AND powersOf2 4 \<noteq> 0) = mpp"
  using assms by (cases a; cases n; cases pp; cases vc; cases mpp; simp add: statusFlags_def powersOf2_def)+

lemma newReplicaStatusMsg_reads:
  assumes args: "status_args_ok st ex a n pp vc mpp" and r: "r < 2 ^ 16" and v: "is_i64 v"
  shows "\<exists>m. newReplicaStatusMsg r v st ex a n pp vc mpp = Some m \<and> wf_msg m \<and> sender m = r \<and>
    msgSize m = calcSizeOfReplicaStatusMsg pp vc mpp \<and> length (msgBody m) = msgSize m \<and>
    msgType m = Some MsgCode_ReplicaStatus \<and>
    getViewNumber m = Some v \<and> getLastStableSeqNum m = Some st \<and> getLastExecutedSeqNum m = Some ex \<and>
    map (\<lambda>k. statusFlag k m) [0, 1, 2, 3, 4] = map Some [a, n, pp, vc, mpp] \<and>
    (\<forall>i. i < 8 * (msgSize m - 27) \<longrightarrow> listBit m i = Some False)"
proof -
  let ?len = "calcSizeOfReplicaStatusMsg pp vc mpp"
  let ?fs = "[(2, i64_bytes v), (10, i64_bytes st), (18, i64_bytes ex), (26, [statusFlags a n pp vc mpp]),
    (27, replicate (?len - 27) 0)]"
  have len: "27 \<le> ?len" by (simp add: calcSizeOfReplicaStatusMsg_def)
  obtain m b where m: "newMessage r MsgCode_ReplicaStatus ?len = Some m" "wrs ?fs (msgBody m) = Some b"
    "wf_msg (m\<lparr>msgBody := b\<rparr>)" "msgSize m = ?len" "sender m = r" "rd_nat 0 2 b = Some MsgCode_ReplicaStatus"
    "length b = ?len" and rds: "\<forall>(off, bs) \<in> set ?fs. rd off (length bs) b = Some bs"
    using new_packed [OF r, of MsgCode_ReplicaStatus ?len ?fs] len by auto
  have excl: "\<not> (pp \<and> vc)" "\<not> (pp \<and> mpp)" "\<not> (vc \<and> mpp)" "atMostOne pp vc mpp"
    using args by (auto simp: status_args_ok_def atMostOne_def)
  have new: "newReplicaStatusMsg r v st ex a n pp vc mpp = Some (m\<lparr>msgBody := b\<rparr>)"
    using m args excl(4) by (auto simp: newReplicaStatusMsg_def status_args_ok_def Let_def)
  have i64: "rd_i64 2 b = Some v" "rd_i64 10 b = Some st" "rd_i64 18 b = Some ex"
    using rds v args by (auto simp: rd_i64_def rd_nat_def i64_roundtrip status_args_ok_def)
  have "rd 26 1 b = Some [statusFlags a n pp vc mpp]" using rds by auto
  then have "hd (drop 26 b) = statusFlags a n pp vc mpp" using m(7) len by (auto simp: rd_eq_Some take_Suc drop_Suc)
  then have "b ! 26 = statusFlags a n pp vc mpp" using m(7) len by (simp add: hd_drop_conv_nth)
  then have flags: "statusFlag k (m\<lparr>msgBody := b\<rparr>) = Some (statusFlags a n pp vc mpp AND powersOf2 k \<noteq> 0)" for k
    using m(7) len by (simp add: statusFlag_def at_def)
  have "rd 27 (?len - 27) b = Some (replicate (?len - 27) 0)" using rds by auto
  then have "drop 27 b = replicate (?len - 27) 0" using m(7) by (simp add: rd_eq_Some)
  then have "\<forall>i. i < 8 * (?len - 27) \<longrightarrow> listBit (m\<lparr>msgBody := b\<rparr>) i = Some False"
    by (auto simp: listBit_def intro!: byteBit_zero)
  then show ?thesis
    using new m(3-7) i64 flags status_flag_bits [OF excl(1-3), of a n]
    by (simp add: msgType_def getViewNumber_def getLastStableSeqNum_def getLastExecutedSeqNum_def)
qed

lemma status_accepted:
  assumes "status_args_ok st ex a n pp vc mpp" "isIdOfPeerReplica info (sender m)"
    "msgType m = Some MsgCode_ReplicaStatus" "msgSize m = calcSizeOfReplicaStatusMsg pp vc mpp"
    "getLastStableSeqNum m = Some st" "getLastExecutedSeqNum m = Some ex"
    "map (\<lambda>k. statusFlag k m) [0, 1, 2, 3, 4] = map Some [a, n, pp, vc, mpp]"
  shows "ReplicaStatusMsg_ToActualMsgType info m = Some (Some m)"
proof -
  have "atMostOne pp vc mpp" "27 \<le> calcSizeOfReplicaStatusMsg pp vc mpp"
    using assms(1) by (auto simp: status_args_ok_def atMostOne_def calcSizeOfReplicaStatusMsg_def)
  then show ?thesis using assms
    by (auto simp: ReplicaStatusMsg_ToActualMsgType_def status_args_ok_def fromPeer_def isIdOfPeerReplica_def isIdOfReplica_def)
qed

lemma markAll_rel:
  assumes "\<And>i s s'. mark i s = Some s' \<Longrightarrow> R s s'" "\<And>s. R s s" "\<And>a b c. R a b \<Longrightarrow> R b c \<Longrightarrow> R a c"
    "markAll mark is s = Some s'"
  shows "R s s'"
  using assms(4)
proof (induction "is" arbitrary: s)
  case (Cons i "is")
  then obtain s1 where "mark i s = Some s1" "markAll mark is s1 = Some s'" by (auto simp: Option.bind_eq_Some_conv)
  then show ?case using Cons.IH assms(1,3) by blast
qed (use assms(2) in simp)

lemma setListBit_same: "setListBit i m = Some m' \<Longrightarrow> sameHeader m m'"
  by (auto simp: setListBit_def byteSet_def sameHeader_def Option.bind_eq_Some_conv)

lemma set_same:
  "setPrePrepareInActiveWindow s m = Some m' \<Longrightarrow> sameHeader m m'"
  "setMissingPrePrepareMsgForViewChange s m = Some m' \<Longrightarrow> sameHeader m m'"
  "setMissingViewChangeMsgForViewChange r m = Some m' \<Longrightarrow> sameHeader m m'"
  by (auto simp: setPrePrepareInActiveWindow_def setMissingPrePrepareMsgForViewChange_def
      setMissingViewChangeMsgForViewChange_def Option.bind_eq_Some_conv setListBit_same)

lemma status_marked:
  assumes args: "status_args_ok st ex a n pp vc mpp" and peer: "isIdOfPeerReplica info r" and r: "r < 2 ^ 16" and v: "is_i64 v"
    and mark: "\<forall>i m m'. mark i m = Some m' \<longrightarrow> sameHeader m m'"
    and law: "bit_set (has_list k n') (\<lambda>m. c) test mark" and bits: "set is \<subseteq> {..<c}"
    and flag: "[a, n, pp, vc, mpp] ! k" "k < 5" and size: "27 + n' \<le> calcSizeOfReplicaStatusMsg pp vc mpp"
    and test: "\<forall>m i. has_list k n' m \<and> i < c \<longrightarrow> test m i = listBit m i" and c: "c \<le> 8 * n'"
  shows "\<exists>m m'. newReplicaStatusMsg r v st ex a n pp vc mpp = Some m \<and> markAll mark is m = Some m' \<and>
    ReplicaStatusMsg_ToActualMsgType info m' = Some (Some m') \<and> getLastStableSeqNum m' = Some st \<and>
    (\<forall>i. i < c \<longrightarrow> test m' i = Some (i \<in> set is))"
proof -
  obtain m where m: "newReplicaStatusMsg r v st ex a n pp vc mpp = Some m" "wf_msg m" "sender m = r"
    "msgSize m = calcSizeOfReplicaStatusMsg pp vc mpp" "length (msgBody m) = msgSize m"
    "msgType m = Some MsgCode_ReplicaStatus" "getLastStableSeqNum m = Some st" "getLastExecutedSeqNum m = Some ex"
    and fl: "map (\<lambda>k. statusFlag k m) [0, 1, 2, 3, 4] = map Some [a, n, pp, vc, mpp]"
    and zero: "\<forall>i. i < 8 * (msgSize m - 27) \<longrightarrow> listBit m i = Some False"
    using newReplicaStatusMsg_reads [OF args r v] by auto
  have "k \<in> {0, 1, 2, 3, 4}" using flag(2) by auto
  then have "statusFlag k m = Some True" using flag(1) fl by auto
  then have has: "has_list k n' m" using m(4,5,7) size by (simp add: has_list_def)
  have "i < 8 * (msgSize m - 27)" if "i < c" for i using that c size m(4) by linarith
  then have none: "\<forall>i < c. test m i = Some False" using zero test has by simp
  obtain m' where m': "markAll mark is m = Some m'" "\<forall>i < c. test m' i = Some (i \<in> set is)"
    using bit_set.markAll_empty [OF law has bits none] by auto
  have same: "sameHeader m m'"
    by (rule markAll_rel [OF _ _ _ m'(1)]) (use mark in \<open>auto simp: sameHeader_def\<close>)
  have len: "27 \<le> length (msgBody m)" using m(4,5) size by simp
  have "ReplicaStatusMsg_ToActualMsgType info m' = Some (Some m')"
    using same fl m peer sameHeader_reads [OF same len] by (intro status_accepted [OF args]) (auto simp: sameHeader_def)
  then show ?thesis using m(1,7) m' sameHeader_reads(2) [OF same len] by auto
qed

text \<open>C29: a status message tells a peer exactly what its sender marked. For an active view, the batches
  of the window; for a view change, the missing view-change messages or the missing batches. The peer
  accepts the message, and every query in range returns whether the number was marked.\<close>

theorem status_lists_exact:
  assumes "wf_replicas_info info" "isIdOfPeerReplica info r" "is_i64 v"
    and "is_i64 st" "is_i64 ex" "st \<le> ex" "st smod checkpointWindowSize = 0"
    and "set is \<subseteq> {..<300}" "set rs \<subseteq> {..<MaxNumberOfReplicas}"
  shows "\<exists>m0 m1 m2 m0' m1' m2'.
    newReplicaStatusMsg r v st ex True True True False False = Some m0 \<and>
    markAll (\<lambda>i m. setPrePrepareInActiveWindow (windowSeq m i) m) is m0 = Some m0' \<and>
    newReplicaStatusMsg r v st ex False nv False True False = Some m1 \<and>
    markAll setMissingViewChangeMsgForViewChange rs m1 = Some m1' \<and>
    newReplicaStatusMsg r v st ex False nv False False True = Some m2 \<and>
    markAll (\<lambda>i m. setMissingPrePrepareMsgForViewChange (windowSeq m i) m) is m2 = Some m2' \<and>
    map (ReplicaStatusMsg_ToActualMsgType info) [m0', m1', m2'] = map (Some \<circ> Some) [m0', m1', m2'] \<and>
    (\<forall>i. i < 300 \<longrightarrow> isPrePrepareInActiveWindow m0' (st + 1 + int i) = Some (i \<in> set is)) \<and>
    (\<forall>p. p < MaxNumberOfReplicas \<longrightarrow> isMissingViewChangeMsgForViewChange m1' p = Some (p \<in> set rs)) \<and>
    (\<forall>i. i < 300 \<longrightarrow> isMissingPrePrepareMsgForViewChange m2' (st + 1 + int i) = Some (i \<in> set is))"
proof -
  have r: "r < 2 ^ 16" using assms(1,2) by (auto simp: isIdOfPeerReplica_def wf_replicas_info_def)
  have args: "status_args_ok st ex True True True False False" "status_args_ok st ex False nv False True False"
    "status_args_ok st ex False nv False False True" using assms(4-7) by (simp_all add: status_args_ok_def)
  note law = inWindow.bit_set_axioms missingVC.bit_set_axioms missingPP.bit_set_axioms
  have test: "\<forall>m i. has_list 2 38 m \<and> i < 300 \<longrightarrow> isPrePrepareInActiveWindow m (windowSeq m i) = listBit m i"
    "\<forall>m i. has_list 4 38 m \<and> i < 300 \<longrightarrow> isMissingPrePrepareMsgForViewChange m (windowSeq m i) = listBit m i"
    "\<forall>m i. has_list 3 8 m \<and> i < MaxNumberOfReplicas \<longrightarrow> isMissingViewChangeMsgForViewChange m i = listBit m i"
    by (simp_all add: isPrePrepareInActiveWindow_def isMissingPrePrepareMsgForViewChange_def
        isMissingViewChangeMsgForViewChange_def listIndex_window [of _ 38]) (simp add: has_list_def)
  have same: "\<forall>i m m'. setPrePrepareInActiveWindow (windowSeq m i) m = Some m' \<longrightarrow> sameHeader m m'"
    "\<forall>i m m'. setMissingPrePrepareMsgForViewChange (windowSeq m i) m = Some m' \<longrightarrow> sameHeader m m'"
    "\<forall>i m m'. setMissingViewChangeMsgForViewChange i m = Some m' \<longrightarrow> sameHeader m m'"
    using set_same by auto
  note marked = status_marked [OF _ assms(2) r assms(3)]
  have size: "27 + 38 \<le> calcSizeOfReplicaStatusMsg True False False" "27 + 8 \<le> calcSizeOfReplicaStatusMsg False True False"
    "27 + 38 \<le> calcSizeOfReplicaStatusMsg False False True" by (simp_all add: calcSizeOfReplicaStatusMsg_def)
  obtain m0 m0' where m0: "newReplicaStatusMsg r v st ex True True True False False = Some m0"
    "markAll (\<lambda>i m. setPrePrepareInActiveWindow (windowSeq m i) m) is m0 = Some m0'"
    "ReplicaStatusMsg_ToActualMsgType info m0' = Some (Some m0')" "getLastStableSeqNum m0' = Some st"
    "\<forall>i. i < 300 \<longrightarrow> isPrePrepareInActiveWindow m0' (windowSeq m0' i) = Some (i \<in> set is)"
    using marked [OF args(1) _ law(1) assms(8) _ _ size(1) test(1), OF same(1)] by auto
  obtain m1 m1' where m1: "newReplicaStatusMsg r v st ex False nv False True False = Some m1"
    "markAll setMissingViewChangeMsgForViewChange rs m1 = Some m1'"
    "ReplicaStatusMsg_ToActualMsgType info m1' = Some (Some m1')"
    "\<forall>p. p < MaxNumberOfReplicas \<longrightarrow> isMissingViewChangeMsgForViewChange m1' p = Some (p \<in> set rs)"
    using marked [OF args(2) _ law(2) assms(9) _ _ size(2) test(3), OF same(3)] by auto
  obtain m2 m2' where m2: "newReplicaStatusMsg r v st ex False nv False False True = Some m2"
    "markAll (\<lambda>i m. setMissingPrePrepareMsgForViewChange (windowSeq m i) m) is m2 = Some m2'"
    "ReplicaStatusMsg_ToActualMsgType info m2' = Some (Some m2')" "getLastStableSeqNum m2' = Some st"
    "\<forall>i. i < 300 \<longrightarrow> isMissingPrePrepareMsgForViewChange m2' (windowSeq m2' i) = Some (i \<in> set is)"
    using marked [OF args(3) _ law(3) assms(8) _ _ size(3) test(2), OF same(2)] by auto
  have "windowSeq m0' i = st + 1 + int i" "windowSeq m2' i = st + 1 + int i" for i
    using m0(4) m2(4) by (simp_all add: windowSeq_def)
  then have q: "\<forall>i. i < 300 \<longrightarrow> isPrePrepareInActiveWindow m0' (st + 1 + int i) = Some (i \<in> set is)"
    "\<forall>i. i < 300 \<longrightarrow> isMissingPrePrepareMsgForViewChange m2' (st + 1 + int i) = Some (i \<in> set is)"
    using m0(5) m2(5) by simp_all
  have acc: "map (ReplicaStatusMsg_ToActualMsgType info) [m0', m1', m2'] = map (Some \<circ> Some) [m0', m1', m2']"
    using m0(3) m1(3) m2(3) by simp
  show ?thesis
    by (rule exI [of _ m0], rule exI [of _ m1], rule exI [of _ m2], rule exI [of _ m0'], rule exI [of _ m1'],
        rule exI [of _ m2'], intro conjI) (fact m0(1) m0(2) m1(1) m1(2) m2(1) m2(2) acc q(1) m1(4) q(2))+
qed

theorem status_lists_exact_witness:
  "\<exists>m m'. newReplicaStatusMsg 3 0 150 151 True True True False False = Some m \<and>
     markAll (\<lambda>i m. setPrePrepareInActiveWindow (windowSeq m i) m) [0, 299] m = Some m' \<and>
     ReplicaStatusMsg_ToActualMsgType sample_info m' = Some (Some m') \<and>
     isPrePrepareInActiveWindow m' 151 = Some True \<and> isPrePrepareInActiveWindow m' 152 = Some False"
proof -
  have "(150 :: int) smod 150 = 0" by code_simp
  then obtain m m' where m: "newReplicaStatusMsg 3 0 150 151 True True True False False = Some m"
    "markAll (\<lambda>i m. setPrePrepareInActiveWindow (windowSeq m i) m) [0, 299] m = Some m'"
    "ReplicaStatusMsg_ToActualMsgType sample_info m' = Some (Some m')"
    "\<forall>i. i < 300 \<longrightarrow> isPrePrepareInActiveWindow m' (150 + 1 + int i) = Some (i \<in> set [0, 299])"
    using status_lists_exact [OF sample_info_wf, of 3 0 150 151 "[0, 299]" "[]" False]
    by (auto simp: isIdOfPeerReplica_def is_i64_def simp del: markAll.simps)
  have "isPrePrepareInActiveWindow m' 151 = Some True" "isPrePrepareInActiveWindow m' 152 = Some False"
    using m(4) [rule_format, of 0] m(4) [rule_format, of 1] by simp_all
  then show ?thesis using m(1-3) by blast
qed

end
