(* ===== verification/Pre_Prepare_Msg.thy ===== *)
theory Pre_Prepare_Msg
  imports Client_Msgs Replicas_Info Digests
begin

text \<open>
  \<^verbatim>\<open>PrePrepareMsg.cpp\<close>: the batch of requests a primary proposes. The header is 58 bytes (type 2, view 8,
  sequence number 8, flags 2, digest 32, number of requests 2, end of the last request 4); the requests
  follow one after the other. The digest of the requests is computed by \<^verbatim>\<open>DigestUtil\<close>, which wraps a
  library hash: it is the argument \<open>hash\<close>.
\<close>

unbundle bit_operations_syntax

section \<open>The header\<close>

definition sizeofPrePrepareMsgHeader :: nat where
  [simp]: "sizeofPrePrepareMsgHeader = 58"

definition prePrepareHeaderPrefix :: nat where
  [simp]: "prePrepareHeaderPrefix = 52"

definition maxSizeOfPrePrepareMsg :: nat where
  "maxSizeOfPrePrepareMsg = maxExternalMessageSize"

definition maxSizeOfPrePrepareMsgInLocalBuffer :: nat where
  "maxSizeOfPrePrepareMsgInLocalBuffer = maxSizeOfPrePrepareMsg + sizeofRawHeaderOfObjAndMsg"

definition nullDigest :: Digest where
  "nullDigest = replicate DIGEST_SIZE 0x18"

record PrePrepareHeader =
  pp_viewNum :: ViewNum
  pp_seqNum :: SeqNum
  pp_flags :: "16 word"
  pp_digestOfRequests :: Digest
  pp_numberOfRequests :: nat
  pp_endLocationOfLastRequest :: nat

definition ppHeader :: "byte list \<Rightarrow> PrePrepareHeader option" where
  "ppHeader body = do {
     v \<leftarrow> rd_i64 2 body;
     s \<leftarrow> rd_i64 10 body;
     flags \<leftarrow> rd_nat 18 2 body;
     d \<leftarrow> rd 20 DIGEST_SIZE body;
     n \<leftarrow> rd_nat 52 2 body;
     e \<leftarrow> rd_nat 54 4 body;
     Some \<lparr>pp_viewNum = v, pp_seqNum = s, pp_flags = word_of_nat flags, pp_digestOfRequests = d,
           pp_numberOfRequests = n, pp_endLocationOfLastRequest = e\<rparr>
   }"

definition pp_isNull :: "PrePrepareHeader \<Rightarrow> bool" where
  "pp_isNull h \<longleftrightarrow> pp_flags h AND 0x1 = 0"

definition pp_isReady :: "PrePrepareHeader \<Rightarrow> bool" where
  "pp_isReady h \<longleftrightarrow> drop_bit 1 (pp_flags h) AND 0x1 = 1"

definition pp_firstPathNum :: "PrePrepareHeader \<Rightarrow> nat" where
  "pp_firstPathNum h = unat (drop_bit 2 (pp_flags h) AND 0x3)"

definition pp_firstPath :: "PrePrepareHeader \<Rightarrow> CommitPath option" where
  "pp_firstPath h = do {
     let firstPathNum = pp_firstPathNum h;
     Assert (firstPathNum \<le> 2);
     Some (if firstPathNum = 0 then OPTIMISTIC_FAST else if firstPathNum = 1 then FAST_WITH_THRESHOLD else SLOW)
   }"

text \<open>The path as an \<open>int16_t\<close>: \<open>NA\<close> is \<open>-1\<close> and passes the assertion that it is at most 2.\<close>

fun firstPathWord :: "CommitPath \<Rightarrow> 16 word" where
  "firstPathWord NA = - 1"
| "firstPathWord OPTIMISTIC_FAST = 0"
| "firstPathWord FAST_WITH_THRESHOLD = 1"
| "firstPathWord SLOW = 2"

definition computeFlagsForPrePrepareMsg :: "bool \<Rightarrow> bool \<Rightarrow> CommitPath \<Rightarrow> 16 word option" where
  "computeFlagsForPrePrepareMsg isNull isReady firstPath = do {
     Assert (\<not> isNull \<or> isReady);
     let firstPathNum = firstPathWord firstPath;
     Assert (sint firstPathNum \<le> 2);
     Some (push_bit 2 firstPathNum OR push_bit 1 (if isReady then 1 else 0) OR (if isNull then 0 else 1))
   }"

section \<open>Building a batch\<close>

definition newPrePrepareMsg :: "ReplicaId \<Rightarrow> ViewNum \<Rightarrow> SeqNum \<Rightarrow> CommitPath \<Rightarrow> bool \<Rightarrow> MessageBase option" where
  "newPrePrepareMsg sndr v s firstPath isNull = do {
     m \<leftarrow> newMessage sndr MsgCode_PrePrepare (if isNull then sizeofPrePrepareMsgHeader else maxSizeOfPrePrepareMsg);
     flags \<leftarrow> computeFlagsForPrePrepareMsg isNull isNull firstPath;
     body \<leftarrow> wrs [(2, i64_bytes v), (10, i64_bytes s), (18, le_bytes 2 (unat flags)),
       (20, if isNull then nullDigest else zeroDigest), (52, le_bytes 2 0),
       (54, le_bytes 4 sizeofPrePrepareMsgHeader)] (msgBody m);
     Some (m\<lparr>msgBody := body\<rparr>)
   }"

definition createNullPrePrepareMsg :: "ReplicaId \<Rightarrow> ViewNum \<Rightarrow> SeqNum \<Rightarrow> CommitPath \<Rightarrow> MessageBase option" where
  "createNullPrePrepareMsg sndr v s firstPath = newPrePrepareMsg sndr v s firstPath True"

definition digestOfNullPrePrepareMsg :: Digest where
  "digestOfNullPrePrepareMsg = nullDigest"

definition remainingSizeForRequests :: "MessageBase \<Rightarrow> nat option" where
  "remainingSizeForRequests m = do {
     h \<leftarrow> ppHeader (msgBody m);
     Assert (\<not> pp_isReady h);
     Assert (\<not> pp_isNull h);
     Assert (pp_endLocationOfLastRequest h \<ge> sizeofPrePrepareMsgHeader);
     Some (u32 (int (storageSize m) - int (pp_endLocationOfLastRequest h)))
   }"

definition addRequest :: "byte list \<Rightarrow> MessageBase \<Rightarrow> MessageBase option" where
  "addRequest request m = do {
     reqSize \<leftarrow> compRequestMsgSize request;
     Assert (reqSize = length request);
     h \<leftarrow> ppHeader (msgBody m);
     Assert (\<not> pp_isNull h);
     Assert (\<not> pp_isReady h);
     remaining \<leftarrow> remainingSizeForRequests m;
     Assert (remaining \<ge> length request);
     body \<leftarrow> wrs [(pp_endLocationOfLastRequest h, request),
       (54, le_bytes 4 (pp_endLocationOfLastRequest h + length request)),
       (52, le_bytes 2 (pp_numberOfRequests h + 1))] (msgBody m);
     Some (m\<lparr>msgBody := body\<rparr>)
   }"

text \<open>The walk over the requests: positions and sizes are \<open>uint32_t\<close>. \<open>remainReqs\<close> counts down.\<close>

fun checkLoop :: "byte list \<Rightarrow> nat \<Rightarrow> nat \<Rightarrow> nat \<Rightarrow> bool option" where
  "checkLoop body e i 0 = None"
| "checkLoop body e i (Suc remainReqs) = do {
     reqSize \<leftarrow> compRequestMsgSize (drop i body);
     let i = u32 (int (i + reqSize));
     if remainReqs > 0 then (if i \<ge> e then Some False else checkLoop body e i remainReqs)
     else Some (i = e)
   }"

definition checkRequests :: "byte list \<Rightarrow> bool option" where
  "checkRequests body = do {
     h \<leftarrow> ppHeader body;
     let e = pp_endLocationOfLastRequest h;
     if pp_numberOfRequests h = 0 then Some (e = sizeofPrePrepareMsgHeader)
     else if sizeofPrePrepareMsgHeader \<ge> e then Some False
     else checkLoop body e sizeofPrePrepareMsgHeader (pp_numberOfRequests h)
   }"

definition requestsDigest :: "(byte list \<Rightarrow> Digest) \<Rightarrow> byte list \<Rightarrow> nat \<Rightarrow> Digest option" where
  "requestsDigest hash body e = do {
     buf \<leftarrow> rd prePrepareHeaderPrefix (e - prePrepareHeaderPrefix) body;
     Some (hash buf)
   }"

definition finishAddingRequests :: "(byte list \<Rightarrow> Digest) \<Rightarrow> MessageBase \<Rightarrow> MessageBase option" where
  "finishAddingRequests hash m = do {
     h \<leftarrow> ppHeader (msgBody m);
     Assert (\<not> pp_isNull h);
     Assert (\<not> pp_isReady h);
     Assert (pp_numberOfRequests h > 0);
     Assert (pp_endLocationOfLastRequest h > sizeofPrePrepareMsgHeader);
     Assert (isZero (pp_digestOfRequests h));
     ok \<leftarrow> checkRequests (msgBody m);
     Assert ok;
     body \<leftarrow> wr 18 (le_bytes 2 (unat (pp_flags h OR 0x2))) (msgBody m);
     d \<leftarrow> requestsDigest hash body (pp_endLocationOfLastRequest h);
     body \<leftarrow> wr 20 d body;
     m \<leftarrow> setMsgSize (m\<lparr>msgBody := body\<rparr>) (pp_endLocationOfLastRequest h);
     shrinkToFit m
   }"

definition updateView :: "ViewNum \<Rightarrow> CommitPath \<Rightarrow> MessageBase \<Rightarrow> MessageBase option" where
  "updateView v firstPath m = do {
     h \<leftarrow> ppHeader (msgBody m);
     flags \<leftarrow> computeFlagsForPrePrepareMsg (pp_isNull h) (pp_isReady h) firstPath;
     body \<leftarrow> wrs [(2, i64_bytes v), (18, le_bytes 2 (unat flags))] (msgBody m);
     Some (m\<lparr>msgBody := body\<rparr>)
   }"

section \<open>Receiving a batch\<close>

definition PrePrepareMsg_ToActualMsgType ::
  "(byte list \<Rightarrow> Digest) \<Rightarrow> ReplicasInfo \<Rightarrow> MessageBase \<Rightarrow> PrePrepareHeader option option" where
  "PrePrepareMsg_ToActualMsgType hash repInfo inMsg = do {
     type \<leftarrow> msgType inMsg;
     Assert (type = MsgCode_PrePrepare);
     Assert (sender inMsg \<noteq> ri_myId repInfo);
     if msgSize inMsg < sizeofPrePrepareMsgHeader then Some None
     else if \<not> isIdOfReplica repInfo (sender inMsg) then Some None
     else do {
       h \<leftarrow> ppHeader (msgBody inMsg);
       let e = pp_endLocationOfLastRequest h;
       if pp_seqNum h = 0 then Some None
       else if pp_isNull h then Some None
       else if \<not> pp_isReady h then Some None
       else if pp_firstPathNum h \<ge> 3 then Some None
       else do {
         firstPath \<leftarrow> pp_firstPath h;
         if firstPath = FAST_WITH_THRESHOLD \<and> cVal repInfo = 0 then Some None
         else if drop_bit 4 (pp_flags h) \<noteq> 0 then Some None
         else if e > msgSize inMsg then Some None
         else if pp_numberOfRequests h = 0 then Some None
         else if pp_numberOfRequests h \<ge> e then Some None
         else do {
           ok \<leftarrow> checkRequests (msgBody inMsg);
           if \<not> ok then Some None
           else do {
             d \<leftarrow> requestsDigest hash (msgBody inMsg) e;
             if d \<noteq> pp_digestOfRequests h then Some None else Some (Some h)
           }
         }
       }
     }
   }"

section \<open>Iterating over the requests\<close>

record RequestsIterator =
  ri_msg :: "byte list"
  currLoc :: nat

definition newRequestsIterator :: "byte list \<Rightarrow> RequestsIterator option" where
  "newRequestsIterator body = do {
     h \<leftarrow> ppHeader body;
     Assert (pp_isReady h);
     Some \<lparr>ri_msg = body, currLoc = sizeofPrePrepareMsgHeader\<rparr>
   }"

definition ri_restart :: "RequestsIterator \<Rightarrow> RequestsIterator" where
  "ri_restart it = it\<lparr>currLoc := sizeofPrePrepareMsgHeader\<rparr>"

definition ri_end :: "RequestsIterator \<Rightarrow> bool option" where
  "ri_end it = do {
     h \<leftarrow> ppHeader (ri_msg it);
     Assert (currLoc it \<le> pp_endLocationOfLastRequest h);
     Some (currLoc it = pp_endLocationOfLastRequest h)
   }"

text \<open>The current request, as a pointer into the message: its position.\<close>

definition ri_getCurrent :: "RequestsIterator \<Rightarrow> nat option option" where
  "ri_getCurrent it = do { e \<leftarrow> ri_end it; Some (if e then None else Some (currLoc it)) }"

definition ri_gotoNext :: "RequestsIterator \<Rightarrow> RequestsIterator option" where
  "ri_gotoNext it = do {
     e \<leftarrow> ri_end it;
     Assert (\<not> e);
     len \<leftarrow> compRequestMsgSize (drop (currLoc it) (ri_msg it));
     let loc = u32 (int (currLoc it + len));
     h \<leftarrow> ppHeader (ri_msg it);
     Assert (loc \<le> pp_endLocationOfLastRequest h);
     Some (it\<lparr>currLoc := loc\<rparr>)
   }"

definition ri_getAndGoToNext :: "RequestsIterator \<Rightarrow> (nat option \<times> RequestsIterator) option" where
  "ri_getAndGoToNext it = do {
     cur \<leftarrow> ri_getCurrent it;
     case cur of
       None \<Rightarrow> Some (None, it)
     | Some p \<Rightarrow> do { it \<leftarrow> ri_gotoNext it; Some (Some p, it) }
   }"

text \<open>The loop \<open>while (reqIter.getAndGoToNext(requestBody))\<close> of the replica; a loop that does not end, like
  a failed assertion, is \<open>None\<close>.\<close>

partial_function (option) iterateRequests :: "RequestsIterator \<Rightarrow> nat list option" where
  "iterateRequests it = do {
     (cur, it) \<leftarrow> ri_getAndGoToNext it;
     case cur of
       None \<Rightarrow> Some []
     | Some p \<Rightarrow> do { ps \<leftarrow> iterateRequests it; Some (p # ps) }
   }"

section \<open>Accepted batches can be iterated\<close>

lemma compRequestMsgSize_total: "17 \<le> length b \<longleftrightarrow> compRequestMsgSize b \<noteq> None"
  by (auto simp: compRequestMsgSize_def requestHeader_def rd_nat_def rd_def)

lemma compRequestMsgSize_append:
  assumes "17 \<le> length r"
  shows "compRequestMsgSize (r @ x) = compRequestMsgSize r"
  using assms by (auto simp: compRequestMsgSize_def requestHeader_def rd_nat_def rd_def)

text \<open>The walk of the checker is the walk of the iterator.\<close>

lemma iterate_check:
  assumes "checkLoop body e i n = Some True" "i < e" "ppHeader body = Some h" "pp_endLocationOfLastRequest h = e"
  shows "\<exists>ps. iterateRequests \<lparr>ri_msg = body, currLoc = i\<rparr> = Some ps \<and> length ps = n \<and> hd ps = i \<and> (\<forall>p \<in> set ps. p < e)"
  using assms(1,2)
proof (induction n arbitrary: i)
  case (Suc n)
  obtain sz where sz: "compRequestMsgSize (drop i body) = Some sz"
    using Suc.prems(1) by (auto simp: Option.bind_eq_Some_conv)
  let ?i = "u32 (int (i + sz))"
  have "ri_end \<lparr>ri_msg = body, currLoc = i\<rparr> = Some False" using Suc.prems(2) assms(3,4) by (simp add: ri_end_def)
  moreover have "?i \<le> e" using Suc.prems(1) sz by (auto simp: Let_def split: if_splits)
  ultimately have step: "ri_getAndGoToNext \<lparr>ri_msg = body, currLoc = i\<rparr> = Some (Some i, \<lparr>ri_msg = body, currLoc = ?i\<rparr>)"
    using sz assms(3,4) by (simp add: ri_getAndGoToNext_def ri_getCurrent_def ri_gotoNext_def Let_def)
  show ?case
  proof (cases "n = 0")
    case True
    then have "?i = e" using Suc.prems(1) sz by (simp add: Let_def)
    then have "iterateRequests \<lparr>ri_msg = body, currLoc = ?i\<rparr> = Some []"
      using assms(3,4) by (subst iterateRequests.simps) (simp add: ri_getAndGoToNext_def ri_getCurrent_def ri_end_def)
    then show ?thesis using step True Suc.prems(2) by (subst iterateRequests.simps) simp
  next
    case False
    then have "checkLoop body e ?i n = Some True" "?i < e" using Suc.prems(1) sz by (auto simp: Let_def split: if_splits)
    then obtain ps where "iterateRequests \<lparr>ri_msg = body, currLoc = ?i\<rparr> = Some ps" "length ps = n" "\<forall>p \<in> set ps. p < e"
      using Suc.IH by blast
    then show ?thesis using step Suc.prems(2) by (subst iterateRequests.simps) simp
  qed
qed simp

lemma accepted_facts:
  assumes "PrePrepareMsg_ToActualMsgType hash info m = Some (Some h)"
  shows "ppHeader (msgBody m) = Some h" "pp_isReady h" "0 < pp_numberOfRequests h"
    "pp_endLocationOfLastRequest h \<le> msgSize m" "checkRequests (msgBody m) = Some True"
    "58 < pp_endLocationOfLastRequest h"
    "checkLoop (msgBody m) (pp_endLocationOfLastRequest h) 58 (pp_numberOfRequests h) = Some True"
proof -
  show h: "ppHeader (msgBody m) = Some h" and "pp_isReady h" and n: "0 < pp_numberOfRequests h"
    and "pp_endLocationOfLastRequest h \<le> msgSize m" and c: "checkRequests (msgBody m) = Some True"
    using assms by (auto simp: PrePrepareMsg_ToActualMsgType_def Let_def Option.bind_eq_Some_conv split: if_splits)
  show "58 < pp_endLocationOfLastRequest h"
    "checkLoop (msgBody m) (pp_endLocationOfLastRequest h) 58 (pp_numberOfRequests h) = Some True"
    using c h n by (auto simp: checkRequests_def Let_def split: if_splits)
qed

text \<open>C24: in every batch a replica accepts, whatever the primary put into it, the loop over the requests
  ends: it visits exactly the announced number of requests, all of them starting inside the batch, and
  no assertion of the iterator fails.\<close>

theorem accepted_batch_iterates:
  assumes "PrePrepareMsg_ToActualMsgType hash info m = Some (Some h)"
  shows "\<exists>it ps. newRequestsIterator (msgBody m) = Some it \<and> iterateRequests it = Some ps \<and>
           length ps = pp_numberOfRequests h \<and> hd ps = sizeofPrePrepareMsgHeader \<and>
           set ps \<subseteq> {..<pp_endLocationOfLastRequest h} \<and> pp_endLocationOfLastRequest h \<le> msgSize m"
  using iterate_check [OF accepted_facts(7,6,1) [OF assms] refl] accepted_facts [OF assms]
  by (auto simp: newRequestsIterator_def)

section \<open>A batch survives the wire\<close>

text \<open>The body of a batch under construction: the requests lie one behind the other.\<close>

definition batch_layout :: "ViewNum \<Rightarrow> SeqNum \<Rightarrow> 16 word \<Rightarrow> byte list list \<Rightarrow> byte list \<Rightarrow> bool" where
  "batch_layout v s flags rs body \<longleftrightarrow>
     ppHeader body = Some \<lparr>pp_viewNum = v, pp_seqNum = s, pp_flags = flags, pp_digestOfRequests = zeroDigest,
       pp_numberOfRequests = length rs, pp_endLocationOfLastRequest = 58 + length (concat rs)\<rparr> \<and>
     length body = maxExternalMessageSize \<and> 58 + length (concat rs) \<le> maxExternalMessageSize \<and>
     take (length (concat rs)) (drop 58 body) = concat rs \<and> rd_nat 0 2 body = Some MsgCode_PrePrepare"

definition is_request :: "byte list \<Rightarrow> bool" where
  "is_request r \<longleftrightarrow> compRequestMsgSize r = Some (length r)"

fun addRequests :: "byte list list \<Rightarrow> MessageBase \<Rightarrow> MessageBase option" where
  "addRequests [] m = Some m"
| "addRequests (r # rs) m = do { m \<leftarrow> addRequest r m; addRequests rs m }"

lemma is_request_length: "is_request r \<Longrightarrow> 17 \<le> length r"
  using compRequestMsgSize_total [of r] by (simp add: is_request_def)

lemma checkLoop_concat:
  assumes "rs \<noteq> []" "list_all is_request rs" "i + length (concat rs) \<le> length body" "length body < 2 ^ 32"
    "take (length (concat rs)) (drop i body) = concat rs"
  shows "checkLoop body (i + length (concat rs)) i (length rs) = Some True"
  using assms
proof (induction rs arbitrary: i)
  case (Cons r rs)
  have r: "is_request r" "17 \<le> length r" using Cons.prems(2) is_request_length by auto
  let ?n = "length (concat rs)"
  have "take (length r) (drop i body) = r"
    using arg_cong [OF Cons.prems(5), of "take (length r)"] by (simp add: min_def)
  then have "drop i body = r @ drop (i + length r) body" by (metis append_take_drop_id drop_drop add.commute)
  then have sz: "compRequestMsgSize (drop i body) = Some (length r)"
    using r compRequestMsgSize_append [OF r(2)] by (simp add: is_request_def)
  have i: "u32 (int (i + length r)) = i + length r" using Cons.prems(3,4) by (simp add: u32_def)
  have "take ?n (drop (i + length r) body) = drop (length r) (take (length (concat (r # rs))) (drop i body))"
    by (simp add: drop_take add.commute)
  then have rest: "take ?n (drop (i + length r) body) = concat rs" using Cons.prems(5) by simp
  show ?case
  proof (cases "rs = []")
    case True
    then show ?thesis using sz i by (simp add: Let_def)
  next
    case False
    then obtain r' rs' where rs: "rs = r' # rs'" by (cases rs) auto
    then have "0 < ?n" using Cons.prems(2) is_request_length [of r'] by auto
    moreover have "checkLoop body (i + length r + ?n) (i + length r) (length rs) = Some True"
      using Cons.IH [OF False, of "i + length r"] Cons.prems(2-4) rest by simp
    ultimately show ?thesis using sz i False by (simp add: Let_def add.assoc)
  qed
qed simp

lemma requests_total: "list_all is_request rs \<Longrightarrow> 17 * length rs \<le> length (concat rs)"
proof (induction rs)
  case (Cons r rs)
  then show ?case using is_request_length [of r] by simp
qed simp

lemma flags_of_path:
  assumes "path \<noteq> NA" "computeFlagsForPrePrepareMsg False False path = Some flags"
  shows "flags AND 0x1 \<noteq> 0" "drop_bit 1 flags AND 0x1 \<noteq> 1"
    "(flags OR 0x2) AND 0x1 \<noteq> 0" "drop_bit 1 (flags OR 0x2) AND 0x1 = 1" "drop_bit 4 (flags OR 0x2) = 0"
    "unat (drop_bit 2 (flags OR 0x2) AND 0x3) = (case path of OPTIMISTIC_FAST \<Rightarrow> 0 | FAST_WITH_THRESHOLD \<Rightarrow> 1 | _ \<Rightarrow> 2)"
  using assms by (cases path; simp add: computeFlagsForPrePrepareMsg_def)+

lemma rd_word16: "rd off 2 b = Some (le_bytes 2 (unat w)) \<Longrightarrow> rd_nat off 2 b = Some (unat w)" for w :: "16 word"
  using unsigned_less [of w, where 'a = nat] by (simp add: rd_nat_def le_val_le_bytes)

lemma newPrePrepareMsg_layout:
  assumes "r < 2 ^ 16" "is_i64 v" "is_i64 s"
  shows "\<exists>m flags. computeFlagsForPrePrepareMsg False False path = Some flags \<and>
    newPrePrepareMsg r v s path False = Some m \<and> batch_layout v s flags [] (msgBody m) \<and>
    wf_msg m \<and> storageSize m = maxExternalMessageSize \<and> sender m = r \<and> owner m"
proof -
  obtain flags where flags: "computeFlagsForPrePrepareMsg False False path = Some flags"
    by (cases path) (simp_all add: computeFlagsForPrePrepareMsg_def)
  let ?fs = "[(2, i64_bytes v), (10, i64_bytes s), (18, le_bytes 2 (unat flags)), (20, zeroDigest),
    (52, le_bytes 2 0), (54, le_bytes 4 58)]"
  have len: "length zeroDigest = 32" by (simp add: zeroDigest_def)
  then obtain m b where m: "newMessage r MsgCode_PrePrepare maxExternalMessageSize = Some m" "wrs ?fs (msgBody m) = Some b"
    "wf_msg (m\<lparr>msgBody := b\<rparr>)" "storageSize m = maxExternalMessageSize" "sender m = r" "owner m"
    "rd_nat 0 2 b = Some MsgCode_PrePrepare" "length b = maxExternalMessageSize"
    and rds: "\<forall>(off, bs) \<in> set ?fs. rd off (length bs) b = Some bs"
    using new_packed [OF assms(1), of MsgCode_PrePrepare maxExternalMessageSize ?fs] by auto
  have r: "rd 2 8 b = Some (i64_bytes v)" "rd 10 8 b = Some (i64_bytes s)" "rd 18 2 b = Some (le_bytes 2 (unat flags))"
    "rd 20 32 b = Some zeroDigest" "rd 52 2 b = Some (le_bytes 2 0)" "rd 54 4 b = Some (le_bytes 4 58)"
    using rds len by auto
  have "rd_i64 2 b = Some v" "rd_i64 10 b = Some s" using r(1,2) assms(2,3) by (auto simp: rd_i64_def rd_nat_def i64_roundtrip)
  then have "batch_layout v s flags [] b"
    using r(4-6) rd_word16 [OF r(3)] m(7,8) by (auto simp: batch_layout_def ppHeader_def rd_nat_def le_val_le_bytes)
  moreover have "newPrePrepareMsg r v s path False = Some (m\<lparr>msgBody := b\<rparr>)"
    using m(1,2) flags by (simp add: newPrePrepareMsg_def maxSizeOfPrePrepareMsg_def)
  ultimately show ?thesis using flags m by auto
qed

lemma addRequest_layout:
  assumes lay: "batch_layout v s flags rs (msgBody m)" and flags: "flags AND 0x1 \<noteq> 0" "drop_bit 1 flags AND 0x1 \<noteq> 1"
    and rs: "list_all is_request rs" and r: "is_request r"
    and fit: "58 + length (concat (rs @ [r])) \<le> maxExternalMessageSize" and st: "storageSize m = maxExternalMessageSize"
  shows "\<exists>m'. addRequest r m = Some m' \<and> batch_layout v s flags (rs @ [r]) (msgBody m') \<and> m' = m\<lparr>msgBody := msgBody m'\<rparr>"
proof -
  define e where "e = 58 + length (concat rs)"
  define b where "b = msgBody m"
  let ?fs = "[(e, r), (54, le_bytes 4 (e + length r)), (52, le_bytes 2 (length rs + 1))]"
  have h: "ppHeader b = Some \<lparr>pp_viewNum = v, pp_seqNum = s, pp_flags = flags, pp_digestOfRequests = zeroDigest,
       pp_numberOfRequests = length rs, pp_endLocationOfLastRequest = e\<rparr>" and len: "length b = 64000"
    and body: "take (length (concat rs)) (drop 58 b) = concat rs" and type: "rd_nat 0 2 b = Some MsgCode_PrePrepare"
    and room: "e + length r \<le> 64000"
    using lay fit by (auto simp: batch_layout_def e_def b_def)
  obtain b' where b': "wrs ?fs b = Some b'" "length b' = 64000"
    using wrs_total [of ?fs b] room len e_def by auto
  have n: "length rs + 1 < 65536" using requests_total [OF rs] room is_request_length [OF r] by (simp add: e_def)
  have same: "rd p k b' = rd p k b" if "p + k \<le> 52 \<or> (58 \<le> p \<and> p + k \<le> e)" for p k
    using that by (intro rd_wrs_other [OF b'(1)]) (auto simp: e_def)
  have new: "rd e (length r) b' = Some r" "rd 54 4 b' = Some (le_bytes 4 (e + length r))" "rd 52 2 b' = Some (le_bytes 2 (length rs + 1))"
    using rd_wrs [OF b'(1), of e r] rd_wrs [OF b'(1), of 54 "le_bytes 4 (e + length r)"]
      rd_wrs [OF b'(1), of 52 "le_bytes 2 (length rs + 1)"] by (simp_all add: e_def)
  have "rd 58 (length (concat rs)) b' = rd 58 (length (concat rs)) b" by (rule same) (simp add: e_def)
  then have "take (length (concat rs)) (drop 58 b') = concat rs" using body len room b'(2) by (simp add: rd_def e_def)
  moreover have "take (length r) (drop (length (concat rs)) (drop 58 b')) = r"
    using new(1) by (simp add: rd_eq_Some e_def add.commute)
  ultimately have cc: "take (length (concat (rs @ [r]))) (drop 58 b') = concat (rs @ [r])"
    by (simp add: take_add)
  have hd: "ppHeader b' = Some \<lparr>pp_viewNum = v, pp_seqNum = s, pp_flags = flags, pp_digestOfRequests = zeroDigest,
       pp_numberOfRequests = length rs + 1, pp_endLocationOfLastRequest = e + length r\<rparr>"
    using h new(2,3) n room same [of 2 8] same [of 10 8] same [of 18 2] same [of 20 32]
    by (auto simp: ppHeader_def rd_i64_def rd_nat_def le_val_le_bytes Option.bind_eq_Some_conv)
  have "batch_layout v s flags (rs @ [r]) b'"
    using hd cc b'(2) room same [of 0 2] type by (simp add: batch_layout_def e_def rd_nat_def)
  moreover have "addRequest r m = Some (m\<lparr>msgBody := b'\<rparr>)"
    using h b' r flags room st
    by (simp add: addRequest_def remainingSizeForRequests_def b_def [symmetric] is_request_def pp_isNull_def pp_isReady_def
        u32_def e_def Let_def)
  ultimately show ?thesis by (intro exI [of _ "m\<lparr>msgBody := b'\<rparr>"]) simp
qed

lemma addRequests_layout:
  assumes "batch_layout v s flags rs0 (msgBody m)" "flags AND 0x1 \<noteq> 0" "drop_bit 1 flags AND 0x1 \<noteq> 1"
    "list_all is_request rs0" "list_all is_request rs"
    "58 + length (concat (rs0 @ rs)) \<le> maxExternalMessageSize" "storageSize m = maxExternalMessageSize"
  shows "\<exists>m'. addRequests rs m = Some m' \<and> batch_layout v s flags (rs0 @ rs) (msgBody m') \<and> m' = m\<lparr>msgBody := msgBody m'\<rparr>"
  using assms
proof (induction rs arbitrary: m rs0)
  case (Cons r rs)
  obtain m1 where m1: "addRequest r m = Some m1" "batch_layout v s flags (rs0 @ [r]) (msgBody m1)" "m1 = m\<lparr>msgBody := msgBody m1\<rparr>"
    using addRequest_layout [OF Cons.prems(1-4), of r] Cons.prems(5-7) by auto
  have st: "storageSize m1 = maxExternalMessageSize"
    using Cons.prems(7) arg_cong [OF m1(3), of storageSize] by simp
  obtain m2 where m2: "addRequests rs m1 = Some m2" "batch_layout v s flags ((rs0 @ [r]) @ rs) (msgBody m2)"
    "m2 = m1\<lparr>msgBody := msgBody m2\<rparr>"
    using Cons.IH [OF m1(2) Cons.prems(2,3) _ _ _ st] Cons.prems(4-6) by auto
  have "m2 = m\<lparr>msgBody := msgBody m2\<rparr>" using m1(3) m2(3) by (cases m; cases m1; cases m2) simp
  then show ?case using m1(1) m2(1,2) by auto
qed simp

text \<open>The last step of the primary: mark the batch ready, store the digest, cut the message.\<close>

lemma finish_layout:
  assumes lay: "batch_layout v s flags rs (msgBody m)" and flags: "flags AND 0x1 \<noteq> 0" "drop_bit 1 flags AND 0x1 \<noteq> 1"
    and rs: "list_all is_request rs" "rs \<noteq> []" and m: "wf_msg m" "owner m" "storageSize m = maxExternalMessageSize"
    and hash: "\<forall>x. length (hash x) = DIGEST_SIZE"
  defines "e \<equiv> 58 + length (concat rs)"
  shows "\<exists>m'. finishAddingRequests hash m = Some m' \<and> wf_msg m' \<and> msgSize m' = e \<and> length (msgBody m') = e \<and>
    sender m' = sender m \<and> rd_nat 0 2 (msgBody m') = Some MsgCode_PrePrepare \<and>
    take (length (concat rs)) (drop 58 (msgBody m')) = concat rs \<and>
    (\<exists>d. requestsDigest hash (msgBody m') e = Some d \<and>
       ppHeader (msgBody m') = Some \<lparr>pp_viewNum = v, pp_seqNum = s, pp_flags = flags OR 0x2, pp_digestOfRequests = d,
         pp_numberOfRequests = length rs, pp_endLocationOfLastRequest = e\<rparr>)"
proof -
  define b where "b = msgBody m"
  have h: "ppHeader b = Some \<lparr>pp_viewNum = v, pp_seqNum = s, pp_flags = flags, pp_digestOfRequests = zeroDigest,
       pp_numberOfRequests = length rs, pp_endLocationOfLastRequest = e\<rparr>" and len: "length b = 64000" and e: "e \<le> 64000"
    and body: "take (length (concat rs)) (drop 58 b) = concat rs" and type: "rd_nat 0 2 b = Some MsgCode_PrePrepare"
    using lay by (auto simp: batch_layout_def e_def b_def)
  have "0 < length (concat rs)" using rs is_request_length by (cases rs) fastforce+
  then have e58: "58 < e" by (simp add: e_def)
  have check: "checkRequests b = Some True"
    using checkLoop_concat [OF rs(2,1), of 58 b] len e body h e58 rs(2) by (simp add: checkRequests_def e_def Let_def)
  obtain b1 where b1: "wr 18 (le_bytes 2 (unat (flags OR 0x2))) b = Some b1" using wr_total len by fastforce
  define d where "d = hash (take (e - 52) (drop 52 b))"
  have d: "length d = 32" using hash by (simp add: d_def)
  obtain b2 where b2: "wr 20 d b1 = Some b2" using wr_total [of 20 d b1] d length_wr [OF b1] len by auto
  have len2: "length b1 = 64000" "length b2 = 64000" using length_wr [OF b1] length_wr [OF b2] len by auto
  have low: "rd p k b2 = rd p k b" if "p + k \<le> 18" for p k
    using that rd_wr_before [OF b1, of p k] rd_wr_before [OF b2, of p k] by simp
  have high: "rd p k b2 = rd p k b" if "52 \<le> p" for p k
    using that d rd_wr_after [OF b1, of p k] rd_wr_after [OF b2, of p k] by simp
  have fl: "rd 18 2 b2 = Some (le_bytes 2 (unat (flags OR 0x2)))"
    using rd_wr_same [OF b1] rd_wr_before [OF b2, of 18 2] by simp
  have "rd 52 (e - 52) b = Some (take (e - 52) (drop 52 b))" using e len e58 by (simp add: rd_def)
  then have dig: "requestsDigest hash b1 e = Some d" "requestsDigest hash b2 e = Some d"
    using rd_wr_after [OF b1, of 52] high [of 52] by (simp_all add: requestsDigest_def d_def)
  have hd2: "ppHeader b2 = Some \<lparr>pp_viewNum = v, pp_seqNum = s, pp_flags = flags OR 0x2, pp_digestOfRequests = d,
         pp_numberOfRequests = length rs, pp_endLocationOfLastRequest = e\<rparr>"
    using h low [of 2 8] low [of 10 8] high [of 52 2] high [of 54 4] rd_word16 [OF fl] rd_wr_same [OF b2] d
    by (auto simp: ppHeader_def rd_i64_def rd_nat_def Option.bind_eq_Some_conv)
  let ?m = "m\<lparr>msgBody := b2\<rparr>"
  have wf2: "wf_msg ?m" using m(1,3) len2 by (simp add: wf_msg_def)
  then obtain m3 where m3: "setMsgSize ?m e = Some m3" "take e (msgBody m3) = take e b2"
    using setMsgSize_total [of ?m e] e m(3) by auto
  have wf3: "wf_msg m3" "msgSize m3 = e" "sender m3 = sender m" "owner m3"
    using wf_setMsgSize [OF wf2 m3(1)] m(2) by auto
  obtain m4 where m4: "shrinkToFit m3 = Some m4" "msgBody m4 = take e b2" using wf3 m3(2) by (simp add: shrinkToFit_def)
  have fin: "finishAddingRequests hash m = Some m4"
    using h flags rs(2) e58 check b1 b2 dig m3(1) m4(1)
    by (simp add: finishAddingRequests_def b_def [symmetric] pp_isNull_def pp_isReady_def isZero_def zeroDigest_def)
  have cut: "rd p k (msgBody m4) = rd p k b2" if "p + k \<le> e" for p k
    using that e len2 m4(2) rd_take [of p k e b2] by simp
  have hd4: "ppHeader (msgBody m4) = ppHeader b2" using e58 by (simp add: ppHeader_def rd_i64_def rd_nat_def cut)
  have dig4: "requestsDigest hash (msgBody m4) e = Some d"
    using dig(2) e58 by (simp add: requestsDigest_def cut)
  have t4: "rd_nat 0 2 (msgBody m4) = Some MsgCode_PrePrepare" using type low [of 0 2] cut [of 0 2] e58 by (simp add: rd_nat_def)
  have "rd 58 (length (concat rs)) (msgBody m4) = rd 58 (length (concat rs)) b" using cut [of 58] high [of 58] by (simp add: e_def)
  then have c4: "take (length (concat rs)) (drop 58 (msgBody m4)) = concat rs"
    using body len e len2 m4(2) by (simp add: rd_def e_def)
  show ?thesis
    using fin wf_shrinkToFit [OF wf3(1) m4(1)] wf3 m4(2) len2 e hd4 hd2 dig4 t4 c4 by (intro exI [of _ m4]) simp
qed

lemma iterate_concat:
  assumes "list_all is_request rs" "i + length (concat rs) = e" "e \<le> length body" "length body < 2 ^ 32"
    "take (length (concat rs)) (drop i body) = concat rs" "ppHeader body = Some h" "pp_endLocationOfLastRequest h = e"
  shows "\<exists>ps. iterateRequests \<lparr>ri_msg = body, currLoc = i\<rparr> = Some ps \<and> list_all2 (\<lambda>p r. rd p (length r) body = Some r) ps rs"
  using assms(1-5)
proof (induction rs arbitrary: i)
  case Nil
  then show ?case using assms(6,7)
    by (subst iterateRequests.simps) (simp add: ri_getAndGoToNext_def ri_getCurrent_def ri_end_def)
next
  case (Cons r rs)
  have r: "is_request r" "17 \<le> length r" using Cons.prems(1) is_request_length by auto
  let ?n = "length (concat rs)" and ?i = "i + length r"
  have pre: "take (length r) (drop i body) = r"
    using arg_cong [OF Cons.prems(5), of "take (length r)"] by (simp add: min_def)
  then have "drop i body = r @ drop ?i body" by (metis append_take_drop_id drop_drop add.commute)
  then have sz: "compRequestMsgSize (drop i body) = Some (length r)"
    using r compRequestMsgSize_append [OF r(2)] by (simp add: is_request_def)
  have rest: "take ?n (drop ?i body) = concat rs"
    using arg_cong [OF Cons.prems(5), of "drop (length r)"] by (simp add: drop_take add.commute)
  have i: "u32 (int ?i) = ?i" "?i \<le> e" "i < e" using Cons.prems(2-4) r(2) by (auto simp: u32_def)
  obtain ps where ps: "iterateRequests \<lparr>ri_msg = body, currLoc = ?i\<rparr> = Some ps"
    "list_all2 (\<lambda>p r. rd p (length r) body = Some r) ps rs"
    using Cons.IH [of ?i] Cons.prems(1-4) rest by auto
  have "ri_getAndGoToNext \<lparr>ri_msg = body, currLoc = i\<rparr> = Some (Some i, \<lparr>ri_msg = body, currLoc = ?i\<rparr>)"
    using sz i assms(6,7) by (simp add: ri_getAndGoToNext_def ri_getCurrent_def ri_gotoNext_def ri_end_def Let_def)
  then have "iterateRequests \<lparr>ri_msg = body, currLoc = i\<rparr> = Some (i # ps)"
    using ps(1) by (subst iterateRequests.simps) simp
  moreover have "rd i (length r) body = Some r" using pre i(2) Cons.prems(3) by (simp add: rd_def)
  ultimately show ?case using ps(2) by simp
qed

text \<open>C23: a batch survives the wire. The primary starts a batch, adds requests that fit and finishes it;
  every other replica then accepts the message (the path with threshold only where \<open>c > 0\<close>), reads the
  view, the sequence number and the path, and the loop over the requests returns exactly the requests
  that were added, in order.\<close>

theorem preprepare_batch_roundtrip:
  assumes "wf_replicas_info info" "isIdOfPeerReplica info r" "is_i64 v" "is_i64 s" "s \<noteq> 0" "path \<noteq> NA"
    and "path = FAST_WITH_THRESHOLD \<longrightarrow> cVal info \<noteq> 0"
    and "rs \<noteq> []" "list_all is_request rs"
    and "sizeofPrePrepareMsgHeader + length (concat rs) \<le> maxExternalMessageSize"
    and "\<forall>x. length (hash x) = DIGEST_SIZE"
  shows "\<exists>m0 m1 m h it ps. newPrePrepareMsg r v s path False = Some m0 \<and> addRequests rs m0 = Some m1 \<and>
     finishAddingRequests hash m1 = Some m \<and> PrePrepareMsg_ToActualMsgType hash info m = Some (Some h) \<and>
     pp_viewNum h = v \<and> pp_seqNum h = s \<and> pp_firstPath h = Some path \<and>
     newRequestsIterator (msgBody m) = Some it \<and> iterateRequests it = Some ps \<and>
     list_all2 (\<lambda>p x. rd p (length x) (msgBody m) = Some x) ps rs"
proof -
  have r: "r < 2 ^ 16" using assms(1,2) by (auto simp: isIdOfPeerReplica_def wf_replicas_info_def)
  obtain m0 flags where m0: "computeFlagsForPrePrepareMsg False False path = Some flags"
    "newPrePrepareMsg r v s path False = Some m0" "batch_layout v s flags [] (msgBody m0)" "wf_msg m0"
    "storageSize m0 = maxExternalMessageSize" "sender m0 = r" "owner m0"
    using newPrePrepareMsg_layout [OF r assms(3,4)] by blast
  note fl = flags_of_path [OF assms(6) m0(1)]
  obtain m1 where m1: "addRequests rs m0 = Some m1" "batch_layout v s flags rs (msgBody m1)" "m1 = m0\<lparr>msgBody := msgBody m1\<rparr>"
    using addRequests_layout [OF m0(3) fl(1,2) _ assms(9) _ m0(5)] assms(10) by auto
  have meta: "storageSize m1 = maxExternalMessageSize" "sender m1 = r" "owner m1" "wf_msg m1"
    using m0(4-7) m1(2) arg_cong [OF m1(3), of storageSize] arg_cong [OF m1(3), of sender]
      arg_cong [OF m1(3), of owner] arg_cong [OF m1(3), of msgSize] by (auto simp: wf_msg_def batch_layout_def)
  let ?e = "58 + length (concat rs)"
  obtain m d where m: "finishAddingRequests hash m1 = Some m" "wf_msg m" "msgSize m = ?e" "length (msgBody m) = ?e"
    "sender m = r" "rd_nat 0 2 (msgBody m) = Some MsgCode_PrePrepare"
    "take (length (concat rs)) (drop 58 (msgBody m)) = concat rs" "requestsDigest hash (msgBody m) ?e = Some d"
    and h: "ppHeader (msgBody m) = Some \<lparr>pp_viewNum = v, pp_seqNum = s, pp_flags = flags OR 0x2, pp_digestOfRequests = d,
         pp_numberOfRequests = length rs, pp_endLocationOfLastRequest = ?e\<rparr>" (is "_ = Some ?h")
    using finish_layout [OF m1(2) fl(1,2) assms(9,8) meta(4,3,1) assms(11)] meta(2) by auto
  have n: "17 * length rs \<le> length (concat rs)" "0 < length rs" using requests_total [OF assms(9)] assms(8) by auto
  then have ne: "concat rs \<noteq> []" by (metis list.size(3) mult_is_0 le_zero_eq neq0_conv zero_neq_numeral)
  have check: "checkRequests (msgBody m) = Some True"
    using checkLoop_concat [OF assms(8,9), of 58 "msgBody m"] m(4,7) h assms(10) n ne by (simp add: checkRequests_def Let_def)
  have path: "pp_firstPath ?h = Some path" "pp_firstPathNum ?h < 3"
    using fl(6) assms(6) by (cases path; simp add: pp_firstPath_def pp_firstPathNum_def)+
  have "PrePrepareMsg_ToActualMsgType hash info m = Some (Some ?h)"
    using m h check path fl(3-5) assms(2,5,7) n
    by (auto simp: PrePrepareMsg_ToActualMsgType_def msgType_def Let_def pp_isNull_def pp_isReady_def
        isIdOfPeerReplica_def isIdOfReplica_def)
  moreover obtain ps where "iterateRequests \<lparr>ri_msg = msgBody m, currLoc = 58\<rparr> = Some ps"
    "list_all2 (\<lambda>p x. rd p (length x) (msgBody m) = Some x) ps rs"
    using iterate_concat [OF assms(9), of 58 ?e "msgBody m" ?h] m(4,7) h assms(10) by auto
  moreover have "newRequestsIterator (msgBody m) = Some \<lparr>ri_msg = msgBody m, currLoc = 58\<rparr>"
    using h fl(4) by (simp add: newRequestsIterator_def pp_isReady_def)
  ultimately show ?thesis using m0(2) m1(1) m(1) path(1) by auto
qed

definition sample_request :: "byte list" where
  "sample_request = le_bytes 2 700 @ le_bytes 2 9 @ [0] @ le_bytes 8 77 @ le_bytes 4 3 @ [1, 2, 3]"

definition sample_hash :: "byte list \<Rightarrow> Digest" where
  "sample_hash x = take 32 (x @ replicate 32 0)"

lemma sample_request_ok: "is_request sample_request"
  by (simp add: is_request_def sample_request_def compRequestMsgSize_def requestHeader_def rd_nat_def rd_def
      le_val_le_bytes u32_def)

lemma sample_request_length: "length sample_request = 20"
  by (simp add: sample_request_def)

lemma sample_hash_length: "length (sample_hash x) = 32"
  by (simp add: sample_hash_def)

theorem preprepare_batch_roundtrip_witness:
  "\<exists>m0 m1 m h it ps. newPrePrepareMsg 0 0 5 FAST_WITH_THRESHOLD False = Some m0 \<and>
     addRequests [sample_request, sample_request] m0 = Some m1 \<and> finishAddingRequests sample_hash m1 = Some m \<and>
     PrePrepareMsg_ToActualMsgType sample_hash sample_info m = Some (Some h) \<and>
     pp_viewNum h = 0 \<and> pp_seqNum h = 5 \<and> pp_firstPath h = Some FAST_WITH_THRESHOLD \<and>
     newRequestsIterator (msgBody m) = Some it \<and> iterateRequests it = Some ps \<and>
     list_all2 (\<lambda>p x. rd p (length x) (msgBody m) = Some x) ps [sample_request, sample_request]"
  by (rule preprepare_batch_roundtrip [OF sample_info_wf])
    (simp_all add: isIdOfPeerReplica_def is_i64_def sample_request_ok sample_request_length sample_hash_length)

definition hostile_batch :: "nat \<Rightarrow> nat \<Rightarrow> byte list \<Rightarrow> MessageBase" where
  "hostile_batch n e reqs =
     messageFromBody 3 (le_bytes 2 106 @ i64_bytes 0 @ i64_bytes 5 @ le_bytes 2 3 @ replicate 32 7 @ le_bytes 2 n @
       le_bytes 4 e @ reqs) (58 + length reqs) True"

definition wrapping_request :: "byte list" where
  "wrapping_request = le_bytes 2 700 @ le_bytes 2 9 @ [0] @ le_bytes 8 77 @ le_bytes 4 (2 ^ 32 - 16)"

lemma hostile_type: "msgType (hostile_batch n e reqs) = Some MsgCode_PrePrepare"
  by (simp add: hostile_batch_def messageFromBody_def msgType_def rd_nat_def rd_def le_val_le_bytes)

lemma hostile_header:
  assumes "n < 65536" "e < 65536"
  shows "ppHeader (msgBody (hostile_batch n e reqs)) = Some \<lparr>pp_viewNum = 0, pp_seqNum = 5, pp_flags = 3,
      pp_digestOfRequests = replicate 32 7, pp_numberOfRequests = n, pp_endLocationOfLastRequest = e\<rparr>"
  using assms by (simp add: hostile_batch_def messageFromBody_def ppHeader_def rd_i64_def rd_nat_def rd_def le_val_le_bytes
        i64_bytes_def i64_of_def)

lemma hostile_drop: "drop 58 (msgBody (hostile_batch n e reqs)) = reqs"
  by (simp add: hostile_batch_def messageFromBody_def i64_bytes_def)

lemma wrapping_check: "checkRequests (msgBody (hostile_batch 1 59 wrapping_request)) = Some True"
proof -
  have "compRequestMsgSize wrapping_request = Some 1"
    by (simp add: wrapping_request_def compRequestMsgSize_def requestHeader_def rd_nat_def rd_def le_val_le_bytes u32_def)
  then show ?thesis
    using hostile_header [of 1 59 wrapping_request]
    by (simp add: checkRequests_def Let_def hostile_drop u32_def)
qed

lemma wrapping_accepted:
  "PrePrepareMsg_ToActualMsgType (\<lambda>x. replicate 32 7) sample_info (hostile_batch 1 59 wrapping_request) =
     Some (ppHeader (msgBody (hostile_batch 1 59 wrapping_request)))"
proof -
  let ?m = "hostile_batch 1 59 wrapping_request"
  have "msgSize ?m = 75" "sender ?m = 3" "length (msgBody ?m) = 75"
    by (simp_all add: hostile_batch_def messageFromBody_def wrapping_request_def)
  then show ?thesis
    using hostile_type [of 1 59 wrapping_request] hostile_header [of 1 59 wrapping_request] wrapping_check
    by (simp add: PrePrepareMsg_ToActualMsgType_def pp_isNull_def pp_isReady_def pp_firstPathNum_def pp_firstPath_def
        Let_def isIdOfReplica_def requestsDigest_def rd_def)
qed

lemma short_batch_check: "checkRequests (msgBody (hostile_batch 2 80 (sample_request @ [0, 0]))) = None"
proof -
  let ?b = "msgBody (hostile_batch 2 80 (sample_request @ [0, 0]))"
  have "compRequestMsgSize (drop 58 ?b) = Some 20"
    using sample_request_ok sample_request_length by (simp add: hostile_drop compRequestMsgSize_append is_request_def)
  moreover have "drop 78 ?b = drop 20 (drop 58 ?b)" by simp
  then have "compRequestMsgSize (drop 78 ?b) = None"
    using compRequestMsgSize_total [of "drop 78 ?b"] sample_request_length by (simp only: hostile_drop) simp
  ultimately have "checkLoop ?b 80 58 (Suc (Suc 0)) = None" by (simp add: u32_def)
  then show ?thesis
    using hostile_header [of 2 80 "sample_request @ [0, 0]"] by (simp add: checkRequests_def Let_def numeral_2_eq_2)
qed

theorem accepted_batch_iterates_witness:
  "\<exists>it ps. newRequestsIterator (msgBody (hostile_batch 1 59 wrapping_request)) = Some it \<and>
     iterateRequests it = Some ps \<and> length ps = 1 \<and> hd ps = 58"
proof -
  obtain h where h: "ppHeader (msgBody (hostile_batch 1 59 wrapping_request)) = Some h" "pp_numberOfRequests h = 1"
    using hostile_header [of 1 59 wrapping_request] by simp
  then show ?thesis using accepted_batch_iterates [OF wrapping_accepted [unfolded h(1)]] by auto
qed


end
