(* ===== verification/Seq_Num_Info.thy ===== *)
theory Seq_Num_Info
  imports Partial_Proofs Pre_Prepare_Msg Active_Window
begin

text \<open>
  \<^verbatim>\<open>SeqNumInfo.cpp\<close>: everything a replica keeps for one sequence number of the main window. It holds the
  batch, a collector of signatures for each phase of the slow path, the shares of the fast paths and
  the shares of the execution result. \<open>now\<close> is the monotonic clock; an operation that may start a job of
  a collector returns it.
\<close>

section \<open>Data\<close>

record 'acc SeqNumInfo =
  prePrepareMsg :: "PrePrepareHeader option"
  prepareSigCollector :: Collector
  commitMsgsCollector :: Collector
  partialProofs :: "'acc PartialProofsSet"
  partialExecProofs :: "'acc PartialExecProofsSet"
  sni_primary :: bool
  forcedCompleted :: bool
  slowPathHasStarted :: bool
  firstSeenFromPrimary :: Time
  timeOfLastInfoRequest :: Time
  commitUpdateTime :: Time

text \<open>The constructor followed by \<open>init\<close>.\<close>

definition newSeqNumInfo :: "ReplicasInfo \<Rightarrow> 'acc SeqNumInfo" where
  "newSeqNumInfo info =
     \<lparr>prePrepareMsg = None, prepareSigCollector = newCollector, commitMsgsCollector = newCollector,
      partialProofs = newPartialProofsSet info, partialExecProofs = newPartialExecProofsSet info,
      sni_primary = False, forcedCompleted = False, slowPathHasStarted = False,
      firstSeenFromPrimary = MinTime, timeOfLastInfoRequest = MinTime, commitUpdateTime = MinTime\<rparr>"

definition numberOfRequiredSignatures :: "ReplicasInfo \<Rightarrow> nat" where
  "numberOfRequiredSignatures info = u16 (fVal info * 2 + cVal info + 1)"

section \<open>Operations\<close>

definition sni_resetAndFree :: "Time \<Rightarrow> 'acc SeqNumInfo \<Rightarrow> 'acc SeqNumInfo" where
  "sni_resetAndFree now s =
     s\<lparr>prePrepareMsg := None, prepareSigCollector := col_resetAndFree (prepareSigCollector s),
       commitMsgsCollector := col_resetAndFree (commitMsgsCollector s),
       partialProofs := pps_resetAndFree (partialProofs s),
       partialExecProofs := peps_resetAndFree (partialExecProofs s), sni_primary := False,
       forcedCompleted := False, slowPathHasStarted := False, firstSeenFromPrimary := MinTime,
       timeOfLastInfoRequest := MinTime, commitUpdateTime := now\<rparr>"

definition sni_getAndReset ::
  "Time \<Rightarrow> 'acc SeqNumInfo \<Rightarrow> PrePrepareHeader option \<times> SignedShare option \<times> 'acc SeqNumInfo" where
  "sni_getAndReset now s =
     (let outPrePrepare = prePrepareMsg s;
          s = s\<lparr>prePrepareMsg := None\<rparr>;
          (outcombinedValidSignatureMsg, c) = col_getAndReset (prepareSigCollector s);
          s = s\<lparr>prepareSigCollector := c\<rparr>
      in (outPrePrepare, outcombinedValidSignatureMsg, sni_resetAndFree now s))"

text \<open>The digest both phases sign for a batch.\<close>

definition prepareDigest :: "PrePrepareHeader \<Rightarrow> Digest" where
  "prepareDigest m = calcCombination (pp_digestOfRequests m) (pp_viewNum m) (pp_seqNum m)"

definition addPrePrepare ::
  "(RepInfos \<Rightarrow> ReplicaId list) \<Rightarrow> ReplicasInfo \<Rightarrow> Time \<Rightarrow> PrePrepareHeader \<Rightarrow> 'acc SeqNumInfo
     \<Rightarrow> (bool \<times> 'acc SeqNumInfo \<times> Job option) option" where
  "addPrePrepare iter info now m s =
     (if prePrepareMsg s \<noteq> None then Some (False, s, None)
      else do {
        Assert (\<not> sni_primary s);
        Assert (\<not> forcedCompleted s);
        Assert (\<not> hasPartialMsgFromReplica (prepareSigCollector s) (ri_myId info));
        (c, job) \<leftarrow> setExpected iter (numberOfRequiredSignatures info) (pp_seqNum m) (pp_viewNum m) (prepareDigest m)
          (prepareSigCollector s);
        Some (True, s\<lparr>prePrepareMsg := Some m, prepareSigCollector := c,
                 firstSeenFromPrimary := (if firstSeenFromPrimary s = MinTime then now else firstSeenFromPrimary s)\<rparr>, job)
      })"

definition addSelfPrePrepare ::
  "(RepInfos \<Rightarrow> ReplicaId list) \<Rightarrow> ReplicasInfo \<Rightarrow> Time \<Rightarrow> PrePrepareHeader \<Rightarrow> 'acc SeqNumInfo
     \<Rightarrow> (bool \<times> 'acc SeqNumInfo \<times> Job option) option" where
  "addSelfPrePrepare iter info now m s = do {
     Assert (\<not> sni_primary s);
     Assert (ri_myId info = primaryOfView info (pp_viewNum m));
     Assert (\<not> forcedCompleted s);
     Assert (prePrepareMsg s = None);
     (c, job) \<leftarrow> setExpected iter (numberOfRequiredSignatures info) (pp_seqNum m) (pp_viewNum m) (prepareDigest m)
       (prepareSigCollector s);
     Some (True, s\<lparr>prePrepareMsg := Some m, sni_primary := True, prepareSigCollector := c,
              firstSeenFromPrimary := (if firstSeenFromPrimary s = MinTime then now else firstSeenFromPrimary s)\<rparr>, job)
   }"

definition addPreparePartial ::
  "(RepInfos \<Rightarrow> ReplicaId list) \<Rightarrow> ReplicasInfo \<Rightarrow> SignedShare \<Rightarrow> 'acc SeqNumInfo
     \<Rightarrow> (bool \<times> 'acc SeqNumInfo \<times> Job option) option" where
  "addPreparePartial iter info m s = do {
     Assert (ri_myId info \<noteq> ss_sender m);
     Assert (\<not> forcedCompleted s);
     (b, c, job) \<leftarrow> addMsgWithPartialSignature iter (numberOfRequiredSignatures info) m (ss_sender m) (prepareSigCollector s);
     Some (b, s\<lparr>prepareSigCollector := c\<rparr>, job)
   }"

definition addSelfPreparePartial ::
  "(RepInfos \<Rightarrow> ReplicaId list) \<Rightarrow> ReplicasInfo \<Rightarrow> SignedShare \<Rightarrow> 'acc SeqNumInfo
     \<Rightarrow> (bool \<times> 'acc SeqNumInfo \<times> Job option) option" where
  "addSelfPreparePartial iter info m s = do {
     Assert (ri_myId info = ss_sender m);
     Assert (\<not> forcedCompleted s);
     (b, c, job) \<leftarrow> addMsgWithPartialSignature iter (numberOfRequiredSignatures info) m (ss_sender m) (prepareSigCollector s);
     Assert b;
     Some (True, s\<lparr>prepareSigCollector := c\<rparr>, job)
   }"

definition addPrepareFull ::
  "(RepInfos \<Rightarrow> ReplicaId list) \<Rightarrow> ReplicasInfo \<Rightarrow> SignedShare \<Rightarrow> 'acc SeqNumInfo
     \<Rightarrow> (bool \<times> 'acc SeqNumInfo \<times> Job option) option" where
  "addPrepareFull iter info m s = do {
     Assert (ri_myId info \<noteq> ss_sender m);
     Assert (\<not> forcedCompleted s);
     (b, c, job) \<leftarrow> addMsgWithCombinedSignature iter (numberOfRequiredSignatures info) m (prepareSigCollector s);
     Some (b, s\<lparr>prepareSigCollector := c\<rparr>, job)
   }"

definition addCommitPartial ::
  "(RepInfos \<Rightarrow> ReplicaId list) \<Rightarrow> ReplicasInfo \<Rightarrow> Time \<Rightarrow> SignedShare \<Rightarrow> 'acc SeqNumInfo
     \<Rightarrow> (bool \<times> 'acc SeqNumInfo \<times> Job option) option" where
  "addCommitPartial iter info now m s = do {
     Assert (ri_myId info \<noteq> ss_sender m);
     Assert (\<not> forcedCompleted s);
     (b, c, job) \<leftarrow> addMsgWithPartialSignature iter (numberOfRequiredSignatures info) m (ss_sender m) (commitMsgsCollector s);
     Some (b, s\<lparr>commitMsgsCollector := c, commitUpdateTime := (if b then now else commitUpdateTime s)\<rparr>, job)
   }"

text \<open>Two calls of the collector; the job of the second one, or else of the first one, is out.\<close>

definition addSelfCommitPartialMsgAndDigest ::
  "(RepInfos \<Rightarrow> ReplicaId list) \<Rightarrow> ReplicasInfo \<Rightarrow> Time \<Rightarrow> SignedShare \<Rightarrow> Digest \<Rightarrow> 'acc SeqNumInfo
     \<Rightarrow> (bool \<times> 'acc SeqNumInfo \<times> Job option) option" where
  "addSelfCommitPartialMsgAndDigest iter info now m commitDigest s = do {
     Assert (ri_myId info = ss_sender m);
     Assert (\<not> forcedCompleted s);
     let tmpDigest = calcCombination commitDigest (ss_viewNumber m) (ss_seqNumber m);
     (c, job1) \<leftarrow> setExpected iter (numberOfRequiredSignatures info) (ss_seqNumber m) (ss_viewNumber m) tmpDigest
       (commitMsgsCollector s);
     (b, c, job2) \<leftarrow> addMsgWithPartialSignature iter (numberOfRequiredSignatures info) m (ss_sender m) c;
     Assert b;
     Some (True, s\<lparr>commitMsgsCollector := c, commitUpdateTime := now\<rparr>, later job1 job2)
   }"

definition addCommitFull ::
  "(RepInfos \<Rightarrow> ReplicaId list) \<Rightarrow> ReplicasInfo \<Rightarrow> Time \<Rightarrow> SignedShare \<Rightarrow> 'acc SeqNumInfo
     \<Rightarrow> (bool \<times> 'acc SeqNumInfo \<times> Job option) option" where
  "addCommitFull iter info now m s = do {
     Assert (ri_myId info \<noteq> ss_sender m);
     Assert (\<not> forcedCompleted s);
     (b, c, job) \<leftarrow> addMsgWithCombinedSignature iter (numberOfRequiredSignatures info) m (commitMsgsCollector s);
     Some (b, s\<lparr>commitMsgsCollector := c, commitUpdateTime := (if b then now else commitUpdateTime s)\<rparr>, job)
   }"

definition forceComplete :: "Time \<Rightarrow> 'acc SeqNumInfo \<Rightarrow> 'acc SeqNumInfo option" where
  "forceComplete now s = do {
     Assert (\<not> forcedCompleted s);
     Assert (prePrepareMsg s \<noteq> None);
     Assert (hasFullProof (partialProofs s));
     Some (s\<lparr>forcedCompleted := True, commitUpdateTime := now\<rparr>)
   }"

definition getSelfPrePrepareMsg :: "'acc SeqNumInfo \<Rightarrow> PrePrepareHeader option" where
  "getSelfPrePrepareMsg s = (if sni_primary s then prePrepareMsg s else None)"

definition getSelfPreparePartialMsg :: "ReplicasInfo \<Rightarrow> 'acc SeqNumInfo \<Rightarrow> SignedShare option" where
  "getSelfPreparePartialMsg info s = getPartialMsgFromReplica (prepareSigCollector s) (ri_myId info)"

definition getValidPrepareFullMsg :: "'acc SeqNumInfo \<Rightarrow> SignedShare option" where
  "getValidPrepareFullMsg s = combinedValidSignatureMsg (prepareSigCollector s)"

definition getSelfCommitPartialMsg :: "ReplicasInfo \<Rightarrow> 'acc SeqNumInfo \<Rightarrow> SignedShare option" where
  "getSelfCommitPartialMsg info s = getPartialMsgFromReplica (commitMsgsCollector s) (ri_myId info)"

definition getValidCommitFullMsg :: "'acc SeqNumInfo \<Rightarrow> SignedShare option" where
  "getValidCommitFullMsg s = combinedValidSignatureMsg (commitMsgsCollector s)"

definition isPrepared :: "'acc SeqNumInfo \<Rightarrow> bool" where
  "isPrepared s \<longleftrightarrow> forcedCompleted s \<or> (prePrepareMsg s \<noteq> None \<and> col_isComplete (prepareSigCollector s))"

definition isCommitted :: "'acc SeqNumInfo \<Rightarrow> bool" where
  "isCommitted s \<longleftrightarrow> forcedCompleted s \<or> col_isComplete (commitMsgsCollector s)"

definition preparedOrHasPreparePartialFromReplica :: "'acc SeqNumInfo \<Rightarrow> ReplicaId \<Rightarrow> bool" where
  "preparedOrHasPreparePartialFromReplica s r \<longleftrightarrow> isPrepared s \<or> hasPartialMsgFromReplica (prepareSigCollector s) r"

definition committedOrHasCommitPartialFromReplica :: "'acc SeqNumInfo \<Rightarrow> ReplicaId \<Rightarrow> bool" where
  "committedOrHasCommitPartialFromReplica s r \<longleftrightarrow> isCommitted s \<or> hasPartialMsgFromReplica (commitMsgsCollector s) r"

definition startSlowPath :: "'acc SeqNumInfo \<Rightarrow> 'acc SeqNumInfo" where
  "startSlowPath s = s\<lparr>slowPathHasStarted := True\<rparr>"

definition setTimeOfLastInfoRequest :: "Time \<Rightarrow> 'acc SeqNumInfo \<Rightarrow> 'acc SeqNumInfo" where
  "setTimeOfLastInfoRequest t s = s\<lparr>timeOfLastInfoRequest := t\<rparr>"

text \<open>The results of the background jobs, handed to the collector they belong to.\<close>

definition onPrepareInternalMsg ::
  "(RepInfos \<Rightarrow> ReplicaId list) \<Rightarrow> ReplicasInfo \<Rightarrow> SigInternalMsg \<Rightarrow> 'acc SeqNumInfo
     \<Rightarrow> ('acc SeqNumInfo \<times> Job option) option" where
  "onPrepareInternalMsg iter info im s = do {
     (c, job) \<leftarrow> onSigInternalMsg iter (numberOfRequiredSignatures info) (ri_myId info) im (prepareSigCollector s);
     Some (s\<lparr>prepareSigCollector := c\<rparr>, job)
   }"

definition onCommitInternalMsg ::
  "(RepInfos \<Rightarrow> ReplicaId list) \<Rightarrow> ReplicasInfo \<Rightarrow> SigInternalMsg \<Rightarrow> 'acc SeqNumInfo
     \<Rightarrow> ('acc SeqNumInfo \<times> Job option) option" where
  "onCommitInternalMsg iter info im s = do {
     (c, job) \<leftarrow> onSigInternalMsg iter (numberOfRequiredSignatures info) (ri_myId info) im (commitMsgsCollector s);
     Some (s\<lparr>commitMsgsCollector := c\<rparr>, job)
   }"

section \<open>Runs of one sequence number\<close>

text \<open>The operations in any order, with the jobs of the two collectors whose results are not back yet.
  The shares of the fast paths arrive through the reference \<open>partialProofs()\<close>.\<close>

inductive sni_reachable ::
  "ReplicasInfo \<Rightarrow> (RepInfos \<Rightarrow> ReplicaId list) \<Rightarrow> 'acc ThresholdVerifier \<Rightarrow> 'acc CommitVerifiers
     \<Rightarrow> 'acc SeqNumInfo \<Rightarrow> Job option \<Rightarrow> Job option \<Rightarrow> bool"
  for info iter tv pv where
  start: "sni_reachable info iter tv pv (newSeqNumInfo info) None None"
| prePrepare: "sni_reachable info iter tv pv s jp jc \<Longrightarrow> addPrePrepare iter info now m s = Some (b, s', j) \<Longrightarrow>
     sni_reachable info iter tv pv s' (later jp j) jc"
| selfPrePrepare: "sni_reachable info iter tv pv s jp jc \<Longrightarrow> addSelfPrePrepare iter info now m s = Some (b, s', j) \<Longrightarrow>
     sni_reachable info iter tv pv s' (later jp j) jc"
| preparePartial: "sni_reachable info iter tv pv s jp jc \<Longrightarrow> isIdOfReplica info (ss_sender x) \<Longrightarrow>
     addPreparePartial iter info x s = Some (b, s', j) \<or> addSelfPreparePartial iter info x s = Some (b, s', j) \<Longrightarrow>
     sni_reachable info iter tv pv s' (later jp j) jc"
| prepareFull: "sni_reachable info iter tv pv s jp jc \<Longrightarrow> addPrepareFull iter info x s = Some (b, s', j) \<Longrightarrow>
     sni_reachable info iter tv pv s' (later jp j) jc"
| commitPartial: "sni_reachable info iter tv pv s jp jc \<Longrightarrow> isIdOfReplica info (ss_sender x) \<Longrightarrow>
     addCommitPartial iter info now x s = Some (b, s', j) \<or>
       addSelfCommitPartialMsgAndDigest iter info now x d s = Some (b, s', j) \<Longrightarrow>
     sni_reachable info iter tv pv s' jp (later jc j)"
| commitFull: "sni_reachable info iter tv pv s jp jc \<Longrightarrow> addCommitFull iter info now x s = Some (b, s', j) \<Longrightarrow>
     sni_reachable info iter tv pv s' jp (later jc j)"
| prepareDone: "sni_reachable info iter tv pv s (Some job) jc \<Longrightarrow> execute tv job = Some im \<Longrightarrow>
     onPrepareInternalMsg iter info im s = Some (s', j) \<Longrightarrow> sni_reachable info iter tv pv s' j jc"
| commitDone: "sni_reachable info iter tv pv s jp (Some job) \<Longrightarrow> execute tv job = Some im \<Longrightarrow>
     onCommitInternalMsg iter info im s = Some (s', j) \<Longrightarrow> sni_reachable info iter tv pv s' jp j"
| fastPeer: "sni_reachable info iter tv pv s jp jc \<Longrightarrow> isIdOfPeerReplica info (pcp_sender y) \<Longrightarrow>
     pps_addMsg info pv y (partialProofs s) = Some (b, p, pj) \<Longrightarrow>
     sni_reachable info iter tv pv (s\<lparr>partialProofs := p\<rparr>) jp jc"
| fastOwn: "sni_reachable info iter tv pv s jp jc \<Longrightarrow>
     addSelfMsgAndPPDigest info pv y d (partialProofs s) = Some (p, pj) \<Longrightarrow>
     sni_reachable info iter tv pv (s\<lparr>partialProofs := p\<rparr>) jp jc"
| fastFull: "sni_reachable info iter tv pv s jp jc \<Longrightarrow>
     sni_reachable info iter tv pv (s\<lparr>partialProofs := snd (pps_addFullMsg pv f (partialProofs s))\<rparr>) jp jc"
| force: "sni_reachable info iter tv pv s jp jc \<Longrightarrow> forceComplete now s = Some s' \<Longrightarrow>
     sni_reachable info iter tv pv s' jp jc"
| slow: "sni_reachable info iter tv pv s jp jc \<Longrightarrow> sni_reachable info iter tv pv (startSlowPath s) jp jc"
| requestTime: "sni_reachable info iter tv pv s jp jc \<Longrightarrow>
     sni_reachable info iter tv pv (setTimeOfLastInfoRequest now s) jp jc"
| reset: "sni_reachable info iter tv pv s jp jc \<Longrightarrow> sni_reachable info iter tv pv (sni_resetAndFree now s) None None"

section \<open>The invariant\<close>

definition expectation :: "Collector \<Rightarrow> SeqNum \<times> ViewNum \<times> Digest" where
  "expectation c = (expectedSeqNumber c, expectedView c, expectedDigest c)"

definition sni_inv ::
  "ReplicasInfo \<Rightarrow> 'acc ThresholdVerifier \<Rightarrow> 'acc CommitVerifiers \<Rightarrow> 'acc SeqNumInfo \<Rightarrow> Job option \<Rightarrow> Job option \<Rightarrow> bool" where
  "sni_inv info tv pv s jp jc \<longleftrightarrow>
     collector_inv tv (numberOfRequiredSignatures info) (prepareSigCollector s, jp) \<and>
     collector_inv tv (numberOfRequiredSignatures info) (commitMsgsCollector s, jc) \<and>
     pps_inv info pv (partialProofs s) \<and>
     (case prePrepareMsg s of
        None \<Rightarrow> expectedSeqNumber (prepareSigCollector s) = 0 \<and> \<not> sni_primary s \<and> \<not> forcedCompleted s
      | Some m \<Rightarrow> expectation (prepareSigCollector s) = (pp_seqNum m, pp_viewNum m, prepareDigest m)) \<and>
     (forcedCompleted s \<longrightarrow> fullCommitProof (partialProofs s) \<noteq> None)"

lemma required_pos: "wf_replicas_info info \<Longrightarrow> 0 < numberOfRequiredSignatures info"
  by (auto simp: numberOfRequiredSignatures_def wf_replicas_info_def u16_id)

lemma trySend_expectation:
  assumes "trySendToBkThread iter req c = Some (c', j')"
  shows "expectation c' = expectation c"
proof -
  define d where "d = (if numOfRequiredSigs c = 0 then c\<lparr>numOfRequiredSigs := req\<rparr> else c)"
  have "c' = d \<or> c' = d\<lparr>processingInBackground := True\<rparr>"
    using assms unfolding trySendToBkThread_def Let_def d_def [symmetric]
    by (auto simp: Option.bind_eq_Some_conv split: if_splits option.splits)
  then show ?thesis by (auto simp: d_def expectation_def)
qed

lemma markAllInvalid_expectation: "markAllInvalid rs c = Some c' \<Longrightarrow> expectation c' = expectation c"
  by (induction rs arbitrary: c) (fastforce simp: markInvalid_def expectation_def Option.bind_eq_Some_conv)+

lemma partial_expectation:
  "addMsgWithPartialSignature iter req m r c = Some (b, c', j) \<Longrightarrow> expectation c' = expectation c"
  by (auto simp: addMsgWithPartialSignature_def Option.bind_eq_Some_conv expectation_def split: if_splits
      dest!: trySend_expectation)

lemma combined_expectation:
  "addMsgWithCombinedSignature iter req m c = Some (b, c', j) \<Longrightarrow> expectation c' = expectation c"
  by (auto simp: addMsgWithCombinedSignature_def Option.bind_eq_Some_conv expectation_def split: if_splits
      dest!: trySend_expectation)

lemma internal_expectation: "onSigInternalMsg iter req me im c = Some (c', j) \<Longrightarrow> expectation c' = expectation c"
proof (cases im)
  case (CombinedSigFailed sn v bad)
  then show "onSigInternalMsg iter req me im c = Some (c', j) \<Longrightarrow> ?thesis"
    by (auto simp: onSigsFailed_def Option.bind_eq_Some_conv expectation_def
        dest!: trySend_expectation markAllInvalid_expectation)
qed (auto simp: onSigsSucceeded_def onCombinedSigVerification_def expectation_def Let_def split: if_splits
    dest!: trySend_expectation)

lemma expected_expectation:
  "setExpected iter req sn v d c = Some (c', j) \<Longrightarrow> expectation c' = (sn, v, d)"
  by (auto simp: setExpected_def expectation_def dest!: trySend_expectation)

lemma replica_small: "wf_replicas_info info \<Longrightarrow> isIdOfReplica info r \<Longrightarrow> r < 32768"
  by (auto simp: wf_replicas_info_def isIdOfReplica_def)

lemma newSeqNumInfo_inv:
  assumes "wf_replicas_info info"
  shows "sni_inv info tv pv (newSeqNumInfo info) None None"
  using newCollector_ok [OF required_pos [OF assms]] newPartialProofsSet_ok [of info pv]
  by (simp add: sni_inv_def newSeqNumInfo_def) (simp add: newCollector_def)

lemma reset_inv:
  assumes "sni_inv info tv pv s jp jc"
  shows "sni_inv info tv pv (sni_resetAndFree now s) None None"
proof -
  have "expectedSeqNumber (col_resetAndFree c) = 0" for c
    by (simp add: col_resetAndFree_def resetContent_def alreadyEmpty_def Let_def)
  then show ?thesis using assms col_reset_ok pps_reset_ok
    by (auto simp: sni_inv_def sni_resetAndFree_def pps_resetAndFree_def)
qed

text \<open>Changes of one collector that keep its invariant and what it expects.\<close>

lemma prepare_update:
  assumes "sni_inv info tv pv s jp jc" "collector_inv tv (numberOfRequiredSignatures info) (c, j)"
    "expectation c = expectation (prepareSigCollector s)"
  shows "sni_inv info tv pv (s\<lparr>prepareSigCollector := c\<rparr>) j jc"
  using assms by (auto simp: sni_inv_def expectation_def split: option.splits)

lemma commit_update:
  assumes "sni_inv info tv pv s jp jc" "collector_inv tv (numberOfRequiredSignatures info) (c, j)"
  shows "sni_inv info tv pv (s\<lparr>commitMsgsCollector := c, commitUpdateTime := t\<rparr>) jp j"
  using assms by (auto simp: sni_inv_def split: option.splits)

lemma proofs_update:
  assumes "sni_inv info tv pv s jp jc" "pps_inv info pv p"
    "fullCommitProof (partialProofs s) \<noteq> None \<longrightarrow> fullCommitProof p \<noteq> None"
  shows "sni_inv info tv pv (s\<lparr>partialProofs := p\<rparr>) jp jc"
  using assms by (auto simp: sni_inv_def split: option.splits)

lemma sni_inv_parts:
  assumes "sni_inv info tv pv s jp jc"
  shows "collector_inv tv (numberOfRequiredSignatures info) (prepareSigCollector s, jp)"
    "collector_inv tv (numberOfRequiredSignatures info) (commitMsgsCollector s, jc)"
    "pps_inv info pv (partialProofs s)"
  using assms by (simp_all add: sni_inv_def)

lemma set_prePrepare:
  assumes iter: "iter_ok iter" and wf: "wf_replicas_info info" and inv: "sni_inv info tv pv s jp jc"
    and ex: "setExpected iter (numberOfRequiredSignatures info) (pp_seqNum m) (pp_viewNum m) (prepareDigest m)
      (prepareSigCollector s) = Some (c, j)"
    and none: "prePrepareMsg s = None"
    and s': "prePrepareMsg s' = Some m" "prepareSigCollector s' = c" "commitMsgsCollector s' = commitMsgsCollector s"
      "partialProofs s' = partialProofs s" "forcedCompleted s' = forcedCompleted s"
  shows "sni_inv info tv pv s' (later jp j) jc"
proof -
  have "collector_inv tv (numberOfRequiredSignatures info) (c, later jp j)"
    using collector_step_inv [OF iter required_pos [OF wf] collector_step.expect [OF ex, where tv = tv and myId = 0 and j = jp]] inv
    by (simp add: sni_inv_def)
  then show ?thesis using inv expected_expectation [OF ex] none s' by (simp add: sni_inv_def)
qed

lemma partial_inv:
  assumes iter: "iter_ok iter" and wf: "wf_replicas_info info"
    and inv: "collector_inv tv (numberOfRequiredSignatures info) (c, j)" and r: "isIdOfReplica info r"
    and add: "addMsgWithPartialSignature iter (numberOfRequiredSignatures info) m r c = Some (b, c', j')"
  shows "collector_inv tv (numberOfRequiredSignatures info) (c', later j j')"
  using collector_step_inv [OF iter required_pos [OF wf] collector_step.partial [OF replica_small [OF wf r] add, where tv = tv and myId = 0 and j = j]] inv
  by simp

lemma combined_inv:
  assumes iter: "iter_ok iter" and wf: "wf_replicas_info info"
    and inv: "collector_inv tv (numberOfRequiredSignatures info) (c, j)"
    and add: "addMsgWithCombinedSignature iter (numberOfRequiredSignatures info) m c = Some (b, c', j')"
  shows "collector_inv tv (numberOfRequiredSignatures info) (c', later j j')"
  using collector_step_inv [OF iter required_pos [OF wf] collector_step.combined [OF add, where tv = tv and myId = 0 and j = j]] inv by simp

lemma later_assoc: "later (later a b) c = later a (later b c)"
  by (cases b; cases c; simp add: later_def)

lemma selfCommit_inv:
  assumes iter: "iter_ok iter" and wf: "wf_replicas_info info" and inv: "sni_inv info tv pv s jp jc"
    and r: "isIdOfReplica info (ss_sender x)"
    and add: "addSelfCommitPartialMsgAndDigest iter info now x d s = Some (b, s', j)"
  shows "sni_inv info tv pv s' jp (later jc j)"
proof -
  obtain c1 j1 c2 j2 where c: "setExpected iter (numberOfRequiredSignatures info) (ss_seqNumber x) (ss_viewNumber x)
      (calcCombination d (ss_viewNumber x) (ss_seqNumber x)) (commitMsgsCollector s) = Some (c1, j1)"
    "addMsgWithPartialSignature iter (numberOfRequiredSignatures info) x (ss_sender x) c1 = Some (True, c2, j2)"
    "s' = s\<lparr>commitMsgsCollector := c2, commitUpdateTime := now\<rparr>" "j = later j1 j2"
    using add by (auto simp: addSelfCommitPartialMsgAndDigest_def Option.bind_eq_Some_conv Let_def)
  have "collector_inv tv (numberOfRequiredSignatures info) (c1, later jc j1)"
    using collector_step_inv [OF iter required_pos [OF wf] collector_step.expect [OF c(1), where tv = tv and myId = 0 and j = jc]] inv
    by (simp add: sni_inv_def)
  from commit_update [OF inv partial_inv [OF iter wf this r c(2)], of now] show ?thesis
    using c(3,4) by (simp add: later_assoc)
qed

lemma full_proof_stays:
  "pps_addMsg info pv y p = Some (b, p', pj) \<Longrightarrow> fullCommitProof p \<noteq> None \<Longrightarrow> fullCommitProof p' \<noteq> None"
  "addSelfMsgAndPPDigest info pv y d p = Some (p', pj') \<Longrightarrow> fullCommitProof p = None"
  "fullCommitProof p \<noteq> None \<Longrightarrow> fullCommitProof (snd (pps_addFullMsg pv f p)) \<noteq> None"
  by (auto simp: pps_addMsg_def addSelfMsgAndPPDigest_def pps_addFullMsg_def Let_def split: if_splits)

lemma sni_reachable_inv:
  assumes "sni_reachable info iter tv pv s jp jc" "iter_ok iter" "wf_replicas_info info"
  shows "sni_inv info tv pv s jp jc"
  using assms(1)
proof induction
  case start
  then show ?case by (rule newSeqNumInfo_inv [OF assms(3)])
next
  case (prePrepare s jp jc now m b s' j)
  show ?case
  proof (cases "prePrepareMsg s")
    case None
    then obtain c where "setExpected iter (numberOfRequiredSignatures info) (pp_seqNum m) (pp_viewNum m) (prepareDigest m)
        (prepareSigCollector s) = Some (c, j)"
      "s' = s\<lparr>prePrepareMsg := Some m, prepareSigCollector := c\<rparr> \<or>
       s' = s\<lparr>prePrepareMsg := Some m, prepareSigCollector := c, firstSeenFromPrimary := now\<rparr>"
      using prePrepare.hyps(2) by (auto simp: addPrePrepare_def Option.bind_eq_Some_conv Let_def split: if_splits)
    then show ?thesis using set_prePrepare [OF assms(2,3) prePrepare.IH _ None] by auto
  next
    case (Some x)
    then show ?thesis using prePrepare by (simp add: addPrePrepare_def later_def)
  qed
next
  case (selfPrePrepare s jp jc now m b s' j)
  then show ?case using set_prePrepare [OF assms(2,3) selfPrePrepare.IH]
    by (auto simp: addSelfPrePrepare_def Option.bind_eq_Some_conv)
next
  case (preparePartial s jp jc x b s' j)
  then obtain b' c where c: "addMsgWithPartialSignature iter (numberOfRequiredSignatures info) x (ss_sender x)
      (prepareSigCollector s) = Some (b', c, j)" "s' = s\<lparr>prepareSigCollector := c\<rparr>"
    by (auto simp: addPreparePartial_def addSelfPreparePartial_def Option.bind_eq_Some_conv)
  then show ?case
    using prepare_update [OF preparePartial.IH partial_inv [OF assms(2,3) sni_inv_parts(1) [OF preparePartial.IH]
      preparePartial.hyps(2) c(1)] partial_expectation [OF c(1)]] by simp
next
  case (prepareFull s jp jc x b s' j)
  then obtain b' c where c: "addMsgWithCombinedSignature iter (numberOfRequiredSignatures info) x
      (prepareSigCollector s) = Some (b', c, j)" "s' = s\<lparr>prepareSigCollector := c\<rparr>"
    by (auto simp: addPrepareFull_def Option.bind_eq_Some_conv)
  then show ?case
    using prepare_update [OF prepareFull.IH combined_inv [OF assms(2,3) sni_inv_parts(1) [OF prepareFull.IH] c(1)]
      combined_expectation [OF c(1)]] by simp
next
  case (commitPartial s jp jc x now b s' j d)
  show ?case
  proof (cases "addCommitPartial iter info now x s = Some (b, s', j)")
    case True
    then obtain c t where "addMsgWithPartialSignature iter (numberOfRequiredSignatures info) x (ss_sender x)
        (commitMsgsCollector s) = Some (b, c, j)" "s' = s\<lparr>commitMsgsCollector := c, commitUpdateTime := t\<rparr>"
      by (auto simp: addCommitPartial_def Option.bind_eq_Some_conv)
    then show ?thesis
      using commit_update [OF commitPartial.IH partial_inv [OF assms(2,3) sni_inv_parts(2) [OF commitPartial.IH]
        commitPartial.hyps(2)]] by simp
  next
    case False
    then show ?thesis using commitPartial selfCommit_inv [OF assms(2,3) commitPartial.IH commitPartial.hyps(2)] by blast
  qed
next
  case (commitFull s jp jc now x b s' j)
  then obtain c t where "addMsgWithCombinedSignature iter (numberOfRequiredSignatures info) x
      (commitMsgsCollector s) = Some (b, c, j)" "s' = s\<lparr>commitMsgsCollector := c, commitUpdateTime := t\<rparr>"
    by (auto simp: addCommitFull_def Option.bind_eq_Some_conv)
  then show ?case
    using commit_update [OF commitFull.IH combined_inv [OF assms(2,3) sni_inv_parts(2) [OF commitFull.IH]]] by simp
next
  case (prepareDone s job jc im s' j)
  then obtain c where c: "onSigInternalMsg iter (numberOfRequiredSignatures info) (ri_myId info) im (prepareSigCollector s) = Some (c, j)"
    "s' = s\<lparr>prepareSigCollector := c\<rparr>" by (auto simp: onPrepareInternalMsg_def Option.bind_eq_Some_conv)
  then show ?case
    using prepare_update [OF prepareDone.IH collector_step_inv [OF assms(2) required_pos [OF assms(3)]
      collector_step.complete [OF prepareDone.hyps(2) c(1)] sni_inv_parts(1) [OF prepareDone.IH]]
      internal_expectation [OF c(1)]] by simp
next
  case (commitDone s jp job im s' j)
  then obtain c where c: "onSigInternalMsg iter (numberOfRequiredSignatures info) (ri_myId info) im (commitMsgsCollector s) = Some (c, j)"
    "s' = s\<lparr>commitMsgsCollector := c\<rparr>" by (auto simp: onCommitInternalMsg_def Option.bind_eq_Some_conv)
  then show ?case
    using commit_update [OF commitDone.IH collector_step_inv [OF assms(2) required_pos [OF assms(3)]
      collector_step.complete [OF commitDone.hyps(2) c(1)] sni_inv_parts(2) [OF commitDone.IH]], of "commitUpdateTime s"]
    by simp
next
  case (fastPeer s jp jc y b p pj)
  have "pps_seqNumber (partialProofs s) = 0 \<or> pps_seqNumber (partialProofs s) = pcp_seq y"
    using fastPeer.hyps by (auto simp: pps_addMsg_def Let_def)
  then have "pps_inv info pv p"
    using pps_addMsg_ok [OF assms(3) sni_inv_parts(3) [OF fastPeer.IH] fastPeer.hyps(2)] fastPeer.hyps(3) by auto
  then show ?case using proofs_update [OF fastPeer.IH] full_proof_stays(1) [OF fastPeer.hyps(3)] by blast
next
  case (fastOwn s jp jc y d p pj)
  have "pcp_sender y = ri_myId info" "selfPartialCommitProof (partialProofs s) = None"
    using fastOwn.hyps by (auto simp: addSelfMsgAndPPDigest_def)
  then have "pps_inv info pv p"
    using addSelfMsgAndPPDigest_ok [OF assms(3) sni_inv_parts(3) [OF fastOwn.IH], of y d] fastOwn.hyps(2) by auto
  then show ?case using proofs_update [OF fastOwn.IH] full_proof_stays(2) [OF fastOwn.hyps(2)] by blast
next
  case (fastFull s jp jc f)
  then show ?case
    using proofs_update [OF fastFull.IH pps_addFullMsg_ok [OF sni_inv_parts(3) [OF fastFull.IH]]] full_proof_stays(3)
    by blast
next
  case (force s jp jc now s')
  then show ?case by (auto simp: forceComplete_def sni_inv_def hasFullProof_def split: option.splits)
next
  case (slow s jp jc)
  then show ?case by (auto simp: startSlowPath_def sni_inv_def split: option.splits)
next
  case (requestTime s jp jc now)
  then show ?case by (auto simp: setTimeOfLastInfoRequest_def sni_inv_def split: option.splits)
next
  case (reset s jp jc now)
  then show ?case by (blast intro: reset_inv)
qed

text \<open>The main window of the replica holds one such record per sequence number; the laws of the window
  (new, advance, reset) apply to it.\<close>

definition sni_ok :: "ReplicasInfo \<Rightarrow> 'acc ThresholdVerifier \<Rightarrow> 'acc CommitVerifiers \<Rightarrow> 'acc SeqNumInfo \<Rightarrow> bool" where
  "sni_ok info tv pv s \<longleftrightarrow> (\<exists>jp jc. sni_inv info tv pv s jp jc)"

definition sni_clean :: "'acc SeqNumInfo \<Rightarrow> bool" where
  "sni_clean s \<longleftrightarrow> prePrepareMsg s = None \<and> \<not> isPrepared s \<and> \<not> isCommitted s \<and> \<not> slowPathHasStarted s"

lemma reset_collector_incomplete: "\<not> col_isComplete (col_resetAndFree c)"
  by (simp add: col_isComplete_def col_resetAndFree_def alreadyEmpty_def resetContent_def Let_def)

interpretation mainLog: window_items kWorkWindowSize 1 "sni_resetAndFree now" "sni_ok info tv pv" sni_clean
  for now info and tv :: "'acc ThresholdVerifier" and pv
proof unfold_locales
  show "window_params kWorkWindowSize 1" by (simp add: window_params_def)
  show "sni_ok info tv pv (sni_resetAndFree now x)" if "sni_ok info tv pv x" for x
    using that unfolding sni_ok_def by (blast intro: reset_inv)
  show "sni_clean (sni_resetAndFree now x)" for x :: "'acc SeqNumInfo"
    by (simp add: sni_clean_def isPrepared_def isCommitted_def sni_resetAndFree_def reset_collector_incomplete)
qed


section \<open>A concrete run\<close>

text \<open>A full signature of the prepare phase arrives before the batch; when the batch comes, the
  signature is checked in the background and the number becomes prepared.\<close>

definition sample_pp :: PrePrepareHeader where
  "sample_pp = \<lparr>pp_viewNum = 0, pp_seqNum = 7, pp_flags = 0, pp_digestOfRequests = replicate 32 9,
     pp_numberOfRequests = 1, pp_endLocationOfLastRequest = 100\<rparr>"

definition sample_full :: SignedShare where
  "sample_full = \<lparr>ss_sender = 0, ss_viewNumber = 0, ss_seqNumber = 7, ss_signature = prepareDigest sample_pp\<rparr>"

lemma sample_prepared_run:
  "\<exists>s :: (Digest option \<times> bool \<times> nat \<times> bool) SeqNumInfo.
     sni_reachable sample_info sample_iter sample_verifier sample_pv s None None \<and> isPrepared s \<and> \<not> forcedCompleted s"
proof -
  let ?reach = "sni_reachable sample_info sample_iter sample_verifier sample_pv"
  let ?s0 = "newSeqNumInfo sample_info :: (Digest option \<times> bool \<times> nat \<times> bool) SeqNumInfo"
  let ?req = "numberOfRequiredSignatures sample_info"
  let ?c1 = "newCollector\<lparr>candidateCombinedSignatureMsg := Some sample_full, numOfRequiredSigs := ?req\<rparr>"
  let ?c2 = "?c1\<lparr>expectedSeqNumber := 7, expectedView := 0, expectedDigest := prepareDigest sample_pp,
    processingInBackground := True\<rparr>"
  let ?c3 = "?c2\<lparr>processingInBackground := False, combinedValidSignatureMsg := Some sample_full,
    candidateCombinedSignatureMsg := None\<rparr>"
  let ?job = "CombinedSigVerificationJob 7 0 (prepareDigest sample_pp) (prepareDigest sample_pp)"
  have req: "?req \<noteq> 0" using required_pos [OF sample_info_wf] by simp
  have "addPrepareFull sample_iter sample_info sample_full ?s0 = Some (True, ?s0\<lparr>prepareSigCollector := ?c1\<rparr>, None)"
    by (simp add: addPrepareFull_def newSeqNumInfo_def sample_full_def addMsgWithCombinedSignature_def newCollector_def
        trySendToBkThread_def Let_def)
  then have r1: "?reach (?s0\<lparr>prepareSigCollector := ?c1\<rparr>) None None"
    using sni_reachable.prepareFull [OF sni_reachable.start] by (fastforce simp: later_def)
  have "addPrePrepare sample_iter sample_info 5 sample_pp (?s0\<lparr>prepareSigCollector := ?c1\<rparr>) =
      Some (True, ?s0\<lparr>prepareSigCollector := ?c2, prePrepareMsg := Some sample_pp, firstSeenFromPrimary := 5\<rparr>, Some ?job)"
    using req by (simp add: addPrePrepare_def newSeqNumInfo_def hasPartialMsgFromReplica_def newCollector_def setExpected_def
        trySendToBkThread_def Let_def sample_pp_def sample_full_def)
  then have r2: "?reach (?s0\<lparr>prepareSigCollector := ?c2, prePrepareMsg := Some sample_pp, firstSeenFromPrimary := 5\<rparr>)
      (Some ?job) None"
    using sni_reachable.prePrepare [OF r1] by (fastforce simp: later_def)
  have "onPrepareInternalMsg sample_iter sample_info (VerifyCombinedSigResult 7 0 True)
      (?s0\<lparr>prepareSigCollector := ?c2, prePrepareMsg := Some sample_pp, firstSeenFromPrimary := 5\<rparr>) =
      Some (?s0\<lparr>prepareSigCollector := ?c3, prePrepareMsg := Some sample_pp, firstSeenFromPrimary := 5\<rparr>, None)"
    by (simp add: onPrepareInternalMsg_def onCombinedSigVerification_def completionGuard_def newCollector_def Let_def)
  moreover have "execute sample_verifier ?job = Some (VerifyCombinedSigResult 7 0 True)" by (simp add: sample_verifier_def)
  ultimately have "?reach (?s0\<lparr>prepareSigCollector := ?c3, prePrepareMsg := Some sample_pp, firstSeenFromPrimary := 5\<rparr>)
      None None"
    using sni_reachable.prepareDone [OF r2] by blast
  then show ?thesis by (fastforce simp: isPrepared_def col_isComplete_def newSeqNumInfo_def)
qed


end
