(* ===== verification/Sig_Manager.thy ===== *)
theory Sig_Manager
  imports Message_Base
begin

text \<open>
  \<^verbatim>\<open>SigManager.cpp\<close>: the RSA keys of the replicas. Signing and verifying are calls of a cryptographic
  library; a key gives a signer or a verifier record, which are parameters.
\<close>

record RSASigner =
  rs_signatureLength :: nat
  rs_sign :: "byte list \<Rightarrow> byte list"

record RSAVerifier =
  rv_signatureLength :: nat
  rv_verify :: "byte list \<Rightarrow> byte list \<Rightarrow> bool"

record SigManager =
  sm_myId :: ReplicaId
  sm_mySigner :: RSASigner
  sm_replicasVerifiers :: "ReplicaId \<Rightarrow> RSAVerifier option"

fun addVerifiers ::
  "(string \<Rightarrow> RSAVerifier) \<Rightarrow> (ReplicaId \<times> string) list \<Rightarrow> SigManager \<Rightarrow> SigManager option" where
  "addVerifiers mkVerifier [] sm = Some sm"
| "addVerifiers mkVerifier ((r, key) # ps) sm = do {
     Assert (sm_replicasVerifiers sm r = None);
     let verifier = mkVerifier key;
     Assert (r \<noteq> sm_myId sm \<or> rs_signatureLength (sm_mySigner sm) = rv_signatureLength verifier);
     addVerifiers mkVerifier ps (sm\<lparr>sm_replicasVerifiers := (sm_replicasVerifiers sm)(r \<mapsto> verifier)\<rparr>)
   }"

definition newSigManager ::
  "(string \<Rightarrow> RSASigner) \<Rightarrow> (string \<Rightarrow> RSAVerifier) \<Rightarrow> ReplicaId \<Rightarrow> string \<Rightarrow> (ReplicaId \<times> string) list \<Rightarrow> SigManager option" where
  "newSigManager mkSigner mkVerifier myId mySigPrivateKey replicasSigPublicKeys =
     addVerifiers mkVerifier replicasSigPublicKeys
       \<lparr>sm_myId = myId, sm_mySigner = mkSigner mySigPrivateKey, sm_replicasVerifiers = Map.empty\<rparr>"

definition getMySigLength :: "SigManager \<Rightarrow> nat" where
  "getMySigLength sm = u16 (int (rs_signatureLength (sm_mySigner sm)))"

definition getSigLength :: "SigManager \<Rightarrow> ReplicaId \<Rightarrow> nat option" where
  "getSigLength sm replicaId =
     (if replicaId = sm_myId sm then Some (getMySigLength sm)
      else do {
        verifier \<leftarrow> sm_replicasVerifiers sm replicaId;
        Some (u16 (int (rv_signatureLength verifier)))
      })"

definition verifySig :: "SigManager \<Rightarrow> ReplicaId \<Rightarrow> byte list \<Rightarrow> byte list \<Rightarrow> bool option" where
  "verifySig sm replicaId data sig = do {
     verifier \<leftarrow> sm_replicasVerifiers sm replicaId;
     Some (rv_verify verifier data sig)
   }"

text \<open>The signer writes only when the buffer can take a signature; otherwise the length it reports
  stays 0.\<close>

definition sm_sign :: "SigManager \<Rightarrow> byte list \<Rightarrow> nat \<Rightarrow> byte list option" where
  "sm_sign sm data outSigLength = do {
     let sig = (if outSigLength < rs_signatureLength (sm_mySigner sm) then []
                else rs_sign (sm_mySigner sm) data);
     Assert (outSigLength = length sig);
     Some sig
   }"

section \<open>The key setup of a group of replicas\<close>

text \<open>What the engine relies on: signatures have the announced length, which fits 16 bits, and another
  replica verifies what the signer signed. \<open>sm r\<close> is the manager of replica \<open>r\<close>.\<close>

definition keys_ok :: "(ReplicaId \<Rightarrow> SigManager) \<Rightarrow> ReplicaId set \<Rightarrow> bool" where
  "keys_ok sm rs \<longleftrightarrow>
     (\<forall>r \<in> rs. sm_myId (sm r) = r \<and> rs_signatureLength (sm_mySigner (sm r)) < 65536 \<and>
        (\<forall>d. length (rs_sign (sm_mySigner (sm r)) d) = rs_signatureLength (sm_mySigner (sm r))) \<and>
        (\<forall>q \<in> rs. q \<noteq> r \<longrightarrow> (\<exists>v. sm_replicasVerifiers (sm q) r = Some v \<and>
           rv_signatureLength v = rs_signatureLength (sm_mySigner (sm r)) \<and>
           (\<forall>d. rv_verify v d (rs_sign (sm_mySigner (sm r)) d)))))"

lemma addVerifiers_fresh:
  assumes "addVerifiers mk ps sm = Some sm'" "sm_replicasVerifiers sm q \<noteq> None"
  shows "q \<notin> fst ` set ps"
  using assms
proof (induction ps arbitrary: sm)
  case (Cons x xs)
  obtain r key where x: "x = (r, key)" by (cases x)
  let ?sm = "sm\<lparr>sm_replicasVerifiers := (sm_replicasVerifiers sm)(r \<mapsto> mk key)\<rparr>"
  have run: "addVerifiers mk xs ?sm = Some sm'" "sm_replicasVerifiers sm r = None"
    using Cons.prems(1) x by (auto simp: Let_def Option.bind_eq_Some_conv)
  then have "q \<noteq> r" using Cons.prems(2) by auto
  then show ?case using Cons.IH [OF run(1)] Cons.prems(2) x by simp
qed simp

lemma addVerifiers_lookup:
  assumes "addVerifiers mk ps sm = Some sm'"
  shows "sm_myId sm' = sm_myId sm \<and> sm_mySigner sm' = sm_mySigner sm \<and>
    sm_replicasVerifiers sm' r = (case map_of ps r of None \<Rightarrow> sm_replicasVerifiers sm r | Some key \<Rightarrow> Some (mk key))"
  using assms
proof (induction ps arbitrary: sm)
  case (Cons p ps)
  obtain q key where p: "p = (q, key)" by (cases p)
  from Cons.prems p have free: "sm_replicasVerifiers sm q = None" by (auto simp: Let_def)
  let ?sm = "sm\<lparr>sm_replicasVerifiers := (sm_replicasVerifiers sm)(q \<mapsto> mk key)\<rparr>"
  from Cons.prems p have run: "addVerifiers mk ps ?sm = Some sm'" by (auto simp: Let_def Option.bind_eq_Some_conv)
  have "map_of ps q = None" using addVerifiers_fresh [OF run, of q] by (simp add: map_of_eq_None_iff)
  then show ?case using Cons.IH [OF run] p free by (auto split: option.splits)
qed simp

lemma sign_verifies:
  assumes "keys_ok sm rs" "r \<in> rs" "q \<in> rs" "q \<noteq> r"
  shows "\<exists>sig. sm_sign (sm r) d (getMySigLength (sm r)) = Some sig \<and> length sig = getMySigLength (sm r) \<and>
    getSigLength (sm q) r = Some (length sig) \<and> verifySig (sm q) r d sig = Some True"
proof -
  obtain v where v: "sm_replicasVerifiers (sm q) r = Some v" "rv_signatureLength v = rs_signatureLength (sm_mySigner (sm r))"
    "\<forall>d. rv_verify v d (rs_sign (sm_mySigner (sm r)) d)"
    using assms unfolding keys_ok_def by blast
  have s: "sm_myId (sm q) = q" "rs_signatureLength (sm_mySigner (sm r)) < 65536"
    "\<forall>d. length (rs_sign (sm_mySigner (sm r)) d) = rs_signatureLength (sm_mySigner (sm r))"
    using assms unfolding keys_ok_def by blast+
  have "getMySigLength (sm r) = rs_signatureLength (sm_mySigner (sm r))" using s(2) by (simp add: getMySigLength_def u16_def)
  then show ?thesis
    using v s assms(4) by (auto simp: sm_sign_def getSigLength_def verifySig_def u16_def Let_def)
qed

end
