(* ===== verification/View_Change_Msg.thy ===== *)
theory View_Change_Msg
  imports Sig_Manager Replicas_Info Digests
begin

text \<open>
  \<^verbatim>\<open>ViewChangeMsg.cpp\<close>: what a replica reports when it leaves a view. The header is 24 bytes (type 2,
  generating replica 2, new view 8, last stable checkpoint 8, number of elements 2, location after the
  last one 2). The elements follow, 49 bytes each (sequence number 8, digest 32, origin view 8, flag 1),
  some with a prepared certificate (view 8, length 2, signature); behind them is the RSA signature.
\<close>

section \<open>The packed structures\<close>

definition sizeofViewChangeMsgHeader :: nat where
  [simp]: "sizeofViewChangeMsgHeader = 24"

definition sizeofElement :: nat where
  [simp]: "sizeofElement = 49"

definition sizeofPreparedCertificate :: nat where
  [simp]: "sizeofPreparedCertificate = 10"

record ViewChangeMsgHeader =
  vc_genReplicaId :: ReplicaId
  vc_newView :: ViewNum
  vc_lastStable :: SeqNum
  vc_numberOfElements :: nat
  vc_locationAfterLast :: nat

definition vcHeader :: "byte list \<Rightarrow> ViewChangeMsgHeader option" where
  "vcHeader body = do {
     r \<leftarrow> rd_nat 2 2 body;
     v \<leftarrow> rd_i64 4 body;
     s \<leftarrow> rd_i64 12 body;
     n \<leftarrow> rd_nat 20 2 body;
     l \<leftarrow> rd_nat 22 2 body;
     Some \<lparr>vc_genReplicaId = r, vc_newView = v, vc_lastStable = s, vc_numberOfElements = n, vc_locationAfterLast = l\<rparr>
   }"

record Element =
  el_seqNum :: SeqNum
  el_prePrepareDigest :: Digest
  el_originView :: ViewNum
  el_hasPreparedCertificate :: bool

definition elementAt :: "nat \<Rightarrow> byte list \<Rightarrow> Element option" where
  "elementAt loc body = do {
     s \<leftarrow> rd_i64 loc body;
     d \<leftarrow> rd (loc + 8) DIGEST_SIZE body;
     v \<leftarrow> rd_i64 (loc + 40) body;
     c \<leftarrow> rd_nat (loc + 48) 1 body;
     Some \<lparr>el_seqNum = s, el_prePrepareDigest = d, el_originView = v, el_hasPreparedCertificate = (c \<noteq> 0)\<rparr>
   }"

record PreparedCertificate =
  pc_certificateView :: ViewNum
  pc_certificateSigLength :: nat

definition certificateAt :: "nat \<Rightarrow> byte list \<Rightarrow> PreparedCertificate option" where
  "certificateAt loc body = do {
     v \<leftarrow> rd_i64 loc body;
     l \<leftarrow> rd_nat (loc + 8) 2 body;
     Some \<lparr>pc_certificateView = v, pc_certificateSigLength = l\<rparr>
   }"

section \<open>Building a message\<close>

definition newViewChangeMsg :: "ReplicaId \<Rightarrow> ViewNum \<Rightarrow> SeqNum \<Rightarrow> MessageBase option" where
  "newViewChangeMsg srcReplicaId newView lastStableSeq = do {
     m \<leftarrow> newMessage srcReplicaId MsgCode_ViewChange maxExternalMessageSize;
     body \<leftarrow> wrs [(2, le_bytes 2 srcReplicaId), (4, i64_bytes newView), (12, i64_bytes lastStableSeq),
       (20, le_bytes 2 0), (22, le_bytes 2 0)] (msgBody m);
     Some (m\<lparr>msgBody := body\<rparr>)
   }"

definition setNewViewNumber :: "ViewNum \<Rightarrow> MessageBase \<Rightarrow> MessageBase option" where
  "setNewViewNumber newView m = do {
     h \<leftarrow> vcHeader (msgBody m);
     Assert (newView \<ge> vc_newView h);
     body \<leftarrow> wr 4 (i64_bytes newView) (msgBody m);
     Some (m\<lparr>msgBody := body\<rparr>)
   }"

definition getMsgDigest :: "(byte list \<Rightarrow> Digest) \<Rightarrow> MessageBase \<Rightarrow> Digest option" where
  "getMsgDigest hash m = do {
     h \<leftarrow> vcHeader (msgBody m);
     let bodySize = (if vc_locationAfterLast h = 0 then sizeofViewChangeMsgHeader else vc_locationAfterLast h);
     data \<leftarrow> rd 0 bodySize (msgBody m);
     Some (hash data)
   }"

text \<open>The certificate to add, \<open>None\<close> where \<open>hasPreparedCertificate\<close> is false.\<close>

type_synonym CertificateArg = "(ViewNum \<times> byte list) option"

definition certificateFields :: "nat \<Rightarrow> CertificateArg \<Rightarrow> (nat \<times> byte list) list" where
  "certificateFields loc cert =
     (case cert of
        None \<Rightarrow> []
      | Some (certificateView, sig) \<Rightarrow>
          [(loc, i64_bytes certificateView), (loc + 8, le_bytes 2 (length sig)), (loc + sizeofPreparedCertificate, sig)])"

definition vc_addElement ::
  "SigManager \<Rightarrow> SeqNum \<Rightarrow> Digest \<Rightarrow> ViewNum \<Rightarrow> CertificateArg \<Rightarrow> MessageBase \<Rightarrow> MessageBase option" where
  "vc_addElement sm seqNum prePrepareDigest originView cert m = do {
     h \<leftarrow> vcHeader (msgBody m);
     Assert (int (vc_numberOfElements h) < kWorkWindowSize);
     Assert (vc_numberOfElements h > 0 \<or> vc_locationAfterLast h = 0);
     Assert (seqNum > vc_lastStable h);
     Assert (seqNum \<le> vc_lastStable h + kWorkWindowSize);
     Assert (vc_locationAfterLast h \<noteq> 0 \<or> vc_numberOfElements h = 0);
     let loc = (if vc_locationAfterLast h = 0 then sizeofViewChangeMsgHeader else vc_locationAfterLast h);
     let requiredSpace = u16 (int (loc + sizeofElement));
     let requiredSpace = (case cert of None \<Rightarrow> requiredSpace
       | Some (_, sig) \<Rightarrow> u16 (int (requiredSpace + sizeofPreparedCertificate + length sig)));
     Assert (requiredSpace + getMySigLength sm \<le> storageSize m);
     body \<leftarrow> wrs ([(loc, i64_bytes seqNum), (loc + 8, prePrepareDigest), (loc + 40, i64_bytes originView),
         (loc + 48, [if cert = None then 0 else 1])] @ certificateFields (loc + sizeofElement) cert @
       [(22, le_bytes 2 requiredSpace), (20, le_bytes 2 (vc_numberOfElements h + 1))]) (msgBody m);
     Some (m\<lparr>msgBody := body\<rparr>)
   }"

section \<open>Checking the elements\<close>

text \<open>One iteration of the loop: \<open>remainingBytes\<close> is a \<open>uint16_t\<close>, the size \<open>s\<close> of a certificate an \<open>int16_t\<close>,
  the location a pointer. \<open>None\<close> is an access outside the message, \<open>Some None\<close> the return of false.\<close>

definition checkElement ::
  "byte list \<Rightarrow> ViewChangeMsgHeader \<Rightarrow> SeqNum \<Rightarrow> nat \<Rightarrow> int \<Rightarrow> (SeqNum \<times> nat \<times> int) option option" where
  "checkElement body h lastSeqNumInMsg remainingBytes currLoc = do {
     Assert (0 \<le> currLoc);
     e \<leftarrow> elementAt (nat currLoc) body;
     if el_seqNum e \<le> lastSeqNumInMsg then Some None
     else if el_seqNum e > vc_lastStable h + kWorkWindowSize then Some None
     else if el_originView e \<ge> vc_newView h then Some None
     else do {
       let remainingBytes = u16 (int remainingBytes - int sizeofElement);
       let currLoc = currLoc + int sizeofElement;
       if \<not> el_hasPreparedCertificate e then Some (Some (el_seqNum e, remainingBytes, currLoc))
       else if remainingBytes < sizeofPreparedCertificate then Some None
       else do {
         c \<leftarrow> certificateAt (nat currLoc) body;
         if pc_certificateView c > el_originView e then Some None
         else if pc_certificateSigLength c = 0 then Some None
         else do {
           let s = i16 (int (sizeofPreparedCertificate + pc_certificateSigLength c));
           if int remainingBytes < s then Some None
           else Some (Some (el_seqNum e, u16 (int remainingBytes - s), currLoc + s))
         }
       }
     }
   }"

text \<open>The loop; \<open>n\<close> is the number of announced elements not yet visited.\<close>

fun checkElementsLoop ::
  "byte list \<Rightarrow> ViewChangeMsgHeader \<Rightarrow> nat \<Rightarrow> SeqNum \<Rightarrow> nat \<Rightarrow> int \<Rightarrow> (nat \<times> nat) option option" where
  "checkElementsLoop body h 0 lastSeqNumInMsg remainingBytes currLoc = Some (Some (0, remainingBytes))"
| "checkElementsLoop body h (Suc n) lastSeqNumInMsg remainingBytes currLoc =
     (if remainingBytes < sizeofElement then Some (Some (Suc n, remainingBytes))
      else do {
        r \<leftarrow> checkElement body h lastSeqNumInMsg remainingBytes currLoc;
        case r of
          None \<Rightarrow> Some None
        | Some (lastSeqNumInMsg, remainingBytes, currLoc) \<Rightarrow>
            checkElementsLoop body h n lastSeqNumInMsg remainingBytes currLoc
      })"

definition checkElements :: "nat \<Rightarrow> MessageBase \<Rightarrow> bool option" where
  "checkElements sigSize m = do {
     h \<leftarrow> vcHeader (msgBody m);
     r \<leftarrow> checkElementsLoop (msgBody m) h (vc_numberOfElements h) (vc_lastStable h)
       (u16 (int (msgSize m) - int sigSize - int sizeofViewChangeMsgHeader)) (int sizeofViewChangeMsgHeader);
     case r of
       None \<Rightarrow> Some False
     | Some (notVisited, remainingBytes) \<Rightarrow>
         if notVisited \<noteq> 0 then Some False
         else if vc_numberOfElements h > 0
         then Some (int (vc_locationAfterLast h) = i16 (int (msgSize m) - int sigSize - int remainingBytes))
         else Some (vc_locationAfterLast h = 0)
   }"

definition vc_finalizeMessage :: "SigManager \<Rightarrow> MessageBase \<Rightarrow> MessageBase option" where
  "vc_finalizeMessage sm m = do {
     h \<leftarrow> vcHeader (msgBody m);
     let bodySize = (if vc_locationAfterLast h = 0 then sizeofViewChangeMsgHeader else vc_locationAfterLast h);
     let sigSize = getMySigLength sm;
     m \<leftarrow> setMsgSize m (bodySize + sigSize);
     m \<leftarrow> shrinkToFit m;
     data \<leftarrow> rd 0 bodySize (msgBody m);
     sig \<leftarrow> sm_sign sm data sigSize;
     body \<leftarrow> wr bodySize sig (msgBody m);
     let m = m\<lparr>msgBody := body\<rparr>;
     b \<leftarrow> checkElements sigSize m;
     Assert b;
     Some m
   }"

definition ViewChangeMsg_ToActualMsgType :: "ReplicasInfo \<Rightarrow> SigManager \<Rightarrow> MessageBase \<Rightarrow> bool option" where
  "ViewChangeMsg_ToActualMsgType repInfo sm inMsg = do {
     type \<leftarrow> msgType inMsg;
     Assert (type = MsgCode_ViewChange);
     if msgSize inMsg < sizeofViewChangeMsgHeader then Some False
     else do {
       h \<leftarrow> vcHeader (msgBody inMsg);
       if \<not> isIdOfReplica repInfo (vc_genReplicaId h) then Some False
       else do {
         sigLen \<leftarrow> getSigLength sm (vc_genReplicaId h);
         let dataLength = (if vc_locationAfterLast h < sizeofViewChangeMsgHeader then sizeofViewChangeMsgHeader
                           else vc_locationAfterLast h);
         if u16 (int (msgSize inMsg)) < u16 (int (dataLength + sigLen)) then Some False
         else if vc_genReplicaId h = ri_myId repInfo then Some False
         else do {
           data \<leftarrow> rd 0 dataLength (msgBody inMsg);
           sig \<leftarrow> rd dataLength sigLen (msgBody inMsg);
           sigOkay \<leftarrow> verifySig sm (vc_genReplicaId h) data sig;
           if \<not> sigOkay then Some False else checkElements sigLen inMsg
         }
       }
     }
   }"

section \<open>Iterating over the elements\<close>

record ElementsIterator =
  ei_msg :: "byte list option"
  endLoc :: nat
  ei_currLoc :: nat
  nextElementNum :: nat

definition newElementsIterator :: "byte list option \<Rightarrow> ElementsIterator option" where
  "newElementsIterator msg =
     (case msg of
        None \<Rightarrow> Some \<lparr>ei_msg = None, endLoc = 0, ei_currLoc = 0, nextElementNum = 1\<rparr>
      | Some body \<Rightarrow> do {
          h \<leftarrow> vcHeader body;
          if vc_numberOfElements h = 0 then Some \<lparr>ei_msg = msg, endLoc = 0, ei_currLoc = 0, nextElementNum = 1\<rparr>
          else do {
            Assert (vc_locationAfterLast h > sizeofViewChangeMsgHeader);
            Some \<lparr>ei_msg = msg, endLoc = vc_locationAfterLast h, ei_currLoc = sizeofViewChangeMsgHeader, nextElementNum = 1\<rparr>
          }
        })"

definition ei_end :: "ElementsIterator \<Rightarrow> bool option" where
  "ei_end it =
     (if ei_currLoc it \<ge> endLoc it
      then (case ei_msg it of
              None \<Rightarrow> Some True
            | Some body \<Rightarrow> do {
                h \<leftarrow> vcHeader body;
                Assert (int (nextElementNum it) - 1 = int (vc_numberOfElements h));
                Some True
              })
      else Some False)"

text \<open>The current element, as a pointer into the message: its location.\<close>

definition ei_getCurrent :: "ElementsIterator \<Rightarrow> nat option option" where
  "ei_getCurrent it = do {
     e \<leftarrow> ei_end it;
     if e then Some None
     else do {
       let remainingbytes = u16 (int (endLoc it) - int (ei_currLoc it));
       Assert (remainingbytes \<ge> sizeofElement);
       body \<leftarrow> ei_msg it;
       el \<leftarrow> elementAt (ei_currLoc it) body;
       if el_hasPreparedCertificate el
       then do {
         Assert (remainingbytes \<ge> sizeofElement + sizeofPreparedCertificate);
         c \<leftarrow> certificateAt (ei_currLoc it + sizeofElement) body;
         Assert (remainingbytes \<ge> sizeofElement + sizeofPreparedCertificate + pc_certificateSigLength c);
         Some (Some (ei_currLoc it))
       }
       else Some (Some (ei_currLoc it))
     }
   }"

definition ei_getAndGoToNext :: "ElementsIterator \<Rightarrow> (nat option \<times> ElementsIterator) option" where
  "ei_getAndGoToNext it = do {
     e \<leftarrow> ei_end it;
     if e then Some (None, it)
     else do {
       let remainingbytes = u16 (int (endLoc it) - int (ei_currLoc it));
       Assert (remainingbytes \<ge> sizeofElement);
       body \<leftarrow> ei_msg it;
       let p = ei_currLoc it;
       el \<leftarrow> elementAt p body;
       let it = it\<lparr>ei_currLoc := u16 (int (ei_currLoc it + sizeofElement))\<rparr>;
       it \<leftarrow> (if el_hasPreparedCertificate el
         then do {
           Assert (remainingbytes \<ge> sizeofElement + sizeofPreparedCertificate);
           c \<leftarrow> certificateAt (ei_currLoc it) body;
           Assert (remainingbytes \<ge> sizeofElement + sizeofPreparedCertificate + pc_certificateSigLength c);
           Some (it\<lparr>ei_currLoc := u16 (int (ei_currLoc it + sizeofPreparedCertificate + pc_certificateSigLength c))\<rparr>)
         }
         else Some it);
       Some (Some p, it\<lparr>nextElementNum := u16 (int (nextElementNum it + 1))\<rparr>)
     }
   }"

definition ei_gotoNext :: "ElementsIterator \<Rightarrow> ElementsIterator option" where
  "ei_gotoNext it = do { (p, it) \<leftarrow> ei_getAndGoToNext it; Some it }"

partial_function (option) goToAtLeast :: "SeqNum \<Rightarrow> ElementsIterator \<Rightarrow> (bool \<times> ElementsIterator) option" where
  "goToAtLeast lowerBound it = do {
     cur \<leftarrow> ei_getCurrent it;
     case cur of
       None \<Rightarrow> Some (False, it)
     | Some p \<Rightarrow> do {
         body \<leftarrow> ei_msg it;
         e \<leftarrow> elementAt p body;
         if el_seqNum e < lowerBound then do { it \<leftarrow> ei_gotoNext it; goToAtLeast lowerBound it }
         else Some (True, it)
       }
   }"

text \<open>The loop \<open>while (iter.getAndGoToNext(pElement))\<close> of the clients of the iterator.\<close>

partial_function (option) iterateElements :: "ElementsIterator \<Rightarrow> nat list option" where
  "iterateElements it = do {
     (cur, it) \<leftarrow> ei_getAndGoToNext it;
     case cur of
       None \<Rightarrow> Some []
     | Some p \<Rightarrow> do { ps \<leftarrow> iterateElements it; Some (p # ps) }
   }"

definition maxSizeOfViewChangeMsg :: nat where
  "maxSizeOfViewChangeMsg = maxExternalMessageSize"

definition maxSizeOfViewChangeMsgInLocalBuffer :: nat where
  "maxSizeOfViewChangeMsgInLocalBuffer = maxSizeOfViewChangeMsg + sizeofRawHeaderOfObjAndMsg"

section \<open>What the bytes mean\<close>

text \<open>An element with its certificate, as a value; the elements of a message lie one behind the other
  from \<open>loc\<close> to \<open>fin\<close>.\<close>

record VCElement =
  vce_seqNum :: SeqNum
  vce_digest :: Digest
  vce_originView :: ViewNum
  vce_cert :: CertificateArg

definition vcElementAt :: "nat \<Rightarrow> byte list \<Rightarrow> VCElement option" where
  "vcElementAt loc body = do {
     e \<leftarrow> elementAt loc body;
     if el_hasPreparedCertificate e
     then do {
       c \<leftarrow> certificateAt (loc + sizeofElement) body;
       sig \<leftarrow> rd (loc + sizeofElement + sizeofPreparedCertificate) (pc_certificateSigLength c) body;
       Some \<lparr>vce_seqNum = el_seqNum e, vce_digest = el_prePrepareDigest e, vce_originView = el_originView e,
             vce_cert = Some (pc_certificateView c, sig)\<rparr>
     }
     else Some \<lparr>vce_seqNum = el_seqNum e, vce_digest = el_prePrepareDigest e, vce_originView = el_originView e,
             vce_cert = None\<rparr>
   }"

definition elementLength :: "VCElement \<Rightarrow> nat" where
  "elementLength x = sizeofElement + (case vce_cert x of None \<Rightarrow> 0 | Some (_, sig) \<Rightarrow> sizeofPreparedCertificate + length sig)"

fun vcLayout :: "byte list \<Rightarrow> nat \<Rightarrow> VCElement list \<Rightarrow> nat \<Rightarrow> bool" where
  "vcLayout body loc [] fin \<longleftrightarrow> fin = loc"
| "vcLayout body loc (x # xs) fin \<longleftrightarrow> vcElementAt loc body = Some x \<and> vcLayout body (loc + elementLength x) xs fin"

text \<open>The conditions a report has to satisfy.\<close>

definition vceCertOk :: "VCElement \<Rightarrow> bool" where
  "vceCertOk x \<longleftrightarrow> (case vce_cert x of None \<Rightarrow> True
     | Some (v, sig) \<Rightarrow> v \<le> vce_originView x \<and> sig \<noteq> [] \<and> length sig \<le> 32757)"

fun vcElementsOk :: "ViewNum \<Rightarrow> SeqNum \<Rightarrow> SeqNum \<Rightarrow> VCElement list \<Rightarrow> bool" where
  "vcElementsOk newView lastStable prev [] \<longleftrightarrow> True"
| "vcElementsOk newView lastStable prev (x # xs) \<longleftrightarrow>
     prev < vce_seqNum x \<and> vce_seqNum x \<le> lastStable + kWorkWindowSize \<and> vce_originView x < newView \<and> vceCertOk x \<and>
     vcElementsOk newView lastStable (vce_seqNum x) xs"

text \<open>Where the \<open>i\<close>-th element starts.\<close>

inductive element_start :: "byte list \<Rightarrow> nat \<Rightarrow> nat \<Rightarrow> bool" for body where
  first: "element_start body 0 sizeofViewChangeMsgHeader"
| after: "element_start body i loc \<Longrightarrow> vcElementAt loc body = Some x \<Longrightarrow> element_start body (Suc i) (loc + elementLength x)"

definition short_certificates :: "byte list \<Rightarrow> nat \<Rightarrow> bool" where
  "short_certificates body n \<longleftrightarrow>
     (\<forall>i loc e c. i < n \<longrightarrow> element_start body i loc \<longrightarrow> elementAt loc body = Some e \<longrightarrow> el_hasPreparedCertificate e \<longrightarrow>
        certificateAt (loc + sizeofElement) body = Some c \<longrightarrow> pc_certificateSigLength c \<le> 32757)"

lemma vcElementAt_cases:
  assumes "vcElementAt loc body = Some x"
  obtains e where "elementAt loc body = Some e" "\<not> el_hasPreparedCertificate e" "vce_cert x = None"
      "elementLength x = 49" "el_seqNum e = vce_seqNum x" "el_originView e = vce_originView x"
  | e c sig where "elementAt loc body = Some e" "el_hasPreparedCertificate e" "certificateAt (loc + 49) body = Some c"
      "vce_cert x = Some (pc_certificateView c, sig)" "length sig = pc_certificateSigLength c"
      "elementLength x = 59 + length sig" "el_seqNum e = vce_seqNum x" "el_originView e = vce_originView x"
proof -
  obtain e where e: "elementAt loc body = Some e" using assms by (auto simp: vcElementAt_def Option.bind_eq_Some_conv)
  show ?thesis
  proof (cases "el_hasPreparedCertificate e")
    case False
    then show ?thesis using assms e that(1) [of e] by (auto simp: vcElementAt_def elementLength_def)
  next
    case True
    then obtain c sig where c: "certificateAt (loc + 49) body = Some c" "rd (59 + loc) (pc_certificateSigLength c) body = Some sig"
      and x: "x = \<lparr>vce_seqNum = el_seqNum e, vce_digest = el_prePrepareDigest e, vce_originView = el_originView e,
        vce_cert = Some (pc_certificateView c, sig)\<rparr>"
      using assms e by (auto simp: vcElementAt_def Option.bind_eq_Some_conv)
    show ?thesis
      by (rule that(2) [OF e True c(1), of sig]) (simp_all add: x elementLength_def length_rd [OF c(2)])
  qed
qed

lemma elementLength_pos: "49 \<le> elementLength x"
  by (simp add: elementLength_def)

lemma elementAt_bound: "elementAt loc body = Some e \<Longrightarrow> loc + 49 \<le> length body"
  by (auto simp: elementAt_def rd_nat_def rd_def Option.bind_eq_Some_conv split: if_splits)

lemma elementAt_total: "loc + 49 \<le> length body \<Longrightarrow> \<exists>e. elementAt loc body = Some e"
  by (simp add: elementAt_def rd_nat_def rd_i64_def rd_def)

lemma certificateAt_total: "loc + 10 \<le> length body \<Longrightarrow> \<exists>c. certificateAt loc body = Some c"
  by (simp add: certificateAt_def rd_nat_def rd_i64_def rd_def)

lemma certificateAt_bound: "certificateAt loc body = Some c \<Longrightarrow> pc_certificateSigLength c < 65536"
  using rd_nat_bound [of "loc + 8" 2 body] by (auto simp: certificateAt_def Option.bind_eq_Some_conv)

lemma vcLayout_le: "vcLayout body loc xs fin \<Longrightarrow> loc + 49 * length xs \<le> fin"
proof (induction xs arbitrary: loc)
  case (Cons x xs)
  from Cons.prems have "loc + elementLength x + 49 * length xs \<le> fin" by (intro Cons.IH) simp
  then show ?case using elementLength_pos [of x] by simp
qed simp

section \<open>The check is right\<close>

lemma i16_small: "0 \<le> x \<Longrightarrow> x < 32768 \<Longrightarrow> i16 x = x"
  by (simp add: i16_def)

text \<open>One step of the check on an element that is there and in order.\<close>

lemma checkElement_ok:
  assumes x: "vcElementAt loc body = Some x" and ok: "prev < vce_seqNum x" "vce_seqNum x \<le> vc_lastStable h + kWorkWindowSize"
    "vce_originView x < vc_newView h" "vceCertOk x" and rem: "elementLength x \<le> rem" "rem < 65536"
  shows "checkElement body h prev rem (int loc) = Some (Some (vce_seqNum x, rem - elementLength x, int (loc + elementLength x)))"
  using x
proof (cases rule: vcElementAt_cases)
  case (1 e)
  then show ?thesis using ok rem by (simp add: checkElement_def Let_def u16_def)
next
  case (2 e c sig)
  have s: "i16 (10 + int (length sig)) = 10 + int (length sig)"
    using ok(4) 2(4) by (intro i16_small) (auto simp: vceCertOk_def)
  have n: "nat (int loc + 49) = loc + 49" by simp
  have u: "u16 (int rem - 49) = rem - 49" "u16 (int (rem - 49) - (10 + int (length sig))) = rem - (59 + length sig)"
    using rem 2(6) by (auto simp: u16_def)
  have "sig \<noteq> []" "pc_certificateView c \<le> vce_originView x" using ok(4) 2(4) by (auto simp: vceCertOk_def)
  moreover from this have "pc_certificateSigLength c \<noteq> 0" using 2(5) by (metis length_0_conv)
  ultimately show ?thesis using 2 ok(1-3) rem s n u by (simp add: checkElement_def Let_def)
qed

lemma checkElementsLoop_layout:
  assumes "vcLayout body loc xs fin" "vcElementsOk (vc_newView h) (vc_lastStable h) prev xs"
    "fin \<le> loc + rem" "rem < 65536"
  shows "checkElementsLoop body h (length xs) prev rem (int loc) = Some (Some (0, rem - (fin - loc)))"
  using assms
proof (induction xs arbitrary: loc prev rem)
  case (Cons x xs)
  let ?l = "elementLength x"
  have le: "loc + ?l \<le> fin" "49 \<le> ?l" using vcLayout_le [of body "loc + ?l" xs fin] Cons.prems(1) elementLength_pos by auto
  have step: "checkElement body h prev rem (int loc) = Some (Some (vce_seqNum x, rem - ?l, int (loc + ?l)))"
    using Cons.prems le by (intro checkElement_ok) auto
  have "checkElementsLoop body h (length xs) (vce_seqNum x) (rem - ?l) (int (loc + ?l)) =
      Some (Some (0, (rem - ?l) - (fin - (loc + ?l))))"
    using Cons.prems le by (intro Cons.IH) auto
  then show ?case using step le Cons.prems(3) by simp
qed simp

text \<open>And backwards: what passes one step is an element that is there and in order.\<close>

lemma checkElement_sound:
  assumes st: "checkElement body h prev rem (int loc) = Some (Some (seq, rem', loc'))"
    and rem: "49 \<le> rem" "rem < 65536" "loc + rem \<le> length body"
    and short: "\<forall>e c. elementAt loc body = Some e \<longrightarrow> el_hasPreparedCertificate e \<longrightarrow>
      certificateAt (loc + 49) body = Some c \<longrightarrow> pc_certificateSigLength c \<le> 32757"
  shows "\<exists>x. vcElementAt loc body = Some x \<and> prev < vce_seqNum x \<and> vce_seqNum x \<le> vc_lastStable h + kWorkWindowSize \<and>
    vce_originView x < vc_newView h \<and> vceCertOk x \<and> elementLength x \<le> rem \<and> seq = vce_seqNum x \<and>
    rem' = rem - elementLength x \<and> loc' = int (loc + elementLength x)"
proof -
  obtain e where e: "elementAt loc body = Some e" using elementAt_total [of loc body] rem by auto
  have u: "u16 (int rem - 49) = rem - 49" using rem by (simp add: u16_def)
  have ok: "prev < el_seqNum e" "el_seqNum e \<le> vc_lastStable h + kWorkWindowSize" "el_originView e < vc_newView h"
    using st e by (auto simp: checkElement_def split: if_splits)
  show ?thesis
  proof (cases "el_hasPreparedCertificate e")
    case False
    then show ?thesis using st e ok u rem by (auto simp: checkElement_def vcElementAt_def elementLength_def vceCertOk_def)
  next
    case True
    have ten: "10 \<le> rem - 49" using st e ok u True by (auto simp: checkElement_def Let_def split: if_splits)
    have "loc + 49 + 10 \<le> length body" using ten rem by linarith
    then obtain c where c: "certificateAt (loc + 49) body = Some c" using certificateAt_total by blast
    have len: "pc_certificateSigLength c \<le> 32757" using short e True c by blast
    then have s: "i16 (10 + int (pc_certificateSigLength c)) = 10 + int (pc_certificateSigLength c)" by (intro i16_small) auto
    have n: "nat (int loc + 49) = loc + 49" by simp
    have c': "pc_certificateView c \<le> el_originView e" "pc_certificateSigLength c \<noteq> 0"
      "10 + pc_certificateSigLength c \<le> rem - 49" and out: "seq = el_seqNum e"
      "rem' = u16 (int (rem - 49) - (10 + int (pc_certificateSigLength c)))"
      "loc' = int loc + 49 + (10 + int (pc_certificateSigLength c))"
      using st e ok u True ten c s n by (auto simp: checkElement_def Let_def split: if_splits)
    have "59 + loc + pc_certificateSigLength c \<le> length body" using c'(3) rem by linarith
    then obtain sig where sig: "rd (59 + loc) (pc_certificateSigLength c) body = Some sig" by (simp add: rd_def)
    have ne: "sig \<noteq> []" using length_rd [OF sig] c'(2) by auto
    have "rem' = rem - (59 + pc_certificateSigLength c)" using out(2) c'(3) rem by (auto simp: u16_def)
    then show ?thesis
      using e True c sig ok c' out len length_rd [OF sig] ne by (auto simp: vcElementAt_def elementLength_def vceCertOk_def)
  qed
qed

lemma checkElementsLoop_sound:
  assumes "checkElementsLoop body h n prev rem (int loc) = Some (Some (0, rem'))" "rem < 65536" "loc + rem \<le> length body"
    "element_start body i loc" "short_certificates body (i + n)"
  shows "\<exists>xs fin. vcLayout body loc xs fin \<and> vcElementsOk (vc_newView h) (vc_lastStable h) prev xs \<and> length xs = n \<and>
    fin \<le> loc + rem \<and> rem' = rem - (fin - loc)"
  using assms
proof (induction n arbitrary: prev rem loc i)
  case 0
  then show ?case by (intro exI [of _ "[]"]) simp
next
  case (Suc n)
  have r49: "49 \<le> rem" using Suc.prems(1) by (auto split: if_splits)
  obtain seq rem1 loc1 where st: "checkElement body h prev rem (int loc) = Some (Some (seq, rem1, loc1))"
    "checkElementsLoop body h n seq rem1 loc1 = Some (Some (0, rem'))"
    using Suc.prems(1) r49 by (auto simp: Option.bind_eq_Some_conv split: option.splits)
  have "\<forall>e c. elementAt loc body = Some e \<longrightarrow> el_hasPreparedCertificate e \<longrightarrow>
      certificateAt (loc + 49) body = Some c \<longrightarrow> pc_certificateSigLength c \<le> 32757"
    using Suc.prems(4) Suc.prems(5) [unfolded short_certificates_def, rule_format, of i loc] by auto
  then obtain x where x: "vcElementAt loc body = Some x" "prev < vce_seqNum x" "vce_seqNum x \<le> vc_lastStable h + kWorkWindowSize"
    "vce_originView x < vc_newView h" "vceCertOk x" "elementLength x \<le> rem" "seq = vce_seqNum x"
    "rem1 = rem - elementLength x" "loc1 = int (loc + elementLength x)"
    using checkElement_sound [OF st(1) r49 Suc.prems(2,3)] by blast
  have "element_start body (Suc i) (loc + elementLength x)" using element_start.after [OF Suc.prems(4) x(1)] .
  then obtain xs fin where xs: "vcLayout body (loc + elementLength x) xs fin"
    "vcElementsOk (vc_newView h) (vc_lastStable h) seq xs" "length xs = n"
    "fin \<le> loc + elementLength x + rem1" "rem' = rem1 - (fin - (loc + elementLength x))"
    using Suc.IH [OF st(2) [unfolded x(9)], of "Suc i"] Suc.prems(2,3,5) x(6,8) by fastforce
  have "loc + elementLength x \<le> fin" using vcLayout_le [OF xs(1)] by simp
  then show ?case using x xs by (intro exI [of _ "x # xs"] exI [of _ fin]) auto
qed

section \<open>The iterator walks the list of elements\<close>

definition iterAt :: "byte list \<Rightarrow> nat \<Rightarrow> nat \<Rightarrow> nat \<Rightarrow> ElementsIterator" where
  "iterAt body e k loc = \<lparr>ei_msg = Some body, endLoc = e, ei_currLoc = loc, nextElementNum = k\<rparr>"

lemma iter_step:
  assumes x: "vcElementAt loc body = Some x" and e: "loc + elementLength x \<le> e" "e < 65536" and k: "k < 65535"
  shows "ei_getAndGoToNext (iterAt body e k loc) = Some (Some loc, iterAt body e (k + 1) (loc + elementLength x))"
    and "ei_getCurrent (iterAt body e k loc) = Some (Some loc)"
proof -
  have more: "\<not> e \<le> loc" using e elementLength_pos [of x] by auto
  have u: "u16 (int e - int loc) = e - loc" "u16 (int (loc + 49)) = loc + 49" "u16 (int (k + 1)) = k + 1"
    using e more elementLength_pos [of x] k by (auto simp: u16_def)
  have "ei_getAndGoToNext (iterAt body e k loc) = Some (Some loc, iterAt body e (k + 1) (loc + elementLength x)) \<and>
      ei_getCurrent (iterAt body e k loc) = Some (Some loc)"
    using x
  proof (cases rule: vcElementAt_cases)
    case (1 el)
    then have "49 \<le> e - loc" using e by auto
    then show ?thesis using 1 u more by (simp add: ei_getAndGoToNext_def ei_getCurrent_def ei_end_def iterAt_def Let_def)
  next
    case (2 el c sig)
    then have "59 + pc_certificateSigLength c \<le> e - loc" using e by auto
    moreover have "u16 (int (loc + 49 + 10 + pc_certificateSigLength c)) = loc + 49 + 10 + pc_certificateSigLength c"
      using e 2(5,6) by (simp add: u16_def)
    ultimately show ?thesis using 2 u more
      by (simp add: ei_getAndGoToNext_def ei_getCurrent_def ei_end_def iterAt_def Let_def add.commute add.left_commute)
  qed
  then show "ei_getAndGoToNext (iterAt body e k loc) = Some (Some loc, iterAt body e (k + 1) (loc + elementLength x))"
    and "ei_getCurrent (iterAt body e k loc) = Some (Some loc)" by auto
qed

lemma iter_done:
  assumes "e \<le> loc" "vcHeader body = Some h" "k = vc_numberOfElements h + 1"
  shows "ei_getAndGoToNext (iterAt body e k loc) = Some (None, iterAt body e k loc)"
    and "ei_getCurrent (iterAt body e k loc) = Some None"
  using assms by (simp_all add: ei_getAndGoToNext_def ei_getCurrent_def ei_end_def iterAt_def)

fun positions :: "nat \<Rightarrow> VCElement list \<Rightarrow> nat list" where
  "positions loc [] = []"
| "positions loc (x # xs) = loc # positions (loc + elementLength x) xs"

lemma positions_layout: "vcLayout body loc xs fin \<Longrightarrow> map (\<lambda>p. vcElementAt p body) (positions loc xs) = map Some xs"
  by (induction xs arbitrary: loc) auto

lemma iterateElements_layout:
  assumes "vcLayout body loc xs fin" "fin < 65536" "e = fin \<or> (xs = [] \<and> e \<le> loc)" "vcHeader body = Some h"
    "k + length xs = vc_numberOfElements h + 1" "vc_numberOfElements h < 65535"
  shows "iterateElements (iterAt body e k loc) = Some (positions loc xs)"
  using assms
proof (induction xs arbitrary: loc k)
  case Nil
  then show ?case using iter_done(1) [of e loc body h k] by (subst iterateElements.simps) auto
next
  case (Cons x xs)
  have le: "loc + elementLength x \<le> fin" using vcLayout_le [of body "loc + elementLength x" xs fin] Cons.prems(1) by simp
  have "ei_getAndGoToNext (iterAt body e k loc) = Some (Some loc, iterAt body e (k + 1) (loc + elementLength x))"
    using Cons.prems le by (intro iter_step(1)) auto
  moreover have "iterateElements (iterAt body e (k + 1) (loc + elementLength x)) = Some (positions (loc + elementLength x) xs)"
    using Cons.prems by (intro Cons.IH) auto
  ultimately show ?case by (subst iterateElements.simps) simp
qed

lemma vcElementAt_seqNum:
  "vcElementAt loc body = Some x \<Longrightarrow> \<exists>e. elementAt loc body = Some e \<and> el_seqNum e = vce_seqNum x"
  by (erule vcElementAt_cases) auto

lemma goToAtLeast_layout:
  assumes "vcLayout body loc xs fin" "fin < 65536" "e = fin \<or> (xs = [] \<and> e \<le> loc)" "vcHeader body = Some h"
    "k + length xs = vc_numberOfElements h + 1" "vc_numberOfElements h < 65535"
  shows "\<exists>k' loc'. goToAtLeast lb (iterAt body e k loc) =
      Some (dropWhile (\<lambda>x. vce_seqNum x < lb) xs \<noteq> [], iterAt body e k' loc') \<and>
    vcLayout body loc' (dropWhile (\<lambda>x. vce_seqNum x < lb) xs) fin \<and>
    (e = fin \<or> (dropWhile (\<lambda>x. vce_seqNum x < lb) xs = [] \<and> e \<le> loc')) \<and>
    k' + length (dropWhile (\<lambda>x. vce_seqNum x < lb) xs) = vc_numberOfElements h + 1"
  using assms
proof (induction xs arbitrary: loc k)
  case Nil
  then show ?case using iter_done(2) [of e loc body h k] by (subst goToAtLeast.simps) auto
next
  case (Cons x xs)
  let ?l = "loc + elementLength x"
  have le: "?l \<le> fin" using vcLayout_le [of body ?l xs fin] Cons.prems(1) by simp
  note step = iter_step [of loc body x e k]
  have cur: "ei_getCurrent (iterAt body e k loc) = Some (Some loc)"
    and nxt: "ei_gotoNext (iterAt body e k loc) = Some (iterAt body e (k + 1) ?l)"
    using Cons.prems le step by (auto simp: ei_gotoNext_def)
  obtain el where el: "elementAt loc body = Some el" "el_seqNum el = vce_seqNum x"
    using vcElementAt_seqNum Cons.prems(1) by fastforce
  have go: "goToAtLeast lb (iterAt body e k loc) =
      (if vce_seqNum x < lb then goToAtLeast lb (iterAt body e (k + 1) ?l) else Some (True, iterAt body e k loc))"
    using cur nxt el by (subst goToAtLeast.simps) (simp add: iterAt_def)
  show ?case
  proof (cases "vce_seqNum x < lb")
    case True
    then show ?thesis using go Cons.IH [of ?l "k + 1"] Cons.prems by auto
  next
    case False
    then show ?thesis using go Cons.prems by (intro exI [of _ k] exI [of _ loc]) auto
  qed
qed

lemma layout_iterates:
  assumes h: "vcHeader b = Some h" and xs: "vcLayout b 24 xs fin" "fin \<le> 64000" "length xs = vc_numberOfElements h"
    "if xs = [] then vc_locationAfterLast h = 0 else vc_locationAfterLast h = fin"
  shows "\<exists>it. newElementsIterator (Some b) = Some it \<and>
     (\<exists>ps. iterateElements it = Some ps \<and> map (\<lambda>p. vcElementAt p b) ps = map Some xs) \<and>
     (\<forall>lb. \<exists>it' ps. goToAtLeast lb it = Some (dropWhile (\<lambda>x. vce_seqNum x < lb) xs \<noteq> [], it') \<and>
        iterateElements it' = Some ps \<and>
        map (\<lambda>p. vcElementAt p b) ps = map Some (dropWhile (\<lambda>x. vce_seqNum x < lb) xs))"
proof -
  have n: "24 + 49 * length xs \<le> fin" using vcLayout_le [OF xs(1)] .
  define loc e where "loc = (if xs = [] then 0 else 24 :: nat)" and "e = (if xs = [] then 0 else fin)"
  have it: "newElementsIterator (Some b) = Some (iterAt b e 1 loc)"
    using h xs(3,4) n by (cases xs) (auto simp: newElementsIterator_def iterAt_def loc_def e_def)
  have lay: "\<exists>f. vcLayout b loc xs f \<and> f < 65536 \<and> (e = f \<or> xs = [] \<and> e \<le> loc)"
    using xs(1,2) by (cases xs) (auto simp: loc_def e_def)
  then obtain f where f: "vcLayout b loc xs f" "f < 65536" "e = f \<or> (xs = [] \<and> e \<le> loc)" by blast
  have k: "1 + length xs = vc_numberOfElements h + 1" "vc_numberOfElements h < 65535" using xs(2,3) n by auto
  have "\<exists>ps. iterateElements (iterAt b e 1 loc) = Some ps \<and> map (\<lambda>p. vcElementAt p b) ps = map Some xs"
    using iterateElements_layout [OF f h k] positions_layout [OF f(1)] by blast
  moreover have "\<exists>it' ps. goToAtLeast lb (iterAt b e 1 loc) = Some (dropWhile (\<lambda>x. vce_seqNum x < lb) xs \<noteq> [], it') \<and>
      iterateElements it' = Some ps \<and> map (\<lambda>p. vcElementAt p b) ps = map Some (dropWhile (\<lambda>x. vce_seqNum x < lb) xs)" for lb
  proof -
    obtain k' loc' where g: "goToAtLeast lb (iterAt b e 1 loc) = Some (dropWhile (\<lambda>x. vce_seqNum x < lb) xs \<noteq> [], iterAt b e k' loc')"
      "vcLayout b loc' (dropWhile (\<lambda>x. vce_seqNum x < lb) xs) f"
      "e = f \<or> (dropWhile (\<lambda>x. vce_seqNum x < lb) xs = [] \<and> e \<le> loc')"
      "k' + length (dropWhile (\<lambda>x. vce_seqNum x < lb) xs) = vc_numberOfElements h + 1"
      using goToAtLeast_layout [OF f h k, of lb] by blast
    show ?thesis
      using g(1) iterateElements_layout [OF g(2) f(2) g(3) h g(4) k(2)] positions_layout [OF g(2)] by blast
  qed
  ultimately show ?thesis using it by blast
qed

text \<open>A message that passes the check denotes a list of elements.\<close>

lemma checkElements_denotes:
  assumes "wf_msg m" "checkElements sigSize m = Some True" "vcHeader (msgBody m) = Some h"
    "sizeofViewChangeMsgHeader + sigSize \<le> msgSize m" "msgSize m \<le> maxExternalMessageSize"
    "short_certificates (msgBody m) (vc_numberOfElements h)"
  shows "\<exists>xs fin. vcLayout (msgBody m) 24 xs fin \<and> fin \<le> 64000 \<and> length xs = vc_numberOfElements h \<and>
    vcElementsOk (vc_newView h) (vc_lastStable h) (vc_lastStable h) xs \<and>
    (if xs = [] then vc_locationAfterLast h = 0 else vc_locationAfterLast h = fin)"
proof -
  let ?rem = "u16 (int (msgSize m) - int sigSize - 24)"
  have rem: "?rem = msgSize m - sigSize - 24" using assms(4,5) by (auto simp: u16_def)
  obtain rem' where loop: "checkElementsLoop (msgBody m) h (vc_numberOfElements h) (vc_lastStable h) ?rem (int 24) = Some (Some (0, rem'))"
    and fin: "if vc_numberOfElements h > 0 then int (vc_locationAfterLast h) = i16 (int (msgSize m) - int sigSize - int rem')
      else vc_locationAfterLast h = 0"
    using assms(2,3)
    by (cases "vc_numberOfElements h") (auto simp: checkElements_def Option.bind_eq_Some_conv split: option.split_asm if_split_asm)
  obtain xs fin where xs: "vcLayout (msgBody m) 24 xs fin" "vcElementsOk (vc_newView h) (vc_lastStable h) (vc_lastStable h) xs"
    "length xs = vc_numberOfElements h" "fin \<le> 24 + ?rem" "rem' = ?rem - (fin - 24)"
    using checkElementsLoop_sound [OF loop, of 0] assms(1,4,5,6) rem element_start.first [of "msgBody m"]
    by (fastforce simp: wf_msg_def)
  have le: "24 \<le> fin" using vcLayout_le [OF xs(1)] by simp
  have bound: "fin \<le> 64000" using xs(4) rem assms(4,5) by simp
  have "vc_locationAfterLast h = fin" if "xs \<noteq> []"
  proof -
    have "int (msgSize m) - int sigSize - int rem' = int fin" using xs(4,5) rem assms(4) le by auto
    moreover have "0 < vc_numberOfElements h" using that xs(3) by (cases xs) auto
    ultimately have i: "int (vc_locationAfterLast h) = i16 (int fin)" using fin by simp
    have "i16 (int fin) = int fin \<or> i16 (int fin) < 0" 
    proof (cases "fin < 32768")
      case False
      then have "(int fin + 32768) mod 65536 = int fin - 32768"
        using bound mod_pos_pos_trivial [of "int fin - 32768" 65536] mod_add_self2 [of "int fin - 32768" 65536] by (simp add: add.commute)
      then show ?thesis using bound by (simp add: i16_def)
    qed (simp add: i16_small)
    then show ?thesis using i by linarith
  qed
  then show ?thesis using xs fin bound by (intro exI [of _ xs] exI [of _ fin]) auto
qed

text \<open>C22: a report that passes \<open>checkElements\<close> is a list of elements: the iterator visits exactly the
  announced number of them without failing an assertion; their sequence numbers increase strictly and lie
  in the window above the last stable checkpoint, each originates from an earlier view than the new one,
  each certificate is not younger than its element; and \<open>goToAtLeast\<close> stops at the first element that is
  not below the bound. This needs that no certificate claims more than 32757 bytes.\<close>

theorem view_change_report_iterates:
  assumes "wf_msg m" "checkElements sigSize m = Some True" "vcHeader (msgBody m) = Some h"
    "sizeofViewChangeMsgHeader + sigSize \<le> msgSize m" "msgSize m \<le> maxExternalMessageSize"
    "short_certificates (msgBody m) (vc_numberOfElements h)"
  shows "\<exists>xs it. newElementsIterator (Some (msgBody m)) = Some it \<and> length xs = vc_numberOfElements h \<and>
     vcElementsOk (vc_newView h) (vc_lastStable h) (vc_lastStable h) xs \<and>
     (\<exists>ps. iterateElements it = Some ps \<and> map (\<lambda>p. vcElementAt p (msgBody m)) ps = map Some xs) \<and>
     (\<forall>lb. \<exists>it' ps. goToAtLeast lb it = Some (dropWhile (\<lambda>x. vce_seqNum x < lb) xs \<noteq> [], it') \<and>
        iterateElements it' = Some ps \<and>
        map (\<lambda>p. vcElementAt p (msgBody m)) ps = map Some (dropWhile (\<lambda>x. vce_seqNum x < lb) xs))"
proof -
  obtain xs fin where xs: "vcLayout (msgBody m) 24 xs fin" "fin \<le> 64000" "length xs = vc_numberOfElements h"
    "vcElementsOk (vc_newView h) (vc_lastStable h) (vc_lastStable h) xs"
    "if xs = [] then vc_locationAfterLast h = 0 else vc_locationAfterLast h = fin"
    using checkElements_denotes [OF assms] by blast
  then show ?thesis using layout_iterates [OF assms(3) xs(1-3,5)] by blast
qed

section \<open>A report survives the wire\<close>

fun vc_addElements :: "SigManager \<Rightarrow> VCElement list \<Rightarrow> MessageBase \<Rightarrow> MessageBase option" where
  "vc_addElements sm [] m = Some m"
| "vc_addElements sm (x # xs) m = do {
     m \<leftarrow> vc_addElement sm (vce_seqNum x) (vce_digest x) (vce_originView x) (vce_cert x) m;
     vc_addElements sm xs m
   }"

definition is_vcElement :: "VCElement \<Rightarrow> bool" where
  "is_vcElement x \<longleftrightarrow> is_i64 (vce_seqNum x) \<and> is_i64 (vce_originView x) \<and> length (vce_digest x) = DIGEST_SIZE \<and>
     (case vce_cert x of None \<Rightarrow> True | Some (v, sig) \<Rightarrow> is_i64 v \<and> length sig < 65536)"

definition vcSize :: "VCElement list \<Rightarrow> nat" where
  "vcSize xs = sum_list (map elementLength xs)"

definition vcBuilding :: "ReplicaId \<Rightarrow> ViewNum \<Rightarrow> SeqNum \<Rightarrow> VCElement list \<Rightarrow> byte list \<Rightarrow> bool" where
  "vcBuilding r v s xs body \<longleftrightarrow>
     vcHeader body = Some \<lparr>vc_genReplicaId = r, vc_newView = v, vc_lastStable = s, vc_numberOfElements = length xs,
       vc_locationAfterLast = (if xs = [] then 0 else 24 + vcSize xs)\<rparr> \<and>
     rd_nat 0 2 body = Some MsgCode_ViewChange \<and> vcLayout body 24 xs (24 + vcSize xs)"

lemma vcElementAt_cong:
  assumes same: "\<And>p k. loc \<le> p \<Longrightarrow> p + k \<le> fin \<Longrightarrow> rd p k b' = rd p k b" and x: "vcElementAt loc b = Some x" "loc + elementLength x \<le> fin"
  shows "vcElementAt loc b' = Some x"
proof -
  have e: "elementAt loc b' = elementAt loc b"
    using x(2) elementLength_pos [of x] by (simp add: elementAt_def rd_i64_def rd_nat_def same)
  show ?thesis using x(1)
  proof (cases rule: vcElementAt_cases)
    case (1 el)
    then show ?thesis using x e by (simp add: vcElementAt_def)
  next
    case (2 el c sig)
    then have "certificateAt (loc + 49) b' = certificateAt (loc + 49) b" 
      using x(2) by (simp add: certificateAt_def rd_i64_def rd_nat_def same)
    moreover have "rd (59 + loc) (pc_certificateSigLength c) b' = rd (59 + loc) (pc_certificateSigLength c) b"
      using x(2) 2 by (intro same) auto
    ultimately show ?thesis using x 2 e by (simp add: vcElementAt_def)
  qed
qed

lemma vcLayout_cong:
  assumes "vcLayout b loc xs fin" "\<And>p k. loc \<le> p \<Longrightarrow> p + k \<le> fin \<Longrightarrow> rd p k b' = rd p k b"
  shows "vcLayout b' loc xs fin"
  using assms
proof (induction xs arbitrary: loc)
  case (Cons x xs)
  have le: "loc + elementLength x \<le> fin" using vcLayout_le [of b "loc + elementLength x" xs fin] Cons.prems(1) by simp
  have "vcElementAt loc b' = Some x" using vcElementAt_cong [OF Cons.prems(2) _ le] Cons.prems(1) by simp
  moreover have "vcLayout b' (loc + elementLength x) xs fin"
    using Cons.prems by (intro Cons.IH) auto
  ultimately show ?case by simp
qed simp

lemma vcLayout_snoc:
  "vcLayout b loc xs fin \<Longrightarrow> vcElementAt fin b = Some x \<Longrightarrow> vcLayout b loc (xs @ [x]) (fin + elementLength x)"
  by (induction xs arbitrary: loc) auto

lemma newViewChangeMsg_building:
  assumes "r < 2 ^ 16" "is_i64 v" "is_i64 s"
  shows "\<exists>m. newViewChangeMsg r v s = Some m \<and> vcBuilding r v s [] (msgBody m) \<and> wf_msg m \<and> owner m \<and>
    storageSize m = maxExternalMessageSize \<and> sender m = r"
proof -
  let ?fs = "[(2, le_bytes 2 r), (4, i64_bytes v), (12, i64_bytes s), (20, le_bytes 2 0), (22, le_bytes 2 0)]"
  obtain m b where m: "newMessage r MsgCode_ViewChange maxExternalMessageSize = Some m" "wrs ?fs (msgBody m) = Some b"
    "wf_msg (m\<lparr>msgBody := b\<rparr>)" "storageSize m = maxExternalMessageSize" "sender m = r" "owner m"
    "rd_nat 0 2 b = Some MsgCode_ViewChange" "length b = maxExternalMessageSize"
    and rds: "\<forall>(off, bs) \<in> set ?fs. rd off (length bs) b = Some bs"
    using new_packed [OF assms(1), of MsgCode_ViewChange maxExternalMessageSize ?fs] by auto
  have "rd 2 2 b = Some (le_bytes 2 r)" "rd 4 8 b = Some (i64_bytes v)" "rd 12 8 b = Some (i64_bytes s)"
    "rd 20 2 b = Some (le_bytes 2 0)" "rd 22 2 b = Some (le_bytes 2 0)"
    using rds by auto
  then have "vcBuilding r v s [] b"
    using assms m(7) by (simp add: vcBuilding_def vcHeader_def rd_nat_def rd_i64_def i64_roundtrip le_val_le_bytes vcSize_def)
  moreover have "newViewChangeMsg r v s = Some (m\<lparr>msgBody := b\<rparr>)" using m(1,2) by (simp add: newViewChangeMsg_def)
  ultimately show ?thesis using m by auto
qed

text \<open>The fields \<open>addElement\<close> writes, and what can be read afterwards.\<close>

definition elementFields :: "nat \<Rightarrow> VCElement \<Rightarrow> (nat \<times> byte list) list" where
  "elementFields loc x = [(loc, i64_bytes (vce_seqNum x)), (loc + 8, vce_digest x), (loc + 40, i64_bytes (vce_originView x)),
     (loc + 48, [if vce_cert x = None then 0 else 1])] @ certificateFields (loc + sizeofElement) (vce_cert x)"

lemma elementFields_apart:
  assumes "length (vce_digest x) = 32"
  shows "sorted_wrt apart (elementFields loc x)"
    and "(off, bs) \<in> set (elementFields loc x) \<Longrightarrow> loc \<le> off \<and> off + length bs \<le> loc + elementLength x"
  using assms by (auto simp: elementFields_def certificateFields_def elementLength_def split: option.splits)

lemma elementFields_read:
  assumes rds: "\<forall>(off, bs) \<in> set (elementFields loc x). rd off (length bs) b = Some bs" and x: "is_vcElement x"
  shows "vcElementAt loc b = Some x"
proof -
  have d: "length (vce_digest x) = 32" "is_i64 (vce_seqNum x)" "is_i64 (vce_originView x)" using x by (auto simp: is_vcElement_def)
  have "rd loc 8 b = Some (i64_bytes (vce_seqNum x))" "rd (loc + 8) 32 b = Some (vce_digest x)"
    "rd (loc + 40) 8 b = Some (i64_bytes (vce_originView x))" "rd (loc + 48) 1 b = Some [if vce_cert x = None then 0 else 1]"
    using rds d(1) by (auto simp: elementFields_def)
  then have e: "elementAt loc b = Some \<lparr>el_seqNum = vce_seqNum x, el_prePrepareDigest = vce_digest x,
      el_originView = vce_originView x, el_hasPreparedCertificate = (vce_cert x \<noteq> None)\<rparr>"
    using d by (auto simp: elementAt_def rd_i64_def rd_nat_def i64_roundtrip)
  show ?thesis
  proof (cases "vce_cert x")
    case None
    then show ?thesis using e by (simp add: vcElementAt_def)
  next
    case (Some c)
    obtain v sig where c: "c = (v, sig)" by (cases c)
    have "rd (loc + 49) 8 b = Some (i64_bytes v)" "rd (57 + loc) 2 b = Some (le_bytes 2 (length sig))"
      "rd (59 + loc) (length sig) b = Some sig" "is_i64 v" "length sig < 65536"
      using rds x Some c by (auto simp: elementFields_def certificateFields_def is_vcElement_def add.commute)
    then have "certificateAt (loc + 49) b = Some \<lparr>pc_certificateView = v, pc_certificateSigLength = length sig\<rparr>"
      "rd (59 + loc) (length sig) b = Some sig"
      by (simp_all add: certificateAt_def rd_i64_def rd_nat_def i64_roundtrip le_val_le_bytes)
    then show ?thesis using e Some c by (simp add: vcElementAt_def)
  qed
qed

lemma vcSize_snoc [simp]: "vcSize (xs @ [x]) = vcSize xs + elementLength x"
  by (simp add: vcSize_def)

lemma vcSize_length: "49 * length xs \<le> vcSize xs"
proof (induction xs)
  case (Cons x xs)
  then show ?case using elementLength_pos [of x] by (simp add: vcSize_def)
qed (simp add: vcSize_def)

lemma addElement_building:
  assumes lay: "vcBuilding r v s xs (msgBody m)" and m: "wf_msg m" "storageSize m = maxExternalMessageSize"
    and x: "is_vcElement x" "s < vce_seqNum x" "vce_seqNum x \<le> s + kWorkWindowSize"
    and n: "int (length xs) < kWorkWindowSize" and fit: "24 + vcSize (xs @ [x]) + getMySigLength sm \<le> maxExternalMessageSize"
  shows "\<exists>b. vc_addElement sm (vce_seqNum x) (vce_digest x) (vce_originView x) (vce_cert x) m = Some (m\<lparr>msgBody := b\<rparr>) \<and>
    vcBuilding r v s (xs @ [x]) b \<and> wf_msg (m\<lparr>msgBody := b\<rparr>)"
proof -
  define b loc where "b = msgBody m" and "loc = 24 + vcSize xs"
  let ?fin = "loc + elementLength x"
  have d: "length (vce_digest x) = 32" using x(1) by (simp add: is_vcElement_def)
  have len: "length b = 64000" using m by (simp add: wf_msg_def b_def)
  have fin: "?fin + getMySigLength sm \<le> 64000" using fit by (simp add: loc_def)
  have h: "vcHeader b = Some \<lparr>vc_genReplicaId = r, vc_newView = v, vc_lastStable = s, vc_numberOfElements = length xs,
      vc_locationAfterLast = (if xs = [] then 0 else loc)\<rparr>" and type: "rd_nat 0 2 b = Some MsgCode_ViewChange"
    and old: "vcLayout b 24 xs loc" using lay by (simp_all add: vcBuilding_def b_def loc_def)
  let ?fs = "elementFields loc x @ [(22, le_bytes 2 ?fin), (20, le_bytes 2 (length xs + 1))]"
  note ap = elementFields_apart [OF d, where loc = loc]
  have sep: "sorted_wrt apart ?fs" using ap by (fastforce simp: sorted_wrt_append loc_def)
  have bnd: "\<forall>(off, bs) \<in> set ?fs. off + length bs \<le> length b" using ap(2) len fin loc_def by fastforce
  obtain b' where b': "wrs ?fs b = Some b'" "length b' = 64000" using wrs_total [OF bnd] len by auto
  have same: "rd p k b' = rd p k b" if pk: "p + k \<le> 20 \<or> (24 \<le> p \<and> p + k \<le> loc)" for p k
  proof -
    have "p + k \<le> off \<or> off + length bs \<le> p" if "(off, bs) \<in> set ?fs" for off bs
      using that pk ap(2) [of off bs] loc_def by auto
    then show ?thesis by (intro rd_wrs_other [OF b'(1)]) blast
  qed
  have rds: "rd off (length bs) b' = Some bs" if "(off, bs) \<in> set ?fs" for off bs using rd_wrs [OF b'(1) that sep] .
  have "vcElementAt loc b' = Some x" using rds x(1) by (intro elementFields_read) auto
  moreover have "vcLayout b' 24 xs loc" using vcLayout_cong [OF old] same by simp
  ultimately have lay': "vcLayout b' 24 (xs @ [x]) ?fin" using vcLayout_snoc by blast
  have "rd 22 2 b' = Some (le_bytes 2 ?fin)" "rd 20 2 b' = Some (le_bytes 2 (length xs + 1))"
    using rds [of 22 "le_bytes 2 ?fin"] rds [of 20 "le_bytes 2 (length xs + 1)"] by simp_all
  then have "vcHeader b' = Some \<lparr>vc_genReplicaId = r, vc_newView = v, vc_lastStable = s, vc_numberOfElements = length xs + 1,
      vc_locationAfterLast = ?fin\<rparr>"
    using h n fin same [of 2 2] same [of 4 8] same [of 12 8]
    by (auto simp: vcHeader_def rd_nat_def rd_i64_def le_val_le_bytes Option.bind_eq_Some_conv)
  then have "vcBuilding r v s (xs @ [x]) b'" 
    using lay' type same [of 0 2] unfolding loc_def by (simp add: vcBuilding_def rd_nat_def add.assoc)
  moreover have "vc_addElement sm (vce_seqNum x) (vce_digest x) (vce_originView x) (vce_cert x) m = Some (m\<lparr>msgBody := b'\<rparr>)"
  proof -
    have u: "u16 (int loc + 49) = loc + 49" "\<And>v sig. vce_cert x = Some (v, sig) \<Longrightarrow> u16 (59 + int loc + int (length sig)) = loc + (59 + length sig)"
      using fin elementLength_pos [of x] by (auto simp: u16_def elementLength_def)
    have l: "xs = [] \<Longrightarrow> loc = 24" "0 < loc" by (simp_all add: loc_def vcSize_def)
    show ?thesis
    proof (cases "vce_cert x")
      case None
      then show ?thesis using h x(2,3) n fin b'(1) m(2) u(1) l
        by (cases "xs = []") (simp_all add: vc_addElement_def b_def [symmetric] Let_def elementLength_def elementFields_def)
    next
      case (Some c)
      obtain cv sig where c: "c = (cv, sig)" by (cases c)
      then show ?thesis using h x(2,3) n fin b'(1) m(2) u(1) u(2) [of cv sig] l Some
        by (cases "xs = []") (simp_all add: vc_addElement_def b_def [symmetric] Let_def elementLength_def elementFields_def algebra_simps)
    qed
  qed
  ultimately show ?thesis using m b'(2) by (intro exI [of _ b']) (simp add: wf_msg_def)
qed

lemma vcElementsOk_window:
  "vcElementsOk v s prev xs \<Longrightarrow> x \<in> set xs \<Longrightarrow> prev < vce_seqNum x \<and> vce_seqNum x \<le> s + kWorkWindowSize"
  by (induction xs arbitrary: prev) fastforce+

lemma vcElementsOk_few: "vcElementsOk v s prev xs \<Longrightarrow> prev \<le> s + kWorkWindowSize \<Longrightarrow> int (length xs) \<le> s + kWorkWindowSize - prev"
proof (induction xs arbitrary: prev)
  case (Cons x xs)
  then have "int (length xs) \<le> s + kWorkWindowSize - vce_seqNum x" by (intro Cons.IH) auto
  then show ?case using Cons.prems(1) by simp
qed simp

lemma addElements_building:
  assumes "vcBuilding r v s xs0 (msgBody m)" "wf_msg m" "storageSize m = maxExternalMessageSize"
    "\<forall>x \<in> set xs. is_vcElement x \<and> s < vce_seqNum x \<and> vce_seqNum x \<le> s + kWorkWindowSize"
    "int (length (xs0 @ xs)) \<le> kWorkWindowSize" "24 + vcSize (xs0 @ xs) + getMySigLength sm \<le> maxExternalMessageSize"
  shows "\<exists>b. vc_addElements sm xs m = Some (m\<lparr>msgBody := b\<rparr>) \<and> vcBuilding r v s (xs0 @ xs) b \<and> wf_msg (m\<lparr>msgBody := b\<rparr>)"
  using assms
proof (induction xs arbitrary: m xs0)
  case Nil
  then show ?case by (intro exI [of _ "msgBody m"]) simp
next
  case (Cons x xs)
  have "24 + vcSize (xs0 @ [x]) + getMySigLength sm \<le> maxExternalMessageSize"
    using Cons.prems(6) by (simp add: vcSize_def)
  then obtain b where b: "vc_addElement sm (vce_seqNum x) (vce_digest x) (vce_originView x) (vce_cert x) m = Some (m\<lparr>msgBody := b\<rparr>)"
    "vcBuilding r v s (xs0 @ [x]) b" "wf_msg (m\<lparr>msgBody := b\<rparr>)"
    using addElement_building [OF Cons.prems(1-3), of x sm] Cons.prems(4,5) by auto
  obtain b' where "vc_addElements sm xs (m\<lparr>msgBody := b\<rparr>) = Some (m\<lparr>msgBody := b\<rparr>\<lparr>msgBody := b'\<rparr>)"
    "vcBuilding r v s ((xs0 @ [x]) @ xs) b'" "wf_msg (m\<lparr>msgBody := b\<rparr>\<lparr>msgBody := b'\<rparr>)"
    using Cons.IH [of "xs0 @ [x]" "m\<lparr>msgBody := b\<rparr>"] Cons.prems(3-6) b(2,3) by auto
  then show ?case using b(1) by auto
qed

lemma finalize_building:
  assumes lay: "vcBuilding r v s xs (msgBody m)" and m: "wf_msg m" "owner m" "storageSize m = maxExternalMessageSize"
    and ok: "vcElementsOk v s s xs" and small: "24 + vcSize xs < 32768" and fit: "24 + vcSize xs + getMySigLength sm \<le> maxExternalMessageSize"
    and sign: "\<forall>d. \<exists>sig. sm_sign sm d (getMySigLength sm) = Some sig \<and> length sig = getMySigLength sm"
  defines "n \<equiv> 24 + vcSize xs"
  shows "\<exists>m' sig. vc_finalizeMessage sm m = Some m' \<and> vcBuilding r v s xs (msgBody m') \<and> wf_msg m' \<and>
    msgSize m' = n + getMySigLength sm \<and> sender m' = sender m \<and> checkElements (getMySigLength sm) m' = Some True \<and>
    sm_sign sm (take n (msgBody m')) (getMySigLength sm) = Some sig \<and> rd n (getMySigLength sm) (msgBody m') = Some sig \<and>
    rd 0 n (msgBody m') = Some (take n (msgBody m'))"
proof -
  let ?k = "getMySigLength sm" and ?b = "msgBody m"
  have h: "vcHeader ?b = Some \<lparr>vc_genReplicaId = r, vc_newView = v, vc_lastStable = s, vc_numberOfElements = length xs,
      vc_locationAfterLast = (if xs = [] then 0 else n)\<rparr>" using lay by (simp add: vcBuilding_def n_def)
  have size: "(if (if xs = [] then 0 else n) = 0 then sizeofViewChangeMsgHeader else if xs = [] then 0 else n) = n"
    by (auto simp: n_def vcSize_def)
  obtain m1 where m1: "setMsgSize m (n + ?k) = Some m1" "take (n + ?k) (msgBody m1) = take (n + ?k) ?b"
    using setMsgSize_total [OF m(1), of "n + ?k"] fit m(3) by (auto simp: n_def)
  have wf1: "wf_msg m1" "msgSize m1 = n + ?k" "sender m1 = sender m" "owner m1" using wf_setMsgSize [OF m(1) m1(1)] m(2) by auto
  obtain m2 where m2: "shrinkToFit m1 = Some m2" "msgBody m2 = take (n + ?k) ?b" using wf1 m1(2) by (simp add: shrinkToFit_def)
  have wf2: "wf_msg m2" "msgSize m2 = n + ?k" "sender m2 = sender m" using wf_shrinkToFit [OF wf1(1) m2(1)] wf1 by auto
  have len2: "length (msgBody m2) = n + ?k" using m2(2) fit m by (simp add: n_def wf_msg_def)
  obtain sig where sig: "sm_sign sm (take n (msgBody m2)) ?k = Some sig" "length sig = ?k" using sign by blast
  obtain b3 where b3: "wr n sig (msgBody m2) = Some b3" using wr_total [of n sig "msgBody m2"] len2 sig(2) by auto
  let ?m3 = "m2\<lparr>msgBody := b3\<rparr>"
  have len3: "length b3 = n + ?k" using length_wr [OF b3] len2 by simp
  have same: "rd p q b3 = rd p q ?b" if "p + q \<le> n" for p q
    using that rd_wr_before [OF b3 that] m2(2) rd_take [of p q "n + ?k" ?b] m fit by (simp add: n_def wf_msg_def)
  have n24: "24 \<le> n" by (simp add: n_def)
  have h3: "vcHeader b3 = vcHeader ?b" using n24 by (simp add: vcHeader_def rd_nat_def rd_i64_def same)
  have lay3: "vcLayout b3 24 xs n" using vcLayout_cong [of ?b 24 xs n b3] lay same by (simp add: vcBuilding_def n_def)
  have build: "vcBuilding r v s xs b3" using h h3 lay3 same [of 0 2] lay n24 by (simp add: vcBuilding_def n_def rd_nat_def)
  have "u16 (int (msgSize ?m3) - int ?k - 24) = vcSize xs" using wf2(2) small by (simp add: n_def u16_def)
  moreover have "checkElementsLoop b3 \<lparr>vc_genReplicaId = r, vc_newView = v, vc_lastStable = s, vc_numberOfElements = length xs,
      vc_locationAfterLast = (if xs = [] then 0 else n)\<rparr> (length xs) s (vcSize xs) (int 24) = Some (Some (0, vcSize xs - (n - 24)))"
    using lay3 ok small by (intro checkElementsLoop_layout) (auto simp: n_def)
  moreover have "i16 (int n) = int n" using small by (intro i16_small) (auto simp: n_def)
  ultimately have check: "checkElements ?k ?m3 = Some True"
    using h h3 wf2(2) by (auto simp: checkElements_def n_def)
  have d: "rd 0 n (msgBody m2) = Some (take n (msgBody m2))" using len2 by (simp add: rd_def)
  have take: "take n b3 = take n (msgBody m2)" using b3 len2 by (auto simp: wr_def split: if_splits)
  have fin: "vc_finalizeMessage sm m = Some ?m3"
    unfolding vc_finalizeMessage_def using h m1(1) m2(1) d sig(1) b3 check
    by (simp add: size Let_def del: sizeofViewChangeMsgHeader_def cong: if_cong)
  show ?thesis
    using fin build wf2 len3 check sig take rd_wr_same [OF b3] m2(2)
    by (intro exI [of _ ?m3] exI [of _ sig]) (auto simp: wf_msg_def rd_def n_def)
qed

text \<open>C21: a report survives the wire. A replica starts a report, adds elements in increasing order that
  fit, and finalizes it; every other replica accepts it, and iterating over it gives exactly the reported
  elements with their certificates.\<close>

theorem view_change_report_roundtrip:
  assumes "keys_ok sm rs" "r \<in> rs" "ri_myId info \<in> rs" "ri_myId info \<noteq> r" "wf_replicas_info info" "isIdOfReplica info r"
    and "is_i64 v" "is_i64 s" "\<forall>x \<in> set xs. is_vcElement x" "vcElementsOk v s s xs"
    and "sizeofViewChangeMsgHeader + vcSize xs < 32768"
    and "sizeofViewChangeMsgHeader + vcSize xs + getMySigLength (sm r) \<le> maxExternalMessageSize"
  shows "\<exists>m0 m1 m h it ps. newViewChangeMsg r v s = Some m0 \<and> vc_addElements (sm r) xs m0 = Some m1 \<and>
     vc_finalizeMessage (sm r) m1 = Some m \<and> ViewChangeMsg_ToActualMsgType info (sm (ri_myId info)) m = Some True \<and>
     vcHeader (msgBody m) = Some h \<and> vc_genReplicaId h = r \<and> vc_newView h = v \<and> vc_lastStable h = s \<and>
     newElementsIterator (Some (msgBody m)) = Some it \<and> iterateElements it = Some ps \<and>
     map (\<lambda>p. vcElementAt p (msgBody m)) ps = map Some xs"
proof -
  let ?k = "getMySigLength (sm r)" and ?n = "24 + vcSize xs"
  have r: "r < 2 ^ 16" using assms(5,6) by (auto simp: isIdOfReplica_def wf_replicas_info_def)
  obtain m0 where m0: "newViewChangeMsg r v s = Some m0" "vcBuilding r v s [] (msgBody m0)" "wf_msg m0" "owner m0"
    "storageSize m0 = maxExternalMessageSize" using newViewChangeMsg_building [OF r assms(7,8)] by blast
  have els: "\<forall>x \<in> set xs. is_vcElement x \<and> s < vce_seqNum x \<and> vce_seqNum x \<le> s + kWorkWindowSize"
    using assms(9) vcElementsOk_window [OF assms(10)] by blast
  have few: "int (length xs) \<le> kWorkWindowSize" using vcElementsOk_few [OF assms(10)] by simp
  obtain b where b: "vc_addElements (sm r) xs m0 = Some (m0\<lparr>msgBody := b\<rparr>)" "vcBuilding r v s xs b" "wf_msg (m0\<lparr>msgBody := b\<rparr>)"
    using addElements_building [OF m0(2,3,5) els, of "sm r"] few assms(12) by auto
  note sv = sign_verifies [OF assms(1-4)]
  have sgn: "\<forall>d. \<exists>sig. sm_sign (sm r) d ?k = Some sig \<and> length sig = ?k" using sv by blast
  obtain m sig where m: "vc_finalizeMessage (sm r) (m0\<lparr>msgBody := b\<rparr>) = Some m" "vcBuilding r v s xs (msgBody m)"
    "wf_msg m" "msgSize m = ?n + ?k" "checkElements ?k m = Some True"
    "sm_sign (sm r) (take ?n (msgBody m)) ?k = Some sig" "rd ?n ?k (msgBody m) = Some sig"
    "rd 0 ?n (msgBody m) = Some (take ?n (msgBody m))"
    using finalize_building [of r v s xs "m0\<lparr>msgBody := b\<rparr>" "sm r"] b(2,3) m0(4,5) assms(10-12) sgn by auto
  have ver: "getSigLength (sm (ri_myId info)) r = Some ?k" "verifySig (sm (ri_myId info)) r (take ?n (msgBody m)) sig = Some True"
    using sv [of "take ?n (msgBody m)"] m(6) by auto
  have h: "vcHeader (msgBody m) = Some \<lparr>vc_genReplicaId = r, vc_newView = v, vc_lastStable = s, vc_numberOfElements = length xs,
      vc_locationAfterLast = (if xs = [] then 0 else ?n)\<rparr>" and type: "msgType m = Some MsgCode_ViewChange"
    and lay: "vcLayout (msgBody m) 24 xs ?n" using m(2) by (simp_all add: vcBuilding_def msgType_def)
  have dl: "(if (if xs = [] then 0 else ?n) < 24 then 24 else if xs = [] then 0 else ?n) = ?n" by (auto simp: vcSize_def)
  have "ViewChangeMsg_ToActualMsgType info (sm (ri_myId info)) m = Some True"
    unfolding ViewChangeMsg_ToActualMsgType_def using type h m(4,5,7,8) ver assms(4,6)
    by (simp add: dl Let_def cong: if_cong)
  moreover have "\<exists>it ps. newElementsIterator (Some (msgBody m)) = Some it \<and> iterateElements it = Some ps \<and>
      map (\<lambda>p. vcElementAt p (msgBody m)) ps = map Some xs"
  proof -
    have fin: "?n \<le> 64000" using assms(11) by simp
    show ?thesis using layout_iterates [OF h lay fin] by (cases "xs = []") fastforce+
  qed
  ultimately show ?thesis using m0(1) b(1) m(1) h by auto
qed

section \<open>Concrete reports\<close>

definition sample_keys :: "ReplicaId \<Rightarrow> SigManager" where
  "sample_keys r = \<lparr>sm_myId = r, sm_mySigner = \<lparr>rs_signatureLength = 4, rs_sign = (\<lambda>d. replicate 4 255)\<rparr>,
     sm_replicasVerifiers = (\<lambda>q. Some \<lparr>rv_signatureLength = 4, rv_verify = (\<lambda>d sig. sig = replicate 4 255)\<rparr>)\<rparr>"

lemma sample_keys_ok: "keys_ok sample_keys rs"
  by (simp add: keys_ok_def sample_keys_def)

definition sample_report :: "VCElement list" where
  "sample_report = [\<lparr>vce_seqNum = 4, vce_digest = replicate 32 7, vce_originView = 0, vce_cert = None\<rparr>,
     \<lparr>vce_seqNum = 6, vce_digest = replicate 32 8, vce_originView = 1, vce_cert = Some (0, [1, 2, 3])\<rparr>]"

theorem view_change_report_roundtrip_witness:
  "\<exists>m0 m1 m h it ps. newViewChangeMsg 0 2 3 = Some m0 \<and> vc_addElements (sample_keys 0) sample_report m0 = Some m1 \<and>
     vc_finalizeMessage (sample_keys 0) m1 = Some m \<and> ViewChangeMsg_ToActualMsgType sample_info (sample_keys 1) m = Some True \<and>
     vcHeader (msgBody m) = Some h \<and> vc_genReplicaId h = 0 \<and> vc_newView h = 2 \<and> vc_lastStable h = 3 \<and>
     newElementsIterator (Some (msgBody m)) = Some it \<and> iterateElements it = Some ps \<and>
     map (\<lambda>p. vcElementAt p (msgBody m)) ps = map Some sample_report"
  using view_change_report_roundtrip [OF sample_keys_ok [of UNIV] _ _ _ sample_info_wf, of 0 2 3 sample_report]
  by (simp add: isIdOfReplica_def is_i64_def is_vcElement_def sample_report_def vceCertOk_def vcSize_def elementLength_def
      getMySigLength_def sample_keys_def u16_def)

text \<open>A report with one element, and its parts: the flag of the certificate, the location after the last
  element, and what follows the element.\<close>

definition one_element_report :: "byte \<Rightarrow> nat \<Rightarrow> byte list \<Rightarrow> MessageBase" where
  "one_element_report flag loc rest =
     messageFromBody 0 (le_bytes 2 114 @ le_bytes 2 0 @ i64_bytes 1 @ i64_bytes 0 @ le_bytes 2 1 @ le_bytes 2 loc @
       i64_bytes 5 @ replicate 32 7 @ i64_bytes 0 @ [flag] @ rest) (73 + length rest) True"

lemma one_element_header:
  "loc < 65536 \<Longrightarrow> vcHeader (msgBody (one_element_report flag loc rest)) =
     Some \<lparr>vc_genReplicaId = 0, vc_newView = 1, vc_lastStable = 0, vc_numberOfElements = 1, vc_locationAfterLast = loc\<rparr>"
  by (simp add: one_element_report_def messageFromBody_def vcHeader_def rd_i64_def rd_nat_def rd_def le_val_le_bytes
      i64_bytes_def i64_of_def)

lemma one_element_at:
  "elementAt 24 (msgBody (one_element_report flag loc rest)) =
     Some \<lparr>el_seqNum = 5, el_prePrepareDigest = replicate 32 7, el_originView = 0, el_hasPreparedCertificate = (le_val [flag] \<noteq> 0)\<rparr>"
  by (simp add: one_element_report_def messageFromBody_def elementAt_def rd_i64_def rd_nat_def rd_def le_val_le_bytes
      i64_bytes_def i64_of_def)

lemma one_element_rest: "24 + 49 \<le> p \<Longrightarrow> rd p k (msgBody (one_element_report flag loc rest)) = rd (p - 73) k rest"
proof -
  assume p: "24 + 49 \<le> p"
  obtain pre where pre: "msgBody (one_element_report flag loc rest) = pre @ rest" "length pre = 73"
    by (rule that [of "le_bytes 2 114 @ le_bytes 2 0 @ i64_bytes 1 @ i64_bytes 0 @ le_bytes 2 1 @ le_bytes 2 loc @
       i64_bytes 5 @ replicate 32 7 @ i64_bytes 0 @ [flag]"]) (simp_all add: one_element_report_def messageFromBody_def)
  show ?thesis using p pre(2) by (auto simp: rd_def pre(1))
qed

lemma element_start_0: "element_start body 0 loc \<longleftrightarrow> loc = 24"
  by (auto intro: element_start.first [simplified] elim: element_start.cases)

theorem view_change_report_iterates_witness:
  "\<exists>xs it. newElementsIterator (Some (msgBody (one_element_report 0 73 [9]))) = Some it \<and> length xs = 1 \<and>
     (\<exists>ps. iterateElements it = Some ps \<and> map (\<lambda>p. vcElementAt p (msgBody (one_element_report 0 73 [9]))) ps = map Some xs)"
proof -
  let ?m = "one_element_report 0 73 [9]"
  have size: "msgSize ?m = 74" by (simp add: one_element_report_def messageFromBody_def)
  have wf: "wf_msg ?m" by (simp add: one_element_report_def messageFromBody_def wf_msg_def)
  have el: "elementAt 24 (msgBody ?m) = Some \<lparr>el_seqNum = 5, el_prePrepareDigest = replicate 32 7, el_originView = 0,
      el_hasPreparedCertificate = False\<rparr>" by (simp add: one_element_at)
  have check: "checkElements 1 ?m = Some True"
    by (simp add: checkElements_def one_element_header checkElement_def el size u16_def i16_def)
  have short: "short_certificates (msgBody ?m) 1"
    using el by (auto simp: short_certificates_def element_start_0)
  show ?thesis
    using view_change_report_iterates [OF wf check one_element_header] short size by fastforce
qed


end
