(* ===== verification/New_View_Msg.thy ===== *)
theory New_View_Msg
  imports Message_Base Replicas_Info Digests
begin

text \<open>
  \<^verbatim>\<open>NewViewMsg.cpp\<close>: the message with which a primary installs its view. It names the view-change
  messages the view is based on: \<open>2F + 2C + 1\<close> pairs of a replica and a digest, sorted by replica, behind
  a header of 12 bytes (type 2, view 8, number of pairs 2).
\<close>

section \<open>The message\<close>

definition sizeofNewViewMsgHeader :: nat where
  [simp]: "sizeofNewViewMsgHeader = 12"

definition sizeofNewViewElement :: nat where
  [simp]: "sizeofNewViewElement = 34"

definition nv_newView :: "byte list \<Rightarrow> ViewNum option" where
  "nv_newView body = rd_i64 2 body"

definition nv_elementsCount :: "byte list \<Rightarrow> nat option" where
  "nv_elementsCount body = rd_nat 10 2 body"

definition nv_replicaId :: "byte list \<Rightarrow> nat \<Rightarrow> ReplicaId option" where
  "nv_replicaId body i = rd_nat (sizeofNewViewMsgHeader + i * sizeofNewViewElement) 2 body"

definition nv_viewChangeDigest :: "byte list \<Rightarrow> nat \<Rightarrow> Digest option" where
  "nv_viewChangeDigest body i = rd (sizeofNewViewMsgHeader + i * sizeofNewViewElement + 2) DIGEST_SIZE body"

definition newNewViewMsg :: "ReplicaId \<Rightarrow> ViewNum \<Rightarrow> MessageBase option" where
  "newNewViewMsg senderId newView = do {
     m \<leftarrow> newMessage senderId MsgCode_NewView maxExternalMessageSize;
     body \<leftarrow> wrs [(2, i64_bytes newView), (10, le_bytes 2 0)] (msgBody m);
     Some (m\<lparr>msgBody := body\<rparr>)
   }"

definition nv_addElement :: "ReplicaId \<Rightarrow> Digest \<Rightarrow> MessageBase \<Rightarrow> MessageBase option" where
  "nv_addElement replicaId viewChangeDigest m = do {
     currNumOfElements \<leftarrow> nv_elementsCount (msgBody m);
     let requiredSize = u16 (int (sizeofNewViewMsgHeader + (currNumOfElements + 1) * sizeofNewViewElement));
     Assert (requiredSize \<le> maxExternalMessageSize);
     ordered \<leftarrow> (if currNumOfElements = 0 then Some True
       else do { prevId \<leftarrow> nv_replicaId (msgBody m) (currNumOfElements - 1); Some (replicaId > prevId) });
     Assert ordered;
     body \<leftarrow> wrs [(sizeofNewViewMsgHeader + currNumOfElements * sizeofNewViewElement, le_bytes 2 replicaId),
       (sizeofNewViewMsgHeader + currNumOfElements * sizeofNewViewElement + 2, viewChangeDigest),
       (10, le_bytes 2 (currNumOfElements + 1))] (msgBody m);
     Some (m\<lparr>msgBody := body\<rparr>)
   }"

definition nv_finalizeMessage :: "ReplicasInfo \<Rightarrow> MessageBase \<Rightarrow> MessageBase option" where
  "nv_finalizeMessage repInfo m = do {
     numOfElements \<leftarrow> nv_elementsCount (msgBody m);
     let F = u16 (fVal repInfo);
     let C = u16 (cVal repInfo);
     Assert (numOfElements = 2 * F + 2 * C + 1);
     let tSize = u16 (int (sizeofNewViewMsgHeader + numOfElements * sizeofNewViewElement));
     m \<leftarrow> setMsgSize m tSize;
     shrinkToFit m
   }"

text \<open>The loop over the pairs; \<open>k\<close> of them are left.\<close>

fun nv_checkLoop :: "byte list \<Rightarrow> nat \<Rightarrow> nat \<Rightarrow> bool option" where
  "nv_checkLoop body i 0 = Some True"
| "nv_checkLoop body i (Suc k) = do {
     currId \<leftarrow> nv_replicaId body i;
     unsorted \<leftarrow> (if i > 0 then do { prevId \<leftarrow> nv_replicaId body (i - 1); Some (prevId \<ge> currId) } else Some False);
     if unsorted then Some False
     else do {
       d \<leftarrow> nv_viewChangeDigest body i;
       if isZero d then Some False else nv_checkLoop body (i + 1) k
     }
   }"

definition NewViewMsg_ToActualMsgType :: "ReplicasInfo \<Rightarrow> MessageBase \<Rightarrow> bool option" where
  "NewViewMsg_ToActualMsgType repInfo inMsg = do {
     type \<leftarrow> msgType inMsg;
     Assert (type = MsgCode_NewView);
     if msgSize inMsg < sizeofNewViewMsgHeader then Some False
     else do {
       let F = u16 (fVal repInfo);
       let C = u16 (cVal repInfo);
       let expectedElements = u16 (int (2 * F + 2 * C + 1));
       let contentSize = u16 (int (sizeofNewViewMsgHeader + expectedElements * sizeofNewViewElement));
       if msgSize inMsg < contentSize then Some False
       else if \<not> isIdOfReplica repInfo (sender inMsg) then Some False
       else if ri_myId repInfo = sender inMsg then Some False
       else do {
         v \<leftarrow> nv_newView (msgBody inMsg);
         if primaryOfView repInfo v \<noteq> sender inMsg then Some False
         else do {
           n \<leftarrow> nv_elementsCount (msgBody inMsg);
           if n \<noteq> expectedElements then Some False
           else nv_checkLoop (msgBody inMsg) 0 expectedElements
         }
       }
     }
   }"

fun nv_searchLoop :: "byte list \<Rightarrow> ReplicaId \<Rightarrow> Digest \<Rightarrow> nat \<Rightarrow> nat \<Rightarrow> bool option" where
  "nv_searchLoop body replicaId viewChangeReplica i 0 = Some False"
| "nv_searchLoop body replicaId viewChangeReplica i (Suc k) = do {
     currId \<leftarrow> nv_replicaId body i;
     if currId = replicaId then do { d \<leftarrow> nv_viewChangeDigest body i; Some (viewChangeReplica = d) }
     else if currId > replicaId then Some False
     else nv_searchLoop body replicaId viewChangeReplica (i + 1) k
   }"

definition includesViewChangeFromReplica :: "MessageBase \<Rightarrow> ReplicaId \<Rightarrow> Digest \<Rightarrow> bool option" where
  "includesViewChangeFromReplica m replicaId viewChangeReplica = do {
     numOfElements \<leftarrow> nv_elementsCount (msgBody m);
     nv_searchLoop (msgBody m) replicaId viewChangeReplica 0 numOfElements
   }"

definition maxSizeOfNewViewMsg :: nat where
  "maxSizeOfNewViewMsg = maxExternalMessageSize"

definition maxSizeOfNewViewMsgInLocalBuffer :: nat where
  "maxSizeOfNewViewMsgInLocalBuffer = maxSizeOfNewViewMsg + sizeofRawHeaderOfObjAndMsg"

section \<open>What an accepted message says\<close>

text \<open>The pairs from position \<open>i\<close> on.\<close>

definition nv_pair :: "byte list \<Rightarrow> nat \<Rightarrow> (ReplicaId \<times> Digest) option" where
  "nv_pair body i = do { r \<leftarrow> nv_replicaId body i; d \<leftarrow> nv_viewChangeDigest body i; Some (r, d) }"

definition nv_layout :: "byte list \<Rightarrow> nat \<Rightarrow> (ReplicaId \<times> Digest) list \<Rightarrow> bool" where
  "nv_layout body i es \<longleftrightarrow> (\<forall>j < length es. nv_pair body (i + j) = Some (es ! j))"

lemma nv_layout_Cons: "nv_layout body i (e # es) \<longleftrightarrow> nv_pair body i = Some e \<and> nv_layout body (i + 1) es"
  by (auto simp: nv_layout_def less_Suc_eq_0_disj)

lemma nv_checkLoop_layout:
  assumes "nv_checkLoop body i k = Some True" "12 + (i + k) * 34 \<le> length body"
  shows "\<exists>es. nv_layout body i es \<and> length es = k \<and> sorted_wrt (<) (map fst es) \<and> (\<forall>e \<in> set es. \<not> isZero (snd e)) \<and>
    (0 < i \<longrightarrow> (\<forall>e \<in> set es. \<forall>p. nv_replicaId body (i - 1) = Some p \<longrightarrow> p < fst e))"
  using assms
proof (induction k arbitrary: i)
  case 0
  then show ?case by (intro exI [of _ "[]"]) (simp add: nv_layout_def)
next
  case (Suc k)
  obtain r d where p: "nv_replicaId body i = Some r" "nv_viewChangeDigest body i = Some d"
    using Suc.prems(2) by (auto simp: nv_replicaId_def nv_viewChangeDigest_def rd_nat_def rd_def)
  have ok: "\<not> isZero d" "nv_checkLoop body (i + 1) k = Some True"
    and prev: "\<And>q. 0 < i \<Longrightarrow> nv_replicaId body (i - 1) = Some q \<Longrightarrow> q < r"
    using Suc.prems(1) p by (auto simp: Option.bind_eq_Some_conv split: if_splits)
  obtain es where es: "nv_layout body (i + 1) es" "length es = k" "sorted_wrt (<) (map fst es)" "\<forall>e \<in> set es. \<not> isZero (snd e)"
    "\<forall>e \<in> set es. \<forall>p. nv_replicaId body i = Some p \<longrightarrow> p < fst e"
    using Suc.IH [OF ok(2)] Suc.prems(2) by auto
  have above: "\<forall>e \<in> set es. r < fst e" using es(5) p(1) by blast
  have "nv_layout body i ((r, d) # es)" using es(1) p by (simp add: nv_layout_Cons nv_pair_def)
  then show ?case using es(2-4) ok(1) prev above by (intro exI [of _ "(r, d) # es"]) fastforce
qed

lemma nv_searchLoop_layout:
  assumes "nv_layout body i es" "sorted_wrt (<) (map fst es)"
  shows "nv_searchLoop body r d i (length es) = Some ((r, d) \<in> set es)"
  using assms
proof (induction es arbitrary: i)
  case (Cons e es)
  obtain q d' where e: "e = (q, d')" by (cases e)
  have p: "nv_replicaId body i = Some q" "nv_viewChangeDigest body i = Some d'"
    using Cons.prems(1) e by (auto simp: nv_layout_Cons nv_pair_def Option.bind_eq_Some_conv)
  have "(r, d) \<notin> set es" if "r \<le> q" using Cons.prems(2) e that by (force simp: Ball_def)
  then show ?case using Cons p e by (auto simp: nv_layout_Cons)
qed simp

text \<open>C25: an accepted new-view message comes from the primary of its view, names view-change messages of
  exactly \<open>2F + 2C + 1\<close> different replicas with non-zero digests, and the search that stops at the first
  larger identifier answers exactly whether a view-change message is among them; it never reads outside
  the message.\<close>

theorem new_view_names_quorum:
  assumes "wf_msg m" "NewViewMsg_ToActualMsgType info m = Some True" "wf_replicas_info info"
    and "sizeofNewViewMsgHeader + nat (2 * fVal info + 2 * cVal info + 1) * sizeofNewViewElement \<le> maxExternalMessageSize"
  shows "\<exists>v es. nv_newView (msgBody m) = Some v \<and> sender m = primaryOfView info v \<and>
     int (length es) = 2 * fVal info + 2 * cVal info + 1 \<and> distinct (map fst es) \<and> (\<forall>e \<in> set es. \<not> isZero (snd e)) \<and>
     (\<forall>r d. includesViewChangeFromReplica m r d = Some ((r, d) \<in> set es))"
proof -
  have pos: "0 \<le> fVal info" "0 \<le> cVal info" using assms(3) by (auto simp: wf_replicas_info_def)
  define n where "n = nat (2 * fVal info + 2 * cVal info + 1)"
  have n: "12 + n * 34 \<le> 64000" using assms(4) by (simp add: n_def)
  have fc: "u16 (fVal info) = nat (fVal info)" "u16 (cVal info) = nat (cVal info)"
    using pos n by (auto simp: u16_def n_def)
  have sum: "2 * nat (fVal info) + 2 * nat (cVal info) + 1 = n" using pos by (simp add: n_def)
  have u: "u16 (int (2 * nat (fVal info) + 2 * nat (cVal info) + 1)) = n" "u16 (int (12 + n * 34)) = 12 + n * 34"
    unfolding sum using n by (simp_all add: u16_def)
  obtain v where v: "nv_newView (msgBody m) = Some v" "primaryOfView info v = sender m" "nv_elementsCount (msgBody m) = Some n"
    "nv_checkLoop (msgBody m) 0 n = Some True" "12 + n * 34 \<le> msgSize m"
    using assms(2) fc u by (auto simp: NewViewMsg_ToActualMsgType_def Let_def Option.bind_eq_Some_conv split: if_splits)
  obtain es where es: "nv_layout (msgBody m) 0 es" "length es = n" "sorted_wrt (<) (map fst es)" "\<forall>e \<in> set es. \<not> isZero (snd e)"
    using nv_checkLoop_layout [OF v(4)] v(5) assms(1) by (auto simp: wf_msg_def)
  have "includesViewChangeFromReplica m r d = Some ((r, d) \<in> set es)" for r d
    using nv_searchLoop_layout [OF es(1,3)] v(3) es(2) by (simp add: includesViewChangeFromReplica_def)
  moreover have "int n = 2 * fVal info + 2 * cVal info + 1" using pos by (simp add: n_def)
  moreover have "distinct (map fst es)" using es(3) strict_sorted_iff by blast
  ultimately show ?thesis using v es by (intro exI [of _ v] exI [of _ es]) auto
qed

section \<open>The message of a primary\<close>

fun nv_addElements :: "(ReplicaId \<times> Digest) list \<Rightarrow> MessageBase \<Rightarrow> MessageBase option" where
  "nv_addElements [] m = Some m"
| "nv_addElements ((r, d) # es) m = do { m \<leftarrow> nv_addElement r d m; nv_addElements es m }"

definition nv_building :: "ViewNum \<Rightarrow> (ReplicaId \<times> Digest) list \<Rightarrow> byte list \<Rightarrow> bool" where
  "nv_building v es body \<longleftrightarrow> nv_newView body = Some v \<and> nv_elementsCount body = Some (length es) \<and>
     rd_nat 0 2 body = Some MsgCode_NewView \<and> nv_layout body 0 es"

lemma nv_layout_cong:
  assumes "nv_layout b 0 es" "\<And>p k. 12 \<le> p \<Longrightarrow> p + k \<le> 12 + length es * 34 \<Longrightarrow> rd p k b' = rd p k b"
  shows "nv_layout b' 0 es"
proof -
  have "nv_pair b' j = nv_pair b j" if "j < length es" for j
  proof -
    have "rd (12 + j * 34) 2 b' = rd (12 + j * 34) 2 b" "rd (12 + j * 34 + 2) 32 b' = rd (12 + j * 34 + 2) 32 b"
      using that by (auto intro!: assms(2))
    then show ?thesis by (simp add: nv_pair_def nv_replicaId_def nv_viewChangeDigest_def rd_nat_def)
  qed
  then show ?thesis using assms(1) by (simp add: nv_layout_def)
qed

lemma nv_layout_snoc: "nv_layout b 0 es \<Longrightarrow> nv_pair b (length es) = Some e \<Longrightarrow> nv_layout b 0 (es @ [e])"
  by (auto simp: nv_layout_def nth_append less_Suc_eq)

lemma nv_addElement_building:
  assumes lay: "nv_building v es (msgBody m)" and m: "wf_msg m" "storageSize m = maxExternalMessageSize"
    and fit: "12 + (length es + 1) * 34 \<le> 64000" and r: "r < 2 ^ 16" "length d = 32" "\<forall>e \<in> set es. fst e < r"
  shows "\<exists>b. nv_addElement r d m = Some (m\<lparr>msgBody := b\<rparr>) \<and> nv_building v (es @ [(r, d)]) b \<and> wf_msg (m\<lparr>msgBody := b\<rparr>)"
proof -
  define b n loc where "b = msgBody m" and "n = length es" and "loc = 12 + n * 34"
  let ?fs = "[(loc, le_bytes 2 r), (loc + 2, d), (10, le_bytes 2 (n + 1))]"
  have len: "length b = 64000" using m by (simp add: wf_msg_def b_def)
  obtain b' where b': "wrs ?fs b = Some b'" "length b' = 64000"
    using wrs_total [of ?fs b] len fit r(2) by (auto simp: loc_def n_def)
  have same: "rd p k b' = rd p k b" if "p + k \<le> 10 \<or> (12 \<le> p \<and> p + k \<le> loc)" for p k
    using that r(2) by (intro rd_wrs_other [OF b'(1)]) (auto simp: loc_def)
  have new: "rd loc 2 b' = Some (le_bytes 2 r)" "rd (loc + 2) 32 b' = Some d" "rd 10 2 b' = Some (le_bytes 2 (n + 1))"
    using rd_wrs [OF b'(1), of loc "le_bytes 2 r"] rd_wrs [OF b'(1), of "loc + 2" d]
      rd_wrs [OF b'(1), of 10 "le_bytes 2 (n + 1)"] r(2) by (simp_all add: loc_def)
  have old: "nv_layout b' 0 es" using nv_layout_cong [of b es b'] lay same by (simp add: nv_building_def b_def loc_def n_def)
  have "nv_pair b' n = Some (r, d)"
    using new(1,2) r by (simp add: nv_pair_def nv_replicaId_def nv_viewChangeDigest_def rd_nat_def loc_def le_val_le_bytes)
  then have "nv_layout b' 0 (es @ [(r, d)])" using nv_layout_snoc [OF old] by (simp add: n_def)
  then have bld: "nv_building v (es @ [(r, d)]) b'"
    using lay same [of 2 8] same [of 0 2] new(3) fit
    by (simp add: nv_building_def nv_newView_def nv_elementsCount_def rd_i64_def rd_nat_def b_def n_def le_val_le_bytes)
  have ord: "\<exists>p. nv_replicaId b (n - 1) = Some p \<and> p < r" if "0 < n"
  proof -
    have less: "n - 1 < length es" using that by (simp add: n_def)
    then have "nv_pair b (0 + (n - 1)) = Some (es ! (n - 1))" using lay unfolding nv_building_def nv_layout_def b_def by blast
    then have "nv_replicaId b (n - 1) = Some (fst (es ! (n - 1)))"
      by (cases "es ! (n - 1)") (auto simp: nv_pair_def Option.bind_eq_Some_conv)
    then show ?thesis using r(3) less by simp
  qed
  have "u16 (int (12 + (n + 1) * 34)) = 12 + (n + 1) * 34" using fit by (simp add: u16_def n_def)
  moreover have "nv_elementsCount b = Some n" using lay by (simp add: nv_building_def b_def n_def)
  ultimately have "nv_addElement r d m = Some (m\<lparr>msgBody := b'\<rparr>)"
    using ord b'(1) fit by (auto simp: nv_addElement_def b_def [symmetric] loc_def n_def [symmetric] Let_def)
  then show ?thesis using bld m b'(2) by (intro exI [of _ b']) (simp add: wf_msg_def)
qed

lemma nv_addElements_building:
  assumes "nv_building v es0 (msgBody m)" "wf_msg m" "storageSize m = maxExternalMessageSize"
    "12 + length (es0 @ es) * 34 \<le> 64000" "\<forall>e \<in> set es. fst e < 2 ^ 16 \<and> length (snd e) = 32"
    "sorted_wrt (<) (map fst (es0 @ es))"
  shows "\<exists>b. nv_addElements es m = Some (m\<lparr>msgBody := b\<rparr>) \<and> nv_building v (es0 @ es) b \<and> wf_msg (m\<lparr>msgBody := b\<rparr>)"
  using assms
proof (induction es arbitrary: m es0)
  case Nil
  then show ?case by (intro exI [of _ "msgBody m"]) simp
next
  case (Cons e es)
  obtain r d where e: "e = (r, d)" by (cases e)
  have "\<forall>e \<in> set es0. fst e < r" using Cons.prems(6) e by (auto simp: sorted_wrt_append)
  then obtain b where b: "nv_addElement r d m = Some (m\<lparr>msgBody := b\<rparr>)" "nv_building v (es0 @ [(r, d)]) b" "wf_msg (m\<lparr>msgBody := b\<rparr>)"
    using nv_addElement_building [OF Cons.prems(1-3), of r d] Cons.prems(4,5) e by auto
  obtain b' where "nv_addElements es (m\<lparr>msgBody := b\<rparr>) = Some (m\<lparr>msgBody := b\<rparr>\<lparr>msgBody := b'\<rparr>)"
    "nv_building v ((es0 @ [(r, d)]) @ es) b'" "wf_msg (m\<lparr>msgBody := b\<rparr>\<lparr>msgBody := b'\<rparr>)"
    using Cons.IH [of "es0 @ [(r, d)]" "m\<lparr>msgBody := b\<rparr>"] Cons.prems(3-6) b(2,3) e by auto
  then show ?case using b(1) e by auto
qed

lemma nv_checkLoop_complete:
  assumes "nv_layout body i es" "sorted_wrt (<) (map fst es)" "\<forall>e \<in> set es. \<not> isZero (snd e)"
    "\<forall>e \<in> set es. 0 < i \<longrightarrow> (\<exists>p. nv_replicaId body (i - 1) = Some p \<and> p < fst e)"
  shows "nv_checkLoop body i (length es) = Some True"
  using assms
proof (induction es arbitrary: i)
  case (Cons e es)
  obtain q d where e: "e = (q, d)" by (cases e)
  have p: "nv_replicaId body i = Some q" "nv_viewChangeDigest body i = Some d"
    using Cons.prems(1) e by (auto simp: nv_layout_Cons nv_pair_def Option.bind_eq_Some_conv)
  have "nv_checkLoop body (i + 1) (length es) = Some True"
    using Cons.prems e p by (intro Cons.IH) (auto simp: nv_layout_Cons)
  then show ?case using p e Cons.prems(3,4) by auto
qed simp

lemma nv_primary_message:
  assumes info: "wf_replicas_info info" and r: "isIdOfReplica info r" "r \<noteq> ri_myId info" "primaryOfView info v = r" "is_i64 v"
    and es: "int (length es) = 2 * fVal info + 2 * cVal info + 1" "12 + length es * 34 \<le> 64000" "sorted_wrt (<) (map fst es)"
      "\<forall>e \<in> set es. fst e < 2 ^ 16 \<and> length (snd e) = 32 \<and> \<not> isZero (snd e)"
  shows "\<exists>m0 m1 m. newNewViewMsg r v = Some m0 \<and> nv_addElements es m0 = Some m1 \<and> nv_finalizeMessage info m1 = Some m \<and>
    wf_msg m \<and> NewViewMsg_ToActualMsgType info m = Some True \<and> nv_newView (msgBody m) = Some v \<and> nv_layout (msgBody m) 0 es \<and>
    nv_elementsCount (msgBody m) = Some (length es)"
proof -
  let ?n = "12 + length es * 34"
  have r16: "r < 2 ^ 16" using info r(1) by (auto simp: isIdOfReplica_def wf_replicas_info_def)
  have pos: "0 \<le> fVal info" "0 \<le> cVal info" using info by (auto simp: wf_replicas_info_def)
  have small: "length es < 65536" using es(2) by simp
  have fc: "u16 (fVal info) = nat (fVal info)" "u16 (cVal info) = nat (cVal info)"
    using pos es(1) small by (auto simp: u16_def)
  have cnt: "2 * nat (fVal info) + 2 * nat (cVal info) + 1 = length es" using es(1) pos by linarith
  have uc: "u16 (1 + (2 * fVal info + 2 * cVal info)) = length es" using es(1) small by (simp add: u16_def add.commute)
  have u: "u16 (int ?n) = ?n" "u16 (int (length es)) = length es" using es(2) by (simp_all add: u16_def)
  let ?fs = "[(2, i64_bytes v), (10, le_bytes 2 0)]"
  obtain m b where m: "newMessage r MsgCode_NewView maxExternalMessageSize = Some m" "wrs ?fs (msgBody m) = Some b"
    "wf_msg (m\<lparr>msgBody := b\<rparr>)" "storageSize m = maxExternalMessageSize" "sender m = r" "owner m"
    "rd_nat 0 2 b = Some MsgCode_NewView" "length b = maxExternalMessageSize"
    and rds: "\<forall>(off, bs) \<in> set ?fs. rd off (length bs) b = Some bs"
    using new_packed [OF r16, of MsgCode_NewView maxExternalMessageSize ?fs] by auto
  let ?m0 = "m\<lparr>msgBody := b\<rparr>"
  have m0: "newNewViewMsg r v = Some ?m0" using m(1,2) by (simp add: newNewViewMsg_def)
  have "nv_building v [] (msgBody ?m0)"
    using rds m(7) r(4) by (simp add: nv_building_def nv_newView_def nv_elementsCount_def rd_i64_def rd_nat_def i64_roundtrip
        le_val_le_bytes nv_layout_def)
  then obtain b1 where b1: "nv_addElements es ?m0 = Some (?m0\<lparr>msgBody := b1\<rparr>)" "nv_building v es b1" "wf_msg (?m0\<lparr>msgBody := b1\<rparr>)"
    using nv_addElements_building [of v "[]" ?m0 es] m(3,4) es(2-4) by auto
  let ?m1 = "?m0\<lparr>msgBody := b1\<rparr>"
  obtain m2 where m2: "setMsgSize ?m1 ?n = Some m2" "take ?n (msgBody m2) = take ?n b1"
    using setMsgSize_total [OF b1(3), of ?n] es(2) m(4) by auto
  have wf2: "wf_msg m2" "msgSize m2 = ?n" "sender m2 = r" "owner m2" using wf_setMsgSize [OF b1(3) m2(1)] m(5,6) by auto
  obtain m3 where m3: "shrinkToFit m2 = Some m3" "msgBody m3 = take ?n b1" using wf2 m2(2) by (simp add: shrinkToFit_def)
  have wf3: "wf_msg m3" "msgSize m3 = ?n" "sender m3 = r" using wf_shrinkToFit [OF wf2(1) m3(1)] wf2 by auto
  have len: "length b1 = 64000" using b1(3) m(4) by (simp add: wf_msg_def)
  have same: "rd p k (msgBody m3) = rd p k b1" if "p + k \<le> ?n" for p k
    using that es(2) len m3(2) rd_take [of p k ?n b1] by simp
  have bld: "nv_building v es (msgBody m3)"
    using b1(2) same nv_layout_cong [of b1 es "msgBody m3"]
    by (simp add: nv_building_def nv_newView_def nv_elementsCount_def rd_i64_def rd_nat_def)
  have fin: "nv_finalizeMessage info ?m1 = Some m3"
    using b1(2) fc cnt u m2(1) m3(1) by (simp add: nv_finalizeMessage_def nv_building_def Let_def)
  have "nv_checkLoop (msgBody m3) 0 (length es) = Some True"
    using bld es(3,4) by (intro nv_checkLoop_complete) (auto simp: nv_building_def)
  then have "NewViewMsg_ToActualMsgType info m3 = Some True"
    using bld wf3 r(1-3) fc u uc pos by (simp add: NewViewMsg_ToActualMsgType_def nv_building_def msgType_def Let_def)
  then show ?thesis using m0 b1(1) fin wf3(1) bld by (auto simp: nv_building_def)
qed

text \<open>the message of a primary survives the wire: the primary of a view collects the digests of
  \<open>2F + 2C + 1\<close> view-change messages in the order of the replicas and finalizes the message; every other
  replica accepts it and finds exactly those view-change messages in it.\<close>

theorem new_view_roundtrip:
  assumes "wf_replicas_info info" "isIdOfReplica info r" "r \<noteq> ri_myId info" "primaryOfView info v = r" "is_i64 v"
    and "int (length es) = 2 * fVal info + 2 * cVal info + 1"
    and "sizeofNewViewMsgHeader + length es * sizeofNewViewElement \<le> maxExternalMessageSize" "sorted_wrt (<) (map fst es)"
    and "\<forall>e \<in> set es. fst e < 2 ^ 16 \<and> length (snd e) = DIGEST_SIZE \<and> \<not> isZero (snd e)"
  shows "\<exists>m0 m1 m. newNewViewMsg r v = Some m0 \<and> nv_addElements es m0 = Some m1 \<and> nv_finalizeMessage info m1 = Some m \<and>
     NewViewMsg_ToActualMsgType info m = Some True \<and> nv_newView (msgBody m) = Some v \<and>
     (\<forall>q d. includesViewChangeFromReplica m q d = Some ((q, d) \<in> set es))"
proof -
  obtain m0 m1 m where m: "newNewViewMsg r v = Some m0" "nv_addElements es m0 = Some m1" "nv_finalizeMessage info m1 = Some m"
    "NewViewMsg_ToActualMsgType info m = Some True" "nv_newView (msgBody m) = Some v" "nv_layout (msgBody m) 0 es"
    "nv_elementsCount (msgBody m) = Some (length es)"
    using nv_primary_message [OF assms(1-6) _ assms(8)] assms(7,9) by auto
  have "includesViewChangeFromReplica m q d = Some ((q, d) \<in> set es)" for q d
    using nv_searchLoop_layout [OF m(6) assms(8)] m(7) by (simp add: includesViewChangeFromReplica_def)
  then show ?thesis using m(1-5) by blast
qed

section \<open>A concrete message\<close>

definition sample_pairs :: "(ReplicaId \<times> Digest) list" where
  "sample_pairs = [(0, replicate 32 1), (1, replicate 32 2), (2, replicate 32 3), (3, replicate 32 4), (5, replicate 32 5)]"

lemma sample_pairs_ok:
  "int (length sample_pairs) = 2 * fVal sample_info + 2 * cVal sample_info + 1" "sorted_wrt (<) (map fst sample_pairs)"
  "\<forall>e \<in> set sample_pairs. fst e < 2 ^ 16 \<and> length (snd e) = 32 \<and> \<not> isZero (snd e)" "length sample_pairs = 5"
  by (simp_all add: sample_pairs_def isZero_def)

lemma sample_primary: "primaryOfView sample_info 2 = 2"
  by (simp add: primaryOfView_def u16_def)

theorem new_view_roundtrip_witness:
  "\<exists>m0 m1 m. newNewViewMsg 2 2 = Some m0 \<and> nv_addElements sample_pairs m0 = Some m1 \<and>
     nv_finalizeMessage sample_info m1 = Some m \<and> NewViewMsg_ToActualMsgType sample_info m = Some True \<and>
     nv_newView (msgBody m) = Some 2 \<and> (\<forall>q d. includesViewChangeFromReplica m q d = Some ((q, d) \<in> set sample_pairs))"
  using new_view_roundtrip [OF sample_info_wf _ _ sample_primary _ sample_pairs_ok(1) _ sample_pairs_ok(2)] sample_pairs_ok(3,4)
  by (simp add: isIdOfReplica_def is_i64_def)

theorem new_view_names_quorum_witness:
  "\<exists>m es. NewViewMsg_ToActualMsgType sample_info m = Some True \<and> length es = 5 \<and> distinct (map fst es) \<and>
     (\<forall>r d. includesViewChangeFromReplica m r d = Some ((r, d) \<in> set es))"
proof -
  obtain m where m: "wf_msg m" "NewViewMsg_ToActualMsgType sample_info m = Some True"
    using nv_primary_message [OF sample_info_wf _ _ sample_primary _ sample_pairs_ok(1) _ sample_pairs_ok(2,3)] sample_pairs_ok(4)
    by (auto simp: isIdOfReplica_def is_i64_def)
  show ?thesis using new_view_names_quorum [OF m sample_info_wf] m(2) by fastforce
qed

end
