(* ===== verification/View_Change_Safety.thy ===== *)
theory View_Change_Safety
  imports View_Change_Msg "HOL-Library.Multiset"
begin

text \<open>
  \<^verbatim>\<open>ViewChangeSafetyLogic.cpp\<close>: which batches a new view has to keep. The reports of \<open>2F + 2C + 1\<close> replicas are
  scanned number by number; a number is restricted to a digest when one was reported with a valid
  prepared certificate, or by \<open>F + C + 1\<close> replicas. A report is taken as the list of its elements and an
  iterator as the elements that are still ahead of it; \<open>view_change_report_iterates\<close> relates this to the
  bytes. The check of a certificate is the argument \<open>verify\<close>.
\<close>

section \<open>Data\<close>

record VCReport =
  vr_newView :: ViewNum
  vr_lastStable :: SeqNum
  vr_elements :: "VCElement list"

record SafetyLogic =
  sl_N :: nat
  sl_F :: nat
  sl_C :: nat
  preparedCertVerifier :: "Digest \<Rightarrow> byte list \<Rightarrow> bool"
  sl_nullDigest :: Digest

record Restriction =
  r_isNull :: bool
  r_digest :: Digest

type_synonym VCIter = "VCElement list"

definition newViewChangeSafetyLogic ::
  "nat \<Rightarrow> nat \<Rightarrow> nat \<Rightarrow> (Digest \<Rightarrow> byte list \<Rightarrow> bool) \<Rightarrow> Digest \<Rightarrow> SafetyLogic option" where
  "newViewChangeSafetyLogic n f c preparedCertificateVerifier digestOfNull = do {
     Assert (n = 3 * f + 2 * c + 1);
     Some \<lparr>sl_N = n, sl_F = f, sl_C = c, preparedCertVerifier = preparedCertificateVerifier, sl_nullDigest = digestOfNull\<rparr>
   }"

section \<open>The lower bound of the stable checkpoints\<close>

text \<open>The loop that copies the stable checkpoints of the reports into an array of \<open>inc\<close> numbers; a write
  behind its end fails.\<close>

fun collectStable :: "nat \<Rightarrow> VCReport option list \<Rightarrow> ViewNum \<Rightarrow> SeqNum list \<Rightarrow> SeqNum list option" where
  "collectStable inc [] v stableNumbers = Some stableNumbers"
| "collectStable inc (None # msgs) v stableNumbers = collectStable inc msgs v stableNumbers"
| "collectStable inc (Some vc # msgs) v stableNumbers = do {
     Assert (stableNumbers = [] \<or> v = vr_newView vc);
     Assert (length stableNumbers < inc);
     collectStable inc msgs (vr_newView vc) (stableNumbers @ [vr_lastStable vc])
   }"

definition calcLBStableForView :: "SafetyLogic \<Rightarrow> VCReport option list \<Rightarrow> SeqNum option" where
  "calcLBStableForView logic viewChangeMsgsOfPendingView = do {
     let INC_IN_VC = u16 (int (2 * sl_F logic + 2 * sl_C logic + 1));
     stableNumbers \<leftarrow> collectStable INC_IN_VC (take (sl_N logic) viewChangeMsgsOfPendingView) 0 [];
     Assert (length stableNumbers = INC_IN_VC);
     let stableNumbers = rev (sort stableNumbers);
     Assert (hd stableNumbers \<ge> last stableNumbers);
     Assert (sl_F logic < length stableNumbers);
     Some (stableNumbers ! sl_F logic)
   }"

section \<open>Restrictions of one sequence number\<close>

text \<open>A certificate with its view, its signature and its element; the set is kept in the order of
  \<open>SlowElemCompare\<close>: later views first, then by digest.\<close>

type_synonym SlowElem = "ViewNum \<times> byte list \<times> VCElement"

fun memcmpLess :: "byte list \<Rightarrow> byte list \<Rightarrow> bool" where
  "memcmpLess (x # xs) (y # ys) \<longleftrightarrow> x < y \<or> (x = y \<and> memcmpLess xs ys)"
| "memcmpLess _ _ \<longleftrightarrow> False"

definition SlowElemCompare :: "SlowElem \<Rightarrow> SlowElem \<Rightarrow> bool" where
  "SlowElemCompare lhs rhs \<longleftrightarrow>
     (if fst lhs \<noteq> fst rhs then fst lhs > fst rhs
      else memcmpLess (vce_digest (snd (snd lhs))) (vce_digest (snd (snd rhs))))"

text \<open>Insertion into the ordered set: an element that is equivalent to one of the set is not inserted.\<close>

fun slowInsert :: "SlowElem \<Rightarrow> SlowElem list \<Rightarrow> SlowElem list" where
  "slowInsert x [] = [x]"
| "slowInsert x (y # ys) =
     (if SlowElemCompare x y then x # y # ys
      else if SlowElemCompare y x then y # slowInsert x ys
      else y # ys)"

definition iter_getCurrent :: "VCIter \<Rightarrow> VCElement option" where
  "iter_getCurrent it = (case it of [] \<Rightarrow> None | e # _ \<Rightarrow> Some e)"

fun collectSlow :: "SeqNum \<Rightarrow> VCIter list \<Rightarrow> SlowElem list \<Rightarrow> SlowElem list option" where
  "collectSlow s [] slowPathCertificates = Some slowPathCertificates"
| "collectSlow s (it # its) slowPathCertificates = do {
     elem \<leftarrow> iter_getCurrent it;
     Assert (vce_seqNum elem \<ge> s);
     collectSlow s its
       (case vce_cert elem of
          Some (v, sig) \<Rightarrow> if vce_seqNum elem = s then slowInsert (v, sig, elem) slowPathCertificates else slowPathCertificates
        | None \<Rightarrow> slowPathCertificates)
   }"

fun checkSlowPathCertificates :: "SlowElem option \<Rightarrow> SlowElem list \<Rightarrow> bool option" where
  "checkSlowPathCertificates lastElement [] = Some True"
| "checkSlowPathCertificates None (e # es) = checkSlowPathCertificates (Some e) es"
| "checkSlowPathCertificates (Some l) (e # es) =
     (if fst e > fst l then Some False
      else do {
        Assert (fst e = fst l \<longrightarrow> vce_seqNum (snd (snd e)) = vce_seqNum (snd (snd l)));
        checkSlowPathCertificates (Some e) es
      })"

fun selectSlow :: "SafetyLogic \<Rightarrow> SeqNum \<Rightarrow> SlowElem list \<Rightarrow> SlowElem option option" where
  "selectSlow logic s [] = Some None"
| "selectSlow logic s ((v, sig, e) # slows) = do {
     Assert (s = vce_seqNum e);
     Assert (length sig > 0);
     if preparedCertVerifier logic (calcCombination (vce_digest e) v (vce_seqNum e)) sig then Some (Some (v, sig, e))
     else selectSlow logic s slows
   }"

fun collectVotes ::
  "SafetyLogic \<Rightarrow> SeqNum \<Rightarrow> ViewNum \<Rightarrow> VCIter list \<Rightarrow> (Digest \<Rightarrow> nat option) \<Rightarrow> VCElement option option" where
  "collectVotes logic s minRelevantFastView [] fastPathCounters = Some None"
| "collectVotes logic s minRelevantFastView (it # its) fastPathCounters = do {
     elem \<leftarrow> iter_getCurrent it;
     Assert (vce_seqNum elem \<ge> s);
     if vce_seqNum elem = s \<and> vce_originView elem \<ge> minRelevantFastView
     then (case fastPathCounters (vce_digest elem) of
             None \<Rightarrow> collectVotes logic s minRelevantFastView its (fastPathCounters(vce_digest elem \<mapsto> 1))
           | Some n \<Rightarrow>
               if n + 1 = u16 (int (sl_F logic + sl_C logic + 1)) then Some (Some elem)
               else collectVotes logic s minRelevantFastView its (fastPathCounters(vce_digest elem \<mapsto> n + 1)))
     else collectVotes logic s minRelevantFastView its fastPathCounters
   }"

text \<open>The loop that advances the iterators: one that is no longer needed is replaced by the last one.\<close>

function advanceIters :: "SeqNum \<Rightarrow> SeqNum \<Rightarrow> nat \<Rightarrow> VCIter list \<Rightarrow> VCIter list option" where
  "advanceIters s upperBound currentIdx its =
     (if currentIdx < length its
      then do {
        elem \<leftarrow> iter_getCurrent (its ! currentIdx);
        if vce_seqNum elem > s then advanceIters s upperBound (currentIdx + 1) its
        else do {
          Assert (vce_seqNum elem = s);
          let currIter = tl (its ! currentIdx);
          if (case iter_getCurrent currIter of None \<Rightarrow> True | Some e \<Rightarrow> vce_seqNum e > upperBound)
          then advanceIters s upperBound currentIdx (butlast (its[currentIdx := last its]))
          else advanceIters s upperBound (currentIdx + 1) (its[currentIdx := currIter])
        }
      }
      else Some its)"
  by pat_completeness auto

termination by (relation "measure (\<lambda>(s, ub, i, its). length its - i)") auto

declare advanceIters.simps [simp del]

definition computeRestrictionsForSeqNum ::
  "SafetyLogic \<Rightarrow> SeqNum \<Rightarrow> VCIter list \<Rightarrow> SeqNum \<Rightarrow> (bool \<times> Digest \<times> VCIter list) option" where
  "computeRestrictionsForSeqNum logic s VCIterators upperBound = do {
     Assert (VCIterators \<noteq> []);
     Assert (s \<le> upperBound);
     slowPathCertificates \<leftarrow> collectSlow s VCIterators [];
     ok \<leftarrow> checkSlowPathCertificates None slowPathCertificates;
     Assert ok;
     selectedSlow \<leftarrow> selectSlow logic s slowPathCertificates;
     let minRelevantFastView = (case selectedSlow of None \<Rightarrow> 0 | Some slow \<Rightarrow> fst slow + 1);
     selectedFastElement \<leftarrow> collectVotes logic s minRelevantFastView VCIterators Map.empty;
     VCIterators \<leftarrow> advanceIters s upperBound 0 VCIterators;
     Some (case selectedFastElement of
       Some e \<Rightarrow> (True, vce_digest e, VCIterators)
     | None \<Rightarrow> (case selectedSlow of
         Some (v, sig, e) \<Rightarrow> (True, vce_digest e, VCIterators)
       | None \<Rightarrow> (False, zeroDigest, VCIterators)))
   }"

section \<open>Restrictions of the window\<close>

fun createIters :: "SeqNum \<Rightarrow> VCReport option list \<Rightarrow> VCIter list" where
  "createIters lowerBound [] = []"
| "createIters lowerBound (None # msgs) = createIters lowerBound msgs"
| "createIters lowerBound (Some vc # msgs) =
     (if vr_elements vc = [] then createIters lowerBound msgs
      else (let iter = dropWhile (\<lambda>e. vce_seqNum e < lowerBound) (vr_elements vc)
            in if iter = [] then createIters lowerBound msgs else iter # createIters lowerBound msgs))"

text \<open>The first loop, over the \<open>k\<close> positions from \<open>i\<close> on, as long as there are iterators; it returns the
  position it stopped at.\<close>

fun restrictLoop ::
  "SafetyLogic \<Rightarrow> SeqNum \<Rightarrow> SeqNum \<Rightarrow> nat \<Rightarrow> nat \<Rightarrow> VCIter list \<Rightarrow> Restriction list \<Rightarrow> SeqNum
     \<Rightarrow> (nat \<times> Restriction list \<times> SeqNum) option" where
  "restrictLoop logic lowerBound upperBound i 0 its restrictions lastRestriction = Some (i, restrictions, lastRestriction)"
| "restrictLoop logic lowerBound upperBound i (Suc k) its restrictions lastRestriction =
     (if its = [] then Some (i, restrictions, lastRestriction)
      else do {
        Assert (i < length restrictions);
        let currSeqNum = lowerBound + int i;
        (hasRest, d, its) \<leftarrow> computeRestrictionsForSeqNum logic currSeqNum its upperBound;
        if hasRest \<and> d \<noteq> sl_nullDigest logic
        then restrictLoop logic lowerBound upperBound (i + 1) k its
               (restrictions[i := \<lparr>r_isNull = False, r_digest = d\<rparr>]) currSeqNum
        else restrictLoop logic lowerBound upperBound (i + 1) k its
               (restrictions[i := \<lparr>r_isNull = True, r_digest = d\<rparr>]) lastRestriction
      })"

fun resetRestrictions :: "nat \<Rightarrow> nat \<Rightarrow> Restriction list \<Rightarrow> Restriction list option" where
  "resetRestrictions i 0 restrictions = Some restrictions"
| "resetRestrictions i (Suc k) restrictions = do {
     Assert (i < length restrictions);
     resetRestrictions (i + 1) k (restrictions[i := (restrictions ! i)\<lparr>r_isNull := True\<rparr>])
   }"

definition computeRestrictions ::
  "SafetyLogic \<Rightarrow> VCReport option list \<Rightarrow> SeqNum \<Rightarrow> Restriction list \<Rightarrow> (SeqNum \<times> SeqNum \<times> Restriction list) option" where
  "computeRestrictions logic inViewChangeMsgsOfCurrentView inLBStableForView restrictions = do {
     let lowerBound = inLBStableForView + 1;
     let upperBound = inLBStableForView + kWorkWindowSize;
     let its = createIters lowerBound (take (sl_N logic) inViewChangeMsgsOfCurrentView);
     let noElements = (its = []);
     (i, restrictions, lastRestriction) \<leftarrow>
       restrictLoop logic lowerBound upperBound 0 (nat kWorkWindowSize) its restrictions 0;
     restrictions \<leftarrow> resetRestrictions i (nat kWorkWindowSize - i) restrictions;
     Some (if noElements then (0, 0, restrictions)
           else if lastRestriction > 0 \<and> lastRestriction \<le> upperBound - checkpointWindowSize
           then (lowerBound, upperBound - checkpointWindowSize, restrictions)
           else (lowerBound, upperBound, restrictions))
   }"

section \<open>The ordered set of certificates\<close>

lemma memcmpLess_irrefl: "\<not> memcmpLess x x"
  by (induction x) auto

lemma memcmpLess_trans: "memcmpLess x y \<Longrightarrow> memcmpLess y z \<Longrightarrow> memcmpLess x z"
proof (induction x y arbitrary: z rule: memcmpLess.induct)
  case (1 a xs b ys)
  then show ?case by (cases z) (auto intro: less_trans)
qed auto

lemma memcmpLess_total: "length x = length y \<Longrightarrow> \<not> memcmpLess x y \<Longrightarrow> \<not> memcmpLess y x \<Longrightarrow> x = y"
proof (induction x y rule: memcmpLess.induct)
  case (1 a xs b ys)
  then show ?case by (cases a b rule: linorder_cases) auto
qed auto

definition slowKey :: "SlowElem \<Rightarrow> ViewNum \<times> Digest" where
  "slowKey x = (fst x, vce_digest (snd (snd x)))"

lemma SlowElemCompare_irrefl: "\<not> SlowElemCompare x x"
  by (simp add: SlowElemCompare_def memcmpLess_irrefl)

lemma SlowElemCompare_trans: "SlowElemCompare x y \<Longrightarrow> SlowElemCompare y z \<Longrightarrow> SlowElemCompare x z"
  using memcmpLess_trans by (auto simp: SlowElemCompare_def split: if_splits)

lemma SlowElemCompare_total:
  assumes "length (snd (slowKey x)) = length (snd (slowKey y))" "\<not> SlowElemCompare x y" "\<not> SlowElemCompare y x"
  shows "slowKey x = slowKey y"
  using assms memcmpLess_total by (auto simp: SlowElemCompare_def slowKey_def split: if_splits)

lemma slowInsert_sets: "set (slowInsert x ys) \<subseteq> insert x (set ys)" "set ys \<subseteq> set (slowInsert x ys)"
  by (induction ys) auto

lemma slowInsert_sorted:
  assumes "sorted_wrt SlowElemCompare ys"
  shows "sorted_wrt SlowElemCompare (slowInsert x ys)"
  using assms
proof (induction ys)
  case (Cons y ys)
  show ?case
  proof (cases "SlowElemCompare x y")
    case True
    then show ?thesis using Cons.prems SlowElemCompare_trans by auto
  next
    case False
    then show ?thesis using Cons slowInsert_sets(1) [of x ys] by auto
  qed
qed simp

lemma slowInsert_key:
  assumes "\<forall>y \<in> set ys. length (snd (slowKey y)) = length (snd (slowKey x))"
  shows "\<exists>z \<in> set (slowInsert x ys). slowKey z = slowKey x"
  using assms
proof (induction ys)
  case (Cons y ys)
  show ?case
  proof (cases "SlowElemCompare x y \<or> SlowElemCompare y x")
    case True
    then show ?thesis using Cons by auto
  next
    case False
    then show ?thesis using SlowElemCompare_total [of y x] Cons.prems by auto
  qed
qed simp

section \<open>Iterators\<close>

definition element_ok :: "VCElement \<Rightarrow> bool" where
  "element_ok e \<longleftrightarrow> length (vce_digest e) = DIGEST_SIZE \<and> (case vce_cert e of None \<Rightarrow> True | Some (v, sig) \<Rightarrow> sig \<noteq> [])"

definition vciter_ok :: "SeqNum \<Rightarrow> VCIter \<Rightarrow> bool" where
  "vciter_ok s it \<longleftrightarrow> it \<noteq> [] \<and> s \<le> vce_seqNum (hd it) \<and> sorted_wrt (\<lambda>a b. vce_seqNum a < vce_seqNum b) it \<and>
     (\<forall>e \<in> set it. element_ok e)"

lemma vciter_hd: "vciter_ok s it \<Longrightarrow> element_ok (hd it)"
  by (simp add: vciter_ok_def)

definition heads :: "SeqNum \<Rightarrow> VCIter list \<Rightarrow> VCElement list" where
  "heads s its = filter (\<lambda>e. vce_seqNum e = s) (map hd its)"

lemma vciter_current: "vciter_ok s it \<Longrightarrow> iter_getCurrent it = Some (hd it) \<and> s \<le> vce_seqNum (hd it)"
  by (cases it) (auto simp: vciter_ok_def iter_getCurrent_def)

lemma heads_Cons: "heads s (it # its) = (if vce_seqNum (hd it) = s then hd it # heads s its else heads s its)"
  by (simp add: heads_def)

lemma heads_ok: "\<forall>it \<in> set its. vciter_ok s it \<Longrightarrow> e \<in> set (heads s its) \<Longrightarrow> element_ok e \<and> vce_seqNum e = s"
  using vciter_hd by (auto simp: heads_def)

definition slow_ok :: "SeqNum \<Rightarrow> SlowElem \<Rightarrow> bool" where
  "slow_ok s x \<longleftrightarrow> (case x of (v, sig, e) \<Rightarrow> vce_seqNum e = s \<and> sig \<noteq> [] \<and> vce_cert e = Some (v, sig) \<and> length (vce_digest e) = DIGEST_SIZE)"

lemma collectSlow_ok:
  assumes "\<forall>it \<in> set its. vciter_ok s it" "sorted_wrt SlowElemCompare acc" "\<forall>x \<in> set acc. slow_ok s x"
  shows "\<exists>cs. collectSlow s its acc = Some cs \<and> sorted_wrt SlowElemCompare cs \<and> (\<forall>x \<in> set cs. slow_ok s x) \<and>
    set acc \<subseteq> set cs \<and> (\<forall>x \<in> set cs. x \<in> set acc \<or> snd (snd x) \<in> set (heads s its)) \<and>
    (\<forall>e v sig. e \<in> set (heads s its) \<longrightarrow> vce_cert e = Some (v, sig) \<longrightarrow> (\<exists>z \<in> set cs. slowKey z = (v, vce_digest e)))"
  using assms
proof (induction its arbitrary: acc)
  case Nil
  then show ?case by (simp add: heads_def)
next
  case (Cons it its)
  let ?e = "hd it"
  have cur: "iter_getCurrent it = Some ?e" "s \<le> vce_seqNum ?e" using vciter_current Cons.prems(1) by auto
  show ?case
  proof (cases "vce_seqNum ?e = s \<and> vce_cert ?e \<noteq> None")
    case False
    then have step: "collectSlow s (it # its) acc = collectSlow s its acc" using cur by (auto split: option.splits)
    have hds: "\<And>v sig e. e \<in> set (heads s (it # its)) \<Longrightarrow> vce_cert e = Some (v, sig) \<Longrightarrow> e \<in> set (heads s its)"
      "set (heads s its) \<subseteq> set (heads s (it # its))" using False by (auto simp: heads_Cons split: if_splits)
    show ?thesis unfolding step using Cons.IH [of acc] Cons.prems hds by (simp only: list.set ball_simps) blast
  next
    case True
    then obtain v sig where c: "vce_cert ?e = Some (v, sig)" "vce_seqNum ?e = s" by auto
    let ?x = "(v, sig, ?e)" and ?acc = "slowInsert (v, sig, ?e) acc"
    have step: "collectSlow s (it # its) acc = collectSlow s its ?acc" using cur c by simp
    have len: "length (vce_digest ?e) = DIGEST_SIZE" "sig \<noteq> []"
      using vciter_hd [of s it] Cons.prems(1) c(1) by (auto simp: element_ok_def)
    have ok: "slow_ok s ?x" using len c by (simp add: slow_ok_def)
    have srt: "sorted_wrt SlowElemCompare ?acc" using slowInsert_sorted Cons.prems(2) by blast
    have all: "\<forall>x \<in> set ?acc. slow_ok s x" using slowInsert_sets(1) [of ?x acc] Cons.prems(3) ok by auto
    have "\<forall>y \<in> set acc. length (snd (slowKey y)) = length (snd (slowKey ?x))"
      using Cons.prems(3) len(1) by (auto simp: slow_ok_def slowKey_def)
    then obtain z where z: "z \<in> set ?acc" "slowKey z = (v, vce_digest ?e)" using slowInsert_key [of acc ?x] by (auto simp: slowKey_def)
    obtain cs where cs: "collectSlow s its ?acc = Some cs" "sorted_wrt SlowElemCompare cs" "\<forall>x \<in> set cs. slow_ok s x"
      "set ?acc \<subseteq> set cs" "\<forall>x \<in> set cs. x \<in> set ?acc \<or> snd (snd x) \<in> set (heads s its)"
      "\<forall>e v sig. e \<in> set (heads s its) \<longrightarrow> vce_cert e = Some (v, sig) \<longrightarrow> (\<exists>z \<in> set cs. slowKey z = (v, vce_digest e))"
      using Cons.IH [OF _ srt all] Cons.prems(1) by auto
    have hd: "heads s (it # its) = ?e # heads s its" using c by (simp add: heads_Cons)
    have "set acc \<subseteq> set cs" using slowInsert_sets(2) [of acc ?x] cs(4) by blast
    moreover have "\<forall>x \<in> set cs. x \<in> set acc \<or> snd (snd x) \<in> set (heads s (it # its))"
      using cs(5) slowInsert_sets(1) [of ?x acc] hd by fastforce
    moreover have "\<forall>e v sig. e \<in> set (heads s (it # its)) \<longrightarrow> vce_cert e = Some (v, sig) \<longrightarrow> (\<exists>z \<in> set cs. slowKey z = (v, vce_digest e))"
      using cs(4,6) z c(1) hd by (metis (no_types, lifting) Pair_inject option.inject set_ConsD subsetD)
    ultimately show ?thesis unfolding step using cs(1-3) by blast
  qed
qed

lemma SlowElemCompare_view: "SlowElemCompare x y \<Longrightarrow> fst y \<le> fst x"
  by (auto simp: SlowElemCompare_def split: if_splits)

lemma checkSlow_ok:
  assumes "sorted_wrt SlowElemCompare cs" "\<forall>x \<in> set cs. slow_ok s x" "\<forall>p. prev = Some p \<longrightarrow> slow_ok s p \<and> (\<forall>x \<in> set cs. fst x \<le> fst p)"
  shows "checkSlowPathCertificates prev cs = Some True"
  using assms
proof (induction cs arbitrary: prev)
  case (Cons c cs)
  have rest: "checkSlowPathCertificates (Some c) cs = Some True"
    using Cons.prems SlowElemCompare_view by (intro Cons.IH) auto
  then show ?case using Cons.prems by (cases prev) (auto simp: slow_ok_def)
qed simp

text \<open>A report carries a valid certificate of a view.\<close>

definition validCert :: "SafetyLogic \<Rightarrow> SeqNum \<Rightarrow> VCElement \<Rightarrow> ViewNum \<Rightarrow> bool" where
  "validCert logic s e v \<longleftrightarrow>
     (\<exists>sig. vce_cert e = Some (v, sig) \<and> preparedCertVerifier logic (calcCombination (vce_digest e) v s) sig)"

lemma selectSlow_ok:
  assumes "sorted_wrt SlowElemCompare cs" "\<forall>x \<in> set cs. slow_ok s x"
  shows "\<exists>r. selectSlow logic s cs = Some r \<and>
    (case r of None \<Rightarrow> \<forall>x \<in> set cs. \<not> validCert logic s (snd (snd x)) (fst x)
     | Some x \<Rightarrow> x \<in> set cs \<and> validCert logic s (snd (snd x)) (fst x) \<and>
         (\<forall>y \<in> set cs. validCert logic s (snd (snd y)) (fst y) \<longrightarrow> fst y \<le> fst x))"
  using assms
proof (induction cs)
  case (Cons c cs)
  obtain v sig e where c: "c = (v, sig, e)" by (cases c)
  have ok: "vce_seqNum e = s" "sig \<noteq> []" "vce_cert e = Some (v, sig)" using Cons.prems(2) c by (auto simp: slow_ok_def)
  show ?case
  proof (cases "validCert logic s e v")
    case True
    moreover have "preparedCertVerifier logic (calcCombination (vce_digest e) v s) sig"
      using True ok(3) by (auto simp: validCert_def)
    ultimately show ?thesis using ok c Cons.prems(1) SlowElemCompare_view by (fastforce simp: case_prod_beta)
  next
    case False
    then have "\<not> preparedCertVerifier logic (calcCombination (vce_digest e) v s) sig" using ok(3) by (auto simp: validCert_def)
    then have step: "selectSlow logic s (c # cs) = selectSlow logic s cs" using ok c by simp
    obtain r where r: "selectSlow logic s cs = Some r" "case r of None \<Rightarrow> \<forall>x \<in> set cs. \<not> validCert logic s (snd (snd x)) (fst x)
     | Some x \<Rightarrow> x \<in> set cs \<and> validCert logic s (snd (snd x)) (fst x) \<and>
         (\<forall>y \<in> set cs. validCert logic s (snd (snd y)) (fst y) \<longrightarrow> fst y \<le> fst x)"
      using Cons.IH Cons.prems by auto
    show ?thesis unfolding step using r c False by (intro exI [of _ r]) (auto split: option.splits)
  qed
qed simp

section \<open>Votes\<close>

text \<open>The reports for a digest that originate from view \<open>m\<close> or later.\<close>

definition votes :: "ViewNum \<Rightarrow> Digest \<Rightarrow> VCElement list \<Rightarrow> nat" where
  "votes m d es = length (filter (\<lambda>e. vce_digest e = d \<and> m \<le> vce_originView e) es)"

definition quorumSize :: "SafetyLogic \<Rightarrow> nat" where
  "quorumSize logic = sl_F logic + sl_C logic + 1"

definition counted :: "(Digest \<Rightarrow> nat option) \<Rightarrow> Digest \<Rightarrow> nat" where
  "counted c d = (case c d of None \<Rightarrow> 0 | Some n \<Rightarrow> n)"

lemma votes_Cons: "votes m d (e # es) = (if vce_digest e = d \<and> m \<le> vce_originView e then 1 else 0) + votes m d es"
  by (simp add: votes_def)

lemma counted_empty: "counted Map.empty d = 0"
  by (simp add: counted_def)

lemma collectVotes_ok:
  assumes "\<forall>it \<in> set its. vciter_ok s it" "2 \<le> quorumSize logic" "quorumSize logic < 65536"
    "\<forall>d. counted c d < quorumSize logic" "\<forall>d n. c d = Some n \<longrightarrow> 0 < n"
  shows "\<exists>r. collectVotes logic s m its c = Some r \<and>
    (case r of None \<Rightarrow> \<forall>d. counted c d + votes m d (heads s its) < quorumSize logic
     | Some e \<Rightarrow> quorumSize logic \<le> counted c (vce_digest e) + votes m (vce_digest e) (heads s its))"
  using assms
proof (induction its arbitrary: c)
  case Nil
  then show ?case by (simp add: heads_def votes_def)
next
  case (Cons it its)
  let ?e = "hd it" and ?d = "vce_digest (hd it)"
  have cur: "iter_getCurrent it = Some ?e" "s \<le> vce_seqNum ?e" using vciter_current Cons.prems(1) by auto
  have q: "u16 (int (sl_F logic + sl_C logic + 1)) = quorumSize logic" using Cons.prems(3) by (simp add: u16_def quorumSize_def)
  show ?case
  proof (cases "vce_seqNum ?e = s \<and> m \<le> vce_originView ?e")
    case False
    have v: "votes m d (heads s (it # its)) = votes m d (heads s its)" for d
      using False by (auto simp: heads_Cons votes_Cons)
    have step: "collectVotes logic s m (it # its) c = collectVotes logic s m its c" using cur False by auto
    show ?thesis unfolding step v using Cons.IH [of c] Cons.prems by simp
  next
    case True
    have v: "votes m d (heads s (it # its)) = (if d = ?d then 1 else 0) + votes m d (heads s its)" for d
      using True by (auto simp: heads_Cons votes_Cons)
    let ?c = "c(?d \<mapsto> counted c ?d + 1)"
    have cnt: "counted ?c d = (if d = ?d then 1 else 0) + counted c d" for d by (simp add: counted_def)
    have pos: "\<forall>d n. ?c d = Some n \<longrightarrow> 0 < n" using Cons.prems(5) by simp
    show ?thesis
    proof (cases "counted c ?d + 1 = quorumSize logic")
      case full: True
      then have "c ?d = Some (counted c ?d)" using Cons.prems(2) by (auto simp: counted_def split: option.splits)
      then have "collectVotes logic s m (it # its) c = Some (Some ?e)" using cur True q full by simp
      then show ?thesis using full v [of ?d] by simp
    next
      case False
      have step: "collectVotes logic s m (it # its) c = collectVotes logic s m its ?c"
        using cur True q False Cons.prems(2) by (auto simp: counted_def split: option.splits)
      have below: "\<forall>d. counted ?c d < quorumSize logic"
      proof
        fix d
        show "counted ?c d < quorumSize logic"
          using Cons.prems(4) [rule_format, of d] False cnt [of d] by (cases "d = ?d") auto
      qed
      obtain r where r: "collectVotes logic s m its ?c = Some r"
        "case r of None \<Rightarrow> \<forall>d. counted ?c d + votes m d (heads s its) < quorumSize logic
         | Some e \<Rightarrow> quorumSize logic \<le> counted ?c (vce_digest e) + votes m (vce_digest e) (heads s its)"
        using Cons.IH [OF _ Cons.prems(2,3) below pos] Cons.prems(1) by (meson list.set_intros(2))
      have sum: "counted ?c d + votes m d (heads s its) = counted c d + votes m d (heads s (it # its))" for d
        using cnt [of d] v [of d] by simp
      show ?thesis unfolding step using r(1) r(2) [unfolded sum] by (intro exI conjI)
    qed
  qed
qed

section \<open>Advancing the iterators\<close>

definition atNum :: "SeqNum \<Rightarrow> VCIter multiset \<Rightarrow> VCElement multiset" where
  "atNum t M = (\<Sum>it \<in># M. mset (filter (\<lambda>e. vce_seqNum e = t) it))"

lemma atNum_add: "atNum t (add_mset it M) = mset (filter (\<lambda>e. vce_seqNum e = t) it) + atNum t M"
  by (simp add: atNum_def)

lemma atNum_without:
  assumes "i < length its"
  shows "atNum t (mset its) = mset (filter (\<lambda>e. vce_seqNum e = t) (its ! i)) + atNum t (mset its - {#its ! i#})"
  using assms insert_DiffM [of "its ! i" "mset its"] atNum_add [of t "its ! i" "mset its - {#its ! i#}"] by (simp add: nth_mem)

lemma swap_remove:
  assumes "i < length xs"
  shows "mset (butlast (xs[i := last xs])) = mset xs - {#xs ! i#}"
proof -
  obtain ys y where xs: "xs = ys @ [y]" using assms by (cases xs rule: rev_cases) auto
  show ?thesis
  proof (cases "i = length ys")
    case True
    then show ?thesis using xs by simp
  next
    case False
    then have i: "i < length ys" using assms xs by simp
    then have "butlast (xs[i := last xs]) = ys[i := y]" using xs by (simp add: list_update_append butlast_append)
    moreover have "xs ! i = ys ! i" using xs i by (simp add: nth_append)
    ultimately show ?thesis using xs i by (simp add: mset_update)
  qed
qed

lemma swap_remove_nth:
  "j < i \<Longrightarrow> i < length xs \<Longrightarrow> butlast (xs[i := last xs]) ! j = xs ! j"
  by (simp add: nth_butlast)

lemma vciter_tl:
  assumes "vciter_ok s (e # rest)" "rest \<noteq> []" "vce_seqNum e = s"
  shows "vciter_ok (s + 1) rest"
  using assms by (cases rest) (auto simp: vciter_ok_def)

lemma vciter_none:
  assumes "vciter_ok s (e # rest)" "vce_seqNum e = s" "s < t" "t \<le> ub" "rest = [] \<or> ub < vce_seqNum (hd rest)"
  shows "filter (\<lambda>e. vce_seqNum e = t) (e # rest) = []"
  using assms by (cases rest) (auto simp: vciter_ok_def filter_empty_conv)

lemma advanceIters_ok:
  assumes "\<forall>it \<in> set its. vciter_ok s it" "\<forall>j < i. j < length its \<longrightarrow> vciter_ok (s + 1) (its ! j)"
  shows "\<exists>its'. advanceIters s ub i its = Some its' \<and> (\<forall>it \<in> set its'. vciter_ok (s + 1) it) \<and>
    (\<forall>t. s < t \<and> t \<le> ub \<longrightarrow> atNum t (mset its') = atNum t (mset its))"
  using assms
proof (induction "length its - i" arbitrary: i its rule: less_induct)
  case less
  show ?case
  proof (cases "i < length its")
    case False
    then show ?thesis using less.prems by (subst advanceIters.simps) (auto simp: in_set_conv_nth)
  next
    case True
    obtain e rest where it: "its ! i = e # rest"
      using less.prems(1) True nth_mem [of i its] by (cases "its ! i") (auto simp: vciter_ok_def)
    have ok: "vciter_ok s (e # rest)" using less.prems(1) True nth_mem [of i its] it by auto
    have ge: "s \<le> vce_seqNum e" using ok by (simp add: vciter_ok_def)
    consider (later) "s < vce_seqNum e" | (drop) "vce_seqNum e = s" "rest = [] \<or> ub < vce_seqNum (hd rest)"
      | (next') "vce_seqNum e = s" "rest \<noteq> []" "\<not> ub < vce_seqNum (hd rest)" using ge by force
    then show ?thesis
    proof cases
      case later
      then have "vciter_ok (s + 1) (its ! i)" using ok it by (auto simp: vciter_ok_def)
      then have "\<forall>j < i + 1. j < length its \<longrightarrow> vciter_ok (s + 1) (its ! j)" using less.prems(2) by (auto simp: less_Suc_eq)
      then show ?thesis
        using less.hyps [of its "i + 1"] less.prems(1) True later it by (subst advanceIters.simps) (simp add: iter_getCurrent_def)
    next
      case drop
      let ?its = "butlast (its[i := last its])"
      have step: "advanceIters s ub i its = advanceIters s ub i ?its"
        using True it drop by (subst advanceIters.simps) (auto simp: iter_getCurrent_def Let_def split: list.splits)
      have ms: "mset ?its = mset its - {#its ! i#}" using swap_remove [OF True] .
      then have "set ?its \<subseteq> set its" by (metis in_diffD set_mset_mset subsetI)
      then have all: "\<forall>it \<in> set ?its. vciter_ok s it" using less.prems(1) by blast
      have "\<forall>j < i. j < length ?its \<longrightarrow> vciter_ok (s + 1) (?its ! j)"
        using less.prems(2) swap_remove_nth [OF _ True] True by simp
      then obtain its' where its': "advanceIters s ub i ?its = Some its'" "\<forall>it \<in> set its'. vciter_ok (s + 1) it"
        "\<forall>t. s < t \<and> t \<le> ub \<longrightarrow> atNum t (mset its') = atNum t (mset ?its)"
        using less.hyps [of ?its i] all True diff_less_mono2 [of i "i + 1" "length its"] by auto
      have "atNum t (mset ?its) = atNum t (mset its)" if "s < t" "t \<le> ub" for t
        using atNum_without [OF True, of t] vciter_none [OF ok drop(1) that drop(2)] it ms by simp
      then show ?thesis using step its' by simp
    next
      case next'
      let ?its = "its[i := rest]"
      have step: "advanceIters s ub i its = advanceIters s ub (i + 1) ?its"
        using True it next' by (subst advanceIters.simps) (auto simp: iter_getCurrent_def Let_def split: list.splits)
      have tl: "vciter_ok (s + 1) rest" using vciter_tl [OF ok next'(2,1)] .
      then have "vciter_ok s rest" by (simp add: vciter_ok_def)
      then have all: "\<forall>it \<in> set ?its. vciter_ok s it" using less.prems(1) set_update_subset_insert [of its i rest] by blast
      have "\<forall>j < i + 1. j < length ?its \<longrightarrow> vciter_ok (s + 1) (?its ! j)"
        using less.prems(2) tl True by (auto simp: nth_list_update less_Suc_eq)
      then obtain its' where its': "advanceIters s ub (i + 1) ?its = Some its'" "\<forall>it \<in> set its'. vciter_ok (s + 1) it"
        "\<forall>t. s < t \<and> t \<le> ub \<longrightarrow> atNum t (mset its') = atNum t (mset ?its)"
        using less.hyps [of ?its "i + 1"] all True diff_less_mono2 [of i "i + 1" "length its"] by auto
      have "atNum t (mset ?its) = atNum t (mset its)" if "s < t" "t \<le> ub" for t
        using atNum_without [OF True, of t] it True next'(1) that by (simp add: mset_update atNum_add)
      then show ?thesis using step its' by simp
    qed
  qed
qed

lemma heads_atNum: "\<forall>it \<in> set its. vciter_ok s it \<Longrightarrow> mset (heads s its) = atNum s (mset its)"
proof (induction its)
  case Nil
  then show ?case by (simp add: heads_def atNum_def)
next
  case (Cons it its)
  obtain e rest where it: "it = e # rest" using Cons.prems by (cases it) (auto simp: vciter_ok_def)
  have "filter (\<lambda>e. vce_seqNum e = s) rest = []"
    using Cons.prems it by (auto simp: vciter_ok_def filter_empty_conv)
  then show ?case using Cons it by (auto simp: heads_Cons atNum_add)
qed

section \<open>The rule for one sequence number\<close>

text \<open>The rule in terms of the reports \<open>es\<close> for the number, in any order: the highest valid certificate is
  found first; \<open>F + C + 1\<close> reports from later views for one digest win over it.\<close>

definition topCert :: "SafetyLogic \<Rightarrow> SeqNum \<Rightarrow> VCElement list \<Rightarrow> (ViewNum \<times> VCElement) option \<Rightarrow> bool" where
  "topCert logic s es best \<longleftrightarrow>
     (case best of
        None \<Rightarrow> \<forall>e \<in> set es. \<forall>v. \<not> validCert logic s e v
      | Some (v, e) \<Rightarrow> e \<in> set es \<and> validCert logic s e v \<and> (\<forall>e' \<in> set es. \<forall>v'. validCert logic s e' v' \<longrightarrow> v' \<le> v))"

definition minFastView :: "(ViewNum \<times> VCElement) option \<Rightarrow> ViewNum" where
  "minFastView best = (case best of None \<Rightarrow> 0 | Some (v, e) \<Rightarrow> v + 1)"

definition restrictionRule :: "SafetyLogic \<Rightarrow> SeqNum \<Rightarrow> VCElement list \<Rightarrow> bool \<Rightarrow> Digest \<Rightarrow> bool" where
  "restrictionRule logic s es ok d \<longleftrightarrow>
     (\<exists>best. topCert logic s es best \<and>
       (if \<exists>d'. quorumSize logic \<le> votes (minFastView best) d' es
        then ok \<and> quorumSize logic \<le> votes (minFastView best) d es
        else (case best of None \<Rightarrow> \<not> ok \<and> d = zeroDigest | Some (v, e) \<Rightarrow> ok \<and> d = vce_digest e)))"

text \<open>Certificates for the same view and the same digest are all valid or all invalid.\<close>

definition certs_agree :: "SafetyLogic \<Rightarrow> SeqNum \<Rightarrow> VCElement list \<Rightarrow> bool" where
  "certs_agree logic s es \<longleftrightarrow>
     (\<forall>e1 \<in> set es. \<forall>e2 \<in> set es. \<forall>v sig. validCert logic s e1 v \<longrightarrow> vce_digest e2 = vce_digest e1 \<longrightarrow>
        vce_cert e2 = Some (v, sig) \<longrightarrow> validCert logic s e2 v)"

lemma votes_mset: "mset es = mset es' \<Longrightarrow> votes m d es = votes m d es'"
  by (simp add: votes_def size_mset [symmetric] del: size_mset)

lemma topCert_mset: "mset es = mset es' \<Longrightarrow> topCert logic s es best \<longleftrightarrow> topCert logic s es' best"
  by (cases best) (auto simp: topCert_def dest: mset_eq_setD)

lemma restrictionRule_mset:
  assumes "mset es = mset es'"
  shows "restrictionRule logic s es ok d \<longleftrightarrow> restrictionRule logic s es' ok d"
  unfolding restrictionRule_def votes_mset [OF assms] topCert_mset [OF assms] ..

lemma certs_agree_mset: "mset es = mset es' \<Longrightarrow> certs_agree logic s es \<longleftrightarrow> certs_agree logic s es'"
  unfolding certs_agree_def by (drule mset_eq_setD) (simp only:)

lemma selected_topCert:
  assumes slows: "\<forall>x \<in> set cs. slow_ok s x" "\<forall>x \<in> set cs. snd (snd x) \<in> set es"
    "\<forall>e v sig. e \<in> set es \<longrightarrow> vce_cert e = Some (v, sig) \<longrightarrow> (\<exists>z \<in> set cs. slowKey z = (v, vce_digest e))"
    and agree: "certs_agree logic s es"
    and sel: "case r of None \<Rightarrow> \<forall>x \<in> set cs. \<not> validCert logic s (snd (snd x)) (fst x)
     | Some x \<Rightarrow> x \<in> set cs \<and> validCert logic s (snd (snd x)) (fst x) \<and>
         (\<forall>y \<in> set cs. validCert logic s (snd (snd y)) (fst y) \<longrightarrow> fst y \<le> fst x)"
  shows "topCert logic s es (map_option (\<lambda>x. (fst x, snd (snd x))) r)"
proof -
  have in_set: "\<exists>z \<in> set cs. fst z = v \<and> validCert logic s (snd (snd z)) v" if e: "e \<in> set es" "validCert logic s e v" for e v
  proof -
    obtain sig where "vce_cert e = Some (v, sig)" using e(2) by (auto simp: validCert_def)
    then obtain z where z: "z \<in> set cs" "fst z = v" "vce_digest (snd (snd z)) = vce_digest e"
      using slows(3) e(1) by (fastforce simp: slowKey_def)
    obtain vz sg ez where zz: "z = (vz, sg, ez)" by (cases z)
    have "vce_cert ez = Some (v, sg)" "ez \<in> set es" using slows(1,2) z zz by (auto simp: slow_ok_def)
    moreover have "vce_digest ez = vce_digest e" using z(3) zz by simp
    ultimately have "validCert logic s ez v" using agree e unfolding certs_agree_def by blast
    then show ?thesis using z zz by (intro bexI [of _ z]) auto
  qed
  show ?thesis
  proof (cases r)
    case None
    have "\<not> validCert logic s e v" if "e \<in> set es" for e v
      using in_set [OF that, of v] sel None by auto
    then show ?thesis using None by (simp add: topCert_def)
  next
    case (Some x)
    have "v' \<le> fst x" if "e' \<in> set es" "validCert logic s e' v'" for e' v'
      using in_set [OF that] sel Some by auto
    then show ?thesis using Some sel slows(2) by (simp add: topCert_def)
  qed
qed

lemma computeRestrictionsForSeqNum_ok:
  assumes its: "its \<noteq> []" "\<forall>it \<in> set its. vciter_ok s it" and s: "s \<le> ub"
    and q: "2 \<le> quorumSize logic" "quorumSize logic < 65536" and agree: "certs_agree logic s (heads s its)"
  shows "\<exists>ok d its'. computeRestrictionsForSeqNum logic s its ub = Some (ok, d, its') \<and>
    restrictionRule logic s (heads s its) ok d \<and> (\<forall>it \<in> set its'. vciter_ok (s + 1) it) \<and>
    (\<forall>t. s < t \<and> t \<le> ub \<longrightarrow> atNum t (mset its') = atNum t (mset its))"
proof -
  obtain cs where cs: "collectSlow s its [] = Some cs" "sorted_wrt SlowElemCompare cs" "\<forall>x \<in> set cs. slow_ok s x"
    "\<forall>x \<in> set cs. snd (snd x) \<in> set (heads s its)"
    "\<forall>e v sig. e \<in> set (heads s its) \<longrightarrow> vce_cert e = Some (v, sig) \<longrightarrow> (\<exists>z \<in> set cs. slowKey z = (v, vce_digest e))"
    using collectSlow_ok [OF its(2), of "[]"] by auto
  have chk: "checkSlowPathCertificates None cs = Some True" using checkSlow_ok [OF cs(2,3)] by simp
  obtain r where r: "selectSlow logic s cs = Some r" "case r of None \<Rightarrow> \<forall>x \<in> set cs. \<not> validCert logic s (snd (snd x)) (fst x)
     | Some x \<Rightarrow> x \<in> set cs \<and> validCert logic s (snd (snd x)) (fst x) \<and>
         (\<forall>y \<in> set cs. validCert logic s (snd (snd y)) (fst y) \<longrightarrow> fst y \<le> fst x)"
    using selectSlow_ok [OF cs(2,3)] by blast
  let ?best = "map_option (\<lambda>x. (fst x, snd (snd x))) r"
  have best: "topCert logic s (heads s its) ?best" using selected_topCert [OF cs(3-5) agree r(2)] .
  have m: "(case r of None \<Rightarrow> 0 | Some slow \<Rightarrow> fst slow + 1) = minFastView ?best" by (cases r) (simp_all add: minFastView_def)
  obtain f where f: "collectVotes logic s (minFastView ?best) its Map.empty = Some f"
    "case f of None \<Rightarrow> \<forall>d. votes (minFastView ?best) d (heads s its) < quorumSize logic
     | Some e \<Rightarrow> quorumSize logic \<le> votes (minFastView ?best) (vce_digest e) (heads s its)"
    using collectVotes_ok [OF its(2) q, where c = Map.empty and m = "minFastView ?best", unfolded counted_empty add_0] q(1)
    by auto
  obtain its' where its': "advanceIters s ub 0 its = Some its'" "\<forall>it \<in> set its'. vciter_ok (s + 1) it"
    "\<forall>t. s < t \<and> t \<le> ub \<longrightarrow> atNum t (mset its') = atNum t (mset its)"
    using advanceIters_ok [OF its(2), of 0 ub] by auto
  have run: "computeRestrictionsForSeqNum logic s its ub = Some (case f of
       Some e \<Rightarrow> (True, vce_digest e, its')
     | None \<Rightarrow> (case r of Some (v, sig, e) \<Rightarrow> (True, vce_digest e, its') | None \<Rightarrow> (False, zeroDigest, its')))"
    using its(1) s cs(1) chk r(1) m f(1) its'(1) by (simp add: computeRestrictionsForSeqNum_def Let_def)
  show ?thesis
  proof (cases f)
    case (Some e)
    then have "restrictionRule logic s (heads s its) True (vce_digest e)"
      using best f(2) by (auto simp: restrictionRule_def)
    then show ?thesis using run Some its'(2,3) by auto
  next
    case None
    have no: "\<not> (\<exists>d. quorumSize logic \<le> votes (minFastView ?best) d (heads s its))" using f(2) None by (auto simp: not_le)
    show ?thesis
    proof (cases r)
      case rn: None
      have "restrictionRule logic s (heads s its) False zeroDigest"
        unfolding restrictionRule_def using best no rn by (intro exI [of _ ?best]) simp
      then show ?thesis using run None rn its'(2,3) by auto
    next
      case (Some x)
      obtain v sig e where x: "x = (v, sig, e)" by (cases x)
      have "restrictionRule logic s (heads s its) True (vce_digest e)"
        unfolding restrictionRule_def using best no Some x by (intro exI [of _ ?best]) simp
      then show ?thesis using run None Some x its'(2,3) by auto
    qed
  qed
qed

section \<open>The window\<close>

definition reportsAt :: "SeqNum \<Rightarrow> VCReport option list \<Rightarrow> VCElement list" where
  "reportsAt t msgs = filter (\<lambda>e. vce_seqNum e = t) (concat (map (\<lambda>m. case m of None \<Rightarrow> [] | Some vc \<Rightarrow> vr_elements vc) msgs))"

definition report_ok :: "VCReport \<Rightarrow> bool" where
  "report_ok vc \<longleftrightarrow> sorted_wrt (\<lambda>a b. vce_seqNum a < vce_seqNum b) (vr_elements vc) \<and> (\<forall>e \<in> set (vr_elements vc). element_ok e)"

lemma filter_dropWhile:
  assumes "lb \<le> t"
  shows "filter (\<lambda>e. vce_seqNum e = t) (dropWhile (\<lambda>e. vce_seqNum e < lb) es) = filter (\<lambda>e. vce_seqNum e = t) es"
  using assms by (induction es) auto

lemma dropWhile_vciter:
  assumes "report_ok vc" "dropWhile (\<lambda>e. vce_seqNum e < lb) (vr_elements vc) \<noteq> []"
  shows "vciter_ok lb (dropWhile (\<lambda>e. vce_seqNum e < lb) (vr_elements vc))"
  using assms hd_dropWhile [OF assms(2)] set_dropWhileD
  by (fastforce simp: vciter_ok_def report_ok_def not_less intro: sorted_wrt_dropWhile)

lemma createIters_ok:
  assumes "\<forall>vc. Some vc \<in> set msgs \<longrightarrow> report_ok vc"
  shows "(\<forall>it \<in> set (createIters lb msgs). vciter_ok lb it) \<and>
    (\<forall>t \<ge> lb. atNum t (mset (createIters lb msgs)) = mset (reportsAt t msgs))"
  using assms
proof (induction msgs)
  case Nil
  then show ?case by (simp add: atNum_def reportsAt_def)
next
  case (Cons m msgs)
  have IH: "\<forall>it \<in> set (createIters lb msgs). vciter_ok lb it"
    "\<forall>t \<ge> lb. atNum t (mset (createIters lb msgs)) = mset (reportsAt t msgs)" using Cons by auto
  show ?case
  proof (cases m)
    case None
    then show ?thesis using IH by (simp add: reportsAt_def)
  next
    case (Some vc)
    let ?it = "dropWhile (\<lambda>e. vce_seqNum e < lb) (vr_elements vc)"
    have rep: "reportsAt t (m # msgs) = filter (\<lambda>e. vce_seqNum e = t) (vr_elements vc) @ reportsAt t msgs" for t
      using Some by (simp add: reportsAt_def)
    show ?thesis
    proof (cases "?it = []")
      case True
      then have "createIters lb (m # msgs) = createIters lb msgs" using Some by simp
      moreover have "filter (\<lambda>e. vce_seqNum e = t) (vr_elements vc) = []" if "lb \<le> t" for t
        using filter_dropWhile [OF that, of "vr_elements vc"] True by simp
      ultimately show ?thesis using IH rep by simp
    next
      case False
      then have "createIters lb (m # msgs) = ?it # createIters lb msgs" using Some by auto
      then show ?thesis
        using IH rep dropWhile_vciter [of vc lb] False Cons.prems Some by (simp add: atNum_add filter_dropWhile)
    qed
  qed
qed

text \<open>Position \<open>j\<close> of the array holds what the rule says for its number.\<close>

definition restrictedBy :: "SafetyLogic \<Rightarrow> SeqNum \<Rightarrow> VCElement list \<Rightarrow> Restriction \<Rightarrow> SeqNum \<Rightarrow> bool" where
  "restrictedBy logic s es r lastRestriction \<longleftrightarrow>
     (\<exists>ok d. restrictionRule logic s es ok d \<and> r = \<lparr>r_isNull = (\<not> (ok \<and> d \<noteq> sl_nullDigest logic)), r_digest = d\<rparr> \<and>
        (ok \<and> d \<noteq> sl_nullDigest logic \<longrightarrow> s \<le> lastRestriction))"

lemma restrictedBy_mono: "restrictedBy logic s es r l \<Longrightarrow> l \<le> l' \<Longrightarrow> restrictedBy logic s es r l'"
  unfolding restrictedBy_def by force

lemma restrictLoop_ok:
  assumes "\<forall>it \<in> set its. vciter_ok (lb + int i) it" "\<forall>t. lb + int i \<le> t \<and> t \<le> ub \<longrightarrow> atNum t (mset its) = mset (R t)"
    "lb + int (i + k) - 1 \<le> ub" "i + k \<le> length arr" "l < lb + int i"
    "2 \<le> quorumSize logic" "quorumSize logic < 65536" "\<forall>t. lb \<le> t \<and> t \<le> ub \<longrightarrow> certs_agree logic t (R t)"
  shows "\<exists>i' arr' l'. restrictLoop logic lb ub i k its arr l = Some (i', arr', l') \<and> length arr' = length arr \<and>
    i \<le> i' \<and> i' \<le> i + k \<and> l \<le> l' \<and> (l' = l \<or> l' < lb + int i') \<and> (\<forall>j < i. arr' ! j = arr ! j) \<and>
    (\<forall>j. i \<le> j \<and> j < i' \<longrightarrow> restrictedBy logic (lb + int j) (R (lb + int j)) (arr' ! j) l') \<and>
    (\<forall>j. i' \<le> j \<and> j < i + k \<longrightarrow> R (lb + int j) = [])"
  using assms
proof (induction k arbitrary: i its arr l)
  case 0
  then show ?case by auto
next
  case (Suc k)
  show ?case
  proof (cases "its = []")
    case True
    have "R (lb + int j) = []" if "i \<le> j" "j < i + Suc k" for j
      using Suc.prems(2) [rule_format, of "lb + int j"] Suc.prems(3) that True by (simp add: atNum_def)
    then show ?thesis using True by auto
  next
    case False
    let ?s = "lb + int i"
    have le: "?s \<le> ub" using Suc.prems(3) by simp
    have ms: "mset (heads ?s its) = mset (R ?s)" using heads_atNum [OF Suc.prems(1)] Suc.prems(2) le by simp
    have agree: "certs_agree logic ?s (heads ?s its)" using certs_agree_mset [OF ms] Suc.prems(8) le by simp
    obtain ok d its1 where c: "computeRestrictionsForSeqNum logic ?s its ub = Some (ok, d, its1)"
      "restrictionRule logic ?s (heads ?s its) ok d" "\<forall>it \<in> set its1. vciter_ok (?s + 1) it"
      "\<forall>t. ?s < t \<and> t \<le> ub \<longrightarrow> atNum t (mset its1) = atNum t (mset its)"
      using computeRestrictionsForSeqNum_ok [OF False Suc.prems(1) le Suc.prems(6,7) agree] by blast
    let ?r = "ok \<and> d \<noteq> sl_nullDigest logic"
    let ?arr = "arr[i := \<lparr>r_isNull = (\<not> ?r), r_digest = d\<rparr>]" and ?l = "if ?r then ?s else l"
    have step: "restrictLoop logic lb ub i (Suc k) its arr l = restrictLoop logic lb ub (i + 1) k its1 ?arr ?l"
      using False c(1) Suc.prems(4) by (auto simp: Let_def)
    have pre: "\<forall>it \<in> set its1. vciter_ok (lb + int (i + 1)) it"
      "\<forall>t. lb + int (i + 1) \<le> t \<and> t \<le> ub \<longrightarrow> atNum t (mset its1) = mset (R t)"
      "lb + int (i + 1 + k) - 1 \<le> ub" "i + 1 + k \<le> length ?arr" "?l < lb + int (i + 1)"
      "2 \<le> quorumSize logic" "quorumSize logic < 65536" "\<forall>t. lb \<le> t \<and> t \<le> ub \<longrightarrow> certs_agree logic t (R t)"
      using c(3,4) Suc.prems(2-8) by (auto simp: add.assoc add.commute [of 1])
    obtain i' arr' l' where r: "restrictLoop logic lb ub (i + 1) k its1 ?arr ?l = Some (i', arr', l')" "length arr' = length arr"
      "i + 1 \<le> i'" "i' \<le> i + 1 + k" "?l \<le> l'" "l' = ?l \<or> l' < lb + int i'" "\<forall>j < i + 1. arr' ! j = ?arr ! j"
      "\<forall>j. i + 1 \<le> j \<and> j < i' \<longrightarrow> restrictedBy logic (lb + int j) (R (lb + int j)) (arr' ! j) l'"
      "\<forall>j. i' \<le> j \<and> j < i + 1 + k \<longrightarrow> R (lb + int j) = []"
      using Suc.IH [OF pre] by auto
    have "restrictionRule logic ?s (R ?s) ok d" using restrictionRule_mset [OF ms] c(2) by simp
    then have "restrictedBy logic ?s (R ?s) (?arr ! i) ?l" using Suc.prems(4) by (auto simp: restrictedBy_def)
    then have here: "restrictedBy logic ?s (R ?s) (arr' ! i) l'" using restrictedBy_mono r(5,7) by simp
    have "\<forall>j. i \<le> j \<and> j < i' \<longrightarrow> restrictedBy logic (lb + int j) (R (lb + int j)) (arr' ! j) l'"
      using r(8) here by (metis Suc_eq_plus1 Suc_leI le_neq_implies_less)
    moreover have "\<forall>j < i. arr' ! j = arr ! j" using r(7) by simp
    moreover have "l \<le> l'" "l' = l \<or> l' < lb + int i'" using r(3,5,6) Suc.prems(5) by (auto split: if_splits)
    ultimately show ?thesis unfolding step using r(1-4,9) by (intro exI [of _ i'] exI [of _ arr'] exI [of _ l']) auto
  qed
qed

lemma resetRestrictions_ok:
  assumes "i + k \<le> length arr"
  shows "\<exists>arr'. resetRestrictions i k arr = Some arr' \<and> length arr' = length arr \<and> (\<forall>j < i. arr' ! j = arr ! j) \<and>
    (\<forall>j. i \<le> j \<and> j < i + k \<longrightarrow> r_isNull (arr' ! j))"
  using assms
proof (induction k arbitrary: i arr)
  case (Suc k)
  let ?arr = "arr[i := (arr ! i)\<lparr>r_isNull := True\<rparr>]"
  obtain arr' where a: "resetRestrictions (i + 1) k ?arr = Some arr'" "length arr' = length arr" "\<forall>j < i + 1. arr' ! j = ?arr ! j"
    "\<forall>j. i + 1 \<le> j \<and> j < i + 1 + k \<longrightarrow> r_isNull (arr' ! j)"
    using Suc.IH [of "i + 1" ?arr] Suc.prems by auto
  have "r_isNull (arr' ! i)" using a(3) Suc.prems by simp
  then have "\<forall>j. i \<le> j \<and> j < i + Suc k \<longrightarrow> r_isNull (arr' ! j)"
    using a(4) by (metis Suc_eq_plus1 Suc_leI add_Suc_right add_Suc le_neq_implies_less)
  then show ?case using a Suc.prems by auto
qed auto

text \<open>What the whole computation returns: it never fails, and every number of the window is restricted by
  the rule.\<close>

lemma computeRestrictions_ok:
  assumes msgs: "\<forall>vc. Some vc \<in> set msgs \<longrightarrow> report_ok vc" "length msgs \<le> sl_N logic" and lb: "0 \<le> lbStable"
    and arr: "length arr = nat kWorkWindowSize" and q: "2 \<le> quorumSize logic" "quorumSize logic < 65536"
    and agree: "\<forall>t. lbStable < t \<and> t \<le> lbStable + kWorkWindowSize \<longrightarrow> certs_agree logic t (reportsAt t msgs)"
  shows "\<exists>mn mx arr' l. computeRestrictions logic msgs lbStable arr = Some (mn, mx, arr') \<and>
    (\<forall>t. lbStable < t \<and> t \<le> lbStable + kWorkWindowSize \<longrightarrow>
       (if reportsAt t msgs = [] then r_isNull (arr' ! nat (t - lbStable - 1))
        else restrictedBy logic t (reportsAt t msgs) (arr' ! nat (t - lbStable - 1)) l \<and> mn = lbStable + 1 \<and>
          (t \<le> l \<longrightarrow> t \<le> mx)))"
proof -
  let ?lb = "lbStable + 1" and ?ub = "lbStable + kWorkWindowSize" and ?R = "\<lambda>t. reportsAt t msgs"
  define its where "its = createIters ?lb (take (sl_N logic) msgs)"
  have its: "\<forall>it \<in> set its. vciter_ok ?lb it" "\<forall>t \<ge> ?lb. atNum t (mset its) = mset (?R t)"
    using createIters_ok [OF msgs(1), of ?lb] msgs(2) by (simp_all add: its_def)
  obtain i arr1 l where r: "restrictLoop logic ?lb ?ub 0 300 its arr 0 = Some (i, arr1, l)" "length arr1 = length arr"
    "i \<le> 300" "0 \<le> l" "\<forall>j. j < i \<longrightarrow> restrictedBy logic (?lb + int j) (?R (?lb + int j)) (arr1 ! j) l"
    "\<forall>j. i \<le> j \<and> j < 300 \<longrightarrow> ?R (?lb + int j) = []" "l = 0 \<or> l < ?lb + int i"
    using restrictLoop_ok [of its ?lb 0 ?ub ?R 300 arr 0 logic] its lb arr q agree by auto
  obtain arr2 where a: "resetRestrictions i (300 - i) arr1 = Some arr2" "\<forall>j < i. arr2 ! j = arr1 ! j"
    "\<forall>j. i \<le> j \<and> j < 300 \<longrightarrow> r_isNull (arr2 ! j)"
    using resetRestrictions_ok [of i "300 - i" arr1] r(2,3) arr by auto
  define out where "out = (if its = [] then (0, 0, arr2)
      else if l > 0 \<and> l \<le> ?ub - checkpointWindowSize then (?lb, ?ub - checkpointWindowSize, arr2) else (?lb, ?ub, arr2))"
  have run: "computeRestrictions logic msgs lbStable arr = Some out"
    using r(1) a(1) by (simp add: computeRestrictions_def its_def [symmetric] Let_def out_def)
  have spec: "if ?R t = [] then r_isNull (arr2 ! nat (t - lbStable - 1))
      else restrictedBy logic t (?R t) (arr2 ! nat (t - lbStable - 1)) l \<and> fst out = ?lb \<and> (t \<le> l \<longrightarrow> t \<le> fst (snd out))"
    if t: "lbStable < t" "t \<le> ?ub" for t
  proof -
    define j where "j = nat (t - lbStable - 1)"
    have j: "j < 300" "?lb + int j = t" using t by (auto simp: j_def)
    show ?thesis
    proof (cases "j < i")
      case True
      have res: "restrictedBy logic t (?R t) (arr2 ! j) l" using r(5) a(2) True j by auto
      show ?thesis
      proof (cases "?R t = []")
        case empty: True
        have "\<not> quorumSize logic \<le> votes m d []" for m d using q(1) by (simp add: votes_def)
        then have "r_isNull (arr2 ! j)"
          using res empty by (auto simp: restrictedBy_def restrictionRule_def topCert_def split: option.splits if_splits)
        then show ?thesis using empty by (simp add: j_def)
      next
        case False
        then have ne: "its \<noteq> []" using its(2) [rule_format, of t] t by (auto simp: atNum_def)
        then have "t \<le> l \<longrightarrow> t \<le> fst (snd out)" using t by (auto simp: out_def)
        then show ?thesis using False res ne by (auto simp: out_def j_def)
      qed
    next
      case False
      then have "?R (?lb + int j) = []" "r_isNull (arr2 ! j)" using r(6) a(3) j(1) by auto
      then show ?thesis unfolding j(2) by (simp add: j_def)
    qed
  qed
  show ?thesis
  proof (intro exI conjI allI impI)
    show "computeRestrictions logic msgs lbStable arr = Some (fst out, fst (snd out), arr2)" using run by (simp add: out_def)
    fix t assume "lbStable < t \<and> t \<le> ?ub"
    then show "if ?R t = [] then r_isNull (arr2 ! nat (t - lbStable - 1))
      else restrictedBy logic t (?R t) (arr2 ! nat (t - lbStable - 1)) l \<and> fst out = ?lb \<and> (t \<le> l \<longrightarrow> t \<le> fst (snd out))"
      using spec by blast
  qed
qed

section \<open>What survives a view change\<close>

lemma votes_le: "m \<le> m' \<Longrightarrow> votes m' d es \<le> votes m d es"
  unfolding votes_def by (induction es) auto

lemma votes_disjoint: "d \<noteq> d' \<Longrightarrow> votes m d es + votes m' d' es \<le> length es"
  unfolding votes_def by (induction es) auto

text \<open>A digest with a valid certificate that no later certificate and no later majority contradicts.\<close>

lemma rule_keeps_prepared:
  assumes rule: "restrictionRule logic s es ok d'" and e: "e \<in> set es" "validCert logic s e v" "vce_digest e = d"
    and later: "\<forall>e' \<in> set es. \<forall>v' \<ge> v. validCert logic s e' v' \<longrightarrow> vce_digest e' = d"
    and few: "\<forall>d'. d' \<noteq> d \<longrightarrow> votes (v + 1) d' es < quorumSize logic"
  shows "ok \<and> d' = d"
proof -
  obtain best where best: "topCert logic s es best"
    "if \<exists>d'. quorumSize logic \<le> votes (minFastView best) d' es
        then ok \<and> quorumSize logic \<le> votes (minFastView best) d' es
        else (case best of None \<Rightarrow> \<not> ok \<and> d' = zeroDigest | Some (v, e) \<Rightarrow> ok \<and> d' = vce_digest e)"
    using rule unfolding restrictionRule_def by blast
  then obtain vb eb where b: "best = Some (vb, eb)" "eb \<in> set es" "validCert logic s eb vb" "v \<le> vb"
    using e by (auto simp: topCert_def split: option.splits)
  then have db: "vce_digest eb = d" using later by blast
  have "d'' = d" if "quorumSize logic \<le> votes (minFastView best) d'' es" for d''
    using that few votes_le [of "v + 1" "vb + 1" d'' es] b by (fastforce simp: minFastView_def)
  then show ?thesis using best(2) b(1) db by (auto split: if_splits)
qed

text \<open>A digest reported by a quorum that no later certificate contradicts.\<close>

lemma rule_keeps_reported:
  assumes rule: "restrictionRule logic s es ok d'" and maj: "quorumSize logic \<le> votes v d es" "0 \<le> v"
    and few: "length es < 2 * quorumSize logic"
    and later: "\<forall>e' \<in> set es. \<forall>v' \<ge> v. validCert logic s e' v' \<longrightarrow> vce_digest e' = d"
  shows "ok \<and> d' = d"
proof -
  obtain best where best: "topCert logic s es best"
    "if \<exists>d'. quorumSize logic \<le> votes (minFastView best) d' es
        then ok \<and> quorumSize logic \<le> votes (minFastView best) d' es
        else (case best of None \<Rightarrow> \<not> ok \<and> d' = zeroDigest | Some (v, e) \<Rightarrow> ok \<and> d' = vce_digest e)"
    using rule unfolding restrictionRule_def by blast
  have unique: "d'' = d" if "quorumSize logic \<le> votes m d'' es" for m d''
    using that maj(1) few votes_disjoint [of d'' d m es v] by fastforce
  show ?thesis
  proof (cases "minFastView best \<le> v")
    case True
    then have "quorumSize logic \<le> votes (minFastView best) d es" using maj(1) votes_le [OF True, of d es] by linarith
    then have "ok \<and> quorumSize logic \<le> votes (minFastView best) d' es" using best(2) by (simp split: if_splits)
    then show ?thesis using unique by blast
  next
    case False
    then obtain vb eb where b: "best = Some (vb, eb)" "v \<le> vb" using maj(2) by (cases best) (auto simp: minFastView_def)
    then have "vce_digest eb = d" using best(1) later by (auto simp: topCert_def)
    then have "ok \<and> (quorumSize logic \<le> votes (minFastView best) d' es \<or> d' = d)"
      using best(2) b(1) by (simp split: if_splits)
    then show ?thesis using unique by blast
  qed
qed

lemma restricted_entry:
  assumes "restrictedBy logic t es r l" "\<And>ok d'. restrictionRule logic t es ok d' \<Longrightarrow> ok \<and> d' = d" "d \<noteq> sl_nullDigest logic"
  shows "r = \<lparr>r_isNull = False, r_digest = d\<rparr> \<and> t \<le> l"
  using assms unfolding restrictedBy_def by auto

text \<open>A prepared batch survives. The reports of the replicas are given; one of them carries a valid
  certificate of view \<open>v\<close> for a digest of sequence number \<open>s\<close>. If no valid certificate of view \<open>v\<close> or later is
  for another digest, fewer than \<open>F + C + 1\<close> replicas report another digest from a later view, and equal
  certificates are equally valid, then the computation succeeds and restricts \<open>s\<close> to that digest, inside
  the range it announces.\<close>

theorem prepared_batch_survives:
  assumes "\<forall>vc. Some vc \<in> set msgs \<longrightarrow> report_ok vc" "length msgs \<le> sl_N logic" "0 \<le> lbStable"
    and "length restrictions = nat kWorkWindowSize" "1 \<le> sl_F logic + sl_C logic" "sl_F logic + sl_C logic < 65535"
    and "\<forall>t. lbStable < t \<and> t \<le> lbStable + kWorkWindowSize \<longrightarrow> certs_agree logic t (reportsAt t msgs)"
    and "lbStable < s" "s \<le> lbStable + kWorkWindowSize" "e \<in> set (reportsAt s msgs)" "validCert logic s e v"
    and "vce_digest e \<noteq> sl_nullDigest logic"
    and "\<forall>e' \<in> set (reportsAt s msgs). \<forall>v' \<ge> v. validCert logic s e' v' \<longrightarrow> vce_digest e' = vce_digest e"
    and "\<forall>d. d \<noteq> vce_digest e \<longrightarrow> votes (v + 1) d (reportsAt s msgs) < sl_F logic + sl_C logic + 1"
  shows "\<exists>mn mx out. computeRestrictions logic msgs lbStable restrictions = Some (mn, mx, out) \<and> mn \<le> s \<and> s \<le> mx \<and>
     out ! nat (s - lbStable - 1) = \<lparr>r_isNull = False, r_digest = vce_digest e\<rparr>"
proof -
  have q: "2 \<le> quorumSize logic" "quorumSize logic < 65536" using assms(5,6) by (auto simp: quorumSize_def)
  obtain mn mx out l where c: "computeRestrictions logic msgs lbStable restrictions = Some (mn, mx, out)"
    "if reportsAt s msgs = [] then r_isNull (out ! nat (s - lbStable - 1))
        else restrictedBy logic s (reportsAt s msgs) (out ! nat (s - lbStable - 1)) l \<and> mn = lbStable + 1 \<and> (s \<le> l \<longrightarrow> s \<le> mx)"
    using computeRestrictions_ok [OF assms(1-4) q assms(7)] assms(8,9) by blast
  have ne: "reportsAt s msgs \<noteq> []" using assms(10) by auto
  have "out ! nat (s - lbStable - 1) = \<lparr>r_isNull = False, r_digest = vce_digest e\<rparr> \<and> s \<le> l"
  proof (rule restricted_entry)
    show "restrictedBy logic s (reportsAt s msgs) (out ! nat (s - lbStable - 1)) l" using c(2) ne by simp
    show "ok \<and> d' = vce_digest e" if "restrictionRule logic s (reportsAt s msgs) ok d'" for ok d'
      using rule_keeps_prepared [OF that assms(10,11) refl assms(13)] assms(14) by (simp add: quorumSize_def)
  qed (rule assms(12))
  then show ?thesis using c ne assms(8) by auto
qed


section \<open>The bound of the stable checkpoints\<close>

lemma collectStable_ok:
  assumes "\<forall>vc. Some vc \<in> set msgs \<longrightarrow> vr_newView vc = w" "length ns + length (filter (\<lambda>m. m \<noteq> None) msgs) \<le> inc" "ns = [] \<or> v = w"
  shows "collectStable inc msgs v ns = Some (ns @ map (\<lambda>m. vr_lastStable (the m)) (filter (\<lambda>m. m \<noteq> None) msgs))"
  using assms
proof (induction inc msgs v ns rule: collectStable.induct)
  case (3 inc vc msgs v ns)
  have IH: "collectStable inc msgs (vr_newView vc) (ns @ [vr_lastStable vc]) =
      Some ((ns @ [vr_lastStable vc]) @ map (\<lambda>m. vr_lastStable (the m)) (filter (\<lambda>m. m \<noteq> None) msgs))"
    by (rule "3.IH") (use "3.prems" in \<open>auto simp: Assert_def\<close>)
  then show ?case using "3.prems" by auto
qed auto

lemma filter_sorted_le:
  fixes xs :: "int list"
  assumes "sorted (rev xs)" "k < length xs"
  shows "k < length (filter (\<lambda>x. xs ! k \<le> x) xs)" "length (filter (\<lambda>x. xs ! k < x) xs) \<le> k"
proof -
  have dec: "xs ! j \<le> xs ! i" if "i \<le> j" "j < length xs" for i j
    using assms(1) that by (simp add: sorted_rev_iff_nth_mono)
  have "{0..k} \<subseteq> {i. i < length xs \<and> xs ! k \<le> xs ! i}" using dec assms(2) by auto
  then have "card {0..k} \<le> card {i. i < length xs \<and> xs ! k \<le> xs ! i}" by (intro card_mono) auto
  then show "k < length (filter (\<lambda>x. xs ! k \<le> x) xs)" by (simp add: length_filter_conv_card)
  have "{i. i < length xs \<and> xs ! k < xs ! i} \<subseteq> {0..<k}" using dec by (force simp: not_le [symmetric])
  then have "card {i. i < length xs \<and> xs ! k < xs ! i} \<le> card {0..<k}" by (intro card_mono) auto
  then show "length (filter (\<lambda>x. xs ! k < x) xs) \<le> k" by (simp add: length_filter_conv_card)
qed

text \<open>C26: from the reports of \<open>2F + 2C + 1\<close> replicas for one view, the bound is computed without failing; at
  least \<open>F + 1\<close> of them report a stable checkpoint that is not lower, so one correct replica does, and at
  most \<open>F\<close> report a higher one, so no faulty group can push it beyond every correct report.\<close>

theorem stable_bound_vouched:
  assumes "\<forall>vc. Some vc \<in> set msgs \<longrightarrow> vr_newView vc = w" "length msgs \<le> sl_N logic"
    and "length (filter (\<lambda>m. m \<noteq> None) msgs) = 2 * sl_F logic + 2 * sl_C logic + 1" "2 * sl_F logic + 2 * sl_C logic < 65535"
  shows "\<exists>b. calcLBStableForView logic msgs = Some b \<and>
     sl_F logic + 1 \<le> length (filter (\<lambda>vc. b \<le> vr_lastStable vc) (map the (filter (\<lambda>m. m \<noteq> None) msgs))) \<and>
     length (filter (\<lambda>vc. b < vr_lastStable vc) (map the (filter (\<lambda>m. m \<noteq> None) msgs))) \<le> sl_F logic"
proof -
  let ?vcs = "map the (filter (\<lambda>m. m \<noteq> None) msgs)" and ?inc = "2 * sl_F logic + 2 * sl_C logic + 1"
  let ?ns = "map vr_lastStable ?vcs"
  define xs where "xs = rev (sort ?ns)"
  have u: "u16 (int ?inc) = ?inc" using assms(4) by (simp add: u16_def)
  have col: "collectStable ?inc (take (sl_N logic) msgs) 0 [] = Some ?ns"
    using collectStable_ok [OF assms(1), of "[]" ?inc 0] assms(2,3) by (simp add: comp_def)
  have len: "length xs = ?inc" using assms(3) by (simp add: xs_def)
  have srt: "sorted (rev xs)" by (simp add: xs_def)
  have ne: "xs \<noteq> []" using len by auto
  have "xs ! (length xs - 1) \<le> xs ! 0" using sorted_rev_nth_mono [OF srt, of 0 "length xs - 1"] len by simp
  then have "last xs \<le> hd xs" using ne by (simp add: hd_conv_nth last_conv_nth)
  then have run: "calcLBStableForView logic msgs = Some (xs ! sl_F logic)"
    using col u len assms(3) by (simp add: calcLBStableForView_def Let_def xs_def)
  have ms: "mset xs = mset ?ns" by (simp add: xs_def)
  have cnt: "length (filter P xs) = length (filter (\<lambda>vc. P (vr_lastStable vc)) ?vcs)" for P
  proof -
    have "length (filter P xs) = size (filter_mset P (mset xs))" by (metis mset_filter size_mset)
    also have "\<dots> = size (filter_mset P (mset ?ns))" by (simp only: ms)
    also have "\<dots> = length (filter P ?ns)" by (metis mset_filter size_mset)
    finally show ?thesis by (simp add: filter_map comp_def)
  qed
  show ?thesis
    using run filter_sorted_le [OF srt, of "sl_F logic"] len cnt by (intro exI [of _ "xs ! sl_F logic"]) simp
qed

section \<open>Concrete reports\<close>

definition sample_logic :: SafetyLogic where
  "sample_logic = \<lparr>sl_N = 6, sl_F = 1, sl_C = 1, preparedCertVerifier = (\<lambda>d sig. sig = [1]), sl_nullDigest = replicate 32 0x18\<rparr>"

definition sample_vce :: "byte \<Rightarrow> ViewNum \<Rightarrow> CertificateArg \<Rightarrow> VCElement" where
  "sample_vce b v c = \<lparr>vce_seqNum = 7, vce_digest = replicate 32 b, vce_originView = v, vce_cert = c\<rparr>"

definition sample_vcs :: "VCElement list \<Rightarrow> VCReport option list" where
  "sample_vcs es = map (\<lambda>e. Some \<lparr>vr_newView = 4, vr_lastStable = 0, vr_elements = [e]\<rparr>) es"

lemma sample_vcs_ok:
  assumes "\<forall>e \<in> set es. element_ok e" "Some vc \<in> set (sample_vcs es)"
  shows "report_ok vc \<and> vr_newView vc = 4"
  using assms by (auto simp: sample_vcs_def report_ok_def)

lemma sample_reportsAt: "reportsAt t (sample_vcs es) = filter (\<lambda>e. vce_seqNum e = t) es"
  by (induction es) (auto simp: reportsAt_def sample_vcs_def)

definition sample_votes :: "VCElement list" where
  "sample_votes = [sample_vce 1 0 None, sample_vce 2 1 (Some (1, [1])), sample_vce 2 1 (Some (1, [1])), sample_vce 2 1 None,
     sample_vce 3 0 (Some (0, [1]))]"

lemma sample_votes_ok:
  "\<forall>e \<in> set sample_votes. element_ok e" "length sample_votes = 5" "certs_agree sample_logic t (filter (\<lambda>e. vce_seqNum e = t) sample_votes)"
  "filter (\<lambda>e. vce_seqNum e = 7) sample_votes = sample_votes"
  by (auto simp: sample_votes_def sample_vce_def element_ok_def certs_agree_def validCert_def sample_logic_def)

lemma digest_neq: "a \<noteq> b \<Longrightarrow> replicate 32 a \<noteq> replicate 32 b" for a b :: byte
  by (simp add: numeral_eq_Suc)

theorem prepared_batch_survives_witness:
  "\<exists>mn mx out. computeRestrictions sample_logic (sample_vcs sample_votes) 0 (replicate 300 \<lparr>r_isNull = True, r_digest = []\<rparr>) = Some (mn, mx, out) \<and>
     mn \<le> 7 \<and> 7 \<le> mx \<and> out ! 6 = \<lparr>r_isNull = False, r_digest = replicate 32 2\<rparr>"
proof -
  let ?e = "sample_vce 2 1 (Some (1, [1]))"
  have len: "length (sample_vcs sample_votes) = 5" by (simp add: sample_vcs_def sample_votes_ok(2))
  have later: "\<forall>e' \<in> set sample_votes. \<forall>v' \<ge> 1. validCert sample_logic 7 e' v' \<longrightarrow> vce_digest e' = vce_digest ?e"
    by (auto simp: sample_votes_def sample_vce_def validCert_def)
  have few: "votes 2 d sample_votes < Suc (Suc (Suc 0))" for d by (simp add: votes_def sample_votes_def sample_vce_def)
  have "\<exists>mn mx out. computeRestrictions sample_logic (sample_vcs sample_votes) 0 (replicate 300 \<lparr>r_isNull = True, r_digest = []\<rparr>) = Some (mn, mx, out) \<and>
     mn \<le> 7 \<and> 7 \<le> mx \<and> out ! nat (7 - 0 - 1) = \<lparr>r_isNull = False, r_digest = vce_digest ?e\<rparr>"
  proof (rule prepared_batch_survives [where v = 1])
    show "validCert sample_logic 7 ?e 1" by (simp add: validCert_def sample_vce_def sample_logic_def)
    show "vce_digest ?e \<noteq> sl_nullDigest sample_logic" using digest_neq [of 2 "0x18"] by (simp add: sample_vce_def sample_logic_def)
  qed (use sample_vcs_ok sample_votes_ok later few len in \<open>simp_all add: sample_reportsAt sample_logic_def\<close>,
      simp add: sample_votes_def)
  then show ?thesis by (simp add: sample_vce_def)
qed


theorem stable_bound_vouched_witness:
  "\<exists>b. calcLBStableForView sample_logic (sample_vcs sample_votes) = Some b \<and>
     2 \<le> length (filter (\<lambda>vc. b \<le> vr_lastStable vc) (map the (filter (\<lambda>m. m \<noteq> None) (sample_vcs sample_votes))))"
proof -
  have "length (filter (\<lambda>m. m \<noteq> None) (sample_vcs sample_votes)) = 5" by (simp add: sample_vcs_def comp_def sample_votes_ok(2))
  then show ?thesis
    using stable_bound_vouched [of "sample_vcs sample_votes" 4 sample_logic] sample_vcs_ok [OF sample_votes_ok(1)]
    by (auto simp: sample_logic_def sample_vcs_def sample_votes_ok(2))
qed


end
