(* ===== verification/Views_Manager.thy ===== *)
theory Views_Manager
  imports View_Change_Safety New_View_Msg Seq_Num_Info "HOL-Library.AList"
begin

text \<open>
  \<^verbatim>\<open>ViewsManager.cpp\<close>: the views of one replica. It collects the reports and the new-view messages of the
  other replicas, leaves a view with a report of what was prepared in it, moves to a pending view once a
  quorum of reports is in, and enters it once the batches that the reports oblige it to keep are there.

  Reports, new-view messages and batches are taken by their contents; the theories of the messages relate
  these to the bytes. A batch also has an address, since the manager compares pointers to decide what it
  owns: \<open>freed\<close> records the addresses given to \<^verbatim>\<open>delete\<close>. \<open>hashVC\<close> is the digest of a report, a hash of its
  bytes, and \<open>sigLen\<close> the length of this replica's signatures.
\<close>

section \<open>Data\<close>

datatype Stat = NO_VIEW | PENDING | PENDING_WITH_RESTRICTIONS | IN_VIEW

record VCMsg =
  idOfGeneratedReplica :: ReplicaId
  vcm_report :: VCReport

record NVMsg =
  nvm_senderId :: ReplicaId
  nvm_newView :: ViewNum
  nvm_elements :: "(ReplicaId \<times> Digest) list"

record PPMsg =
  pp_address :: nat
  pp_header :: PrePrepareHeader

record PrevViewInfo =
  pvi_prePrepare :: PPMsg
  hasAllRequests :: bool
  pvi_prepareFull :: "SignedShare option"

record ViewsManager =
  replicasInfo :: ReplicasInfo
  viewChangeSafetyLogic :: SafetyLogic
  stat :: Stat
  myLatestActiveView :: ViewNum
  myLatestPendingView :: ViewNum
  viewChangeMessages :: "VCMsg option list"
  newViewMessages :: "NVMsg option list"
  collectionOfPrePrepareMsgs :: "(SeqNum \<times> PPMsg) list"
  viewChangeMsgsOfPendingView :: "VCMsg option list"
  newViewMsgOfOfPendingView :: "NVMsg option"
  minRestrictionOfPendingView :: SeqNum
  maxRestrictionOfPendingView :: SeqNum
  restrictionsOfPendingView :: "Restriction list"
  prePrepareMsgsOfRestrictions :: "PPMsg option list"
  lowerBoundStableForPendingView :: SeqNum
  debugHighestKnownStable :: SeqNum
  debugHighestViewNumberPassedByClient :: ViewNum
  freed :: "nat list"

abbreviation vcm_newView :: "VCMsg \<Rightarrow> ViewNum" where
  "vcm_newView m \<equiv> vr_newView (vcm_report m)"

abbreviation vm_N :: "ViewsManager \<Rightarrow> nat" where
  "vm_N vm \<equiv> sl_N (viewChangeSafetyLogic vm)"

abbreviation vm_F :: "ViewsManager \<Rightarrow> nat" where
  "vm_F vm \<equiv> sl_F (viewChangeSafetyLogic vm)"

abbreviation vm_C :: "ViewsManager \<Rightarrow> nat" where
  "vm_C vm \<equiv> sl_C (viewChangeSafetyLogic vm)"

abbreviation vm_myId :: "ViewsManager \<Rightarrow> ReplicaId" where
  "vm_myId vm \<equiv> ri_myId (replicasInfo vm)"

abbreviation pp_seqNumber :: "PPMsg \<Rightarrow> SeqNum" where
  "pp_seqNumber p \<equiv> pp_seqNum (pp_header p)"

abbreviation pp_digest :: "PPMsg \<Rightarrow> Digest" where
  "pp_digest p \<equiv> pp_digestOfRequests (pp_header p)"

definition SMAJOR :: "ViewsManager \<Rightarrow> nat" where
  "SMAJOR vm = u16 (int (2 * vm_F vm + 2 * vm_C vm + 1))"

text \<open>The constructor; the arrays have \<open>N\<close> and \<open>kWorkWindowSize\<close> entries.\<close>

definition newViewsManager :: "ReplicasInfo \<Rightarrow> (Digest \<Rightarrow> byte list \<Rightarrow> bool) \<Rightarrow> ViewsManager option" where
  "newViewsManager r preparedCertificateVerifier = do {
     let N = u16 (numberOfReplicas r);
     let F = u16 (fVal r);
     let C = u16 (cVal r);
     logic \<leftarrow> newViewChangeSafetyLogic N F C preparedCertificateVerifier digestOfNullPrePrepareMsg;
     Some \<lparr>replicasInfo = r, viewChangeSafetyLogic = logic, stat = IN_VIEW, myLatestActiveView = 0, myLatestPendingView = 0,
           viewChangeMessages = replicate N None, newViewMessages = replicate N None, collectionOfPrePrepareMsgs = [],
           viewChangeMsgsOfPendingView = replicate N None, newViewMsgOfOfPendingView = None,
           minRestrictionOfPendingView = 0, maxRestrictionOfPendingView = 0,
           restrictionsOfPendingView = replicate (nat kWorkWindowSize) \<lparr>r_isNull = True, r_digest = zeroDigest\<rparr>,
           prePrepareMsgsOfRestrictions = replicate (nat kWorkWindowSize) None, lowerBoundStableForPendingView = 0,
           debugHighestKnownStable = 0, debugHighestViewNumberPassedByClient = 0, freed = []\<rparr>
   }"

section \<open>Messages of the view change\<close>

definition getMyLatestViewChangeMsg :: "ViewsManager \<Rightarrow> VCMsg option option" where
  "getMyLatestViewChangeMsg vm = do {
     p \<leftarrow> at (viewChangeMsgsOfPendingView vm) (vm_myId vm);
     vc \<leftarrow> (case p of Some m \<Rightarrow> Some (Some m) | None \<Rightarrow> at (viewChangeMessages vm) (vm_myId vm));
     Assert (vc \<noteq> None \<or> myLatestPendingView vm = 0);
     Some vc
   }"

text \<open>The pairs of a new-view message are sorted by replica.\<close>

fun nvm_includes :: "(ReplicaId \<times> Digest) list \<Rightarrow> ReplicaId \<Rightarrow> Digest \<Rightarrow> bool" where
  "nvm_includes [] replicaId d \<longleftrightarrow> False"
| "nvm_includes ((currId, d') # es) replicaId d \<longleftrightarrow>
     (if currId = replicaId then d = d' else if currId > replicaId then False else nvm_includes es replicaId d)"

definition nvm_addElement :: "ReplicaId \<Rightarrow> Digest \<Rightarrow> NVMsg \<Rightarrow> NVMsg option" where
  "nvm_addElement replicaId d nv = do {
     let currNumOfElements = length (nvm_elements nv);
     let requiredSize = u16 (int (sizeofNewViewMsgHeader + (currNumOfElements + 1) * sizeofNewViewElement));
     Assert (requiredSize \<le> maxExternalMessageSize);
     Assert (currNumOfElements = 0 \<or> replicaId > fst (last (nvm_elements nv)));
     Some (nv\<lparr>nvm_elements := nvm_elements nv @ [(replicaId, d)]\<rparr>)
   }"

definition addNewView :: "NVMsg \<Rightarrow> ViewsManager \<Rightarrow> (bool \<times> ViewsManager) option" where
  "addNewView m vm = do {
     let sId = nvm_senderId m;
     let v = nvm_newView m;
     Assert (sId \<noteq> vm_myId vm);
     Assert (sId = primaryOfView (replicasInfo vm) v);
     if v \<le> myLatestPendingView vm then Some (False, vm)
     else do {
       _ \<leftarrow> at (newViewMessages vm) sId;
       Some (True, vm\<lparr>newViewMessages := (newViewMessages vm)[sId := Some m]\<rparr>)
     }
   }"

definition addViewChange :: "(VCMsg \<Rightarrow> Digest) \<Rightarrow> VCMsg \<Rightarrow> ViewsManager \<Rightarrow> (bool \<times> ViewsManager) option" where
  "addViewChange hashVC m vm = do {
     let v = vcm_newView m;
     let i = idOfGeneratedReplica m;
     Assert (i \<noteq> vm_myId vm);
     if v \<le> myLatestPendingView vm then Some (False, vm)
     else do {
       relatedNewView \<leftarrow> at (newViewMessages vm) (primaryOfView (replicasInfo vm) v);
       prevVC \<leftarrow> at (viewChangeMessages vm) i;
       let ignoreMsg = (case relatedNewView of
           None \<Rightarrow> False
         | Some nv \<Rightarrow>
             if nvm_newView nv > v then True
             else if nvm_newView nv = v then
               (case prevVC of
                  None \<Rightarrow> False
                | Some vc \<Rightarrow> vcm_newView vc = v \<and> nvm_includes (nvm_elements nv) i (hashVC vc))
             else False);
       if ignoreMsg then Some (False, vm)
       else Some (True, vm\<lparr>viewChangeMessages := (viewChangeMessages vm)[i := Some m]\<rparr>)
     }
   }"

text \<open>The views that the reports ask for, beyond the pending one.\<close>

fun collectViews :: "ViewsManager \<Rightarrow> nat list \<Rightarrow> ViewNum list option" where
  "collectViews vm [] = Some []"
| "collectViews vm (i # is) = do {
     vc \<leftarrow> at (viewChangeMessages vm) i;
     vc \<leftarrow> (if i = vm_myId vm then getMyLatestViewChangeMsg vm else Some vc);
     views \<leftarrow> collectViews vm is;
     Some (case vc of
         None \<Rightarrow> views
       | Some m \<Rightarrow> if vcm_newView m > myLatestPendingView vm then vcm_newView m # views else views)
   }"

text \<open>The result is \<open>outMaxKnownCorrectView\<close> and \<open>outMaxKnownAgreedView\<close>.\<close>

definition computeCorrectRelevantViewNumbers :: "ViewsManager \<Rightarrow> (ViewNum \<times> ViewNum) option" where
  "computeCorrectRelevantViewNumbers vm = do {
     let CORRECT = u16 (int (vm_F vm + 1));
     viewNumbers \<leftarrow> collectViews vm [0..<vm_N vm];
     let numOfVC = length viewNumbers;
     if numOfVC < CORRECT then Some (myLatestPendingView vm, myLatestPendingView vm)
     else do {
       let viewNumbers = rev (sort viewNumbers);
       Assert (hd viewNumbers \<ge> last viewNumbers);
       if numOfVC < SMAJOR vm then Some (viewNumbers ! (CORRECT - 1), myLatestPendingView vm)
       else Some (viewNumbers ! (CORRECT - 1), viewNumbers ! (SMAJOR vm - 1))
     }
   }"

definition hasNewViewMessage :: "ViewNum \<Rightarrow> ViewsManager \<Rightarrow> bool option" where
  "hasNewViewMessage v vm = do {
     Assert (v \<ge> myLatestPendingView vm);
     if v = myLatestPendingView vm then Some True
     else do {
       nv \<leftarrow> at (newViewMessages vm) (primaryOfView (replicasInfo vm) v);
       Some (case nv of None \<Rightarrow> False | Some m \<Rightarrow> nvm_newView m = v)
     }
   }"

definition hasViewChangeMessageForFutureView :: "ReplicaId \<Rightarrow> ViewsManager \<Rightarrow> bool option" where
  "hasViewChangeMessageForFutureView repId vm = do {
     Assert (repId < vm_N vm);
     if stat vm \<noteq> NO_VIEW then Some True
     else do {
       vc \<leftarrow> at (viewChangeMessages vm) repId;
       Some (case vc of None \<Rightarrow> False | Some m \<Rightarrow> vcm_newView m > myLatestPendingView vm)
     }
   }"

definition getMyNewViewMsgForCurrentView :: "ViewsManager \<Rightarrow> NVMsg option" where
  "getMyNewViewMsgForCurrentView vm = do {
     Assert (stat vm = IN_VIEW);
     Assert (vm_myId vm = primaryOfView (replicasInfo vm) (myLatestActiveView vm));
     r \<leftarrow> newViewMsgOfOfPendingView vm;
     Assert (nvm_senderId r = vm_myId vm);
     Assert (nvm_newView r = myLatestActiveView vm);
     Some r
   }"

fun takeViewChanges :: "ViewNum \<Rightarrow> nat \<Rightarrow> VCMsg option list \<Rightarrow> VCMsg list option" where
  "takeViewChanges v 0 msgs = Some []"
| "takeViewChanges v (Suc k) [] = Some []"
| "takeViewChanges v (Suc k) (None # msgs) = takeViewChanges v (Suc k) msgs"
| "takeViewChanges v (Suc k) (Some m # msgs) = do {
     Assert (vcm_newView m = v);
     ms \<leftarrow> takeViewChanges v k msgs;
     Some (m # ms)
   }"

definition getViewChangeMsgsForCurrentView :: "ViewsManager \<Rightarrow> VCMsg list option" where
  "getViewChangeMsgsForCurrentView vm = do {
     Assert (stat vm = IN_VIEW);
     retVal \<leftarrow> takeViewChanges (myLatestActiveView vm) (SMAJOR vm) (take (vm_N vm) (viewChangeMsgsOfPendingView vm));
     Assert (length retVal = SMAJOR vm);
     Some retVal
   }"

definition getNewViewMsgForCurrentView :: "ViewsManager \<Rightarrow> NVMsg option" where
  "getNewViewMsgForCurrentView vm = do {
     Assert (stat vm = IN_VIEW);
     r \<leftarrow> newViewMsgOfOfPendingView vm;
     Assert (nvm_newView r = myLatestActiveView vm);
     Some r
   }"

definition stableLowerBoundWhenEnteredToView :: "ViewsManager \<Rightarrow> SeqNum option" where
  "stableLowerBoundWhenEnteredToView vm = do {
     Assert (stat vm = IN_VIEW);
     Some (lowerBoundStableForPendingView vm)
   }"

section \<open>Leaving a view\<close>

definition addressIn :: "(SeqNum \<times> PPMsg) list \<Rightarrow> SeqNum \<Rightarrow> nat \<Rightarrow> bool" where
  "addressIn coll i a \<longleftrightarrow> (case map_of coll i of None \<Rightarrow> False | Some p \<Rightarrow> pp_address p = a)"

definition free :: "nat \<Rightarrow> ViewsManager \<Rightarrow> ViewsManager" where
  "free a vm = vm\<lparr>freed := freed vm @ [a]\<rparr>"

definition clearSlot :: "nat \<Rightarrow> ViewsManager \<Rightarrow> ViewsManager" where
  "clearSlot idx vm = vm\<lparr>prePrepareMsgsOfRestrictions := (prePrepareMsgsOfRestrictions vm)[idx := None]\<rparr>"

text \<open>The loop that drops the batches of the restrictions, except those that the collection still owns.\<close>

fun dropRestrictions :: "SeqNum list \<Rightarrow> ViewsManager \<Rightarrow> ViewsManager option" where
  "dropRestrictions [] vm = Some vm"
| "dropRestrictions (i # is) vm = do {
     let idx = nat (i - minRestrictionOfPendingView vm);
     Assert (int idx < kWorkWindowSize);
     p \<leftarrow> at (prePrepareMsgsOfRestrictions vm) idx;
     let vm = (case p of
         None \<Rightarrow> vm
       | Some pp \<Rightarrow> if addressIn (collectionOfPrePrepareMsgs vm) i (pp_address pp) then vm else free (pp_address pp) vm);
     dropRestrictions is (clearSlot idx vm)
   }"

definition clearRestrictions :: "ViewsManager \<Rightarrow> ViewsManager option" where
  "clearRestrictions vm =
     (if minRestrictionOfPendingView vm \<noteq> 0
      then do {
        vm \<leftarrow> dropRestrictions [minRestrictionOfPendingView vm..maxRestrictionOfPendingView vm] vm;
        Some (vm\<lparr>minRestrictionOfPendingView := 0, maxRestrictionOfPendingView := 0\<rparr>)
      }
      else Some vm)"

definition resetDataOfLatestPendingAndKeepMyViewChange :: "ViewsManager \<Rightarrow> ViewsManager option" where
  "resetDataOfLatestPendingAndKeepMyViewChange vm =
     (if newViewMsgOfOfPendingView vm = None then Some vm
      else do {
        mine \<leftarrow> at (viewChangeMsgsOfPendingView vm) (vm_myId vm);
        let vm = (if mine = None then vm
          else vm\<lparr>viewChangeMessages := (viewChangeMessages vm)[vm_myId vm := mine]\<rparr>);
        vm \<leftarrow> clearRestrictions vm;
        Some (vm\<lparr>viewChangeMsgsOfPendingView := replicate (vm_N vm) None, newViewMsgOfOfPendingView := None\<rparr>)
      })"

text \<open>Adding an element to the report under construction; the bytes are in \<open>vc_addElement\<close>.\<close>

definition report_addElement :: "nat \<Rightarrow> VCElement \<Rightarrow> VCReport \<Rightarrow> VCReport option" where
  "report_addElement sigLen x r = do {
     Assert (int (length (vr_elements r)) < kWorkWindowSize);
     Assert (vce_seqNum x > vr_lastStable r);
     Assert (vce_seqNum x \<le> vr_lastStable r + kWorkWindowSize);
     Assert (sizeofViewChangeMsgHeader + vcSize (vr_elements r @ [x]) + sigLen \<le> maxExternalMessageSize);
     Some (r\<lparr>vr_elements := vr_elements r @ [x]\<rparr>)
   }"

text \<open>The certificate of the previous report for the same number and digest.\<close>

definition previousCertificate :: "ViewNum \<Rightarrow> SeqNum \<Rightarrow> Digest \<Rightarrow> VCIter \<Rightarrow> CertificateArg option" where
  "previousCertificate active s d iter =
     (case iter_getCurrent iter of
        None \<Rightarrow> Some None
      | Some e \<Rightarrow>
          (case vce_cert e of
             None \<Rightarrow> Some None
           | Some (cv, sig) \<Rightarrow>
               if vce_seqNum e = s \<and> vce_digest e = d
               then do {
                 Assert (vce_originView e \<le> active);
                 Assert (cv \<le> vce_originView e);
                 Some (Some (cv, sig))
               }
               else Some None))"

text \<open>The loop over the batches of the view that is left: \<open>iter\<close> is the iterator over the previous report.\<close>

fun exitLoop ::
  "nat \<Rightarrow> SeqNum \<Rightarrow> PrevViewInfo list \<Rightarrow> VCIter \<Rightarrow> SeqNum \<Rightarrow> VCReport \<Rightarrow> ViewsManager
     \<Rightarrow> (SeqNum \<times> VCReport \<times> ViewsManager) option" where
  "exitLoop sigLen currentLastExecuted [] iter debugExpected myNewVC vm = Some (debugExpected, myNewVC, vm)"
| "exitLoop sigLen currentLastExecuted (it # its) iter debugExpected myNewVC vm = do {
     let pp = pvi_prePrepare it;
     let active = myLatestActiveView vm;
     Assert (pp_viewNum (pp_header pp) = active);
     let s = pp_seqNumber pp;
     Assert (s > lowerBoundStableForPendingView vm);
     Assert (s > debugExpected);
     let pf = pvi_prepareFull it;
     let allRequests = hasAllRequests it;
     Assert (pf = None \<or> allRequests);
     let d = pp_digest pp;
     let search = (allRequests \<and> pf = None \<and> iter \<noteq> []);
     let iter = (if search then dropWhile (\<lambda>e. vce_seqNum e < s) iter else iter);
     preparedCertInPrev \<leftarrow> (if search then previousCertificate active s d iter else Some None);
     myNewVC \<leftarrow> (case pf of
         Some f \<Rightarrow> do {
           Assert (s = ss_seqNumber f);
           Assert (ss_viewNumber f = active);
           report_addElement sigLen \<lparr>vce_seqNum = s, vce_digest = d, vce_originView = active,
             vce_cert = Some (active, ss_signature f)\<rparr> myNewVC
         }
       | None \<Rightarrow>
           if preparedCertInPrev \<noteq> None \<and> allRequests
           then report_addElement sigLen \<lparr>vce_seqNum = s, vce_digest = d, vce_originView = active,
                  vce_cert = preparedCertInPrev\<rparr> myNewVC
           else if allRequests \<and> \<not> pp_isNull (pp_header pp)
           then report_addElement sigLen \<lparr>vce_seqNum = s, vce_digest = d, vce_originView = active, vce_cert = None\<rparr> myNewVC
           else do {
             Assert (s > currentLastExecuted \<or> pp_isNull (pp_header pp));
             Some myNewVC
           });
     let vm = (if allRequests \<and> \<not> pp_isNull (pp_header pp)
       then vm\<lparr>collectionOfPrePrepareMsgs := AList.update s pp (collectionOfPrePrepareMsgs vm)\<rparr>
       else free (pp_address pp) vm);
     exitLoop sigLen currentLastExecuted its iter s myNewVC vm
   }"

definition exitFromCurrentView ::
  "nat \<Rightarrow> SeqNum \<Rightarrow> SeqNum \<Rightarrow> PrevViewInfo list \<Rightarrow> ViewsManager \<Rightarrow> (VCMsg \<times> ViewsManager) option" where
  "exitFromCurrentView sigLen currentLastStable currentLastExecuted prevViewInfo vm = do {
     Assert (stat vm = IN_VIEW);
     Assert (myLatestActiveView vm = myLatestPendingView vm);
     Assert (int (length prevViewInfo) \<le> kWorkWindowSize);
     Assert (collectionOfPrePrepareMsgs vm = []);
     Assert (currentLastStable \<ge> debugHighestKnownStable vm);
     let vm = vm\<lparr>debugHighestKnownStable := currentLastStable, stat := NO_VIEW\<rparr>;
     p \<leftarrow> at (viewChangeMsgsOfPendingView vm) (vm_myId vm);
     myPreviousVC \<leftarrow> (case p of Some m \<Rightarrow> Some (Some m) | None \<Rightarrow> at (viewChangeMessages vm) (vm_myId vm));
     Assert (myLatestActiveView vm = 0 \<or> myPreviousVC \<noteq> None);
     Assert (case myPreviousVC of None \<Rightarrow> True
       | Some m \<Rightarrow> myLatestActiveView vm = 0 \<or> vcm_newView m = myLatestActiveView vm);
     let iterPrevVC = (case myPreviousVC of None \<Rightarrow> [] | Some m \<Rightarrow> vr_elements (vcm_report m));
     let myNewVC = \<lparr>vr_newView = myLatestActiveView vm + 1, vr_lastStable = currentLastStable, vr_elements = []\<rparr>;
     (debugExpected, myNewVC, vm) \<leftarrow>
       exitLoop sigLen currentLastExecuted prevViewInfo iterPrevVC currentLastStable myNewVC vm;
     Assert (debugExpected - currentLastStable \<le> kWorkWindowSize);
     vm \<leftarrow> resetDataOfLatestPendingAndKeepMyViewChange vm;
     let m = \<lparr>idOfGeneratedReplica = vm_myId vm, vcm_report = myNewVC\<rparr>;
     Some (m, vm\<lparr>viewChangeMessages := (viewChangeMessages vm)[vm_myId vm := Some m]\<rparr>)
   }"

text \<open>\<^verbatim>\<open>MoveToHigherView\<close> of the replica renumbers its latest report in place, wherever the manager keeps it.\<close>

definition setMyNewViewNumber :: "ViewNum \<Rightarrow> ViewsManager \<Rightarrow> ViewsManager option" where
  "setMyNewViewNumber nextView vm = do {
     pVC \<leftarrow> getMyLatestViewChangeMsg vm;
     m \<leftarrow> pVC;
     Assert (nextView \<ge> vcm_newView m);
     let m' = m\<lparr>vcm_report := (vcm_report m)\<lparr>vr_newView := nextView\<rparr>\<rparr>;
     p \<leftarrow> at (viewChangeMsgsOfPendingView vm) (vm_myId vm);
     Some (if p \<noteq> None
           then vm\<lparr>viewChangeMsgsOfPendingView := (viewChangeMsgsOfPendingView vm)[vm_myId vm := Some m']\<rparr>
           else vm\<lparr>viewChangeMessages := (viewChangeMessages vm)[vm_myId vm := Some m']\<rparr>)
   }"

section \<open>Moving to a pending view\<close>

fun collectForPrimary :: "ViewsManager \<Rightarrow> ViewNum \<Rightarrow> nat list \<Rightarrow> nat list \<Rightarrow> nat list option" where
  "collectForPrimary vm v [] relatedVCMsgs = Some relatedVCMsgs"
| "collectForPrimary vm v (i # is) relatedVCMsgs =
     (if i = vm_myId vm then collectForPrimary vm v is relatedVCMsgs
      else do {
        vc \<leftarrow> at (viewChangeMessages vm) i;
        if (case vc of None \<Rightarrow> True | Some m \<Rightarrow> vcm_newView m \<noteq> v) then collectForPrimary vm v is relatedVCMsgs
        else do {
          let relatedVCMsgs = insort_insert i relatedVCMsgs;
          if length relatedVCMsgs = SMAJOR vm then Some relatedVCMsgs else collectForPrimary vm v is relatedVCMsgs
        }
      })"

definition moveReport :: "nat \<Rightarrow> ViewsManager \<Rightarrow> ViewsManager option" where
  "moveReport i vm = do {
     p \<leftarrow> at (viewChangeMsgsOfPendingView vm) i;
     Assert (p = None);
     vc \<leftarrow> at (viewChangeMessages vm) i;
     Some (vm\<lparr>viewChangeMsgsOfPendingView := (viewChangeMsgsOfPendingView vm)[i := vc],
              viewChangeMessages := (viewChangeMessages vm)[i := None]\<rparr>)
   }"

fun moveAsPrimary :: "(VCMsg \<Rightarrow> Digest) \<Rightarrow> ViewNum \<Rightarrow> nat list \<Rightarrow> NVMsg \<Rightarrow> ViewsManager \<Rightarrow> (NVMsg \<times> ViewsManager) option" where
  "moveAsPrimary hashVC v [] nv vm = Some (nv, vm)"
| "moveAsPrimary hashVC v (i # is) nv vm = do {
     p \<leftarrow> at (viewChangeMessages vm) i;
     vc \<leftarrow> p;
     Assert (vcm_newView vc = v);
     let d = hashVC vc;
     Assert (\<not> isZero d);
     nv \<leftarrow> nvm_addElement i d nv;
     vm \<leftarrow> moveReport i vm;
     moveAsPrimary hashVC v is nv vm
   }"

definition tryMoveToPendingViewAsPrimary :: "(VCMsg \<Rightarrow> Digest) \<Rightarrow> ViewNum \<Rightarrow> ViewsManager \<Rightarrow> (bool \<times> ViewsManager) option" where
  "tryMoveToPendingViewAsPrimary hashVC v vm = do {
     Assert (v > myLatestPendingView vm);
     Assert (primaryOfView (replicasInfo vm) v = vm_myId vm);
     vm \<leftarrow> resetDataOfLatestPendingAndKeepMyViewChange vm;
     p \<leftarrow> at (viewChangeMessages vm) (vm_myId vm);
     myLastVC \<leftarrow> p;
     Assert (vcm_newView myLastVC = v);
     prevNewView \<leftarrow> at (newViewMessages vm) (vm_myId vm);
     Assert (case prevNewView of None \<Rightarrow> True | Some m \<Rightarrow> nvm_newView m < v);
     let vm = vm\<lparr>newViewMessages := (newViewMessages vm)[vm_myId vm := None]\<rparr>;
     relatedVCMsgs \<leftarrow> collectForPrimary vm v [0..<vm_N vm] [vm_myId vm];
     if length relatedVCMsgs < SMAJOR vm then Some (False, vm)
     else do {
       Assert (length relatedVCMsgs = SMAJOR vm);
       (nv, vm) \<leftarrow> moveAsPrimary hashVC v relatedVCMsgs \<lparr>nvm_senderId = vm_myId vm, nvm_newView = v, nvm_elements = []\<rparr> vm;
       Assert (newViewMsgOfOfPendingView vm = None);
       Some (True, vm\<lparr>newViewMsgOfOfPendingView := Some nv, myLatestPendingView := v\<rparr>)
     }
   }"

fun collectForNonPrimary :: "(VCMsg \<Rightarrow> Digest) \<Rightarrow> NVMsg \<Rightarrow> ViewNum \<Rightarrow> nat \<Rightarrow> VCMsg option list \<Rightarrow> nat list" where
  "collectForNonPrimary hashVC nv v i [] = []"
| "collectForNonPrimary hashVC nv v i (None # msgs) = collectForNonPrimary hashVC nv v (i + 1) msgs"
| "collectForNonPrimary hashVC nv v i (Some vc # msgs) =
     (if vcm_newView vc = v \<and> nvm_includes (nvm_elements nv) (idOfGeneratedReplica vc) (hashVC vc)
      then i # collectForNonPrimary hashVC nv v (i + 1) msgs
      else collectForNonPrimary hashVC nv v (i + 1) msgs)"

fun moveReports :: "nat list \<Rightarrow> ViewsManager \<Rightarrow> ViewsManager option" where
  "moveReports [] vm = Some vm"
| "moveReports (i # is) vm = do { vm \<leftarrow> moveReport i vm; moveReports is vm }"

definition tryMoveToPendingViewAsNonPrimary :: "(VCMsg \<Rightarrow> Digest) \<Rightarrow> ViewNum \<Rightarrow> ViewsManager \<Rightarrow> (bool \<times> ViewsManager) option" where
  "tryMoveToPendingViewAsNonPrimary hashVC v vm = do {
     Assert (v > myLatestPendingView vm);
     let relevantPrimary = primaryOfView (replicasInfo vm) v;
     Assert (relevantPrimary \<noteq> vm_myId vm);
     vm \<leftarrow> resetDataOfLatestPendingAndKeepMyViewChange vm;
     p \<leftarrow> at (newViewMessages vm) relevantPrimary;
     case p of
       None \<Rightarrow> Some (False, vm)
     | Some nv \<Rightarrow>
         if nvm_newView nv \<noteq> v then Some (False, vm)
         else do {
           let relatedVCMsgs = collectForNonPrimary hashVC nv v 0 (take (vm_N vm) (viewChangeMessages vm));
           if length relatedVCMsgs < SMAJOR vm then Some (False, vm)
           else do {
             Assert (length relatedVCMsgs = SMAJOR vm);
             Assert (newViewMsgOfOfPendingView vm = None);
             vm \<leftarrow> moveReports relatedVCMsgs
               (vm\<lparr>newViewMsgOfOfPendingView := Some nv, newViewMessages := (newViewMessages vm)[relevantPrimary := None]\<rparr>);
             Some (True, vm\<lparr>myLatestPendingView := v\<rparr>)
           }
         }
   }"

section \<open>Entering the pending view\<close>

text \<open>The loop that attaches the batches of the collection to the restrictions they satisfy.\<close>

fun attachLoop :: "SeqNum list \<Rightarrow> ViewsManager \<Rightarrow> ViewsManager option" where
  "attachLoop [] vm = Some vm"
| "attachLoop (i # is) vm = do {
     let idx = nat (i - minRestrictionOfPendingView vm);
     Assert (int idx < kWorkWindowSize);
     p \<leftarrow> at (prePrepareMsgsOfRestrictions vm) idx;
     Assert (p = None);
     r \<leftarrow> at (restrictionsOfPendingView vm) idx;
     attachLoop is
       (if r_isNull r then vm
        else (case map_of (collectionOfPrePrepareMsgs vm) i of
                None \<Rightarrow> vm
              | Some pp \<Rightarrow>
                  if pp_digest pp = r_digest r
                  then vm\<lparr>prePrepareMsgsOfRestrictions := (prePrepareMsgsOfRestrictions vm)[idx := Some pp]\<rparr>
                  else vm))
   }"

definition computeRestrictionsOfNewView :: "ViewNum \<Rightarrow> ViewsManager \<Rightarrow> ViewsManager option" where
  "computeRestrictionsOfNewView v vm = do {
     Assert (stat vm = PENDING);
     Assert (myLatestPendingView vm = v);
     nv \<leftarrow> newViewMsgOfOfPendingView vm;
     Assert (nvm_newView nv = v);
     (mn, mx, restrictions) \<leftarrow> computeRestrictions (viewChangeSafetyLogic vm)
       (map (map_option vcm_report) (viewChangeMsgsOfPendingView vm)) (lowerBoundStableForPendingView vm)
       (restrictionsOfPendingView vm);
     let vm = vm\<lparr>minRestrictionOfPendingView := mn, maxRestrictionOfPendingView := mx, restrictionsOfPendingView := restrictions\<rparr>;
     if mn \<noteq> 0 then attachLoop [mn..mx] vm else Some vm
   }"

fun missingFrom :: "SeqNum list \<Rightarrow> ViewsManager \<Rightarrow> SeqNum list option" where
  "missingFrom [] vm = Some []"
| "missingFrom (i # is) vm = do {
     let idx = nat (i - minRestrictionOfPendingView vm);
     r \<leftarrow> at (restrictionsOfPendingView vm) idx;
     p \<leftarrow> at (prePrepareMsgsOfRestrictions vm) idx;
     ms \<leftarrow> missingFrom is vm;
     Some (if \<not> r_isNull r \<and> p = None then i # ms else ms)
   }"

fun anyMissing :: "SeqNum list \<Rightarrow> ViewsManager \<Rightarrow> bool option" where
  "anyMissing [] vm = Some False"
| "anyMissing (i # is) vm = do {
     let idx = nat (i - minRestrictionOfPendingView vm);
     r \<leftarrow> at (restrictionsOfPendingView vm) idx;
     p \<leftarrow> at (prePrepareMsgsOfRestrictions vm) idx;
     if \<not> r_isNull r \<and> p = None then Some True else anyMissing is vm
   }"

definition hasMissingMsgs :: "SeqNum \<Rightarrow> ViewsManager \<Rightarrow> bool option" where
  "hasMissingMsgs currentLastStable vm = do {
     Assert (stat vm = PENDING_WITH_RESTRICTIONS);
     if minRestrictionOfPendingView vm = 0 then Some False
     else anyMissing [max (minRestrictionOfPendingView vm) (currentLastStable + 1)..maxRestrictionOfPendingView vm] vm
   }"

text \<open>The numbers of the missing batches; the code also returns whether there is one.\<close>

definition getNumbersOfMissingPP :: "SeqNum \<Rightarrow> ViewsManager \<Rightarrow> (bool \<times> SeqNum list) option" where
  "getNumbersOfMissingPP currentLastStable vm =
     (if stat vm \<noteq> PENDING_WITH_RESTRICTIONS then Some (False, [])
      else if minRestrictionOfPendingView vm = 0 then Some (False, [])
      else do {
        ms \<leftarrow> missingFrom [max (minRestrictionOfPendingView vm) (currentLastStable + 1)..maxRestrictionOfPendingView vm] vm;
        Some (ms \<noteq> [], ms)
      })"

text \<open>The first loop of the entry releases what is not needed any more, the second one hands the batches of
  the view out.\<close>

fun releaseLoop :: "SeqNum list \<Rightarrow> ViewsManager \<Rightarrow> ViewsManager option" where
  "releaseLoop [] vm = Some vm"
| "releaseLoop (i # is) vm = do {
     let idx = nat (i - minRestrictionOfPendingView vm);
     r \<leftarrow> at (restrictionsOfPendingView vm) idx;
     if r_isNull r then releaseLoop is vm
     else do {
       p \<leftarrow> at (prePrepareMsgsOfRestrictions vm) idx;
       case p of
         None \<Rightarrow> releaseLoop is vm
       | Some pp \<Rightarrow> do {
           Assert (pp_seqNumber pp = i);
           let vm = clearSlot idx vm;
           releaseLoop is (if addressIn (collectionOfPrePrepareMsgs vm) i (pp_address pp) then vm else free (pp_address pp) vm)
         }
     }
   }"

definition nullPrePrepare :: "ViewNum \<Rightarrow> SeqNum \<Rightarrow> PrePrepareHeader option" where
  "nullPrePrepare v s = do {
     flags \<leftarrow> computeFlagsForPrePrepareMsg True True SLOW;
     Some \<lparr>pp_viewNum = v, pp_seqNum = s, pp_flags = flags, pp_digestOfRequests = nullDigest, pp_numberOfRequests = 0,
           pp_endLocationOfLastRequest = sizeofPrePrepareMsgHeader\<rparr>
   }"

definition updateViewOf :: "ViewNum \<Rightarrow> PPMsg \<Rightarrow> PPMsg option" where
  "updateViewOf v pp = do {
     flags \<leftarrow> computeFlagsForPrePrepareMsg (pp_isNull (pp_header pp)) (pp_isReady (pp_header pp)) SLOW;
     Some (pp\<lparr>pp_header := (pp_header pp)\<lparr>pp_viewNum := v, pp_flags := flags\<rparr>\<rparr>)
   }"

fun handOutLoop :: "(SeqNum \<Rightarrow> nat) \<Rightarrow> SeqNum list \<Rightarrow> ViewsManager \<Rightarrow> (PPMsg list \<times> ViewsManager) option" where
  "handOutLoop fresh [] vm = Some ([], vm)"
| "handOutLoop fresh (i # is) vm = do {
     let idx = nat (i - minRestrictionOfPendingView vm);
     r \<leftarrow> at (restrictionsOfPendingView vm) idx;
     p \<leftarrow> at (prePrepareMsgsOfRestrictions vm) idx;
     if r_isNull r
     then do {
       Assert (p = None);
       h \<leftarrow> nullPrePrepare (myLatestActiveView vm) i;
       (out, vm) \<leftarrow> handOutLoop fresh is vm;
       Some (\<lparr>pp_address = fresh i, pp_header = h\<rparr> # out, vm)
     }
     else do {
       pp \<leftarrow> p;
       Assert (pp_seqNumber pp = i);
       pp' \<leftarrow> updateViewOf (myLatestActiveView vm) pp;
       let vm = clearSlot idx vm;
       let vm = (if addressIn (collectionOfPrePrepareMsgs vm) i (pp_address pp)
         then vm\<lparr>collectionOfPrePrepareMsgs := AList.delete i (collectionOfPrePrepareMsgs vm)\<rparr> else vm);
       (out, vm) \<leftarrow> handOutLoop fresh is vm;
       Some (pp' # out, vm)
     }
   }"

definition clearCollection :: "ViewsManager \<Rightarrow> ViewsManager" where
  "clearCollection vm =
     vm\<lparr>freed := freed vm @ map (pp_address \<circ> snd) (collectionOfPrePrepareMsgs vm), collectionOfPrePrepareMsgs := []\<rparr>"

definition enterView :: "(SeqNum \<Rightarrow> nat) \<Rightarrow> ViewNum \<Rightarrow> SeqNum \<Rightarrow> ViewsManager \<Rightarrow> (PPMsg list \<times> ViewsManager) option" where
  "enterView fresh v currentLastStable vm = do {
     let vm = vm\<lparr>myLatestActiveView := v, stat := IN_VIEW\<rparr>;
     (out, vm) \<leftarrow> (if minRestrictionOfPendingView vm \<noteq> 0
       then do {
         let firstRelevant = min (maxRestrictionOfPendingView vm + 1) (max (minRestrictionOfPendingView vm) (currentLastStable + 1));
         vm \<leftarrow> releaseLoop [minRestrictionOfPendingView vm..firstRelevant - 1] vm;
         handOutLoop fresh [firstRelevant..maxRestrictionOfPendingView vm] vm
       }
       else Some ([], vm));
     Some (out, clearCollection vm)
   }"

text \<open>The part of \<open>tryToEnterView\<close> that looks for a new pending view; the flag tells whether to go on.\<close>

definition moveToPendingView :: "(VCMsg \<Rightarrow> Digest) \<Rightarrow> ViewNum \<Rightarrow> SeqNum \<Rightarrow> ViewsManager \<Rightarrow> (bool \<times> ViewsManager) option" where
  "moveToPendingView hashVC v currentLastStable vm = do {
     let vm = vm\<lparr>stat := NO_VIEW\<rparr>;
     (newPendingView, vm) \<leftarrow> (if primaryOfView (replicasInfo vm) v = vm_myId vm
       then tryMoveToPendingViewAsPrimary hashVC v vm
       else tryMoveToPendingViewAsNonPrimary hashVC v vm);
     if \<not> newPendingView then Some (False, vm)
     else do {
       t1 \<leftarrow> calcLBStableForView (viewChangeSafetyLogic vm) (map (map_option vcm_report) (viewChangeMsgsOfPendingView vm));
       let t2 = max currentLastStable (lowerBoundStableForPendingView vm);
       let vm = vm\<lparr>lowerBoundStableForPendingView := max t1 t2, stat := PENDING\<rparr>;
       Some (currentLastStable \<ge> lowerBoundStableForPendingView vm, vm)
     }
   }"

text \<open>The part of \<open>tryToEnterView\<close> behind it: the restrictions are computed once, and the view is entered when
  no batch is missing.\<close>

definition finishEntry :: "(SeqNum \<Rightarrow> nat) \<Rightarrow> ViewNum \<Rightarrow> SeqNum \<Rightarrow> ViewsManager \<Rightarrow> (bool \<times> PPMsg list \<times> ViewsManager) option" where
  "finishEntry fresh v currentLastStable vm =
     (if stat vm \<noteq> PENDING_WITH_RESTRICTIONS then Some (False, [], vm)
      else do {
        missing \<leftarrow> hasMissingMsgs currentLastStable vm;
        if missing then Some (False, [], vm)
        else do {
          (out, vm) \<leftarrow> enterView fresh v currentLastStable vm;
          Some (True, out, vm)
        }
      })"

definition completeEntry :: "(SeqNum \<Rightarrow> nat) \<Rightarrow> ViewNum \<Rightarrow> SeqNum \<Rightarrow> ViewsManager \<Rightarrow> (bool \<times> PPMsg list \<times> ViewsManager) option" where
  "completeEntry fresh v currentLastStable vm = do {
     Assert (v = myLatestPendingView vm);
     if stat vm = PENDING
     then do {
       vm \<leftarrow> computeRestrictionsOfNewView v vm;
       finishEntry fresh v currentLastStable (vm\<lparr>stat := PENDING_WITH_RESTRICTIONS\<rparr>)
     }
     else finishEntry fresh v currentLastStable vm
   }"

definition tryToEnterView ::
  "(VCMsg \<Rightarrow> Digest) \<Rightarrow> (SeqNum \<Rightarrow> nat) \<Rightarrow> ViewNum \<Rightarrow> SeqNum \<Rightarrow> SeqNum \<Rightarrow> ViewsManager
     \<Rightarrow> (bool \<times> PPMsg list \<times> ViewsManager) option" where
  "tryToEnterView hashVC fresh v currentLastStable currentLastExecuted vm = do {
     Assert (stat vm \<noteq> IN_VIEW);
     Assert (v > myLatestActiveView vm);
     Assert (v \<ge> myLatestPendingView vm);
     Assert (v \<ge> debugHighestViewNumberPassedByClient vm \<and> currentLastStable \<ge> debugHighestKnownStable vm);
     let vm = vm\<lparr>debugHighestViewNumberPassedByClient := v, debugHighestKnownStable := currentLastStable\<rparr>;
     if currentLastExecuted < currentLastStable then Some (False, [], vm)
     else if currentLastStable < lowerBoundStableForPendingView vm then Some (False, [], vm)
     else do {
       (continue, vm) \<leftarrow> (if v > myLatestPendingView vm then moveToPendingView hashVC v currentLastStable vm else Some (True, vm));
       if \<not> continue then Some (False, [], vm) else completeEntry fresh v currentLastStable vm
     }
   }"

section \<open>Batches of the pending view\<close>

definition hasRelevantRestriction :: "SeqNum \<Rightarrow> ViewsManager \<Rightarrow> bool" where
  "hasRelevantRestriction s vm \<longleftrightarrow>
     minRestrictionOfPendingView vm \<noteq> 0 \<and> s \<ge> minRestrictionOfPendingView vm \<and> s \<le> maxRestrictionOfPendingView vm"

definition addPotentiallyMissingPP :: "PPMsg \<Rightarrow> ViewsManager \<Rightarrow> (bool \<times> ViewsManager) option" where
  "addPotentiallyMissingPP p vm = do {
     Assert (stat vm = PENDING_WITH_RESTRICTIONS);
     Assert (\<not> pp_isNull (pp_header p));
     let s = pp_seqNumber p;
     if hasRelevantRestriction s vm
     then do {
       let idx = nat (s - minRestrictionOfPendingView vm);
       Assert (int idx < kWorkWindowSize);
       r \<leftarrow> at (restrictionsOfPendingView vm) idx;
       q \<leftarrow> at (prePrepareMsgsOfRestrictions vm) idx;
       if q = None \<and> \<not> r_isNull r \<and> r_digest r = pp_digest p
       then Some (True, vm\<lparr>prePrepareMsgsOfRestrictions := (prePrepareMsgsOfRestrictions vm)[idx := Some p]\<rparr>)
       else Some (False, free (pp_address p) vm)
     }
     else Some (False, free (pp_address p) vm)
   }"

definition getPrePrepare :: "SeqNum \<Rightarrow> ViewsManager \<Rightarrow> PPMsg option option" where
  "getPrePrepare s vm = do {
     Assert (stat vm \<noteq> IN_VIEW);
     if stat vm = PENDING_WITH_RESTRICTIONS
     then (if \<not> hasRelevantRestriction s vm then Some None
       else do {
         let idx = nat (s - minRestrictionOfPendingView vm);
         Assert (int idx < kWorkWindowSize);
         r \<leftarrow> at (restrictionsOfPendingView vm) idx;
         if r_isNull r then Some None
         else do {
           p \<leftarrow> at (prePrepareMsgsOfRestrictions vm) idx;
           Assert (case p of None \<Rightarrow> True | Some pp \<Rightarrow> pp_seqNumber pp = s \<and> \<not> pp_isNull (pp_header pp));
           Some p
         }
       })
     else (case map_of (collectionOfPrePrepareMsgs vm) s of
         None \<Rightarrow> Some None
       | Some pp \<Rightarrow> do {
           Assert (pp_seqNumber pp = s \<and> \<not> pp_isNull (pp_header pp));
           Some (Some pp)
         })
   }"

section \<open>Status queries\<close>

definition inView :: "ViewsManager \<Rightarrow> bool" where
  "inView vm \<longleftrightarrow> stat vm = IN_VIEW"

definition latestActiveView :: "ViewsManager \<Rightarrow> ViewNum" where
  "latestActiveView vm = myLatestActiveView vm"

definition viewIsActive :: "ViewNum \<Rightarrow> ViewsManager \<Rightarrow> bool" where
  "viewIsActive v vm \<longleftrightarrow> inView vm \<and> myLatestActiveView vm = v"

definition viewIsPending :: "ViewNum \<Rightarrow> ViewsManager \<Rightarrow> bool" where
  "viewIsPending v vm \<longleftrightarrow> v = myLatestPendingView vm \<and> v > myLatestActiveView vm"

definition waitingForMsgs :: "ViewsManager \<Rightarrow> bool" where
  "waitingForMsgs vm \<longleftrightarrow> stat vm = PENDING_WITH_RESTRICTIONS"

end
