(* ===== verification/View_Entry.thy ===== *)
theory View_Entry
  imports Views_Manager
begin

text \<open>
  The correctness of the views manager. Every batch given to it is owned by the collection or by a
  restriction, handed out, or freed, and only one of these; the loops of the entry keep this account. A
  replica enters a view exactly when no batch is missing, and then proposes again every batch that the
  reports oblige it to keep.
\<close>

section \<open>Ownership of the batches\<close>

definition slotOwned :: "ViewsManager \<Rightarrow> nat \<Rightarrow> nat multiset" where
  "slotOwned vm idx =
     (case prePrepareMsgsOfRestrictions vm ! idx of
        None \<Rightarrow> {#}
      | Some pp \<Rightarrow>
          if addressIn (collectionOfPrePrepareMsgs vm) (minRestrictionOfPendingView vm + int idx) (pp_address pp) then {#}
          else {#pp_address pp#})"

definition owned :: "ViewsManager \<Rightarrow> nat multiset" where
  "owned vm = mset (map (pp_address \<circ> snd) (collectionOfPrePrepareMsgs vm)) + (\<Sum>idx < 300. slotOwned vm idx)"

text \<open>All batches the manager has ever had and not handed out.\<close>

definition accounted :: "ViewsManager \<Rightarrow> nat multiset" where
  "accounted vm = owned vm + mset (freed vm)"

definition slots_ok :: "ViewsManager \<Rightarrow> bool" where
  "slots_ok vm \<longleftrightarrow> length (prePrepareMsgsOfRestrictions vm) = 300 \<and> length (restrictionsOfPendingView vm) = 300"

text \<open>A batch attached to a restriction satisfies it.\<close>

definition attached_ok :: "ViewsManager \<Rightarrow> bool" where
  "attached_ok vm \<longleftrightarrow> (\<forall>idx pp. idx < 300 \<longrightarrow> prePrepareMsgsOfRestrictions vm ! idx = Some pp \<longrightarrow>
     minRestrictionOfPendingView vm \<noteq> 0 \<and> minRestrictionOfPendingView vm + int idx \<le> maxRestrictionOfPendingView vm \<and>
     pp_seqNumber pp = minRestrictionOfPendingView vm + int idx \<and> \<not> pp_isNull (pp_header pp) \<and>
     \<not> r_isNull (restrictionsOfPendingView vm ! idx) \<and> pp_digest pp = r_digest (restrictionsOfPendingView vm ! idx))"

definition coll_ok :: "ViewsManager \<Rightarrow> bool" where
  "coll_ok vm \<longleftrightarrow> distinct (map fst (collectionOfPrePrepareMsgs vm)) \<and>
     (\<forall>(s, pp) \<in> set (collectionOfPrePrepareMsgs vm). pp_seqNumber pp = s \<and> \<not> pp_isNull (pp_header pp))"

definition no_slots :: "ViewsManager \<Rightarrow> bool" where
  "no_slots vm \<longleftrightarrow> (\<forall>idx < 300. prePrepareMsgsOfRestrictions vm ! idx = None)"

lemma attached_okD:
  assumes "attached_ok vm" "idx < 300" "prePrepareMsgsOfRestrictions vm ! idx = Some pp"
  shows "minRestrictionOfPendingView vm \<noteq> 0 \<and> minRestrictionOfPendingView vm + int idx \<le> maxRestrictionOfPendingView vm \<and>
     pp_seqNumber pp = minRestrictionOfPendingView vm + int idx \<and> \<not> pp_isNull (pp_header pp) \<and>
     \<not> r_isNull (restrictionsOfPendingView vm ! idx) \<and> pp_digest pp = r_digest (restrictionsOfPendingView vm ! idx)"
  using assms by (simp add: attached_ok_def)

lemma no_slots_owned: "no_slots vm \<Longrightarrow> owned vm = mset (map (pp_address \<circ> snd) (collectionOfPrePrepareMsgs vm))"
  by (simp add: no_slots_def owned_def slotOwned_def)

lemma owned_split:
  assumes "idx < 300"
  shows "owned vm = mset (map (pp_address \<circ> snd) (collectionOfPrePrepareMsgs vm)) + slotOwned vm idx
    + (\<Sum>j \<in> {..<300} - {idx}. slotOwned vm j)"
  using assms by (simp add: owned_def sum.remove [of "{..<300}" idx] add.assoc)

lemma accounted_cong:
  assumes "prePrepareMsgsOfRestrictions vm' = prePrepareMsgsOfRestrictions vm"
    "collectionOfPrePrepareMsgs vm' = collectionOfPrePrepareMsgs vm"
    "minRestrictionOfPendingView vm' = minRestrictionOfPendingView vm" "freed vm' = freed vm"
  shows "accounted vm' = accounted vm"
  unfolding accounted_def owned_def slotOwned_def assms ..

text \<open>Emptying a slot: the batch is freed unless the collection still has it.\<close>

definition dropSlot :: "nat \<Rightarrow> ViewsManager \<Rightarrow> ViewsManager" where
  "dropSlot idx vm =
     (case prePrepareMsgsOfRestrictions vm ! idx of
        None \<Rightarrow> vm
      | Some pp \<Rightarrow>
          if addressIn (collectionOfPrePrepareMsgs vm) (minRestrictionOfPendingView vm + int idx) (pp_address pp)
          then clearSlot idx vm else free (pp_address pp) (clearSlot idx vm))"

lemma update_None_id: "xs ! i = None \<Longrightarrow> xs[i := None] = xs"
  by (metis list_update_id)

lemma dropSlot_sel [simp]:
  "minRestrictionOfPendingView (dropSlot idx vm) = minRestrictionOfPendingView vm"
  "maxRestrictionOfPendingView (dropSlot idx vm) = maxRestrictionOfPendingView vm"
  "restrictionsOfPendingView (dropSlot idx vm) = restrictionsOfPendingView vm"
  "collectionOfPrePrepareMsgs (dropSlot idx vm) = collectionOfPrePrepareMsgs vm"
  "prePrepareMsgsOfRestrictions (dropSlot idx vm) = (prePrepareMsgsOfRestrictions vm)[idx := None]"
  by (auto simp: dropSlot_def clearSlot_def free_def update_None_id split: option.splits)

lemma dropSlot_frame: "\<exists>ps fr. dropSlot idx vm = vm\<lparr>prePrepareMsgsOfRestrictions := ps, freed := fr\<rparr>"
proof -
  have "dropSlot idx vm = vm\<lparr>prePrepareMsgsOfRestrictions := prePrepareMsgsOfRestrictions (dropSlot idx vm), freed := freed (dropSlot idx vm)\<rparr>"
    by (simp add: dropSlot_def clearSlot_def free_def split: option.split)
  then show ?thesis by blast
qed

lemma dropSlot_accounted:
  assumes "idx < 300" "slots_ok vm"
  shows "accounted (dropSlot idx vm) = accounted vm"
proof -
  have same: "slotOwned (dropSlot idx vm) j = slotOwned vm j" if "j \<noteq> idx" for j
    using that by (cases "prePrepareMsgsOfRestrictions vm ! j") (simp_all add: slotOwned_def)
  have "slotOwned (dropSlot idx vm) idx = {#}" using assms by (simp add: slotOwned_def slots_ok_def)
  moreover have "mset (freed (dropSlot idx vm)) = mset (freed vm) + slotOwned vm idx"
    by (auto simp: dropSlot_def slotOwned_def free_def clearSlot_def split: option.splits)
  ultimately show ?thesis
    using owned_split [OF assms(1), of vm] owned_split [OF assms(1), of "dropSlot idx vm"] same by (simp add: accounted_def)
qed

lemma update_None_nth: "xs[i := None] ! j = Some y \<Longrightarrow> j < length xs \<Longrightarrow> xs ! j = Some y"
  by (cases "i = j") auto

lemma dropSlot_ok:
  assumes "slots_ok vm" "attached_ok vm"
  shows "slots_ok (dropSlot idx vm)" "attached_ok (dropSlot idx vm)"
  using assms update_None_nth [of "prePrepareMsgsOfRestrictions vm" idx] by (simp_all add: slots_ok_def attached_ok_def)

text \<open>Emptying the slots of several numbers.\<close>

definition dropSlots :: "SeqNum list \<Rightarrow> ViewsManager \<Rightarrow> ViewsManager" where
  "dropSlots is vm = fold (\<lambda>i. dropSlot (nat (i - minRestrictionOfPendingView vm))) is vm"

lemma dropSlots_simps [simp]:
  "dropSlots [] vm = vm" "dropSlots (i # is) vm = dropSlots is (dropSlot (nat (i - minRestrictionOfPendingView vm)) vm)"
  by (simp_all add: dropSlots_def)

lemma dropSlots_sel [simp]:
  "minRestrictionOfPendingView (dropSlots is vm) = minRestrictionOfPendingView vm"
  "maxRestrictionOfPendingView (dropSlots is vm) = maxRestrictionOfPendingView vm"
  "restrictionsOfPendingView (dropSlots is vm) = restrictionsOfPendingView vm"
  "collectionOfPrePrepareMsgs (dropSlots is vm) = collectionOfPrePrepareMsgs vm"
  by (induction "is" arbitrary: vm) simp_all

lemma dropSlots_frame: "\<exists>ps fr. dropSlots is vm = vm\<lparr>prePrepareMsgsOfRestrictions := ps, freed := fr\<rparr>"
proof (induction "is" arbitrary: vm)
  case Nil
  have "dropSlots [] vm = vm\<lparr>prePrepareMsgsOfRestrictions := prePrepareMsgsOfRestrictions vm, freed := freed vm\<rparr>" by simp
  then show ?case by blast
next
  case (Cons i "is")
  let ?vm = "dropSlot (nat (i - minRestrictionOfPendingView vm)) vm"
  obtain ps fr where a: "?vm = vm\<lparr>prePrepareMsgsOfRestrictions := ps, freed := fr\<rparr>" using dropSlot_frame by blast
  obtain ps' fr' where "dropSlots is ?vm = ?vm\<lparr>prePrepareMsgsOfRestrictions := ps', freed := fr'\<rparr>" using Cons.IH by blast
  then have "dropSlots (i # is) vm = vm\<lparr>prePrepareMsgsOfRestrictions := ps', freed := fr'\<rparr>" by (simp add: a)
  then show ?case by blast
qed

lemma dropSlots_ok:
  assumes "slots_ok vm" "attached_ok vm" "\<forall>i \<in> set is. minRestrictionOfPendingView vm \<le> i \<and> i < minRestrictionOfPendingView vm + 300"
  shows "slots_ok (dropSlots is vm) \<and> attached_ok (dropSlots is vm) \<and> accounted (dropSlots is vm) = accounted vm \<and>
    (\<forall>idx < 300. prePrepareMsgsOfRestrictions (dropSlots is vm) ! idx =
       (if minRestrictionOfPendingView vm + int idx \<in> set is then None else prePrepareMsgsOfRestrictions vm ! idx))"
  using assms
proof (induction "is" arbitrary: vm)
  case (Cons i "is")
  let ?idx = "nat (i - minRestrictionOfPendingView vm)"
  let ?vm = "dropSlot ?idx vm"
  have idx: "?idx < 300" "i = minRestrictionOfPendingView vm + int ?idx" using Cons.prems(3) by auto
  have "slots_ok ?vm" "attached_ok ?vm" using dropSlot_ok Cons.prems by blast+
  then have IH: "slots_ok (dropSlots is ?vm)" "attached_ok (dropSlots is ?vm)" "accounted (dropSlots is ?vm) = accounted ?vm"
    "\<forall>idx < 300. prePrepareMsgsOfRestrictions (dropSlots is ?vm) ! idx =
       (if minRestrictionOfPendingView vm + int idx \<in> set is then None else prePrepareMsgsOfRestrictions ?vm ! idx)"
    using Cons.IH [of ?vm] Cons.prems(3) by auto
  have "prePrepareMsgsOfRestrictions ?vm ! j =
      (if minRestrictionOfPendingView vm + int j = i then None else prePrepareMsgsOfRestrictions vm ! j)" if "j < 300" for j
    using that idx Cons.prems(1) by (auto simp: nth_list_update slots_ok_def)
  then show ?case using IH dropSlot_accounted [OF idx(1) Cons.prems(1)] by auto
qed simp

section \<open>The loops\<close>

lemma dropRestrictions_eq:
  assumes "slots_ok vm" "\<forall>i \<in> set is. minRestrictionOfPendingView vm \<le> i \<and> i < minRestrictionOfPendingView vm + 300"
  shows "dropRestrictions is vm = Some (dropSlots is vm)"
  using assms
proof (induction "is" arbitrary: vm)
  case (Cons i "is")
  let ?idx = "nat (i - minRestrictionOfPendingView vm)"
  have idx: "?idx < 300" "minRestrictionOfPendingView vm + int ?idx = i" using Cons.prems(2) by auto
  have len: "length (prePrepareMsgsOfRestrictions vm) = 300" using Cons.prems(1) by (simp add: slots_ok_def)
  have "clearSlot ?idx (case prePrepareMsgsOfRestrictions vm ! ?idx of None \<Rightarrow> vm
       | Some pp \<Rightarrow> if addressIn (collectionOfPrePrepareMsgs vm) i (pp_address pp) then vm else free (pp_address pp) vm)
     = dropSlot ?idx vm"
  proof (cases "prePrepareMsgsOfRestrictions vm ! ?idx")
    case None
    then show ?thesis by (simp add: clearSlot_def dropSlot_def update_None_id)
  next
    case (Some pp)
    then show ?thesis unfolding dropSlot_def idx(2) by (simp add: clearSlot_def free_def)
  qed
  then show ?case
    using Cons.IH [of "dropSlot ?idx vm"] Cons.prems idx len by (simp add: at_def Let_def slots_ok_def)
qed simp

lemma releaseLoop_eq:
  assumes "slots_ok vm" "attached_ok vm" "\<forall>i \<in> set is. minRestrictionOfPendingView vm \<le> i \<and> i < minRestrictionOfPendingView vm + 300"
  shows "releaseLoop is vm = Some (dropSlots is vm)"
  using assms
proof (induction "is" arbitrary: vm)
  case (Cons i "is")
  let ?idx = "nat (i - minRestrictionOfPendingView vm)"
  let ?p = "prePrepareMsgsOfRestrictions vm ! ?idx"
  have idx: "?idx < 300" "minRestrictionOfPendingView vm + int ?idx = i" using Cons.prems(3) by auto
  have len: "length (prePrepareMsgsOfRestrictions vm) = 300" "length (restrictionsOfPendingView vm) = 300"
    using Cons.prems(1) by (simp_all add: slots_ok_def)
  have ats: "at (prePrepareMsgsOfRestrictions vm) ?idx = Some ?p"
    "at (restrictionsOfPendingView vm) ?idx = Some (restrictionsOfPendingView vm ! ?idx)" using idx(1) len by simp_all
  have rest: "releaseLoop is (dropSlot ?idx vm) = Some (dropSlots is (dropSlot ?idx vm))"
    using Cons.IH [of "dropSlot ?idx vm"] dropSlot_ok Cons.prems by simp
  show ?case
  proof (cases ?p)
    case None
    then have "dropSlot ?idx vm = vm" by (simp add: dropSlot_def)
    then show ?thesis using None rest ats by (simp add: Let_def at_def cong: if_cong)
  next
    case (Some pp)
    then have "\<not> r_isNull (restrictionsOfPendingView vm ! ?idx)" "pp_seqNumber pp = i"
      using attached_okD [OF Cons.prems(2) idx(1) Some, unfolded idx(2)] by blast+
    moreover have "dropSlot ?idx vm = (if addressIn (collectionOfPrePrepareMsgs (clearSlot ?idx vm)) i (pp_address pp)
        then clearSlot ?idx vm else free (pp_address pp) (clearSlot ?idx vm))"
      using Some idx by (simp add: dropSlot_def clearSlot_def)
    ultimately show ?thesis using Some rest ats by (simp add: Let_def at_def)
  qed
qed simp

definition lacking :: "ViewsManager \<Rightarrow> SeqNum \<Rightarrow> bool" where
  "lacking vm i \<longleftrightarrow> \<not> r_isNull (restrictionsOfPendingView vm ! nat (i - minRestrictionOfPendingView vm)) \<and>
     prePrepareMsgsOfRestrictions vm ! nat (i - minRestrictionOfPendingView vm) = None"

lemma missing_spec:
  assumes "slots_ok vm" "\<forall>i \<in> set is. minRestrictionOfPendingView vm \<le> i \<and> i < minRestrictionOfPendingView vm + 300"
  shows "missingFrom is vm = Some (filter (lacking vm) is)" "anyMissing is vm = Some (\<exists>i \<in> set is. lacking vm i)"
  using assms by (induction "is") (auto simp: at_def slots_ok_def Let_def lacking_def)

text \<open>What the view proposes for a number: the batch of the restriction, or a null batch.\<close>

definition proposes :: "ViewsManager \<Rightarrow> ViewNum \<Rightarrow> SeqNum \<Rightarrow> PPMsg \<Rightarrow> bool" where
  "proposes vm v i pp \<longleftrightarrow>
     (let r = restrictionsOfPendingView vm ! nat (i - minRestrictionOfPendingView vm)
      in pp_seqNumber pp = i \<and> pp_viewNum (pp_header pp) = v \<and> pp_isNull (pp_header pp) = r_isNull r \<and>
         pp_digest pp = (if r_isNull r then nullDigest else r_digest r))"

lemma slow_flags:
  "computeFlagsForPrePrepareMsg True True SLOW = Some 0xA" "computeFlagsForPrePrepareMsg False True SLOW = Some 0xB"
  "computeFlagsForPrePrepareMsg False False SLOW = Some 0x9"
  by (simp_all add: computeFlagsForPrePrepareMsg_def)

lemma nullPrePrepare_eq:
  "\<exists>h. nullPrePrepare v i = Some h \<and> pp_isNull h \<and> pp_viewNum h = v \<and> pp_seqNum h = i \<and> pp_digestOfRequests h = nullDigest"
  by (simp add: nullPrePrepare_def slow_flags pp_isNull_def)

lemma updateViewOf_eq:
  assumes "\<not> pp_isNull (pp_header pp)"
  shows "\<exists>pp'. updateViewOf v pp = Some pp' \<and> \<not> pp_isNull (pp_header pp') \<and> pp_viewNum (pp_header pp') = v \<and>
    pp_seqNumber pp' = pp_seqNumber pp \<and> pp_digest pp' = pp_digest pp \<and> pp_address pp' = pp_address pp"
  using assms by (cases "pp_isReady (pp_header pp)") (simp_all add: updateViewOf_def slow_flags, simp_all add: pp_isNull_def)

lemma delete_mset:
  assumes "distinct (map fst c)" "map_of c i = Some p"
  shows "mset c = add_mset (i, p) (mset (AList.delete i c))"
  using assms
proof (induction c)
  case (Cons x c)
  obtain k q where x: "x = (k, q)" by (cases x)
  show ?case
  proof (cases "k = i")
    case True
    then have "AList.delete i c = c" using Cons.prems(1) x by (intro AList.delete_id) auto
    then show ?thesis using Cons.prems(2) True x by simp
  next
    case False
    then show ?thesis using Cons x by simp
  qed
qed simp

definition takeSlot :: "nat \<Rightarrow> ViewsManager \<Rightarrow> ViewsManager" where
  "takeSlot idx vm =
     (case prePrepareMsgsOfRestrictions vm ! idx of
        None \<Rightarrow> vm
      | Some pp \<Rightarrow>
          let i = minRestrictionOfPendingView vm + int idx in
          if addressIn (collectionOfPrePrepareMsgs vm) i (pp_address pp)
          then (clearSlot idx vm)\<lparr>collectionOfPrePrepareMsgs := AList.delete i (collectionOfPrePrepareMsgs vm)\<rparr>
          else clearSlot idx vm)"

lemma takeSlot_sel [simp]:
  "minRestrictionOfPendingView (takeSlot idx vm) = minRestrictionOfPendingView vm"
  "maxRestrictionOfPendingView (takeSlot idx vm) = maxRestrictionOfPendingView vm"
  "restrictionsOfPendingView (takeSlot idx vm) = restrictionsOfPendingView vm"
  "myLatestActiveView (takeSlot idx vm) = myLatestActiveView vm"
  "freed (takeSlot idx vm) = freed vm"
  "prePrepareMsgsOfRestrictions (takeSlot idx vm) = (prePrepareMsgsOfRestrictions vm)[idx := None]"
  by (auto simp: takeSlot_def clearSlot_def Let_def update_None_id split: option.splits)

lemma takeSlot_frame: "\<exists>ps c. takeSlot idx vm = vm\<lparr>prePrepareMsgsOfRestrictions := ps, collectionOfPrePrepareMsgs := c\<rparr>"
proof -
  have "takeSlot idx vm = vm\<lparr>prePrepareMsgsOfRestrictions := prePrepareMsgsOfRestrictions (takeSlot idx vm),
      collectionOfPrePrepareMsgs := collectionOfPrePrepareMsgs (takeSlot idx vm)\<rparr>"
    by (simp add: takeSlot_def clearSlot_def Let_def split: option.split)
  then show ?thesis by blast
qed

lemma takeSlot_ok:
  assumes "slots_ok vm" "attached_ok vm" "coll_ok vm"
  shows "slots_ok (takeSlot idx vm)" "attached_ok (takeSlot idx vm)" "coll_ok (takeSlot idx vm)"
proof -
  show "slots_ok (takeSlot idx vm)" "attached_ok (takeSlot idx vm)"
    using assms(1,2) update_None_nth [of "prePrepareMsgsOfRestrictions vm" idx] by (simp_all add: slots_ok_def attached_ok_def)
  have "distinct (map fst (AList.delete i (collectionOfPrePrepareMsgs vm)))" for i
    using assms(3) by (intro distinct_delete) (simp add: coll_ok_def)
  moreover have "set (AList.delete i (collectionOfPrePrepareMsgs vm)) \<subseteq> set (collectionOfPrePrepareMsgs vm)" for i
    by (auto simp: AList.delete_eq)
  ultimately have "coll_ok ((clearSlot idx vm)\<lparr>collectionOfPrePrepareMsgs := AList.delete i (collectionOfPrePrepareMsgs vm)\<rparr>)" for i
    using assms(3) unfolding coll_ok_def by (simp add: clearSlot_def) blast
  moreover have "coll_ok (clearSlot idx vm)" using assms(3) by (simp add: coll_ok_def clearSlot_def)
  ultimately show "coll_ok (takeSlot idx vm)" using assms(3) by (simp add: takeSlot_def Let_def split: option.split)
qed

lemma takeSlot_accounted:
  assumes "slots_ok vm" "coll_ok vm" "idx < 300" "prePrepareMsgsOfRestrictions vm ! idx = Some pp"
  shows "accounted vm = add_mset (pp_address pp) (accounted (takeSlot idx vm))"
proof -
  let ?i = "minRestrictionOfPendingView vm + int idx" and ?c = "collectionOfPrePrepareMsgs vm"
  let ?in = "addressIn ?c ?i (pp_address pp)"
  have coll: "collectionOfPrePrepareMsgs (takeSlot idx vm) = (if ?in then AList.delete ?i ?c else ?c)"
    using assms(4) by (simp add: takeSlot_def clearSlot_def Let_def)
  have same: "slotOwned (takeSlot idx vm) j = slotOwned vm j" if "j \<noteq> idx" for j
  proof -
    have "addressIn (AList.delete ?i ?c) (minRestrictionOfPendingView vm + int j) a =
        addressIn ?c (minRestrictionOfPendingView vm + int j) a" for a
      using that by (simp add: addressIn_def delete_conv)
    then show ?thesis using that coll by (cases "prePrepareMsgsOfRestrictions vm ! j") (simp_all add: slotOwned_def)
  qed
  have empty: "slotOwned (takeSlot idx vm) idx = {#}" using assms(1,3) by (simp add: slotOwned_def slots_ok_def)
  have "mset (map (pp_address \<circ> snd) ?c) + slotOwned vm idx =
      add_mset (pp_address pp) (mset (map (pp_address \<circ> snd) (collectionOfPrePrepareMsgs (takeSlot idx vm))))"
  proof (cases ?in)
    case True
    then obtain p where p: "map_of ?c ?i = Some p" "pp_address p = pp_address pp"
      by (auto simp: addressIn_def split: option.splits)
    have d: "distinct (map fst ?c)" using assms(2) by (simp add: coll_ok_def)
    have "image_mset (pp_address \<circ> snd) (mset ?c) = image_mset (pp_address \<circ> snd) (add_mset (?i, p) (mset (AList.delete ?i ?c)))"
      by (simp only: delete_mset [OF d p(1)])
    then show ?thesis using True assms(4) coll p(2) by (simp add: slotOwned_def)
  next
    case False
    then show ?thesis using assms(4) coll by (simp add: slotOwned_def)
  qed
  then show ?thesis
    using owned_split [OF assms(3), of vm] owned_split [OF assms(3), of "takeSlot idx vm"] same empty
    by (simp add: accounted_def add.assoc [symmetric])
qed

definition given :: "PPMsg list \<Rightarrow> nat multiset" where
  "given out = mset (map pp_address (filter (\<lambda>pp. \<not> pp_isNull (pp_header pp)) out))"

definition inRange :: "ViewsManager \<Rightarrow> SeqNum list \<Rightarrow> bool" where
  "inRange vm is \<longleftrightarrow> (\<forall>i \<in> set is. minRestrictionOfPendingView vm \<le> i \<and> i < minRestrictionOfPendingView vm + 300)"

definition handed :: "ViewsManager \<Rightarrow> ViewsManager \<Rightarrow> bool" where
  "handed vm vm' \<longleftrightarrow> (\<exists>ps c. vm' = vm\<lparr>prePrepareMsgsOfRestrictions := ps, collectionOfPrePrepareMsgs := c\<rparr>)"

lemma handed_refl: "handed vm vm"
proof -
  have "vm = vm\<lparr>prePrepareMsgsOfRestrictions := prePrepareMsgsOfRestrictions vm, collectionOfPrePrepareMsgs := collectionOfPrePrepareMsgs vm\<rparr>"
    by simp
  then show ?thesis unfolding handed_def by blast
qed

lemma handed_trans: "handed a b \<Longrightarrow> handed b c \<Longrightarrow> handed a c"
  unfolding handed_def by (elim exE, hypsubst, simp) blast

lemma handed_takeSlot: "handed vm (takeSlot idx vm)"
  unfolding handed_def by (rule takeSlot_frame)

definition handedOut :: "ViewsManager \<Rightarrow> SeqNum list \<Rightarrow> PPMsg list \<Rightarrow> ViewsManager \<Rightarrow> bool" where
  "handedOut vm is out vm' \<longleftrightarrow> handed vm vm' \<and>
    list_all2 (proposes vm (myLatestActiveView vm)) is out \<and> accounted vm = accounted vm' + given out \<and>
    slots_ok vm' \<and> coll_ok vm' \<and>
    (\<forall>idx < 300. prePrepareMsgsOfRestrictions vm' ! idx =
       (if minRestrictionOfPendingView vm + int idx \<in> set is then None else prePrepareMsgsOfRestrictions vm ! idx))"

lemma handOutLoop_ok:
  assumes "slots_ok vm" "attached_ok vm" "coll_ok vm" "inRange vm is" "distinct is" "\<forall>i \<in> set is. \<not> lacking vm i"
  shows "\<exists>out vm'. handOutLoop fresh is vm = Some (out, vm') \<and> handedOut vm is out vm'"
  using assms
proof (induction "is" arbitrary: vm)
  case Nil
  then show ?case by (simp add: handedOut_def handed_refl given_def)
next
  case (Cons i "is")
  let ?idx = "nat (i - minRestrictionOfPendingView vm)"
  let ?vm = "takeSlot ?idx vm" and ?r = "restrictionsOfPendingView vm ! nat (i - minRestrictionOfPendingView vm)"
  have idx: "?idx < 300" "minRestrictionOfPendingView vm + int ?idx = i" using Cons.prems(4) by (auto simp: inRange_def)
  have len: "length (prePrepareMsgsOfRestrictions vm) = 300" "length (restrictionsOfPendingView vm) = 300"
    using Cons.prems(1) by (simp_all add: slots_ok_def)
  have lack: "lacking ?vm j = lacking vm j" if "j \<in> set is" for j
  proof -
    have "j \<noteq> i" "minRestrictionOfPendingView vm \<le> j" using Cons.prems(4,5) that by (auto simp: inRange_def)
    then have "nat (j - minRestrictionOfPendingView vm) \<noteq> ?idx" using idx(2) by linarith
    then show ?thesis by (simp add: lacking_def)
  qed
  have pre: "slots_ok ?vm" "attached_ok ?vm" "coll_ok ?vm" "inRange ?vm is" "distinct is" "\<forall>i \<in> set is. \<not> lacking ?vm i"
    using takeSlot_ok [OF Cons.prems(1-3)] Cons.prems(4-6) lack by (auto simp: inRange_def)
  obtain out vm' where IH: "handOutLoop fresh is ?vm = Some (out, vm')" "handedOut ?vm is out vm'" using Cons.IH [OF pre] by blast
  have "proposes ?vm = proposes vm" by (intro ext) (simp add: proposes_def)
  then have props: "list_all2 (proposes vm (myLatestActiveView vm)) is out" using IH(2) by (simp add: handedOut_def)
  have acc: "accounted ?vm = accounted vm' + given out" "slots_ok vm'" "coll_ok vm'" "handed vm vm'"
    using IH(2) handed_trans [OF handed_takeSlot] by (auto simp: handedOut_def)
  have slots: "\<forall>j < 300. prePrepareMsgsOfRestrictions vm' ! j =
      (if minRestrictionOfPendingView vm + int j \<in> set (i # is) then None else prePrepareMsgsOfRestrictions vm ! j)"
    using IH(2) idx len by (auto simp: handedOut_def nth_list_update)
  have fin: ?case if "handOutLoop fresh (i # is) vm = Some (pp # out, vm')" "proposes vm (myLatestActiveView vm) i pp"
      "accounted vm = accounted vm' + given (pp # out)" for pp
    using that props acc(2-4) slots by (intro exI [of _ "pp # out"] exI [of _ vm']) (simp add: handedOut_def)
  show ?case
  proof (cases "r_isNull ?r")
    case True
    obtain h where h: "nullPrePrepare (myLatestActiveView vm) i = Some h" "pp_isNull h" "pp_viewNum h = myLatestActiveView vm"
      "pp_seqNum h = i" "pp_digestOfRequests h = nullDigest" using nullPrePrepare_eq by blast
    have none: "prePrepareMsgsOfRestrictions vm ! ?idx = None"
      using attached_okD [OF Cons.prems(2) idx(1)] True by (cases "prePrepareMsgsOfRestrictions vm ! ?idx") auto
    then have vm: "?vm = vm" by (simp add: takeSlot_def)
    show ?thesis
    proof (rule fin)
      show "handOutLoop fresh (i # is) vm = Some (\<lparr>pp_address = fresh i, pp_header = h\<rparr> # out, vm')"
        using IH(1) True none h(1) idx(1) len vm by (simp add: at_def Let_def)
      show "proposes vm (myLatestActiveView vm) i \<lparr>pp_address = fresh i, pp_header = h\<rparr>"
        using h True by (simp add: proposes_def Let_def)
      show "accounted vm = accounted vm' + given (\<lparr>pp_address = fresh i, pp_header = h\<rparr> # out)"
        using h(2) acc(1) vm by (simp add: given_def)
    qed
  next
    case False
    then obtain pp where pp: "prePrepareMsgsOfRestrictions vm ! ?idx = Some pp"
      using Cons.prems(6) by (auto simp: lacking_def)
    have att: "pp_seqNumber pp = i" "\<not> pp_isNull (pp_header pp)" "pp_digest pp = r_digest ?r"
      using attached_okD [OF Cons.prems(2) idx(1) pp, unfolded idx(2)] by blast+
    obtain pp' where pp': "updateViewOf (myLatestActiveView vm) pp = Some pp'" "\<not> pp_isNull (pp_header pp')"
      "pp_viewNum (pp_header pp') = myLatestActiveView vm" "pp_seqNumber pp' = i" "pp_digest pp' = r_digest ?r"
      "pp_address pp' = pp_address pp" using updateViewOf_eq [OF att(2)] att by metis
    have vm: "?vm = (if addressIn (collectionOfPrePrepareMsgs (clearSlot ?idx vm)) i (pp_address pp)
        then (clearSlot ?idx vm)\<lparr>collectionOfPrePrepareMsgs := AList.delete i (collectionOfPrePrepareMsgs (clearSlot ?idx vm))\<rparr>
        else clearSlot ?idx vm)"
      unfolding takeSlot_def pp idx(2) by (simp add: clearSlot_def)
    show ?thesis
    proof (rule fin)
      show "handOutLoop fresh (i # is) vm = Some (pp' # out, vm')"
        using IH(1) [unfolded vm] False pp pp'(1) att(1) idx(1) len by (simp add: at_def Let_def)
      show "proposes vm (myLatestActiveView vm) i pp'" using pp' False by (simp add: proposes_def Let_def)
      show "accounted vm = accounted vm' + given (pp' # out)"
        using takeSlot_accounted [OF Cons.prems(1,3) idx(1) pp] acc(1) pp'(2,6) by (simp add: given_def)
    qed
  qed
qed

section \<open>Entering a view\<close>

definition window_ok :: "ViewsManager \<Rightarrow> bool" where
  "window_ok vm \<longleftrightarrow> minRestrictionOfPendingView vm = 0 \<or> maxRestrictionOfPendingView vm < minRestrictionOfPendingView vm + 300"

definition relevantNumbers :: "ViewsManager \<Rightarrow> SeqNum \<Rightarrow> SeqNum list" where
  "relevantNumbers vm lastStable =
     (if minRestrictionOfPendingView vm = 0 then []
      else [max (minRestrictionOfPendingView vm) (lastStable + 1)..maxRestrictionOfPendingView vm])"

lemma relevant_inRange:
  assumes "window_ok vm"
  shows "inRange vm (relevantNumbers vm s)"
  using assms by (auto simp: inRange_def relevantNumbers_def window_ok_def)

definition entered :: "ViewNum \<Rightarrow> ViewsManager \<Rightarrow> ViewsManager \<Rightarrow> bool" where
  "entered v vm vm' \<longleftrightarrow> (\<exists>ps fr. vm' = vm\<lparr>myLatestActiveView := v, stat := IN_VIEW, prePrepareMsgsOfRestrictions := ps,
     collectionOfPrePrepareMsgs := [], freed := fr\<rparr>) \<and> slots_ok vm' \<and> no_slots vm'"

lemma clearCollection_accounted: "no_slots vm \<Longrightarrow> accounted (clearCollection vm) = accounted vm"
  by (simp add: accounted_def no_slots_owned clearCollection_def no_slots_def)

lemma active_cong:
  "slots_ok (vm\<lparr>myLatestActiveView := v, stat := st\<rparr>) = slots_ok vm" "attached_ok (vm\<lparr>myLatestActiveView := v, stat := st\<rparr>) = attached_ok vm"
  "coll_ok (vm\<lparr>myLatestActiveView := v, stat := st\<rparr>) = coll_ok vm" "lacking (vm\<lparr>myLatestActiveView := v, stat := st\<rparr>) = lacking vm"
  "proposes (vm\<lparr>myLatestActiveView := v, stat := st\<rparr>) = proposes vm"
  by (simp_all add: slots_ok_def attached_ok_def coll_ok_def fun_eq_iff lacking_def proposes_def)

lemma active_accounted: "accounted (vm\<lparr>myLatestActiveView := v, stat := st\<rparr>) = accounted vm"
  by (rule accounted_cong) simp_all

lemma clear_after_handed:
  assumes vm2: "\<exists>ps fr. vm2 = vm\<lparr>myLatestActiveView := v, stat := IN_VIEW, prePrepareMsgsOfRestrictions := ps, freed := fr\<rparr>"
    and h: "handed vm2 vm3" "slots_ok vm3" "no_slots vm3"
  shows "entered v vm (clearCollection vm3)"
proof -
  obtain ps fr where 2: "vm2 = vm\<lparr>myLatestActiveView := v, stat := IN_VIEW, prePrepareMsgsOfRestrictions := ps, freed := fr\<rparr>"
    using vm2 by blast
  obtain ps' c where 3: "vm3 = vm2\<lparr>prePrepareMsgsOfRestrictions := ps', collectionOfPrePrepareMsgs := c\<rparr>"
    using h(1) by (auto simp: handed_def)
  have "clearCollection vm3 = vm\<lparr>myLatestActiveView := v, stat := IN_VIEW, prePrepareMsgsOfRestrictions := ps',
      collectionOfPrePrepareMsgs := [], freed := freed (clearCollection vm3)\<rparr>"
    by (simp add: clearCollection_def 2 3)
  moreover have "slots_ok (clearCollection vm3)" "no_slots (clearCollection vm3)"
    using h(2,3) by (simp_all add: slots_ok_def no_slots_def clearCollection_def)
  ultimately show ?thesis unfolding entered_def by blast
qed

lemma enterView_ok:
  assumes ok: "slots_ok vm" "attached_ok vm" "coll_ok vm" "window_ok vm"
    and all: "\<forall>i \<in> set (relevantNumbers vm s). \<not> lacking vm i"
  shows "\<exists>out vm'. enterView fresh v s vm = Some (out, vm') \<and> list_all2 (proposes vm v) (relevantNumbers vm s) out \<and>
    accounted vm = accounted vm' + given out \<and> entered v vm vm'"
proof -
  let ?mn = "minRestrictionOfPendingView vm" and ?mx = "maxRestrictionOfPendingView vm"
  let ?vm1 = "vm\<lparr>myLatestActiveView := v, stat := IN_VIEW\<rparr>"
  have ok1: "slots_ok ?vm1" "attached_ok ?vm1" "coll_ok ?vm1" using ok by (simp_all add: active_cong)
  show ?thesis
  proof (cases "?mn = 0")
    case True
    have "no_slots vm" using attached_okD [OF ok(2)] True unfolding no_slots_def by (metis option.exhaust)
    then have none: "no_slots ?vm1" by (simp add: no_slots_def)
    have "\<exists>ps fr. ?vm1 = vm\<lparr>myLatestActiveView := v, stat := IN_VIEW, prePrepareMsgsOfRestrictions := ps, freed := fr\<rparr>"
      by (intro exI [of _ "prePrepareMsgsOfRestrictions vm"] exI [of _ "freed vm"]) simp
    then have "entered v vm (clearCollection ?vm1)" using clear_after_handed handed_refl ok1(1) none by blast
    moreover have "enterView fresh v s vm = Some ([], clearCollection ?vm1)" using True by (simp add: enterView_def Let_def)
    moreover have "accounted (clearCollection ?vm1) = accounted vm" using clearCollection_accounted [OF none] by (simp add: active_accounted)
    ultimately show ?thesis using True by (simp add: relevantNumbers_def given_def)
  next
    case False
    define first where "first = min (?mx + 1) (max ?mn (s + 1))"
    have rel: "relevantNumbers vm s = [first..?mx]" using False by (auto simp: relevantNumbers_def first_def min_def)
    have win: "?mx < ?mn + 300" using ok(4) False by (simp add: window_ok_def)
    let ?vm2 = "dropSlots [?mn..first - 1] ?vm1"
    have rng: "\<forall>i \<in> set [?mn..first - 1]. minRestrictionOfPendingView ?vm1 \<le> i \<and> i < minRestrictionOfPendingView ?vm1 + 300"
      using win by (auto simp: first_def)
    have rls: "releaseLoop [?mn..first - 1] ?vm1 = Some ?vm2" using releaseLoop_eq [OF ok1(1,2) rng] .
    have 2: "slots_ok ?vm2" "attached_ok ?vm2" "accounted ?vm2 = accounted vm"
      "\<forall>idx < 300. prePrepareMsgsOfRestrictions ?vm2 ! idx =
         (if ?mn + int idx \<in> set [?mn..first - 1] then None else prePrepareMsgsOfRestrictions vm ! idx)"
      using dropSlots_ok [OF ok1(1,2) rng] by (simp_all add: active_accounted)
    have c2: "coll_ok ?vm2" using ok(3) by (simp add: coll_ok_def)
    have lack: "\<not> lacking ?vm2 i" if "i \<in> set [first..?mx]" for i
    proof -
      have "?mn \<le> i" "i < ?mn + 300" using that win by (auto simp: first_def)
      then have "prePrepareMsgsOfRestrictions ?vm2 ! nat (i - ?mn) = prePrepareMsgsOfRestrictions vm ! nat (i - ?mn)"
        using 2(4) [rule_format, of "nat (i - ?mn)"] that by simp
      then show ?thesis using all that unfolding rel by (simp add: lacking_def)
    qed
    have r2: "inRange ?vm2 [first..?mx]" using win by (auto simp: inRange_def first_def)
    obtain out vm3 where 3: "handOutLoop fresh [first..?mx] ?vm2 = Some (out, vm3)" "handedOut ?vm2 [first..?mx] out vm3"
      using handOutLoop_ok [OF 2(1,2) c2 r2 distinct_upto] lack by blast
    have act: "myLatestActiveView ?vm2 = v" using dropSlots_frame [of "[?mn..first - 1]" ?vm1] by auto
    have "proposes ?vm2 = proposes vm" by (intro ext) (simp add: proposes_def)
    then have props: "list_all2 (proposes vm v) (relevantNumbers vm s) out" using 3(2) act rel by (simp add: handedOut_def)
    have none: "no_slots vm3"
    proof -
      have "?mn + int idx \<in> set [?mn..first - 1] \<or> ?mn + int idx \<in> set [first..?mx]" if "prePrepareMsgsOfRestrictions vm ! idx = Some pp" "idx < 300" for idx pp
        using attached_okD [OF ok(2) that(2,1)] by auto
      then show ?thesis using 3(2) 2(4) unfolding no_slots_def handedOut_def by (auto split: if_splits) (metis option.exhaust)
    qed
    have run: "enterView fresh v s vm = Some (out, clearCollection vm3)"
      using False rls 3(1) by (simp add: enterView_def Let_def first_def)
    have "\<exists>ps fr. ?vm2 = vm\<lparr>myLatestActiveView := v, stat := IN_VIEW, prePrepareMsgsOfRestrictions := ps, freed := fr\<rparr>"
      using dropSlots_frame [of "[?mn..first - 1]" ?vm1] by auto
    then have "entered v vm (clearCollection vm3)" using clear_after_handed 3(2) none by (auto simp: handedOut_def)
    then show ?thesis using run props clearCollection_accounted [OF none] 2(3) 3(2) by (simp add: handedOut_def)
  qed
qed

section \<open>The restrictions of the pending view\<close>

lemma attachLoop_ok:
  assumes "slots_ok vm" "attached_ok vm" "coll_ok vm" "inRange vm is" "distinct is" "minRestrictionOfPendingView vm \<noteq> 0"
    "\<forall>i \<in> set is. i \<le> maxRestrictionOfPendingView vm \<and> prePrepareMsgsOfRestrictions vm ! nat (i - minRestrictionOfPendingView vm) = None"
  shows "\<exists>ps. attachLoop is vm = Some (vm\<lparr>prePrepareMsgsOfRestrictions := ps\<rparr>) \<and> slots_ok (vm\<lparr>prePrepareMsgsOfRestrictions := ps\<rparr>) \<and>
    attached_ok (vm\<lparr>prePrepareMsgsOfRestrictions := ps\<rparr>) \<and> accounted (vm\<lparr>prePrepareMsgsOfRestrictions := ps\<rparr>) = accounted vm"
  using assms
proof (induction "is" arbitrary: vm)
  case Nil
  have "vm\<lparr>prePrepareMsgsOfRestrictions := prePrepareMsgsOfRestrictions vm\<rparr> = vm" by simp
  then show ?case using Nil by (metis attachLoop.simps(1))
next
  case (Cons i "is")
  let ?mn = "minRestrictionOfPendingView vm"
  let ?idx = "nat (i - ?mn)"
  let ?r = "restrictionsOfPendingView vm ! ?idx" and ?found = "map_of (collectionOfPrePrepareMsgs vm) i"
  have idx: "?idx < 300" "?mn + int ?idx = i" using Cons.prems(4) by (auto simp: inRange_def)
  have len: "length (prePrepareMsgsOfRestrictions vm) = 300" "length (restrictionsOfPendingView vm) = 300"
    using Cons.prems(1) by (simp_all add: slots_ok_def)
  have empty: "prePrepareMsgsOfRestrictions vm ! ?idx = None" "i \<le> maxRestrictionOfPendingView vm" using Cons.prems(7) by auto
  show ?case
  proof (cases "\<exists>pp. ?found = Some pp \<and> \<not> r_isNull ?r \<and> pp_digest pp = r_digest ?r")
    case False
    then have "attachLoop (i # is) vm = attachLoop is vm"
      using idx(1) len empty by (cases ?found) (auto simp: at_def Let_def)
    then show ?thesis using Cons.IH [of vm] Cons.prems by (simp add: inRange_def)
  next
    case True
    then obtain pp where pp: "?found = Some pp" "\<not> r_isNull ?r" "pp_digest pp = r_digest ?r" by blast
    let ?vm = "vm\<lparr>prePrepareMsgsOfRestrictions := (prePrepareMsgsOfRestrictions vm)[?idx := Some pp]\<rparr>"
    have step: "attachLoop (i # is) vm = attachLoop is ?vm" using idx(1) len empty pp by (simp add: at_def Let_def)
    have coll: "pp_seqNumber pp = i" "\<not> pp_isNull (pp_header pp)"
      using map_of_SomeD [OF pp(1)] Cons.prems(3) by (auto simp: coll_ok_def)
    have s: "slots_ok ?vm" "coll_ok ?vm" using Cons.prems(1,3) by (simp_all add: slots_ok_def coll_ok_def)
    have at: "attached_ok ?vm"
      unfolding attached_ok_def
    proof (intro allI impI)
      fix j q assume j: "j < 300" "prePrepareMsgsOfRestrictions ?vm ! j = Some q"
      show "minRestrictionOfPendingView ?vm \<noteq> 0 \<and> minRestrictionOfPendingView ?vm + int j \<le> maxRestrictionOfPendingView ?vm \<and>
         pp_seqNumber q = minRestrictionOfPendingView ?vm + int j \<and> \<not> pp_isNull (pp_header q) \<and>
         \<not> r_isNull (restrictionsOfPendingView ?vm ! j) \<and> pp_digest q = r_digest (restrictionsOfPendingView ?vm ! j)"
      proof (cases "j = ?idx")
        case True
        then have "q = pp" using j(2) idx(1) len by simp
        moreover have "minRestrictionOfPendingView ?vm + int j = i" using idx(2) True by simp
        ultimately show ?thesis using True pp coll empty(2) Cons.prems(6) by simp
      next
        case False
        then show ?thesis using attached_okD [OF Cons.prems(2) j(1)] j(2) by simp
      qed
    qed
    have others: "prePrepareMsgsOfRestrictions ?vm ! nat (j - ?mn) = None" if "j \<in> set is" for j
    proof -
      have "j \<noteq> i" "?mn \<le> j" using Cons.prems(4,5) that by (auto simp: inRange_def)
      then have "nat (j - ?mn) \<noteq> ?idx" using idx(2) by linarith
      then show ?thesis using Cons.prems(7) that by simp
    qed
    have acc: "accounted ?vm = accounted vm"
    proof -
      have "slotOwned ?vm j = slotOwned vm j" if "j \<noteq> ?idx" for j
        using that by (cases "prePrepareMsgsOfRestrictions vm ! j") (simp_all add: slotOwned_def)
      moreover have "slotOwned vm ?idx = {#}" using empty(1) by (simp add: slotOwned_def)
      moreover have "slotOwned ?vm ?idx = {#}"
        unfolding slotOwned_def using idx len pp(1) by (simp add: addressIn_def del: int_nat_eq)
      ultimately show ?thesis using owned_split [OF idx(1), of vm] owned_split [OF idx(1), of ?vm] by (simp add: accounted_def)
    qed
    obtain ps where "attachLoop is ?vm = Some (?vm\<lparr>prePrepareMsgsOfRestrictions := ps\<rparr>)" "slots_ok (?vm\<lparr>prePrepareMsgsOfRestrictions := ps\<rparr>)"
      "attached_ok (?vm\<lparr>prePrepareMsgsOfRestrictions := ps\<rparr>)" "accounted (?vm\<lparr>prePrepareMsgsOfRestrictions := ps\<rparr>) = accounted ?vm"
      using Cons.IH [OF s(1) at s(2)] Cons.prems(4-7) others by (auto simp: inRange_def)
    then show ?thesis unfolding step using acc by (intro exI [of _ ps]) simp
  qed
qed

lemma restrictLoop_length: "restrictLoop logic lb ub i k its arr l = Some (i', arr', l') \<Longrightarrow> length arr' = length arr"
proof (induction k arbitrary: i its arr l)
  case (Suc k)
  show ?case
  proof (cases "its = []")
    case False
    then obtain ok d its1 where "computeRestrictionsForSeqNum logic (lb + int i) its ub = Some (ok, d, its1)"
      using Suc.prems by (cases "computeRestrictionsForSeqNum logic (lb + int i) its ub") (auto simp: Let_def)
    then show ?thesis using Suc.prems False Suc.IH by (cases "ok \<and> d \<noteq> sl_nullDigest logic") (fastforce simp: Let_def)+
  qed (use Suc.prems in simp)
qed simp

lemma resetRestrictions_length: "resetRestrictions i k arr = Some arr' \<Longrightarrow> length arr' = length arr"
  by (induction i k arr rule: resetRestrictions.induct) auto

lemma computeRestrictions_range:
  assumes "computeRestrictions logic msgs lb arr = Some (mn, mx, arr')" "0 \<le> lb"
  shows "length arr' = length arr \<and> (mn = 0 \<and> mx = 0 \<or> mn = lb + 1 \<and> mn \<le> mx \<and> mx < mn + 300)"
proof -
  define its where "its = createIters (lb + 1) (take (sl_N logic) msgs)"
  obtain i arr1 l arr2 where r: "restrictLoop logic (lb + 1) (lb + 300) 0 300 its arr 0 = Some (i, arr1, l)"
    "resetRestrictions i (300 - i) arr1 = Some arr2"
    "(if its = [] then (0, 0, arr2)
      else if l > 0 \<and> l \<le> lb + 300 - checkpointWindowSize then (lb + 1, lb + 300 - checkpointWindowSize, arr2)
      else (lb + 1, lb + 300, arr2)) = (mn, mx, arr')"
    using assms(1) by (auto simp: computeRestrictions_def its_def Let_def Option.bind_eq_Some_conv simp del: checkpointWindowSize_def)
  have "length arr2 = length arr" using restrictLoop_length [OF r(1)] resetRestrictions_length [OF r(2)] by simp
  then show ?thesis using r(3) by (auto split: if_splits)
qed

end
