(* ===== verification/View_Invariant.thy ===== *)
theory View_Invariant
  imports View_Entry
begin

text \<open>
  The invariant of the views manager and its reachable states. A run is any sequence of its operations; it
  keeps the account of the batches received and handed out, by address.
\<close>

section \<open>The invariant\<close>

definition config_ok :: "ViewsManager \<Rightarrow> bool" where
  "config_ok vm \<longleftrightarrow> wf_replicas_info (replicasInfo vm) \<and> vm_N vm = nat (numberOfReplicas (replicasInfo vm)) \<and>
     vm_F vm = nat (fVal (replicasInfo vm)) \<and> vm_C vm = nat (cVal (replicasInfo vm)) \<and>
     length (viewChangeMessages vm) = vm_N vm \<and> length (newViewMessages vm) = vm_N vm \<and>
     length (viewChangeMsgsOfPendingView vm) = vm_N vm"

definition from_owner :: "VCMsg option list \<Rightarrow> bool" where
  "from_owner msgs \<longleftrightarrow> (\<forall>i m. i < length msgs \<longrightarrow> msgs ! i = Some m \<longrightarrow> idOfGeneratedReplica m = i)"

definition nothing_pending :: "ViewsManager \<Rightarrow> bool" where
  "nothing_pending vm \<longleftrightarrow> newViewMsgOfOfPendingView vm = None \<and> minRestrictionOfPendingView vm = 0 \<and>
     viewChangeMsgsOfPendingView vm = replicate (vm_N vm) None"

definition quorum_pending :: "ViewsManager \<Rightarrow> bool" where
  "quorum_pending vm \<longleftrightarrow> (\<exists>nv. newViewMsgOfOfPendingView vm = Some nv \<and> nvm_newView nv = myLatestPendingView vm) \<and>
     length (filter (\<lambda>m. m \<noteq> None) (viewChangeMsgsOfPendingView vm)) = 2 * vm_F vm + 2 * vm_C vm + 1"

definition reports :: "ViewsManager \<Rightarrow> VCReport option list" where
  "reports vm = map (map_option vcm_report) (viewChangeMsgsOfPendingView vm)"

definition restrictions_computed :: "ViewsManager \<Rightarrow> bool" where
  "restrictions_computed vm \<longleftrightarrow> (\<exists>arr. length arr = 300 \<and>
     computeRestrictions (viewChangeSafetyLogic vm) (reports vm) (lowerBoundStableForPendingView vm) arr =
       Some (minRestrictionOfPendingView vm, maxRestrictionOfPendingView vm, restrictionsOfPendingView vm))"

definition stat_ok :: "ViewsManager \<Rightarrow> bool" where
  "stat_ok vm \<longleftrightarrow>
     (case stat vm of
        IN_VIEW \<Rightarrow> myLatestActiveView vm = myLatestPendingView vm \<and> collectionOfPrePrepareMsgs vm = [] \<and> no_slots vm
      | NO_VIEW \<Rightarrow> nothing_pending vm
      | PENDING \<Rightarrow> myLatestActiveView vm < myLatestPendingView vm \<and> quorum_pending vm \<and> minRestrictionOfPendingView vm = 0
      | PENDING_WITH_RESTRICTIONS \<Rightarrow> myLatestActiveView vm < myLatestPendingView vm \<and> quorum_pending vm \<and> restrictions_computed vm)"

definition batches_ok :: "ViewsManager \<Rightarrow> bool" where
  "batches_ok vm \<longleftrightarrow> slots_ok vm \<and> attached_ok vm \<and> coll_ok vm \<and> window_ok vm"

text \<open>What holds even in the middle of a move to another pending view.\<close>

definition vm_base :: "ViewsManager \<Rightarrow> bool" where
  "vm_base vm \<longleftrightarrow> config_ok vm \<and> batches_ok vm \<and> from_owner (viewChangeMessages vm) \<and> from_owner (viewChangeMsgsOfPendingView vm) \<and>
     0 \<le> myLatestActiveView vm \<and> myLatestActiveView vm \<le> myLatestPendingView vm \<and> 0 \<le> lowerBoundStableForPendingView vm \<and>
     (newViewMsgOfOfPendingView vm = None \<longrightarrow> nothing_pending vm)"

definition vm_inv :: "ViewsManager \<Rightarrow> bool" where
  "vm_inv vm \<longleftrightarrow> vm_base vm \<and> stat_ok vm"

lemma config_facts:
  assumes "config_ok vm"
  shows "vm_N vm = 3 * vm_F vm + 2 * vm_C vm + 1" "1 \<le> vm_F vm" "vm_N vm < 32768" "vm_myId vm < vm_N vm"
    "SMAJOR vm = 2 * vm_F vm + 2 * vm_C vm + 1"
proof -
  show "vm_N vm = 3 * vm_F vm + 2 * vm_C vm + 1" "1 \<le> vm_F vm" "vm_N vm < 32768" "vm_myId vm < vm_N vm"
    using assms unfolding config_ok_def wf_replicas_info_def by auto
  then show "SMAJOR vm = 2 * vm_F vm + 2 * vm_C vm + 1" by (simp add: SMAJOR_def u16_def)
qed

lemma no_slots_attached: "no_slots vm \<Longrightarrow> attached_ok vm"
  by (simp add: no_slots_def attached_ok_def)

lemma attached_no_window: "attached_ok vm \<Longrightarrow> minRestrictionOfPendingView vm = 0 \<Longrightarrow> no_slots vm"
  unfolding no_slots_def attached_ok_def by (metis option.exhaust)

section \<open>The constructor\<close>

lemma newViewsManager_inv:
  assumes "newViewsManager info verify = Some vm" "wf_replicas_info info"
  shows "vm_inv vm \<and> accounted vm = {#}"
proof -
  have r: "u16 (numberOfReplicas info) = nat (numberOfReplicas info)" "u16 (fVal info) = nat (fVal info)" "u16 (cVal info) = nat (cVal info)"
    using assms(2) by (auto simp: wf_replicas_info_def intro!: u16_id)
  obtain logic where l: "logic = \<lparr>sl_N = nat (numberOfReplicas info), sl_F = nat (fVal info), sl_C = nat (cVal info),
      preparedCertVerifier = verify, sl_nullDigest = digestOfNullPrePrepareMsg\<rparr>" by blast
  have vm: "replicasInfo vm = info" "viewChangeSafetyLogic vm = logic" "stat vm = IN_VIEW" "myLatestActiveView vm = 0"
    "myLatestPendingView vm = 0" "viewChangeMessages vm = replicate (sl_N logic) None" "newViewMessages vm = replicate (sl_N logic) None"
    "collectionOfPrePrepareMsgs vm = []" "viewChangeMsgsOfPendingView vm = replicate (sl_N logic) None"
    "newViewMsgOfOfPendingView vm = None" "minRestrictionOfPendingView vm = 0"
    "restrictionsOfPendingView vm = replicate 300 \<lparr>r_isNull = True, r_digest = zeroDigest\<rparr>"
    "prePrepareMsgsOfRestrictions vm = replicate 300 None" "lowerBoundStableForPendingView vm = 0" "freed vm = []"
    using assms(1) r l by (auto simp: newViewsManager_def newViewChangeSafetyLogic_def Let_def Option.bind_eq_Some_conv)
  have none: "no_slots vm" by (simp add: no_slots_def vm)
  then have "batches_ok vm" using no_slots_attached by (simp add: batches_ok_def slots_ok_def coll_ok_def window_ok_def vm)
  moreover have "config_ok vm" using assms(2) l by (simp add: config_ok_def vm)
  moreover have "from_owner (replicate n None)" for n by (simp add: from_owner_def)
  ultimately show ?thesis using none
    by (simp add: vm_inv_def vm_base_def vm stat_ok_def nothing_pending_def accounted_def no_slots_owned)
qed

section \<open>Messages\<close>

lemma from_owner_update:
  "from_owner msgs \<Longrightarrow> (\<And>m. x = Some m \<Longrightarrow> idOfGeneratedReplica m = i) \<Longrightarrow> from_owner (msgs[i := x])"
  unfolding from_owner_def by (metis length_list_update nth_list_update_eq nth_list_update_neq)

text \<open>The invariant does not read the reports that are not used yet, nor the messages of other primaries.\<close>

lemma inv_messages:
  assumes "from_owner vcs" "length vcs = vm_N vm" "length nvs = vm_N vm"
  defines "vm' \<equiv> vm\<lparr>viewChangeMessages := vcs, newViewMessages := nvs\<rparr>"
  shows "vm_base vm \<Longrightarrow> vm_base vm'" "vm_inv vm \<Longrightarrow> vm_inv vm'" "accounted vm' = accounted vm"
proof -
  have np: "nothing_pending vm' = nothing_pending vm" by (simp add: nothing_pending_def vm'_def)
  have "config_ok vm'" if "vm_base vm" using that assms by (simp add: vm_base_def config_ok_def)
  moreover have "batches_ok vm'" if "vm_base vm"
    using that unfolding vm_base_def batches_ok_def slots_ok_def attached_ok_def coll_ok_def window_ok_def vm'_def by simp
  ultimately show base: "vm_base vm'" if "vm_base vm" using assms(1) that np unfolding vm_base_def by (simp add: vm'_def)
  show "vm_inv vm'" if "vm_inv vm"
  proof -
    have "stat_ok vm'" using that unfolding vm_inv_def stat_ok_def np
      unfolding vm'_def quorum_pending_def restrictions_computed_def reports_def no_slots_def by (simp split: Stat.splits)
    then show ?thesis using base that by (simp add: vm_inv_def)
  qed
  show "accounted vm' = accounted vm" unfolding vm'_def by (rule accounted_cong) simp_all
qed

lemma addNewView_inv:
  assumes "vm_inv vm" "addNewView m vm = Some (b, vm')"
  shows "vm_inv vm' \<and> accounted vm' = accounted vm"
proof (cases "vm' = vm")
  case False
  have len: "length (newViewMessages vm) = vm_N vm" "length (viewChangeMessages vm) = vm_N vm" "from_owner (viewChangeMessages vm)"
    using assms(1) by (simp_all add: vm_inv_def vm_base_def config_ok_def)
  have "vm' = vm\<lparr>viewChangeMessages := viewChangeMessages vm, newViewMessages := (newViewMessages vm)[nvm_senderId m := Some m]\<rparr>"
    using assms(2) False by (auto simp: addNewView_def Let_def Option.bind_eq_Some_conv split: if_splits)
  then show ?thesis using inv_messages(2,3) [OF len(3,2)] len(1) assms(1) by simp
qed (use assms in simp)

lemma addViewChange_inv:
  assumes "vm_inv vm" "addViewChange hashVC m vm = Some (b, vm')"
  shows "vm_inv vm' \<and> accounted vm' = accounted vm"
proof (cases "vm' = vm")
  case False
  have len: "length (newViewMessages vm) = vm_N vm" "length (viewChangeMessages vm) = vm_N vm" "from_owner (viewChangeMessages vm)"
    using assms(1) by (simp_all add: vm_inv_def vm_base_def config_ok_def)
  have eq: "vm' = vm\<lparr>viewChangeMessages := (viewChangeMessages vm)[idOfGeneratedReplica m := Some m], newViewMessages := newViewMessages vm\<rparr>"
    using assms(2) False by (auto simp: addViewChange_def Let_def Option.bind_eq_Some_conv split: if_splits)
  have fo: "from_owner ((viewChangeMessages vm)[idOfGeneratedReplica m := Some m])" by (rule from_owner_update [OF len(3)]) simp
  show ?thesis using inv_messages(2,3) [OF fo _ len(1)] len(2) assms(1) eq by simp
qed (use assms in simp)

section \<open>Dropping the pending view\<close>

text \<open>The state after \<open>resetDataOfLatestPendingAndKeepMyViewChange\<close>: only the reports and the batches that
  were collected are left.\<close>

definition resetTo :: "VCMsg option list \<Rightarrow> SeqNum \<Rightarrow> PPMsg option list \<Rightarrow> nat list \<Rightarrow> ViewsManager \<Rightarrow> ViewsManager" where
  "resetTo vcs mx ps fr vm = vm\<lparr>viewChangeMessages := vcs, minRestrictionOfPendingView := 0, maxRestrictionOfPendingView := mx,
      prePrepareMsgsOfRestrictions := ps, freed := fr, viewChangeMsgsOfPendingView := replicate (vm_N vm) None,
      newViewMsgOfOfPendingView := None\<rparr>"

definition was_reset :: "ViewsManager \<Rightarrow> ViewsManager \<Rightarrow> bool" where
  "was_reset vm vm' \<longleftrightarrow> (\<exists>vcs mx ps fr. vm' = resetTo vcs mx ps fr vm \<and> from_owner vcs \<and> length vcs = vm_N vm) \<and>
     slots_ok vm' \<and> no_slots vm' \<and> accounted vm' = accounted vm"

lemma slots_reset:
  assumes "slots_ok vm" "attached_ok vm" "minRestrictionOfPendingView vm \<noteq> 0" "maxRestrictionOfPendingView vm < minRestrictionOfPendingView vm + 300"
  defines "vm' \<equiv> dropSlots [minRestrictionOfPendingView vm..maxRestrictionOfPendingView vm] vm"
  shows "dropRestrictions [minRestrictionOfPendingView vm..maxRestrictionOfPendingView vm] vm = Some vm'" "slots_ok vm'" "no_slots vm'"
    "accounted vm' = accounted vm"
proof -
  let ?mn = "minRestrictionOfPendingView vm" and ?mx = "maxRestrictionOfPendingView vm"
  have rng: "\<forall>i \<in> set [?mn..?mx]. ?mn \<le> i \<and> i < ?mn + 300" using assms(4) by auto
  show "dropRestrictions [?mn..?mx] vm = Some vm'" unfolding vm'_def by (rule dropRestrictions_eq [OF assms(1) rng])
  note d = dropSlots_ok [OF assms(1,2) rng, folded vm'_def]
  show "slots_ok vm'" "accounted vm' = accounted vm" using d by simp_all
  have "?mn + int idx \<in> set [?mn..?mx]" if "idx < 300" "prePrepareMsgsOfRestrictions vm ! idx = Some pp" for idx pp
    using attached_okD [OF assms(2) that] by simp
  then show "no_slots vm'" using d unfolding no_slots_def by (metis not_None_eq)
qed

lemma accounted_no_slots:
  assumes "no_slots vm" "no_slots vm'" "collectionOfPrePrepareMsgs vm' = collectionOfPrePrepareMsgs vm" "freed vm' = freed vm"
  shows "accounted vm' = accounted vm"
  using assms by (simp add: accounted_def no_slots_owned)

lemma drop_pending:
  assumes "slots_ok vm" "attached_ok vm" "window_ok vm"
  shows "\<exists>vm2. (\<exists>mx ps fr. vm2 = vm\<lparr>minRestrictionOfPendingView := 0, maxRestrictionOfPendingView := mx, prePrepareMsgsOfRestrictions := ps, freed := fr\<rparr>) \<and>
    slots_ok vm2 \<and> no_slots vm2 \<and> accounted vm2 = accounted vm \<and>
    clearRestrictions vm = Some vm2"
proof (cases "minRestrictionOfPendingView vm = 0")
  case True
  have "vm = vm\<lparr>minRestrictionOfPendingView := 0, maxRestrictionOfPendingView := maxRestrictionOfPendingView vm,
      prePrepareMsgsOfRestrictions := prePrepareMsgsOfRestrictions vm, freed := freed vm\<rparr>"
    using True by (intro ViewsManager.equality) simp_all
  then have "\<exists>mx ps fr. vm = vm\<lparr>minRestrictionOfPendingView := 0, maxRestrictionOfPendingView := mx, prePrepareMsgsOfRestrictions := ps, freed := fr\<rparr>"
    by blast
  then show ?thesis using True assms(1) attached_no_window [OF assms(2) True] by (intro exI [of _ vm] conjI) (simp_all add: clearRestrictions_def)
next
  case False
  let ?d = "dropSlots [minRestrictionOfPendingView vm..maxRestrictionOfPendingView vm] vm"
  have "maxRestrictionOfPendingView vm < minRestrictionOfPendingView vm + 300" using assms(3) False by (simp add: window_ok_def)
  note s = slots_reset [OF assms(1,2) False this]
  let ?vm2 = "?d\<lparr>minRestrictionOfPendingView := 0, maxRestrictionOfPendingView := 0\<rparr>"
  obtain ps fr where "?d = vm\<lparr>prePrepareMsgsOfRestrictions := ps, freed := fr\<rparr>" using dropSlots_frame by blast
  then have "?vm2 = vm\<lparr>minRestrictionOfPendingView := 0, maxRestrictionOfPendingView := 0, prePrepareMsgsOfRestrictions := ps, freed := fr\<rparr>" by simp
  moreover have "slots_ok ?vm2" "no_slots ?vm2" using s(2,3) by (simp_all add: slots_ok_def no_slots_def)
  moreover have "accounted ?vm2 = accounted vm" using accounted_no_slots [of ?d ?vm2] s(3,4) by (simp add: no_slots_def)
  ultimately show ?thesis using False s(1) by (intro exI [of _ ?vm2] conjI exI) (simp_all add: clearRestrictions_def)
qed

lemma reset_ok:
  assumes inv: "vm_base vm"
  shows "\<exists>vm'. resetDataOfLatestPendingAndKeepMyViewChange vm = Some vm' \<and> was_reset vm vm'"
proof (cases "newViewMsgOfOfPendingView vm = None")
  case True
  then have np: "nothing_pending vm" using inv by (simp add: vm_base_def)
  then have "no_slots vm" using inv attached_no_window by (auto simp: nothing_pending_def vm_base_def batches_ok_def)
  moreover have "vm = resetTo (viewChangeMessages vm) (maxRestrictionOfPendingView vm) (prePrepareMsgsOfRestrictions vm) (freed vm) vm"
    using np unfolding resetTo_def nothing_pending_def by (intro ViewsManager.equality) simp_all
  moreover have "from_owner (viewChangeMessages vm)" "length (viewChangeMessages vm) = vm_N vm" "slots_ok vm"
    using inv by (simp_all add: vm_base_def config_ok_def batches_ok_def)
  ultimately have "was_reset vm vm" unfolding was_reset_def by blast
  then show ?thesis using True by (simp add: resetDataOfLatestPendingAndKeepMyViewChange_def)
next
  case False
  let ?mn = "minRestrictionOfPendingView vm" and ?mx = "maxRestrictionOfPendingView vm"
  define mine where "mine = viewChangeMsgsOfPendingView vm ! vm_myId vm"
  define vcs where "vcs = (if mine = None then viewChangeMessages vm else (viewChangeMessages vm)[vm_myId vm := mine])"
  define vm1 where "vm1 = vm\<lparr>viewChangeMessages := vcs\<rparr>"
  have c: "config_ok vm" "slots_ok vm" "attached_ok vm" "window_ok vm" "from_owner (viewChangeMessages vm)" "from_owner (viewChangeMsgsOfPendingView vm)"
    using inv by (simp_all add: vm_base_def batches_ok_def)
  have me: "vm_myId vm < length (viewChangeMsgsOfPendingView vm)" using config_facts(4) [OF c(1)] c(1) by (simp add: config_ok_def)
  have "idOfGeneratedReplica m = vm_myId vm" if "mine = Some m" for m using that c(6) me by (simp add: mine_def from_owner_def)
  then have vcs: "from_owner vcs" "length vcs = vm_N vm"
    using c(1,5) from_owner_update [OF c(5), of mine "vm_myId vm"] by (auto simp: vcs_def config_ok_def)
  have at: "at (viewChangeMsgsOfPendingView vm) (vm_myId vm) = Some mine" using me by (simp add: mine_def)
  have vm1: "(if mine = None then vm else vm\<lparr>viewChangeMessages := (viewChangeMessages vm)[vm_myId vm := mine]\<rparr>) = vm1"
    by (simp add: vm1_def vcs_def)
  have ok1: "slots_ok vm1" "attached_ok vm1" "accounted vm1 = accounted vm" "window_ok vm1"
    using c(2-4) accounted_cong [of vm1 vm] by (simp_all add: vm1_def slots_ok_def attached_ok_def window_ok_def)
  obtain mx ps fr vm2 where vm2: "vm2 = vm1\<lparr>minRestrictionOfPendingView := 0, maxRestrictionOfPendingView := mx, prePrepareMsgsOfRestrictions := ps, freed := fr\<rparr>"
    "slots_ok vm2" "no_slots vm2" "accounted vm2 = accounted vm"
    "clearRestrictions vm1 = Some vm2"
    using drop_pending [OF ok1(1,2,4)] ok1(3) by metis
  let ?vm' = "vm2\<lparr>viewChangeMsgsOfPendingView := replicate (vm_N vm2) None, newViewMsgOfOfPendingView := None\<rparr>"
  have run: "resetDataOfLatestPendingAndKeepMyViewChange vm = Some ?vm'"
    unfolding resetDataOfLatestPendingAndKeepMyViewChange_def using False at
    by (simp only: vm1 Let_def vm2(5) Option.bind.bind_lunit if_False)
  have "?vm' = resetTo vcs mx ps fr vm" unfolding resetTo_def vm2(1) vm1_def by simp
  moreover have "slots_ok ?vm'" "no_slots ?vm'" using vm2(2,3) by (simp_all add: slots_ok_def no_slots_def)
  moreover have "accounted ?vm' = accounted vm" using vm2(4) accounted_cong [of ?vm' vm2] by simp
  ultimately have "was_reset vm ?vm'" unfolding was_reset_def using vcs by blast
  then show ?thesis using run by blast
qed

text \<open>The parts of the state that a move between pending views leaves alone.\<close>

definition same_core :: "ViewsManager \<Rightarrow> ViewsManager \<Rightarrow> bool" where
  "same_core vm vm' \<longleftrightarrow> replicasInfo vm' = replicasInfo vm \<and> viewChangeSafetyLogic vm' = viewChangeSafetyLogic vm \<and> stat vm' = stat vm \<and>
     myLatestActiveView vm' = myLatestActiveView vm \<and> lowerBoundStableForPendingView vm' = lowerBoundStableForPendingView vm \<and>
     collectionOfPrePrepareMsgs vm' = collectionOfPrePrepareMsgs vm \<and> debugHighestKnownStable vm' = debugHighestKnownStable vm \<and>
     debugHighestViewNumberPassedByClient vm' = debugHighestViewNumberPassedByClient vm"

lemma was_reset_base:
  assumes "vm_base vm" "was_reset vm vm'"
  shows "vm_base vm'" "nothing_pending vm'" "same_core vm vm'" "accounted vm' = accounted vm" "no_slots vm'"
    "myLatestPendingView vm' = myLatestPendingView vm"
proof -
  obtain vcs mx ps fr where r: "vm' = resetTo vcs mx ps fr vm" "from_owner vcs" "length vcs = vm_N vm"
    using assms(2) by (auto simp: was_reset_def)
  show np: "nothing_pending vm'" and "same_core vm vm'" and pv: "myLatestPendingView vm' = myLatestPendingView vm"
    unfolding r(1) resetTo_def nothing_pending_def same_core_def by simp_all
  show "accounted vm' = accounted vm" and none: "no_slots vm'" using assms(2) by (simp_all add: was_reset_def)
  have "batches_ok vm'"
    using assms no_slots_attached [OF none] unfolding batches_ok_def vm_base_def was_reset_def
    by (simp add: r(1) resetTo_def coll_ok_def window_ok_def)
  moreover have "config_ok vm'" using assms(1) r(3) unfolding vm_base_def config_ok_def r(1) resetTo_def by simp
  ultimately show "vm_base vm'"
    using assms(1) np r(2) unfolding vm_base_def by (simp add: r(1) resetTo_def from_owner_def)
qed

section \<open>Moving to a pending view\<close>

definition movedReports :: "nat list \<Rightarrow> ViewsManager \<Rightarrow> ViewsManager" where
  "movedReports is vm = vm\<lparr>
     viewChangeMsgsOfPendingView := map (\<lambda>i. (if i \<in> set is then viewChangeMessages vm else viewChangeMsgsOfPendingView vm) ! i) [0..<vm_N vm],
     viewChangeMessages := map (\<lambda>i. if i \<in> set is then None else viewChangeMessages vm ! i) [0..<vm_N vm]\<rparr>"

lemma moveReports_eq:
  assumes "moveReports is vm = Some vm'" "distinct is" "length (viewChangeMessages vm) = vm_N vm" "length (viewChangeMsgsOfPendingView vm) = vm_N vm"
  shows "vm' = movedReports is vm"
  using assms
proof (induction "is" arbitrary: vm)
  case Nil
  then have "map ((!) (viewChangeMessages vm)) [0..<vm_N vm] = viewChangeMessages vm"
    "map ((!) (viewChangeMsgsOfPendingView vm)) [0..<vm_N vm] = viewChangeMsgsOfPendingView vm"
    using map_nth [of "viewChangeMessages vm"] map_nth [of "viewChangeMsgsOfPendingView vm"] by simp_all
  then show ?case using Nil by (simp add: movedReports_def)
next
  case (Cons i "is")
  then obtain vm1 where vm1: "moveReport i vm = Some vm1" "moveReports is vm1 = Some vm'" by (auto simp: Option.bind_eq_Some_conv)
  then have eq: "vm1 = vm\<lparr>viewChangeMsgsOfPendingView := (viewChangeMsgsOfPendingView vm)[i := viewChangeMessages vm ! i],
      viewChangeMessages := (viewChangeMessages vm)[i := None]\<rparr>" "i < vm_N vm"
    using Cons.prems(3) by (auto simp: moveReport_def Option.bind_eq_Some_conv)
  have "vm' = movedReports is vm1" using Cons.IH [OF vm1(2)] Cons.prems eq by simp
  moreover have "movedReports is vm1 = movedReports (i # is) vm"
    using Cons.prems(2-4) eq(2) unfolding eq(1) movedReports_def
    by (intro ViewsManager.equality) (auto simp: nth_list_update)
  ultimately show ?case by simp
qed

lemma moveAsPrimary_moves:
  "moveAsPrimary hashVC v is nv vm = Some (nv', vm') \<Longrightarrow>
     moveReports is vm = Some vm' \<and> nvm_newView nv' = nvm_newView nv \<and> nvm_senderId nv' = nvm_senderId nv"
proof (induction "is" arbitrary: nv vm)
  case (Cons i "is")
  then obtain nv1 vm1 where "nvm_addElement i (hashVC (the (viewChangeMessages vm ! i))) nv = Some nv1" "moveReport i vm = Some vm1"
    "moveAsPrimary hashVC v is nv1 vm1 = Some (nv', vm')"
    by (auto simp: Option.bind_eq_Some_conv Let_def)
  then show ?case using Cons.IH [of nv1 vm1] by (auto simp: nvm_addElement_def Let_def)
qed simp

lemma insort_insert_facts:
  "set (insort_insert i xs) = insert i (set xs)" "sorted xs \<Longrightarrow> sorted (insort_insert i xs)" "distinct xs \<Longrightarrow> distinct (insort_insert i xs)"
  for xs :: "nat list"
  by (auto simp: set_insort_insert sorted_insort_insert distinct_insort_insert)

definition hasReportFor :: "ViewsManager \<Rightarrow> ViewNum \<Rightarrow> nat \<Rightarrow> bool" where
  "hasReportFor vm v i \<longleftrightarrow> (\<exists>m. viewChangeMessages vm ! i = Some m \<and> vcm_newView m = v)"

lemma collectForPrimary_facts:
  assumes "collectForPrimary vm v is rel = Some rel'" "sorted rel" "distinct rel"
  shows "sorted rel' \<and> distinct rel' \<and> set rel \<subseteq> set rel' \<and> (\<forall>i \<in> set rel'. i \<in> set rel \<or> i \<in> set is \<and> hasReportFor vm v i)"
  using assms
proof (induction "is" arbitrary: rel)
  case (Cons i "is")
  show ?case
  proof (cases "i \<noteq> vm_myId vm \<and> hasReportFor vm v i")
    case True
    then have run: "(if length (insort_insert i rel) = SMAJOR vm then Some (insort_insert i rel) else collectForPrimary vm v is (insort_insert i rel)) = Some rel'"
      using Cons.prems(1) by (auto simp: hasReportFor_def Option.bind_eq_Some_conv Let_def)
    show ?thesis
    proof (cases "length (insort_insert i rel) = SMAJOR vm")
      case len: True
      then show ?thesis using run True insort_insert_facts [where i = i and xs = rel] Cons.prems(2,3) by auto
    next
      case False
      then show ?thesis using run True insort_insert_facts [where i = i and xs = rel] Cons.prems(2,3) Cons.IH [of "insort_insert i rel"] by auto
    qed
  next
    case False
    then have "collectForPrimary vm v is rel = Some rel'"
      using Cons.prems(1) by (auto simp: hasReportFor_def Option.bind_eq_Some_conv split: if_splits option.splits)
    then show ?thesis using Cons by auto
  qed
qed auto

lemma collectForNonPrimary_facts:
  "distinct (collectForNonPrimary hashVC nv v i msgs) \<and> (\<forall>j \<in> set (collectForNonPrimary hashVC nv v i msgs). i \<le> j \<and> j < i + length msgs \<and>
    (\<exists>m. msgs ! (j - i) = Some m \<and> vcm_newView m = v \<and> nvm_includes (nvm_elements nv) (idOfGeneratedReplica m) (hashVC m)))"
proof (induction msgs arbitrary: i)
  case (Cons x msgs)
  have sub: "set (collectForNonPrimary hashVC nv v i (x # msgs)) \<subseteq> insert i (set (collectForNonPrimary hashVC nv v (i + 1) msgs))"
    by (cases x) auto
  have d: "distinct (collectForNonPrimary hashVC nv v i (x # msgs))" using Cons.IH [of "i + 1"] by (cases x) auto
  have here: "x = Some m \<Longrightarrow> i \<in> set (collectForNonPrimary hashVC nv v i (x # msgs)) \<Longrightarrow>
      vcm_newView m = v \<and> nvm_includes (nvm_elements nv) (idOfGeneratedReplica m) (hashVC m)" for m
    using Cons.IH [of "i + 1"] by (auto split: if_splits)
  have none: "i \<notin> set (collectForNonPrimary hashVC nv v i (None # msgs))" using Cons.IH [of "i + 1"] by auto
  show ?case
  proof (intro conjI ballI d)
    fix j assume j: "j \<in> set (collectForNonPrimary hashVC nv v i (x # msgs))"
    consider "j = i" | "j \<in> set (collectForNonPrimary hashVC nv v (i + 1) msgs)" using j sub by blast
    then show "i \<le> j" "j < i + length (x # msgs)" using Cons.IH [of "i + 1"] by (cases; auto)+
    show "\<exists>m. (x # msgs) ! (j - i) = Some m \<and> vcm_newView m = v \<and> nvm_includes (nvm_elements nv) (idOfGeneratedReplica m) (hashVC m)"
    proof (cases "j = i")
      case True
      then obtain m where x: "x = Some m" using j none by (cases x) auto
      have "i \<in> set (collectForNonPrimary hashVC nv v i (x # msgs))" using j True by blast
      then show ?thesis using here [OF x] by (simp only: True x) simp
    next
      case False
      then have t: "j \<in> set (collectForNonPrimary hashVC nv v (i + 1) msgs)" using j sub by blast
      then have "i + 1 \<le> j" using Cons.IH [of "i + 1"] by blast
      then have "(x # msgs) ! (j - i) = msgs ! (j - (i + 1))" by (simp add: nth_Cons')
      then show ?thesis using t Cons.IH [of "i + 1"] by metis
    qed
  qed
qed simp

lemma count_moved:
  assumes "distinct is" "\<forall>i \<in> set is. i < n \<and> f i \<noteq> None"
  shows "length (filter (\<lambda>m. m \<noteq> None) (map (\<lambda>i. if i \<in> set is then f i else None) [0..<n])) = length is"
proof -
  have "filter (\<lambda>i. (if i \<in> set is then f i else None) \<noteq> None) [0..<n] = filter (\<lambda>i. i \<in> set is) [0..<n]"
    using assms(2) by (intro filter_cong) auto
  moreover have "{i \<in> set [0..<n]. i \<in> set is} = set is" using assms(2) by auto
  ultimately show ?thesis using assms(1) card_filter_distinct [of "[0..<n]" "\<lambda>i. i \<in> set is"]
    by (simp add: filter_map comp_def distinct_card)
qed

lemma moved_base:
  assumes base: "vm_base vm" and np: "nothing_pending vm" "no_slots vm" "myLatestPendingView vm < v"
    and sel: "distinct is" "\<forall>i \<in> set is. i < vm_N vm \<and> hasReportFor vm v i" "length is = SMAJOR vm" and nv: "nvm_newView nv = v"
  defines "vm' \<equiv> (movedReports is vm)\<lparr>newViewMsgOfOfPendingView := Some nv, myLatestPendingView := v\<rparr>"
  shows "vm_base vm'" "quorum_pending vm'" "same_core vm vm'" "accounted vm' = accounted vm" "no_slots vm'" "minRestrictionOfPendingView vm' = 0"
    "myLatestPendingView vm' = v" "\<forall>m. Some m \<in> set (viewChangeMsgsOfPendingView vm') \<longrightarrow> vcm_newView m = v"
proof -
  have c: "config_ok vm" "from_owner (viewChangeMessages vm)" using base by (simp_all add: vm_base_def)
  have len: "length (viewChangeMessages vm) = vm_N vm" using c(1) by (simp add: config_ok_def)
  have pend: "viewChangeMsgsOfPendingView vm' = map (\<lambda>i. if i \<in> set is then viewChangeMessages vm ! i else None) [0..<vm_N vm]"
    using np(1) by (auto simp: vm'_def movedReports_def nothing_pending_def)
  have vcs: "viewChangeMessages vm' = map (\<lambda>i. if i \<in> set is then None else viewChangeMessages vm ! i) [0..<vm_N vm]"
    by (simp add: vm'_def movedReports_def)
  show "same_core vm vm'" and none: "no_slots vm'" and mn: "minRestrictionOfPendingView vm' = 0" and pv: "myLatestPendingView vm' = v"
    using np by (simp_all add: same_core_def vm'_def movedReports_def no_slots_def nothing_pending_def)
  show "accounted vm' = accounted vm" by (rule accounted_cong) (simp_all add: vm'_def movedReports_def)
  show "\<forall>m. Some m \<in> set (viewChangeMsgsOfPendingView vm') \<longrightarrow> vcm_newView m = v"
    using sel(2) unfolding pend by (fastforce simp: hasReportFor_def split: if_splits)
  have "\<forall>i \<in> set is. i < vm_N vm \<and> viewChangeMessages vm ! i \<noteq> None" using sel(2) by (auto simp: hasReportFor_def)
  then have "length (filter (\<lambda>m. m \<noteq> None) (viewChangeMsgsOfPendingView vm')) = SMAJOR vm"
    using count_moved [OF sel(1)] sel(3) unfolding pend by simp
  then show "quorum_pending vm'" using nv config_facts(5) [OF c(1)] by (simp add: quorum_pending_def vm'_def movedReports_def)
  have "config_ok vm'" using c(1) by (simp add: config_ok_def vm'_def movedReports_def)
  moreover have "batches_ok vm'"
    using base no_slots_attached [OF none] unfolding batches_ok_def vm_base_def
    by (simp add: slots_ok_def coll_ok_def window_ok_def vm'_def movedReports_def)
  moreover have "from_owner (viewChangeMessages vm')" "from_owner (viewChangeMsgsOfPendingView vm')"
    using c(2) len unfolding pend vcs by (auto simp: from_owner_def split: if_splits)
  moreover have "newViewMsgOfOfPendingView vm' \<noteq> None" by (simp add: vm'_def)
  ultimately show "vm_base vm'" using base np(3) pv by (simp add: vm_base_def) (simp add: vm'_def movedReports_def)
qed

text \<open>What a successful or a failed move leaves.\<close>

definition move_result :: "ViewNum \<Rightarrow> ViewsManager \<Rightarrow> bool \<Rightarrow> ViewsManager \<Rightarrow> bool" where
  "move_result v vm b vm' \<longleftrightarrow> vm_base vm' \<and> same_core vm vm' \<and> accounted vm' = accounted vm \<and> no_slots vm' \<and>
     minRestrictionOfPendingView vm' = 0 \<and>
     (if b then quorum_pending vm' \<and> myLatestPendingView vm' = v \<and> (\<forall>m. Some m \<in> set (viewChangeMsgsOfPendingView vm') \<longrightarrow> vcm_newView m = v)
      else nothing_pending vm' \<and> myLatestPendingView vm' = myLatestPendingView vm)"

lemma same_core_trans: "same_core a b \<Longrightarrow> same_core b c \<Longrightarrow> same_core a c"
  by (simp add: same_core_def)

lemma move_result_failed:
  assumes "vm_base vm'" "nothing_pending vm'" "same_core vm vm'" "accounted vm' = accounted vm" "no_slots vm'"
    "myLatestPendingView vm' = myLatestPendingView vm"
  shows "move_result v vm False vm'"
  using assms by (simp add: move_result_def nothing_pending_def)

lemma move_result_moved:
  assumes reset: "vm_base vm1" "nothing_pending vm1" "same_core vm vm1" "accounted vm1 = accounted vm" "no_slots vm1"
      "myLatestPendingView vm1 = myLatestPendingView vm" "myLatestPendingView vm < v"
    and sel: "distinct is" "\<forall>i \<in> set is. i < vm_N vm1 \<and> hasReportFor vm1 v i" "length is = SMAJOR vm1" and nv: "nvm_newView nv = v"
  shows "move_result v vm True ((movedReports is vm1)\<lparr>newViewMsgOfOfPendingView := Some nv, myLatestPendingView := v\<rparr>)"
proof -
  have "myLatestPendingView vm1 < v" using reset(6,7) by simp
  note m = moved_base [OF reset(1,2,5) this sel nv]
  show ?thesis using m reset(4) same_core_trans [OF reset(3) m(3)] by (simp add: move_result_def)
qed

lemma own_report_dropped:
  assumes "vm_base vm" "nothing_pending vm" "no_slots vm"
  shows "vm_base (vm\<lparr>newViewMessages := nvs\<rparr>) \<longleftrightarrow> length nvs = vm_N vm" "nothing_pending (vm\<lparr>newViewMessages := nvs\<rparr>)"
    "same_core vm (vm\<lparr>newViewMessages := nvs\<rparr>)" "accounted (vm\<lparr>newViewMessages := nvs\<rparr>) = accounted vm" "no_slots (vm\<lparr>newViewMessages := nvs\<rparr>)"
proof -
  have "from_owner (viewChangeMessages vm)" "length (viewChangeMessages vm) = vm_N vm" using assms(1) by (simp_all add: vm_base_def config_ok_def)
  then show "vm_base (vm\<lparr>newViewMessages := nvs\<rparr>) \<longleftrightarrow> length nvs = vm_N vm" "accounted (vm\<lparr>newViewMessages := nvs\<rparr>) = accounted vm"
    using inv_messages(1,3) [of "viewChangeMessages vm" vm nvs] assms(1) by (auto simp: vm_base_def config_ok_def intro: accounted_cong)
  show "nothing_pending (vm\<lparr>newViewMessages := nvs\<rparr>)" "same_core vm (vm\<lparr>newViewMessages := nvs\<rparr>)" "no_slots (vm\<lparr>newViewMessages := nvs\<rparr>)"
    using assms(2,3) by (simp_all add: nothing_pending_def same_core_def no_slots_def)
qed

lemma asPrimary_ok:
  assumes base: "vm_base vm" and run: "tryMoveToPendingViewAsPrimary hashVC v vm = Some (b, vm')"
  shows "move_result v vm b vm'"
proof -
  obtain vm1 where vm1: "resetDataOfLatestPendingAndKeepMyViewChange vm = Some vm1" "was_reset vm vm1" using reset_ok [OF base] by blast
  note r = was_reset_base [OF base vm1(2)]
  have me: "vm_myId vm1 < vm_N vm1" "length (newViewMessages vm1) = vm_N vm1"
    using r(1) config_facts(4) [of vm1] by (simp_all add: vm_base_def config_ok_def)
  define vm2 where "vm2 = vm1\<lparr>newViewMessages := (newViewMessages vm1)[vm_myId vm1 := None]\<rparr>"
  note d = own_report_dropped [OF r(1,2,5), of "(newViewMessages vm1)[vm_myId vm1 := None]", folded vm2_def]
  have b2: "vm_base vm2" "myLatestPendingView vm2 = myLatestPendingView vm" using d(1) me(2) r(6) by (simp_all add: vm2_def)
  have same: "same_core vm vm2" "accounted vm2 = accounted vm" using same_core_trans [OF r(3) d(3)] d(4) r(4) by simp_all
  from run obtain rel where v: "myLatestPendingView vm < v" and mine: "hasReportFor vm2 v (vm_myId vm2)"
    and rel: "collectForPrimary vm2 v [0..<vm_N vm2] [vm_myId vm2] = Some rel"
    and rest: "length rel < SMAJOR vm2 \<and> \<not> b \<and> vm' = vm2 \<or>
      (\<exists>nv vm3. length rel = SMAJOR vm2 \<and> b \<and> vm' = vm3\<lparr>newViewMsgOfOfPendingView := Some nv, myLatestPendingView := v\<rparr> \<and>
         moveAsPrimary hashVC v rel \<lparr>nvm_senderId = vm_myId vm2, nvm_newView = v, nvm_elements = []\<rparr> vm2 = Some (nv, vm3))"
    unfolding tryMoveToPendingViewAsPrimary_def vm1(1)
    by (auto simp: Let_def Option.bind_eq_Some_conv hasReportFor_def vm2_def split: if_splits)
  have f: "distinct rel" "\<forall>i \<in> set rel. i < vm_N vm2 \<and> hasReportFor vm2 v i"
    using collectForPrimary_facts [OF rel] mine me(1) by (auto simp: vm2_def)
  show ?thesis
  proof (cases "length rel < SMAJOR vm2")
    case True
    then show ?thesis using rest move_result_failed [OF b2(1) d(2) same(1,2) d(5) b2(2)] by auto
  next
    case False
    then obtain nv vm3 where m: "length rel = SMAJOR vm2" "moveAsPrimary hashVC v rel \<lparr>nvm_senderId = vm_myId vm2, nvm_newView = v, nvm_elements = []\<rparr> vm2 = Some (nv, vm3)"
      "b" "vm' = vm3\<lparr>newViewMsgOfOfPendingView := Some nv, myLatestPendingView := v\<rparr>"
      using rest by auto
    have mv: "moveReports rel vm2 = Some vm3" "nvm_newView nv = v" using moveAsPrimary_moves [OF m(2)] by simp_all
    have "vm3 = movedReports rel vm2"
      using moveReports_eq [OF mv(1) f(1)] b2(1) by (simp add: vm_base_def config_ok_def)
    then show ?thesis using move_result_moved [OF b2(1) d(2) same(1,2) d(5) b2(2) v f m(1) mv(2)] m(3,4) by simp
  qed
qed

lemma asNonPrimary_ok:
  assumes base: "vm_base vm" and run: "tryMoveToPendingViewAsNonPrimary hashVC v vm = Some (b, vm')"
  shows "move_result v vm b vm'"
proof -
  let ?p = "primaryOfView (replicasInfo vm) v"
  obtain vm1 where vm1: "resetDataOfLatestPendingAndKeepMyViewChange vm = Some vm1" "was_reset vm vm1" using reset_ok [OF base] by blast
  note r = was_reset_base [OF base vm1(2)]
  have len: "length (viewChangeMessages vm1) = vm_N vm1" "length (viewChangeMsgsOfPendingView vm1) = vm_N vm1" "length (newViewMessages vm1) = vm_N vm1"
    using r(1) by (simp_all add: vm_base_def config_ok_def)
  show ?thesis
  proof (cases b)
    case False
    then have "vm' = vm1" using run vm1(1)
      by (auto simp: tryMoveToPendingViewAsNonPrimary_def Let_def Option.bind_eq_Some_conv split: option.splits if_splits)
    then show ?thesis using move_result_failed [OF r(1,2,3,4,5,6)] False by simp
  next
    case True
    let ?vm2 = "\<lambda>nv. vm1\<lparr>newViewMsgOfOfPendingView := Some nv, newViewMessages := (newViewMessages vm1)[?p := None]\<rparr>"
    obtain nv vm3 where v: "myLatestPendingView vm < v" and nv: "nvm_newView nv = v"
      and sel: "length (collectForNonPrimary hashVC nv v 0 (take (vm_N vm1) (viewChangeMessages vm1))) = SMAJOR vm1"
      and mv: "moveReports (collectForNonPrimary hashVC nv v 0 (take (vm_N vm1) (viewChangeMessages vm1))) (?vm2 nv) = Some vm3"
      and vm': "vm' = vm3\<lparr>myLatestPendingView := v\<rparr>"
      using run vm1(1) True
      by (auto simp: tryMoveToPendingViewAsNonPrimary_def Let_def Option.bind_eq_Some_conv split: option.splits if_splits)
    define rel where "rel = collectForNonPrimary hashVC nv v 0 (take (vm_N vm1) (viewChangeMessages vm1))"
    define vm2 where "vm2 = vm1\<lparr>newViewMessages := (newViewMessages vm1)[?p := None]\<rparr>"
    note d = own_report_dropped [OF r(1,2,5), of "(newViewMessages vm1)[?p := None]", folded vm2_def]
    have b2: "vm_base vm2" "myLatestPendingView vm2 = myLatestPendingView vm" using d(1) len(3) r(6) by (simp_all add: vm2_def)
    have same: "same_core vm vm2" "accounted vm2 = accounted vm" using same_core_trans [OF r(3) d(3)] d(4) r(4) by simp_all
    have f: "distinct rel" "\<forall>i \<in> set rel. i < vm_N vm2 \<and> hasReportFor vm2 v i" "length rel = SMAJOR vm2"
      using collectForNonPrimary_facts [of hashVC nv v 0 "take (vm_N vm1) (viewChangeMessages vm1)"] len(1) sel
      by (auto simp: rel_def hasReportFor_def vm2_def SMAJOR_def)
    have "vm3 = movedReports rel (?vm2 nv)" using moveReports_eq [OF mv [folded rel_def] f(1)] len by simp
    then have "vm' = (movedReports rel vm2)\<lparr>newViewMsgOfOfPendingView := Some nv, myLatestPendingView := v\<rparr>"
      unfolding vm' by (simp add: movedReports_def vm2_def)
    then show ?thesis using move_result_moved [OF b2(1) d(2) same(1,2) d(5) b2(2) v f nv] True by simp
  qed
qed

lemma moveToPendingView_ok:
  assumes base: "vm_base vm" and s: "myLatestActiveView vm < v" and run: "moveToPendingView hashVC v s vm = Some (b, vm')"
  shows "vm_inv vm' \<and> accounted vm' = accounted vm \<and> stat vm' \<in> {NO_VIEW, PENDING} \<and> (b \<longrightarrow> stat vm' = PENDING \<and> myLatestPendingView vm' = v \<and> lowerBoundStableForPendingView vm' \<le> s) \<and>
    myLatestActiveView vm' = myLatestActiveView vm"
proof -
  define vm0 where "vm0 = vm\<lparr>stat := NO_VIEW\<rparr>"
  have "vm_base vm0" using base
    unfolding vm_base_def config_ok_def batches_ok_def slots_ok_def attached_ok_def coll_ok_def window_ok_def nothing_pending_def SMAJOR_def
    by (simp add: vm0_def)
  moreover have acc0: "accounted vm0 = accounted vm" unfolding vm0_def by (rule accounted_cong) simp_all
  obtain moved vm1 where mv: "(if primaryOfView (replicasInfo vm0) v = vm_myId vm0 then tryMoveToPendingViewAsPrimary hashVC v vm0
      else tryMoveToPendingViewAsNonPrimary hashVC v vm0) = Some (moved, vm1)"
    and rest: "(if \<not> moved then Some (False, vm1)
     else do {
       t1 \<leftarrow> calcLBStableForView (viewChangeSafetyLogic vm1) (map (map_option vcm_report) (viewChangeMsgsOfPendingView vm1));
       let t2 = max s (lowerBoundStableForPendingView vm1);
       let vm = vm1\<lparr>lowerBoundStableForPendingView := max t1 t2, stat := PENDING\<rparr>;
       Some (s \<ge> lowerBoundStableForPendingView vm, vm)
     }) = Some (b, vm')"
    using run unfolding moveToPendingView_def vm0_def by (auto simp: Option.bind_eq_Some_conv Let_def)
  ultimately have m: "move_result v vm0 moved vm1" using asPrimary_ok asNonPrimary_ok by (auto split: if_splits)
  show ?thesis
  proof (cases moved)
    case False
    then have "vm' = vm1" "\<not> b" using rest by auto
    moreover have "stat vm1 = NO_VIEW" "myLatestActiveView vm1 = myLatestActiveView vm" using m by (simp_all add: move_result_def same_core_def vm0_def)
    ultimately show ?thesis using m False acc0 by (simp add: move_result_def vm_inv_def stat_ok_def)
  next
    case True
    then obtain t1 where vm': "vm' = vm1\<lparr>lowerBoundStableForPendingView := max t1 (max s (lowerBoundStableForPendingView vm1)), stat := PENDING\<rparr>"
      "b \<longleftrightarrow> lowerBoundStableForPendingView vm' \<le> s"
      using rest by (auto simp: Let_def Option.bind_eq_Some_conv)
    have m1: "vm_base vm1" "quorum_pending vm1" "myLatestPendingView vm1 = v" "minRestrictionOfPendingView vm1 = 0" "accounted vm1 = accounted vm"
      "myLatestActiveView vm1 = myLatestActiveView vm" "no_slots vm1"
      using m True acc0 by (simp_all add: move_result_def same_core_def vm0_def)
    have "vm_base vm'" using m1(1) s unfolding vm'(1)
      unfolding vm_base_def config_ok_def batches_ok_def slots_ok_def attached_ok_def coll_ok_def window_ok_def nothing_pending_def SMAJOR_def
      by (simp add: le_max_iff_disj)
    moreover have "stat_ok vm'" using m1 s by (simp add: vm'(1) stat_ok_def quorum_pending_def)
    moreover have "accounted vm' = accounted vm" using m1(5) accounted_cong [of vm' vm1] by (simp add: vm'(1))
    ultimately show ?thesis using m1(3,6) vm'(2) by (simp add: vm_inv_def) (simp add: vm'(1))
  qed
qed

section \<open>Entering\<close>

lemma computeRestrictionsOfNewView_inv:
  assumes inv: "vm_inv vm" and run: "computeRestrictionsOfNewView v vm = Some vm'"
  shows "vm_inv (vm'\<lparr>stat := PENDING_WITH_RESTRICTIONS\<rparr>) \<and> accounted (vm'\<lparr>stat := PENDING_WITH_RESTRICTIONS\<rparr>) = accounted vm \<and>
    myLatestPendingView vm' = v \<and> lowerBoundStableForPendingView vm' = lowerBoundStableForPendingView vm \<and>
    myLatestActiveView vm' = myLatestActiveView vm"
proof -
  obtain mn mx rs where st: "stat vm = PENDING" "myLatestPendingView vm = v"
    and c: "computeRestrictions (viewChangeSafetyLogic vm) (reports vm) (lowerBoundStableForPendingView vm) (restrictionsOfPendingView vm) = Some (mn, mx, rs)"
    and rest: "(if mn \<noteq> 0 then attachLoop [mn..mx] (vm\<lparr>minRestrictionOfPendingView := mn, maxRestrictionOfPendingView := mx, restrictionsOfPendingView := rs\<rparr>)
      else Some (vm\<lparr>minRestrictionOfPendingView := mn, maxRestrictionOfPendingView := mx, restrictionsOfPendingView := rs\<rparr>)) = Some vm'"
    using run unfolding computeRestrictionsOfNewView_def reports_def by (auto simp: Let_def Option.bind_eq_Some_conv split: if_splits)
  have base: "vm_base vm" "quorum_pending vm" "minRestrictionOfPendingView vm = 0" "myLatestActiveView vm < myLatestPendingView vm"
    using inv st(1) by (simp_all add: vm_inv_def stat_ok_def)
  have ok: "slots_ok vm" "attached_ok vm" "coll_ok vm" "0 \<le> lowerBoundStableForPendingView vm" using base(1) by (simp_all add: vm_base_def batches_ok_def)
  have none: "no_slots vm" using attached_no_window [OF ok(2) base(3)] .
  have rng: "length rs = 300" "mn = 0 \<and> mx = 0 \<or> mn = lowerBoundStableForPendingView vm + 1 \<and> mn \<le> mx \<and> mx < mn + 300"
    using computeRestrictions_range [OF c ok(4)] ok(1) by (simp_all add: slots_ok_def)
  define vm1 where "vm1 = vm\<lparr>minRestrictionOfPendingView := mn, maxRestrictionOfPendingView := mx, restrictionsOfPendingView := rs\<rparr>"
  have none1: "no_slots vm1" using none by (simp add: no_slots_def vm1_def)
  have ok1: "slots_ok vm1" "coll_ok vm1" "attached_ok vm1" using ok(1,3) rng(1) no_slots_attached [OF none1] by (simp_all add: slots_ok_def coll_ok_def vm1_def)
  have acc1: "accounted vm1 = accounted vm" using accounted_no_slots [OF none none1] by (simp add: vm1_def)
  have "\<exists>ps. vm' = vm1\<lparr>prePrepareMsgsOfRestrictions := ps\<rparr> \<and> slots_ok vm' \<and> attached_ok vm' \<and> accounted vm' = accounted vm"
  proof (cases "mn = 0")
    case True
    then have eq: "vm' = vm1" using rest by (simp add: vm1_def)
    have "vm1 = vm1\<lparr>prePrepareMsgsOfRestrictions := prePrepareMsgsOfRestrictions vm1\<rparr>" by simp
    then show ?thesis using eq ok1 acc1 by blast
  next
    case False
    have in1: "inRange vm1 [mn..mx]" using rng(2) False by (auto simp: inRange_def vm1_def)
    have "\<forall>i \<in> set [mn..mx]. i \<le> maxRestrictionOfPendingView vm1 \<and> prePrepareMsgsOfRestrictions vm1 ! nat (i - minRestrictionOfPendingView vm1) = None"
      using none1 rng(2) False by (auto simp: no_slots_def vm1_def)
    then obtain ps where "attachLoop [mn..mx] vm1 = Some (vm1\<lparr>prePrepareMsgsOfRestrictions := ps\<rparr>)" "slots_ok (vm1\<lparr>prePrepareMsgsOfRestrictions := ps\<rparr>)"
      "attached_ok (vm1\<lparr>prePrepareMsgsOfRestrictions := ps\<rparr>)" "accounted (vm1\<lparr>prePrepareMsgsOfRestrictions := ps\<rparr>) = accounted vm1"
      using attachLoop_ok [OF ok1(1,3,2) in1 distinct_upto] False by (auto simp: vm1_def)
    moreover have "attachLoop [mn..mx] vm1 = Some vm'" using rest False by (simp add: vm1_def)
    ultimately show ?thesis using acc1 by auto
  qed
  then obtain ps where vm': "vm' = vm1\<lparr>prePrepareMsgsOfRestrictions := ps\<rparr>" "slots_ok vm'" "attached_ok vm'" "accounted vm' = accounted vm" by blast
  let ?fin = "vm'\<lparr>stat := PENDING_WITH_RESTRICTIONS\<rparr>"
  have "slots_ok ?fin" "attached_ok ?fin" using vm'(2,3) by (simp_all add: slots_ok_def attached_ok_def)
  moreover have "coll_ok ?fin" "window_ok ?fin" using ok(3) rng(2) by (auto simp: coll_ok_def window_ok_def vm'(1) vm1_def)
  ultimately have "batches_ok ?fin" by (simp add: batches_ok_def)
  moreover have "config_ok ?fin" using base(1) by (simp add: vm_base_def config_ok_def vm'(1) vm1_def)
  moreover have "newViewMsgOfOfPendingView ?fin \<noteq> None" using base(2) by (auto simp: quorum_pending_def vm'(1) vm1_def)
  ultimately have "vm_base ?fin" using base(1) unfolding vm_base_def by (auto simp: vm'(1) vm1_def)
  moreover have "restrictions_computed ?fin"
    unfolding restrictions_computed_def using c ok(1) by (intro exI [of _ "restrictionsOfPendingView vm"]) (simp add: reports_def slots_ok_def vm'(1) vm1_def)
  then have "stat_ok ?fin" using base(2,4) by (simp add: stat_ok_def quorum_pending_def vm'(1) vm1_def)
  moreover have "accounted ?fin = accounted vm" using vm'(4) accounted_cong [of ?fin vm'] by simp
  ultimately show ?thesis using st(2) by (simp add: vm_inv_def) (simp add: vm'(1) vm1_def)
qed

text \<open>What entering the view means for the state that is left and for the batches that are handed out.\<close>

definition view_entered :: "ViewNum \<Rightarrow> SeqNum \<Rightarrow> PPMsg list \<Rightarrow> ViewsManager \<Rightarrow> bool" where
  "view_entered v s out vm' \<longleftrightarrow> stat vm' = IN_VIEW \<and> myLatestActiveView vm' = v \<and> quorum_pending vm' \<and> restrictions_computed vm' \<and>
     lowerBoundStableForPendingView vm' \<le> s \<and> list_all2 (proposes vm' v) (relevantNumbers vm' s) out"

lemma enterView_inv:
  assumes inv: "vm_inv vm" "stat vm = PENDING_WITH_RESTRICTIONS" "myLatestPendingView vm = v" "lowerBoundStableForPendingView vm \<le> s"
    and all: "\<forall>i \<in> set (relevantNumbers vm s). \<not> lacking vm i"
  shows "\<exists>out vm'. enterView fresh v s vm = Some (out, vm') \<and> vm_inv vm' \<and> accounted vm = accounted vm' + given out \<and> view_entered v s out vm'"
proof -
  have base: "vm_base vm" "quorum_pending vm" "restrictions_computed vm" "slots_ok vm" "attached_ok vm" "coll_ok vm" "window_ok vm"
    using inv(1,2) by (simp_all add: vm_inv_def stat_ok_def vm_base_def batches_ok_def)
  obtain out vm' where e: "enterView fresh v s vm = Some (out, vm')" "list_all2 (proposes vm v) (relevantNumbers vm s) out"
    "accounted vm = accounted vm' + given out" "entered v vm vm'" using enterView_ok [OF base(4-7) all] by blast
  obtain ps fr where vm': "vm' = vm\<lparr>myLatestActiveView := v, stat := IN_VIEW, prePrepareMsgsOfRestrictions := ps, collectionOfPrePrepareMsgs := [], freed := fr\<rparr>"
    and ok: "slots_ok vm'" "no_slots vm'" using e(4) by (auto simp: entered_def)
  have "batches_ok vm'" using ok no_slots_attached [OF ok(2)] base(7) by (simp add: batches_ok_def) (simp add: vm' coll_ok_def window_ok_def)
  moreover have "config_ok vm'" using base(1) by (simp add: vm_base_def config_ok_def vm')
  moreover have q: "quorum_pending vm'" "restrictions_computed vm'" using base(2,3) by (simp_all add: quorum_pending_def restrictions_computed_def reports_def vm')
  moreover have "newViewMsgOfOfPendingView vm' \<noteq> None" using q(1) by (auto simp: quorum_pending_def)
  moreover have "0 \<le> myLatestActiveView vm'" "myLatestActiveView vm' = myLatestPendingView vm'" using base(1) inv(3) by (auto simp: vm_base_def vm')
  ultimately have "vm_base vm'" using base(1) unfolding vm_base_def by (auto simp: vm')
  then have "vm_inv vm'" using ok inv(3) by (simp add: vm_inv_def stat_ok_def) (simp add: vm')
  moreover have "proposes vm' = proposes vm" "relevantNumbers vm' = relevantNumbers vm"
    by (simp_all add: fun_eq_iff proposes_def relevantNumbers_def vm')
  then have "view_entered v s out vm'" using q e(2) inv(4) by (simp add: view_entered_def) (simp add: vm')
  ultimately show ?thesis using e(1,3) by blast
qed

lemma missing_eq:
  assumes "vm_inv vm" "stat vm = PENDING_WITH_RESTRICTIONS"
  shows "hasMissingMsgs s vm = Some (\<exists>i \<in> set (relevantNumbers vm s). lacking vm i)"
    "getNumbersOfMissingPP s vm = Some (filter (lacking vm) (relevantNumbers vm s) \<noteq> [], filter (lacking vm) (relevantNumbers vm s))"
proof -
  let ?is = "[max (minRestrictionOfPendingView vm) (s + 1)..maxRestrictionOfPendingView vm]"
  have ok: "slots_ok vm" "window_ok vm" using assms(1) by (simp_all add: vm_inv_def vm_base_def batches_ok_def)
  have m: "missingFrom ?is vm = Some (filter (lacking vm) ?is)" "anyMissing ?is vm = Some (\<exists>i \<in> set ?is. lacking vm i)"
    if "minRestrictionOfPendingView vm \<noteq> 0"
  proof -
    have "\<forall>i \<in> set ?is. minRestrictionOfPendingView vm \<le> i \<and> i < minRestrictionOfPendingView vm + 300"
      using relevant_inRange [OF ok(2), of s] that by (simp add: inRange_def relevantNumbers_def)
    then show "missingFrom ?is vm = Some (filter (lacking vm) ?is)" "anyMissing ?is vm = Some (\<exists>i \<in> set ?is. lacking vm i)"
      using missing_spec [OF ok(1)] by blast+
  qed
  show "hasMissingMsgs s vm = Some (\<exists>i \<in> set (relevantNumbers vm s). lacking vm i)"
    using assms(2) m(2) by (simp add: hasMissingMsgs_def relevantNumbers_def)
  show "getNumbersOfMissingPP s vm = Some (filter (lacking vm) (relevantNumbers vm s) \<noteq> [], filter (lacking vm) (relevantNumbers vm s))"
    using assms(2) m(1) by (simp add: getNumbersOfMissingPP_def relevantNumbers_def)
qed

lemma finishEntry_inv:
  assumes inv: "vm_inv vm" "myLatestPendingView vm = v" "lowerBoundStableForPendingView vm \<le> s" "stat vm \<noteq> IN_VIEW"
  shows "\<exists>b out vm'. finishEntry fresh v s vm = Some (b, out, vm') \<and> vm_inv vm' \<and> accounted vm = accounted vm' + given out \<and>
    (if b then view_entered v s out vm' else vm' = vm \<and> out = [] \<and> stat vm' \<noteq> IN_VIEW) \<and>
    (b \<longleftrightarrow> stat vm = PENDING_WITH_RESTRICTIONS \<and> (\<forall>i \<in> set (relevantNumbers vm s). \<not> lacking vm i))"
proof (cases "stat vm = PENDING_WITH_RESTRICTIONS \<and> (\<forall>i \<in> set (relevantNumbers vm s). \<not> lacking vm i)")
  case True
  then show ?thesis using enterView_inv [OF inv(1) _ inv(2,3), of fresh] missing_eq(1) [OF inv(1), of s] by (auto simp: finishEntry_def)
next
  case False
  then have "finishEntry fresh v s vm = Some (False, [], vm)" using missing_eq(1) [OF inv(1), of s] by (auto simp: finishEntry_def)
  then show ?thesis using False inv(1,4) by (auto simp: given_def)
qed

lemma debug_fields:
  "vm_inv (vm\<lparr>debugHighestViewNumberPassedByClient := v, debugHighestKnownStable := s\<rparr>) = vm_inv vm"
  "accounted (vm\<lparr>debugHighestViewNumberPassedByClient := v, debugHighestKnownStable := s\<rparr>) = accounted vm"
proof -
  show "vm_inv (vm\<lparr>debugHighestViewNumberPassedByClient := v, debugHighestKnownStable := s\<rparr>) = vm_inv vm"
    unfolding vm_inv_def vm_base_def config_ok_def batches_ok_def slots_ok_def attached_ok_def coll_ok_def window_ok_def nothing_pending_def
      stat_ok_def quorum_pending_def restrictions_computed_def reports_def no_slots_def by (simp split: Stat.split)
  show "accounted (vm\<lparr>debugHighestViewNumberPassedByClient := v, debugHighestKnownStable := s\<rparr>) = accounted vm"
    by (rule accounted_cong) simp_all
qed

lemma completeEntry_inv:
  assumes inv: "vm_inv vm" "lowerBoundStableForPendingView vm \<le> s" "stat vm \<noteq> IN_VIEW" and run: "completeEntry fresh v s vm = Some (b, out, vm')"
  shows "vm_inv vm' \<and> accounted vm = accounted vm' + given out \<and> (if b then view_entered v s out vm' else out = [] \<and> stat vm' \<noteq> IN_VIEW)"
proof -
  obtain vm2 where 2: "finishEntry fresh v s vm2 = Some (b, out, vm')" "vm_inv vm2" "accounted vm2 = accounted vm" "myLatestPendingView vm2 = v"
    "lowerBoundStableForPendingView vm2 \<le> s" "stat vm2 \<noteq> IN_VIEW"
  proof (cases "stat vm = PENDING")
    case False
    then have "finishEntry fresh v s vm = Some (b, out, vm')" "myLatestPendingView vm = v" using run by (auto simp: completeEntry_def)
    then show ?thesis using that [OF _ inv(1) refl _ inv(2,3)] by blast
  next
    case True
    then obtain w where w: "computeRestrictionsOfNewView v vm = Some w" "finishEntry fresh v s (w\<lparr>stat := PENDING_WITH_RESTRICTIONS\<rparr>) = Some (b, out, vm')"
      using run by (auto simp: completeEntry_def Option.bind_eq_Some_conv)
    note c = computeRestrictionsOfNewView_inv [OF inv(1) w(1)]
    show ?thesis by (rule that [OF w(2)]) (use c inv(2) in simp_all)
  qed
  obtain b' out' w where f: "finishEntry fresh v s vm2 = Some (b', out', w)" "vm_inv w" "accounted vm2 = accounted w + given out'"
    "if b' then view_entered v s out' w else w = vm2 \<and> out' = [] \<and> stat w \<noteq> IN_VIEW"
    using finishEntry_inv [OF 2(2,4,5,6), of fresh] by blast
  then have "b' = b" "out' = out" "w = vm'" using 2(1) by simp_all
  then show ?thesis using f 2(3) by (auto split: if_splits)
qed

lemma tryToEnterView_inv:
  assumes inv: "vm_inv vm" and run: "tryToEnterView hashVC fresh v s e vm = Some (b, out, vm')"
  shows "vm_inv vm' \<and> accounted vm = accounted vm' + given out \<and> (if b then view_entered v s out vm' else out = [] \<and> stat vm' \<noteq> IN_VIEW)"
proof -
  define vm0 where "vm0 = vm\<lparr>debugHighestViewNumberPassedByClient := v, debugHighestKnownStable := s\<rparr>"
  have inv0: "vm_inv vm0" "accounted vm0 = accounted vm" using inv debug_fields unfolding vm0_def by simp_all
  have pre: "stat vm0 \<noteq> IN_VIEW" "myLatestActiveView vm0 < v" using run by (auto simp: tryToEnterView_def vm0_def)
  have run': "(if e < s then Some (False, [], vm0)
     else if s < lowerBoundStableForPendingView vm0 then Some (False, [], vm0)
     else do {
       (go, vm1) \<leftarrow> (if v > myLatestPendingView vm0 then moveToPendingView hashVC v s vm0 else Some (True, vm0));
       if \<not> go then Some (False, [], vm1) else completeEntry fresh v s vm1
     }) = Some (b, out, vm')"
    using run unfolding tryToEnterView_def Let_def vm0_def [symmetric] Assert_bind_Some by blast
  show ?thesis
  proof (cases "e < s \<or> s < lowerBoundStableForPendingView vm0")
    case True
    then have "\<not> b \<and> out = [] \<and> vm' = vm0" using run' by (auto split: if_splits)
    then show ?thesis using inv0 pre(1) by (simp add: given_def)
  next
    case False
    then obtain go vm1 where mv: "(if v > myLatestPendingView vm0 then moveToPendingView hashVC v s vm0 else Some (True, vm0)) = Some (go, vm1)"
      and r: "(if \<not> go then Some (False, [], vm1) else completeEntry fresh v s vm1) = Some (b, out, vm')"
      using run' by (auto simp: Option.bind_eq_Some_conv)
    have 1: "vm_inv vm1" "accounted vm1 = accounted vm" "stat vm1 \<noteq> IN_VIEW" "go \<longrightarrow> lowerBoundStableForPendingView vm1 \<le> s"
      using moveToPendingView_ok [of vm0 v hashVC s go vm1] mv inv0 pre False by (auto simp: vm_inv_def split: if_splits)
    show ?thesis
    proof (cases go)
      case True
      then show ?thesis using completeEntry_inv [OF 1(1) _ 1(3)] 1(2,4) r by simp
    next
      case no: False
      then show ?thesis using r 1 by (auto simp: given_def)
    qed
  qed
qed

end
