(* ===== verification/View_Runs.thy ===== *)
theory View_Runs
  imports View_Invariant
begin

text \<open>
  The runs of the views manager and what holds in every state they reach: no batch is lost or freed twice,
  a pending view rests on a quorum of reports, and a view that is entered proposes again what the reports
  oblige it to. The report a replica leaves a view with says what it had prepared.
\<close>

section \<open>Receiving a missing batch\<close>

lemma free_accounted: "accounted (free a vm) = add_mset a (accounted vm)"
proof -
  have "owned (free a vm) = owned vm" unfolding owned_def slotOwned_def free_def by (simp cong: option.case_cong)
  then show ?thesis by (simp add: accounted_def) (simp add: free_def)
qed

lemma addPP_inv:
  assumes inv: "vm_inv vm" and run: "addPotentiallyMissingPP p vm = Some (b, vm')" and new: "pp_address p \<notin># owned vm"
  shows "vm_inv vm' \<and> accounted vm' = add_mset (pp_address p) (accounted vm)"
proof -
  let ?mn = "minRestrictionOfPendingView vm" and ?idx = "nat (pp_seqNumber p - minRestrictionOfPendingView vm)"
  let ?vm1 = "vm\<lparr>prePrepareMsgsOfRestrictions := (prePrepareMsgsOfRestrictions vm)[?idx := Some p]\<rparr>"
  have st: "stat vm = PENDING_WITH_RESTRICTIONS" "\<not> pp_isNull (pp_header p)" using run by (auto simp: addPotentiallyMissingPP_def)
  have ok: "slots_ok vm" "attached_ok vm" "coll_ok vm" "window_ok vm" using inv by (simp_all add: vm_inv_def vm_base_def batches_ok_def)
  consider "vm' = free (pp_address p) vm"
    | "hasRelevantRestriction (pp_seqNumber p) vm" "?idx < 300" "prePrepareMsgsOfRestrictions vm ! ?idx = None"
      "\<not> r_isNull (restrictionsOfPendingView vm ! ?idx)" "r_digest (restrictionsOfPendingView vm ! ?idx) = pp_digest p" "vm' = ?vm1"
    using run by (auto simp: addPotentiallyMissingPP_def Let_def Option.bind_eq_Some_conv split: if_splits)
  then show ?thesis
  proof cases
    case 1
    have "vm_base (free (pp_address p) vm)"
      using inv unfolding free_def vm_inv_def vm_base_def config_ok_def batches_ok_def slots_ok_def attached_ok_def coll_ok_def window_ok_def
        nothing_pending_def by simp
    moreover have "stat_ok (free (pp_address p) vm)"
      using inv st(1) by (simp add: vm_inv_def stat_ok_def quorum_pending_def restrictions_computed_def reports_def free_def)
    ultimately show ?thesis using 1 free_accounted by (simp add: vm_inv_def)
  next
    case 2
    have idx: "?mn + int ?idx = pp_seqNumber p" "?mn \<noteq> 0" "pp_seqNumber p \<le> maxRestrictionOfPendingView vm"
      using 2(1) by (auto simp: hasRelevantRestriction_def)
    have len: "length (prePrepareMsgsOfRestrictions vm) = 300" using ok(1) by (simp add: slots_ok_def)
    have "attached_ok ?vm1"
      unfolding attached_ok_def
    proof (intro allI impI)
      fix j q assume j: "j < 300" "prePrepareMsgsOfRestrictions ?vm1 ! j = Some q"
      show "minRestrictionOfPendingView ?vm1 \<noteq> 0 \<and> minRestrictionOfPendingView ?vm1 + int j \<le> maxRestrictionOfPendingView ?vm1 \<and>
         pp_seqNumber q = minRestrictionOfPendingView ?vm1 + int j \<and> \<not> pp_isNull (pp_header q) \<and>
         \<not> r_isNull (restrictionsOfPendingView ?vm1 ! j) \<and> pp_digest q = r_digest (restrictionsOfPendingView ?vm1 ! j)"
      proof (cases "j = ?idx")
        case True
        then have "q = p" using j(2) 2(2) len by simp
        moreover have "minRestrictionOfPendingView ?vm1 + int j = pp_seqNumber p" using idx(1) True by simp
        ultimately show ?thesis using True 2(4,5) st(2) idx(2,3) by simp
      next
        case False
        then show ?thesis using attached_okD [OF ok(2) j(1)] j(2) by simp
      qed
    qed
    then have "batches_ok ?vm1" using ok by (simp add: batches_ok_def slots_ok_def coll_ok_def window_ok_def)
    moreover have "config_ok ?vm1" "stat_ok ?vm1" "newViewMsgOfOfPendingView ?vm1 = None \<longrightarrow> nothing_pending ?vm1"
      using inv st(1) by (simp_all add: vm_inv_def vm_base_def config_ok_def stat_ok_def quorum_pending_def restrictions_computed_def reports_def nothing_pending_def)
    ultimately have "vm_inv ?vm1" using inv by (simp add: vm_inv_def vm_base_def)
    moreover have "accounted ?vm1 = add_mset (pp_address p) (accounted vm)"
    proof -
      have "slotOwned ?vm1 j = slotOwned vm j" if "j \<noteq> ?idx" for j
        using that by (cases "prePrepareMsgsOfRestrictions vm ! j") (simp_all add: slotOwned_def)
      moreover have "slotOwned vm ?idx = {#}" using 2(3) by (simp add: slotOwned_def)
      moreover have "\<not> addressIn (collectionOfPrePrepareMsgs vm) i (pp_address p)" for i
      proof
        assume "addressIn (collectionOfPrePrepareMsgs vm) i (pp_address p)"
        then obtain q where "map_of (collectionOfPrePrepareMsgs vm) i = Some q" "pp_address q = pp_address p"
          by (auto simp: addressIn_def split: option.splits)
        then have "pp_address p \<in> (pp_address \<circ> snd) ` set (collectionOfPrePrepareMsgs vm)" using map_of_SomeD by force
        then show False using new by (simp add: owned_def)
      qed
      then have "slotOwned ?vm1 ?idx = {#pp_address p#}" using 2(2) len by (simp add: slotOwned_def)
      ultimately show ?thesis using owned_split [OF 2(2), of vm] owned_split [OF 2(2), of ?vm1] by (simp add: accounted_def)
    qed
    ultimately show ?thesis using 2(6) by simp
  qed
qed

section \<open>Renumbering the report\<close>

lemma createIters_elements:
  "map (map_option vr_elements) msgs = map (map_option vr_elements) msgs' \<Longrightarrow> createIters lb msgs = createIters lb msgs'"
proof (induction msgs arbitrary: msgs')
  case (Cons x msgs)
  obtain y ys where y: "msgs' = y # ys" "map_option vr_elements x = map_option vr_elements y"
    "map (map_option vr_elements) msgs = map (map_option vr_elements) ys" using Cons.prems by (cases msgs') auto
  have "createIters lb msgs = createIters lb ys" using Cons.IH [OF y(3)] .
  then show ?case using y(1,2) by (cases x; cases y) (auto simp: Let_def)
qed simp

lemma computeRestrictions_elements:
  assumes "map (map_option vr_elements) msgs = map (map_option vr_elements) msgs'"
  shows "computeRestrictions logic msgs lb arr = computeRestrictions logic msgs' lb arr"
proof -
  have "createIters (lb + 1) (take n msgs) = createIters (lb + 1) (take n msgs')" for n
    by (rule createIters_elements) (simp add: take_map [symmetric] assms)
  then show ?thesis by (simp add: computeRestrictions_def)
qed

lemma setMyNewViewNumber_inv:
  assumes inv: "vm_inv vm" and run: "setMyNewViewNumber w vm = Some vm'"
  shows "vm_inv vm' \<and> accounted vm' = accounted vm"
proof -
  let ?me = "vm_myId vm"
  have base: "vm_base vm" "config_ok vm" "from_owner (viewChangeMessages vm)" "from_owner (viewChangeMsgsOfPendingView vm)"
    using inv by (simp_all add: vm_inv_def vm_base_def)
  have len: "length (viewChangeMessages vm) = vm_N vm" "length (viewChangeMsgsOfPendingView vm) = vm_N vm" "length (newViewMessages vm) = vm_N vm" "?me < vm_N vm"
    using base(2) config_facts(4) by (simp_all add: config_ok_def)
  obtain m where m: "if viewChangeMsgsOfPendingView vm ! ?me = None
      then viewChangeMessages vm ! ?me = Some m \<and>
        vm' = vm\<lparr>viewChangeMessages := (viewChangeMessages vm)[?me := Some (m\<lparr>vcm_report := (vcm_report m)\<lparr>vr_newView := w\<rparr>\<rparr>)]\<rparr>
      else viewChangeMsgsOfPendingView vm ! ?me = Some m \<and>
        vm' = vm\<lparr>viewChangeMsgsOfPendingView := (viewChangeMsgsOfPendingView vm)[?me := Some (m\<lparr>vcm_report := (vcm_report m)\<lparr>vr_newView := w\<rparr>\<rparr>)]\<rparr>"
    using run len unfolding setMyNewViewNumber_def getMyLatestViewChangeMsg_def
    by (auto simp: Option.bind_eq_Some_conv Let_def split: option.splits)
  let ?m' = "m\<lparr>vcm_report := (vcm_report m)\<lparr>vr_newView := w\<rparr>\<rparr>"
  show ?thesis
  proof (cases "viewChangeMsgsOfPendingView vm ! ?me")
    case None
    then have vm': "vm' = vm\<lparr>viewChangeMessages := (viewChangeMessages vm)[?me := Some ?m'], newViewMessages := newViewMessages vm\<rparr>"
      and "idOfGeneratedReplica m = ?me" using m base(3) len by (auto simp: from_owner_def)
    then have "from_owner ((viewChangeMessages vm)[?me := Some ?m'])" using from_owner_update [OF base(3), of "Some ?m'" ?me] by simp
    then show ?thesis using inv_messages(2,3) [of "(viewChangeMessages vm)[?me := Some ?m']" vm "newViewMessages vm"] len inv vm' by simp
  next
    case (Some m0)
    let ?p = "(viewChangeMsgsOfPendingView vm)[?me := Some ?m']"
    have vm': "vm' = vm\<lparr>viewChangeMsgsOfPendingView := ?p\<rparr>" and mm: "viewChangeMsgsOfPendingView vm ! ?me = Some m" "idOfGeneratedReplica m = ?me"
      using m Some base(4) len by (auto simp: from_owner_def)
    have fo: "from_owner ?p" using from_owner_update [OF base(4), of "Some ?m'" ?me] mm(2) by simp
    have nn: "\<not> nothing_pending vm" using mm(1) len(4) by (auto simp: nothing_pending_def)
    have "map (map_option (\<lambda>m. vr_elements (vcm_report m))) ?p = map (map_option (\<lambda>m. vr_elements (vcm_report m))) (viewChangeMsgsOfPendingView vm)"
      using mm(1) len by (intro nth_equalityI) (auto simp: nth_list_update)
    then have els: "map (map_option vr_elements) (reports vm') = map (map_option vr_elements) (reports vm)"
      by (simp add: reports_def vm' option.map_comp comp_def)
    have "map (\<lambda>x. x \<noteq> None) ?p = map (\<lambda>x. x \<noteq> None) (viewChangeMsgsOfPendingView vm)"
      using mm(1) len by (intro nth_equalityI) (auto simp: nth_list_update)
    then have "length (filter id (map (\<lambda>x. x \<noteq> None) ?p)) = length (filter id (map (\<lambda>x. x \<noteq> None) (viewChangeMsgsOfPendingView vm)))" by simp
    then have cnt: "length (filter (\<lambda>m. m \<noteq> None) ?p) = length (filter (\<lambda>m. m \<noteq> None) (viewChangeMsgsOfPendingView vm))"
      by (simp only: filter_map length_map comp_def id_apply)
    have q: "quorum_pending vm' = quorum_pending vm" unfolding quorum_pending_def vm' using cnt by simp
    have r: "restrictions_computed vm' = restrictions_computed vm"
      unfolding restrictions_computed_def computeRestrictions_elements [OF els] by (simp add: vm')
    have "config_ok vm'" "batches_ok vm'"
      using base(1) by (simp_all add: vm_base_def config_ok_def batches_ok_def slots_ok_def attached_ok_def coll_ok_def window_ok_def vm')
    moreover have "newViewMsgOfOfPendingView vm \<noteq> None" using base(1) nn by (auto simp: vm_base_def)
    ultimately have "vm_base vm'" using base(1) fo unfolding vm_base_def by (auto simp: vm')
    moreover have "stat_ok vm'"
      using inv nn q r unfolding vm_inv_def stat_ok_def no_slots_def by (cases "stat vm") (simp_all add: vm')
    moreover have "accounted vm' = accounted vm" unfolding vm' by (rule accounted_cong) simp_all
    ultimately show ?thesis by (simp add: vm_inv_def)
  qed
qed

section \<open>The report of a view that is left\<close>

text \<open>What a replica reports on a batch: its certificate of this view, the certificate of its previous report
  for the same digest, or just the batch.\<close>

definition reportElement :: "ViewNum \<Rightarrow> VCElement list \<Rightarrow> PrevViewInfo \<Rightarrow> VCElement option" where
  "reportElement active prev it =
     (let pp = pvi_prePrepare it; s = pp_seqNumber pp; d = pp_digest pp;
          el = (\<lambda>cert. \<lparr>vce_seqNum = s, vce_digest = d, vce_originView = active, vce_cert = cert\<rparr>)
      in case pvi_prepareFull it of
           Some f \<Rightarrow> Some (el (Some (active, ss_signature f)))
         | None \<Rightarrow>
             if \<not> hasAllRequests it then None
             else (case find (\<lambda>e. vce_seqNum e = s) prev of
                     Some e \<Rightarrow>
                       if vce_digest e = d \<and> vce_cert e \<noteq> None then Some (el (vce_cert e))
                       else if pp_isNull (pp_header pp) then None else Some (el None)
                   | None \<Rightarrow> if pp_isNull (pp_header pp) then None else Some (el None)))"

text \<open>What the replica guarantees about the batches it passes.\<close>

definition short_sig :: "byte list \<Rightarrow> bool" where
  "short_sig sig \<longleftrightarrow> sig \<noteq> [] \<and> length sig \<le> 128"

definition info_ok :: "ViewNum \<Rightarrow> SeqNum \<Rightarrow> PrevViewInfo \<Rightarrow> bool" where
  "info_ok active executed it \<longleftrightarrow> pp_viewNum (pp_header (pvi_prePrepare it)) = active \<and>
     (hasAllRequests it \<or> executed < pp_seqNumber (pvi_prePrepare it) \<or> pp_isNull (pp_header (pvi_prePrepare it))) \<and>
     (case pvi_prepareFull it of None \<Rightarrow> True
      | Some f \<Rightarrow> hasAllRequests it \<and> ss_seqNumber f = pp_seqNumber (pvi_prePrepare it) \<and> ss_viewNumber f = active \<and> short_sig (ss_signature f))"

definition prev_ok :: "ViewNum \<Rightarrow> VCElement list \<Rightarrow> bool" where
  "prev_ok active prev \<longleftrightarrow> sorted_wrt (\<lambda>a b. vce_seqNum a < vce_seqNum b) prev \<and>
     (\<forall>e \<in> set prev. vce_originView e \<le> active \<and> (case vce_cert e of None \<Rightarrow> True | Some (v, sig) \<Rightarrow> v \<le> vce_originView e \<and> short_sig sig))"

lemma find_sorted:
  assumes "sorted_wrt (\<lambda>a b. vce_seqNum a < vce_seqNum b) xs"
  shows "find (\<lambda>e. vce_seqNum e = s) xs = Some e \<longleftrightarrow> e \<in> set xs \<and> vce_seqNum e = s"
  using assms by (induction xs) auto

lemma find_dropWhile:
  assumes "sorted_wrt (\<lambda>a b. vce_seqNum a < vce_seqNum b) xs"
  shows "find (\<lambda>e. vce_seqNum e = s) xs =
    (case iter_getCurrent (dropWhile (\<lambda>e. vce_seqNum e < s) xs) of None \<Rightarrow> None | Some e \<Rightarrow> if vce_seqNum e = s then Some e else None)"
  using assms
proof (induction xs)
  case (Cons x xs)
  have "vce_seqNum x > s \<Longrightarrow> find (\<lambda>e. vce_seqNum e = s) xs = None" using Cons.prems by (auto simp: find_None_iff)
  then show ?case using Cons by (auto simp: iter_getCurrent_def)
qed (simp add: iter_getCurrent_def)

definition iter_for :: "VCElement list \<Rightarrow> SeqNum \<Rightarrow> VCIter \<Rightarrow> bool" where
  "iter_for prev de iter \<longleftrightarrow> sorted_wrt (\<lambda>a b. vce_seqNum a < vce_seqNum b) iter \<and> set iter \<subseteq> set prev \<and>
     (\<forall>e \<in> set prev. de < vce_seqNum e \<longrightarrow> e \<in> set iter)"

lemma iter_for_drop:
  assumes "iter_for prev de iter" "de < s"
  shows "iter_for prev s (dropWhile (\<lambda>e. vce_seqNum e < s) iter)" "iter_for prev s iter"
proof -
  have "e \<in> set (dropWhile (\<lambda>e. vce_seqNum e < s) iter)" if "e \<in> set iter" "s < vce_seqNum e" for e
    using that by (metis Un_iff dual_order.strict_trans order_less_irrefl set_append set_takeWhileD takeWhile_dropWhile_id)
  then show "iter_for prev s (dropWhile (\<lambda>e. vce_seqNum e < s) iter)"
    using assms set_dropWhileD sorted_wrt_dropWhile unfolding iter_for_def by (smt (verit, best) subset_iff)
  show "iter_for prev s iter" using assms by (auto simp: iter_for_def)
qed

lemma iter_for_find:
  assumes "prev_ok active prev" "iter_for prev de iter" "de < s"
  shows "find (\<lambda>e. vce_seqNum e = s) prev =
    (case iter_getCurrent (dropWhile (\<lambda>e. vce_seqNum e < s) iter) of None \<Rightarrow> None | Some e \<Rightarrow> if vce_seqNum e = s then Some e else None)"
proof -
  have srt: "sorted_wrt (\<lambda>a b. vce_seqNum a < vce_seqNum b) prev" "sorted_wrt (\<lambda>a b. vce_seqNum a < vce_seqNum b) iter"
    using assms(1,2) by (simp_all add: prev_ok_def iter_for_def)
  have "find (\<lambda>e. vce_seqNum e = s) prev = Some e \<longleftrightarrow> find (\<lambda>e. vce_seqNum e = s) iter = Some e" for e
    unfolding find_sorted [OF srt(1)] find_sorted [OF srt(2)] using assms(2,3) by (auto simp: iter_for_def)
  then have "find (\<lambda>e. vce_seqNum e = s) prev = find (\<lambda>e. vce_seqNum e = s) iter" by (metis option.exhaust)
  then show ?thesis using find_dropWhile [OF srt(2)] by simp
qed

text \<open>What the search in the previous report contributes.\<close>

lemma previousCertificate_eq:
  assumes "prev_ok active prev" "iter_for prev de iter" "de < s"
  shows "previousCertificate active s d (dropWhile (\<lambda>e. vce_seqNum e < s) iter) =
    Some (case find (\<lambda>e. vce_seqNum e = s) prev of None \<Rightarrow> None | Some e \<Rightarrow> if vce_digest e = d then vce_cert e else None)"
proof (cases "iter_getCurrent (dropWhile (\<lambda>e. vce_seqNum e < s) iter)")
  case None
  then show ?thesis using iter_for_find [OF assms] by (simp add: previousCertificate_def)
next
  case (Some e)
  then have "e \<in> set (dropWhile (\<lambda>e. vce_seqNum e < s) iter)"
    by (cases "dropWhile (\<lambda>e. vce_seqNum e < s) iter") (simp_all add: iter_getCurrent_def)
  then have "e \<in> set prev" using assms(2) set_dropWhileD unfolding iter_for_def by fast
  then have "vce_originView e \<le> active" "\<And>cv sig. vce_cert e = Some (cv, sig) \<Longrightarrow> cv \<le> vce_originView e"
    using assms(1) by (auto simp: prev_ok_def)
  then show ?thesis using Some iter_for_find [OF assms] by (auto simp: previousCertificate_def split: option.split)
qed

lemma reportElement_ok:
  assumes "info_ok active executed it" "prev_ok active prev" "reportElement active prev it = Some x"
  shows "vce_seqNum x = pp_seqNumber (pvi_prePrepare it)" "vce_originView x = active" "vceCertOk x" "elementLength x \<le> 187"
proof -
  have f: "e \<in> set prev" if "find (\<lambda>e. vce_seqNum e = s) prev = Some e" for e s
    using that assms(2) find_sorted by (auto simp: prev_ok_def)
  show "vce_seqNum x = pp_seqNumber (pvi_prePrepare it)" "vce_originView x = active"
    using assms(3) by (auto simp: reportElement_def Let_def split: option.splits if_splits)
  have "case vce_cert x of None \<Rightarrow> True | Some (v, sig) \<Rightarrow> v \<le> active \<and> short_sig sig"
    using assms f by (fastforce simp: reportElement_def info_ok_def prev_ok_def Let_def split: option.splits if_splits)
  then show "vceCertOk x" "elementLength x \<le> 187"
    using \<open>vce_originView x = active\<close> by (auto simp: vceCertOk_def elementLength_def short_sig_def split: option.splits)
qed

definition keepBatch :: "PrevViewInfo \<Rightarrow> ViewsManager \<Rightarrow> ViewsManager" where
  "keepBatch it vm =
     (let pp = pvi_prePrepare it in
      if hasAllRequests it \<and> \<not> pp_isNull (pp_header pp)
      then vm\<lparr>collectionOfPrePrepareMsgs := AList.update (pp_seqNumber pp) pp (collectionOfPrePrepareMsgs vm)\<rparr>
      else free (pp_address pp) vm)"

definition appendElement :: "VCElement option \<Rightarrow> VCReport \<Rightarrow> VCReport" where
  "appendElement x r = (case x of None \<Rightarrow> r | Some e \<Rightarrow> r\<lparr>vr_elements := vr_elements r @ [e]\<rparr>)"

definition fits :: "nat \<Rightarrow> VCReport \<Rightarrow> VCElement \<Rightarrow> bool" where
  "fits sigLen r x \<longleftrightarrow> length (vr_elements r) < 300 \<and> vr_lastStable r < vce_seqNum x \<and> vce_seqNum x \<le> vr_lastStable r + 300 \<and>
     24 + vcSize (vr_elements r @ [x]) + sigLen \<le> 64000"

lemma report_addElement_eq: "fits sigLen r x \<Longrightarrow> report_addElement sigLen x r = Some (appendElement (Some x) r)"
  by (simp add: fits_def report_addElement_def appendElement_def sizeofViewChangeMsgHeader_def)

lemma exitLoop_step:
  assumes prev: "prev_ok active prev" "iter_for prev de iter" and it: "info_ok active executed it" "de < pp_seqNumber (pvi_prePrepare it)"
    and vm: "myLatestActiveView vm = active" "lowerBoundStableForPendingView vm < pp_seqNumber (pvi_prePrepare it)"
    and fit: "\<And>x. reportElement active prev it = Some x \<Longrightarrow> fits sigLen rep x"
  shows "\<exists>iter'. iter_for prev (pp_seqNumber (pvi_prePrepare it)) iter' \<and> exitLoop sigLen executed (it # its) iter de rep vm =
    exitLoop sigLen executed its iter' (pp_seqNumber (pvi_prePrepare it)) (appendElement (reportElement active prev it) rep) (keepBatch it vm)"
proof -
  define pp where "pp = pvi_prePrepare it"
  define s d where "s = pp_seqNumber pp" and "d = pp_digest pp"
  define search where "search \<longleftrightarrow> hasAllRequests it \<and> pvi_prepareFull it = None \<and> iter \<noteq> []"
  define iter' where "iter' = (if search then dropWhile (\<lambda>e. vce_seqNum e < s) iter else iter)"
  let ?found = "find (\<lambda>e. vce_seqNum e = s) prev"
  let ?cert = "case ?found of None \<Rightarrow> None | Some e \<Rightarrow> if vce_digest e = d then vce_cert e else None"
  have des: "de < s" using it(2) by (simp add: s_def pp_def)
  have it': "iter_for prev s iter'" using iter_for_drop [OF prev(2) des] by (simp add: iter'_def)
  have none: "?found = None" if "iter = []" using that iter_for_find [OF prev des] by (simp add: iter_getCurrent_def)
  have cert: "(if search then previousCertificate active s d iter' else Some None) = Some (if search then ?cert else None)"
    using previousCertificate_eq [OF prev des] by (simp add: iter'_def)
  have add: "report_addElement sigLen x rep = Some (appendElement (Some x) rep)" if "reportElement active prev it = Some x" for x
    using report_addElement_eq [OF fit [OF that]] .
  have body: "(case pvi_prepareFull it of
         Some f \<Rightarrow> do {
           Assert (s = ss_seqNumber f);
           Assert (ss_viewNumber f = active);
           report_addElement sigLen \<lparr>vce_seqNum = s, vce_digest = d, vce_originView = active, vce_cert = Some (active, ss_signature f)\<rparr> rep
         }
       | None \<Rightarrow>
           if (if search then ?cert else None) \<noteq> None \<and> hasAllRequests it
           then report_addElement sigLen \<lparr>vce_seqNum = s, vce_digest = d, vce_originView = active, vce_cert = (if search then ?cert else None)\<rparr> rep
           else if hasAllRequests it \<and> \<not> pp_isNull (pp_header pp)
           then report_addElement sigLen \<lparr>vce_seqNum = s, vce_digest = d, vce_originView = active, vce_cert = None\<rparr> rep
           else do {
             Assert (s > executed \<or> pp_isNull (pp_header pp));
             Some rep
           }) = Some (appendElement (reportElement active prev it) rep)"
  proof (cases "pvi_prepareFull it")
    case (Some f)
    then have "reportElement active prev it = Some \<lparr>vce_seqNum = s, vce_digest = d, vce_originView = active, vce_cert = Some (active, ss_signature f)\<rparr>"
      by (simp add: reportElement_def Let_def s_def d_def pp_def)
    then show ?thesis using add it(1) Some by (simp add: info_ok_def s_def pp_def)
  next
    case None
    show ?thesis
    proof (cases "hasAllRequests it")
      case False
      then have "reportElement active prev it = None" using None by (simp add: reportElement_def Let_def)
      then show ?thesis using None False it(1) by (auto simp: appendElement_def info_ok_def s_def pp_def)
    next
      case all: True
      have c: "(if search then ?cert else None) = ?cert" using None all none by (simp add: search_def)
      have r: "reportElement active prev it = (if ?cert \<noteq> None \<or> \<not> pp_isNull (pp_header pp)
          then Some \<lparr>vce_seqNum = s, vce_digest = d, vce_originView = active, vce_cert = ?cert\<rparr> else None)"
        using None all by (auto simp: reportElement_def Let_def s_def d_def pp_def split: option.splits) (metis option.exhaust surj_pair)
      show ?thesis
      proof (cases ?cert)
        case none: None
        then show ?thesis using add None all r unfolding c by (simp add: appendElement_def)
      next
        case (Some cs)
        then show ?thesis using add None all r unfolding c by simp
      qed
    qed
  qed
  have pf: "pvi_prepareFull it = None \<or> hasAllRequests it" "pp_viewNum (pp_header pp) = active"
    using it(1) by (auto simp: info_ok_def pp_def split: option.splits)
  have "exitLoop sigLen executed (it # its) iter de rep vm =
      exitLoop sigLen executed its iter' s (appendElement (reportElement active prev it) rep) (keepBatch it vm)"
    unfolding exitLoop.simps Let_def vm(1) pp_def [symmetric] s_def [symmetric] d_def [symmetric] search_def [symmetric]
      iter'_def [symmetric] cert Option.bind.bind_lunit body
    using pf des vm(2) by (simp add: keepBatch_def Let_def pp_def [symmetric] s_def [symmetric])
  then show ?thesis using it' unfolding s_def pp_def by blast
qed

lemma update_fresh: "k \<notin> fst ` set al \<Longrightarrow> AList.update k v al = al @ [(k, v)]"
  by (induction al) auto

definition collecting :: "SeqNum \<Rightarrow> ViewsManager \<Rightarrow> bool" where
  "collecting de vm \<longleftrightarrow> no_slots vm \<and> coll_ok vm \<and> (\<forall>k \<in> fst ` set (collectionOfPrePrepareMsgs vm). k \<le> de)"

definition recollected :: "ViewsManager \<Rightarrow> ViewsManager \<Rightarrow> bool" where
  "recollected vm vm' \<longleftrightarrow> (\<exists>c fr. vm' = vm\<lparr>collectionOfPrePrepareMsgs := c, freed := fr\<rparr>)"

lemma recollected_trans: "recollected a b \<Longrightarrow> recollected b c \<Longrightarrow> recollected a c"
  unfolding recollected_def by (elim exE, hypsubst, simp) blast

lemma recollected_refl: "recollected vm vm"
proof -
  have "vm = vm\<lparr>collectionOfPrePrepareMsgs := collectionOfPrePrepareMsgs vm, freed := freed vm\<rparr>" by simp
  then show ?thesis unfolding recollected_def by blast
qed

lemma keepBatch_ok:
  assumes col: "collecting de vm" and s: "de < pp_seqNumber (pvi_prePrepare it)"
  shows "recollected vm (keepBatch it vm)" "collecting (pp_seqNumber (pvi_prePrepare it)) (keepBatch it vm)"
    "accounted (keepBatch it vm) = add_mset (pp_address (pvi_prePrepare it)) (accounted vm)"
proof -
  let ?pp = "pvi_prePrepare it" and ?c = "collectionOfPrePrepareMsgs vm"
  have "keepBatch it vm = vm\<lparr>collectionOfPrePrepareMsgs := collectionOfPrePrepareMsgs (keepBatch it vm), freed := freed (keepBatch it vm)\<rparr>"
    by (simp add: keepBatch_def free_def Let_def)
  then show "recollected vm (keepBatch it vm)" unfolding recollected_def by blast
  have ns: "no_slots vm" "coll_ok vm" "\<forall>k \<in> fst ` set ?c. k \<le> de" using col by (simp_all add: collecting_def)
  show "collecting (pp_seqNumber ?pp) (keepBatch it vm)" "accounted (keepBatch it vm) = add_mset (pp_address ?pp) (accounted vm)"
  proof -
    show "collecting (pp_seqNumber ?pp) (keepBatch it vm)"
    proof (cases "hasAllRequests it \<and> \<not> pp_isNull (pp_header ?pp)")
      case True
      have new: "pp_seqNumber ?pp \<notin> fst ` set ?c" using ns(3) s by auto
      have "keepBatch it vm = vm\<lparr>collectionOfPrePrepareMsgs := ?c @ [(pp_seqNumber ?pp, ?pp)]\<rparr>"
        using True update_fresh [OF new] by (simp add: keepBatch_def Let_def)
      then show ?thesis using ns new s True by (force simp: collecting_def no_slots_def coll_ok_def)
    next
      case False
      then have "keepBatch it vm = free (pp_address ?pp) vm" by (auto simp: keepBatch_def Let_def)
      then show ?thesis using ns s by (force simp: collecting_def no_slots_def coll_ok_def free_def)
    qed
    show "accounted (keepBatch it vm) = add_mset (pp_address ?pp) (accounted vm)"
    proof (cases "hasAllRequests it \<and> \<not> pp_isNull (pp_header ?pp)")
      case True
      have new: "pp_seqNumber ?pp \<notin> fst ` set ?c" using ns(3) s by auto
      have eq: "keepBatch it vm = vm\<lparr>collectionOfPrePrepareMsgs := ?c @ [(pp_seqNumber ?pp, ?pp)]\<rparr>"
        using True update_fresh [OF new] by (simp add: keepBatch_def Let_def)
      have "no_slots (keepBatch it vm)" using ns(1) by (simp add: eq no_slots_def)
      then show ?thesis using no_slots_owned ns(1) by (simp add: accounted_def) (simp add: eq)
    next
      case False
      then have "keepBatch it vm = free (pp_address ?pp) vm" by (auto simp: keepBatch_def Let_def)
      then show ?thesis using free_accounted by simp
    qed
  qed
qed

definition addresses :: "PrevViewInfo list \<Rightarrow> nat multiset" where
  "addresses its = mset (map (pp_address \<circ> pvi_prePrepare) its)"

lemma exitLoop_ok:
  assumes "prev_ok active prev" "iter_for prev de iter" "\<forall>it \<in> set its. info_ok active executed it"
    and "sorted_wrt (<) (de # map (pp_seqNumber \<circ> pvi_prePrepare) its)"
    and "\<forall>it \<in> set its. pp_seqNumber (pvi_prePrepare it) \<le> vr_lastStable rep + 300"
    and "vr_lastStable rep \<le> de" "length (vr_elements rep) + length its \<le> 300"
    and "24 + vcSize (vr_elements rep) + 187 * length its + sigLen \<le> 64000"
    and "myLatestActiveView vm = active" "lowerBoundStableForPendingView vm \<le> vr_lastStable rep" "collecting de vm"
  shows "\<exists>de' vm'. exitLoop sigLen executed its iter de rep vm =
      Some (de', rep\<lparr>vr_elements := vr_elements rep @ List.map_filter (reportElement active prev) its\<rparr>, vm') \<and>
    de' = last (de # map (pp_seqNumber \<circ> pvi_prePrepare) its) \<and>
    recollected vm vm' \<and> collecting de' vm' \<and> accounted vm' = accounted vm + addresses its"
  using assms
proof (induction its arbitrary: iter de rep vm)
  case Nil
  then show ?case using recollected_refl by (simp add: map_filter_simps addresses_def)
next
  case (Cons it its)
  let ?s = "pp_seqNumber (pvi_prePrepare it)" and ?x = "reportElement active prev it"
  let ?rep = "appendElement ?x rep" and ?vm = "keepBatch it vm"
  have it: "info_ok active executed it" "de < ?s" "?s \<le> vr_lastStable rep + 300" using Cons.prems(3-5) by auto
  have xs: "vce_seqNum x = ?s" "elementLength x \<le> 187" if "?x = Some x" for x using reportElement_ok [OF it(1) Cons.prems(1) that] by auto
  have fit: "fits sigLen rep x" if "?x = Some x" for x
    using xs [OF that] it Cons.prems(6-8) by (simp add: fits_def)
  obtain iter' where st: "iter_for prev ?s iter'"
    "exitLoop sigLen executed (it # its) iter de rep vm = exitLoop sigLen executed its iter' ?s ?rep ?vm"
    using exitLoop_step [OF Cons.prems(1,2) it(1,2) Cons.prems(9) _ fit] Cons.prems(6,10) it(2) by fastforce
  note k = keepBatch_ok [OF Cons.prems(11) it(2)]
  have rep: "vr_lastStable ?rep = vr_lastStable rep" "length (vr_elements ?rep) + length its \<le> 300"
    "24 + vcSize (vr_elements ?rep) + 187 * length its + sigLen \<le> 64000"
    using Cons.prems(7,8) xs(2) by (auto simp: appendElement_def split: option.splits)
  have vm: "myLatestActiveView ?vm = active" "lowerBoundStableForPendingView ?vm \<le> vr_lastStable ?rep"
    using k(1) Cons.prems(9,10) rep(1) by (auto simp: recollected_def)
  have "\<exists>de' vm'. exitLoop sigLen executed its iter' ?s ?rep ?vm =
      Some (de', ?rep\<lparr>vr_elements := vr_elements ?rep @ List.map_filter (reportElement active prev) its\<rparr>, vm') \<and>
    de' = last (?s # map (pp_seqNumber \<circ> pvi_prePrepare) its) \<and>
    recollected ?vm vm' \<and> collecting de' vm' \<and> accounted vm' = accounted ?vm + addresses its"
    using Cons.prems(3-6) it(2) rep(1)
    by (intro Cons.IH [OF Cons.prems(1) st(1) _ _ _ _ rep(2,3) vm k(2)]) auto
  then obtain de' vm' where r: "exitLoop sigLen executed its iter' ?s ?rep ?vm =
      Some (de', ?rep\<lparr>vr_elements := vr_elements ?rep @ List.map_filter (reportElement active prev) its\<rparr>, vm')"
    "de' = last (?s # map (pp_seqNumber \<circ> pvi_prePrepare) its)" "recollected ?vm vm'" "collecting de' vm'" "accounted vm' = accounted ?vm + addresses its"
    by blast
  have eq: "?rep\<lparr>vr_elements := vr_elements ?rep @ List.map_filter (reportElement active prev) its\<rparr> =
      rep\<lparr>vr_elements := vr_elements rep @ List.map_filter (reportElement active prev) (it # its)\<rparr>"
    by (simp add: appendElement_def map_filter_simps split: option.split)
  have "accounted vm' = accounted vm + addresses (it # its)" using r(5) k(3) by (simp add: addresses_def)
  moreover have "de' = last (de # map (pp_seqNumber \<circ> pvi_prePrepare) (it # its))" using r(2) by simp
  ultimately show ?case unfolding st(2) r(1) eq using r(4) recollected_trans [OF k(1) r(3)] by blast
qed

lemma exitLoop_batches:
  assumes "exitLoop sigLen executed its iter de rep vm = Some (de', rep', vm')" "collecting de vm"
  shows "recollected vm vm' \<and> collecting de' vm' \<and> accounted vm' = accounted vm + addresses its"
  using assms
proof (induction its arbitrary: iter de rep vm)
  case Nil
  then show ?case using recollected_refl by (simp add: addresses_def)
next
  case (Cons it its)
  let ?s = "pp_seqNumber (pvi_prePrepare it)"
  obtain iter1 rep1 where run: "de < ?s" "exitLoop sigLen executed its iter1 ?s rep1 (keepBatch it vm) = Some (de', rep', vm')"
    using Cons.prems(1) by (auto simp: keepBatch_def Let_def Option.bind_eq_Some_conv)
  note k = keepBatch_ok [OF Cons.prems(2) run(1)]
  have "accounted vm' = accounted (keepBatch it vm) + addresses its" using Cons.IH [OF run(2) k(2)] by simp
  then have "accounted vm' = accounted vm + addresses (it # its)" using k(3) by (simp add: addresses_def)
  then show ?case using Cons.IH [OF run(2) k(2)] recollected_trans [OF k(1)] by blast
qed

text \<open>The state in which the batches have been taken over, before the data of the view are dropped.\<close>

lemma leaving_base:
  assumes inv: "vm_inv vm" "stat vm = IN_VIEW" and r: "recollected (vm\<lparr>debugHighestKnownStable := s, stat := NO_VIEW\<rparr>) vm1" "collecting de vm1"
  shows "vm_base vm1" "stat vm1 = NO_VIEW" "replicasInfo vm1 = replicasInfo vm" "vm_N vm1 = vm_N vm"
proof -
  obtain c fr where eq: "vm1 = vm\<lparr>debugHighestKnownStable := s, stat := NO_VIEW, collectionOfPrePrepareMsgs := c, freed := fr\<rparr>"
    using r(1) by (auto simp: recollected_def)
  have ok: "slots_ok vm1" "window_ok vm1" "config_ok vm1" "nothing_pending vm1 = nothing_pending vm"
    using inv(1) by (simp_all add: vm_inv_def vm_base_def batches_ok_def slots_ok_def window_ok_def config_ok_def nothing_pending_def eq)
  have "batches_ok vm1" using ok r(2) no_slots_attached by (simp add: batches_ok_def collecting_def)
  then show "vm_base vm1" using inv(1) ok(3,4) unfolding vm_inv_def vm_base_def by (simp add: eq)
  show "stat vm1 = NO_VIEW" "replicasInfo vm1 = replicasInfo vm" "vm_N vm1 = vm_N vm" by (simp_all add: eq)
qed

lemma collecting_start:
  assumes "vm_inv vm" "stat vm = IN_VIEW"
  shows "collecting de (vm\<lparr>debugHighestKnownStable := s, stat := NO_VIEW\<rparr>)"
    "accounted (vm\<lparr>debugHighestKnownStable := s, stat := NO_VIEW\<rparr>) = accounted vm"
proof -
  show "collecting de (vm\<lparr>debugHighestKnownStable := s, stat := NO_VIEW\<rparr>)"
    using assms by (simp add: collecting_def vm_inv_def stat_ok_def no_slots_def coll_ok_def)
  show "accounted (vm\<lparr>debugHighestKnownStable := s, stat := NO_VIEW\<rparr>) = accounted vm" by (rule accounted_cong) simp_all
qed

lemma left_inv:
  assumes base: "vm_base vm1" "stat vm1 = NO_VIEW" and m: "idOfGeneratedReplica m = vm_myId vm1"
    and reset: "resetDataOfLatestPendingAndKeepMyViewChange vm1 = Some vm2"
  defines "vm' \<equiv> vm2\<lparr>viewChangeMessages := (viewChangeMessages vm2)[vm_myId vm2 := Some m]\<rparr>"
  shows "vm_inv vm' \<and> accounted vm' = accounted vm1 \<and> stat vm' = NO_VIEW \<and> vm_myId vm2 = vm_myId vm1 \<and>
    viewChangeMessages vm' ! vm_myId vm1 = Some m \<and> myLatestPendingView vm' = myLatestPendingView vm1"
proof -
  have r0: "was_reset vm1 vm2" using reset_ok [OF base(1)] reset by auto
  note r = was_reset_base [OF base(1) r0]
  have id: "replicasInfo vm2 = replicasInfo vm1" "stat vm2 = NO_VIEW" using r(3) base(2) by (simp_all add: same_core_def)
  have len: "length (newViewMessages vm2) = vm_N vm2" "length (viewChangeMessages vm2) = vm_N vm2" "from_owner (viewChangeMessages vm2)" "vm_myId vm2 < vm_N vm2"
    using r(1) config_facts(4) by (simp_all add: vm_base_def config_ok_def)
  have fo: "from_owner ((viewChangeMessages vm2)[vm_myId vm2 := Some m])" using from_owner_update [OF len(3), of "Some m"] m id(1) by simp
  have eq: "vm' = vm2\<lparr>viewChangeMessages := (viewChangeMessages vm2)[vm_myId vm2 := Some m], newViewMessages := newViewMessages vm2\<rparr>" by (simp add: vm'_def)
  have "vm_base vm'" "accounted vm' = accounted vm2" unfolding eq using inv_messages(1,3) [OF fo _ len(1)] len(2) r(1) by simp_all
  moreover have "stat_ok vm'" using r(2) id(2) by (simp add: stat_ok_def nothing_pending_def vm'_def)
  ultimately show ?thesis using r(4,6) id len by (simp add: vm_inv_def) (simp add: vm'_def)
qed

lemma exit_inv:
  assumes inv: "vm_inv vm" and run: "exitFromCurrentView sigLen s executed its vm = Some (m, vm')"
  shows "vm_inv vm' \<and> accounted vm' = accounted vm + addresses its"
proof -
  define vm0 where "vm0 = vm\<lparr>debugHighestKnownStable := s, stat := NO_VIEW\<rparr>"
  obtain iter rep de' rep' vm1 vm2 where st: "stat vm = IN_VIEW" and l: "exitLoop sigLen executed its iter s rep vm0 = Some (de', rep', vm1)"
    and reset: "resetDataOfLatestPendingAndKeepMyViewChange vm1 = Some vm2"
    and m: "m = \<lparr>idOfGeneratedReplica = vm_myId vm2, vcm_report = rep'\<rparr>"
    and vm': "vm' = vm2\<lparr>viewChangeMessages := (viewChangeMessages vm2)[vm_myId vm2 := Some m]\<rparr>"
    using run unfolding exitFromCurrentView_def vm0_def by (auto simp: Let_def Option.bind_eq_Some_conv)
  have c: "recollected vm0 vm1" "collecting de' vm1" "accounted vm1 = accounted vm + addresses its"
    using exitLoop_batches [OF l] collecting_start(1) [OF inv st, where de = s and s = s] collecting_start(2) [OF inv st, where s = s] by (simp_all add: vm0_def)
  note b = leaving_base [OF inv st c(1) [unfolded vm0_def] c(2)]
  have "was_reset vm1 vm2" using reset_ok [OF b(1)] reset by auto
  then have "vm_myId vm2 = vm_myId vm1" using was_reset_base(3) [OF b(1)] by (simp add: same_core_def)
  then show ?thesis using left_inv [OF b(1,2) _ reset, of m] m vm' c(3) by simp
qed

section \<open>Runs\<close>

text \<open>\<open>received\<close> are the addresses of the batches given to the manager and \<open>handedOut\<close> those of the batches it
  handed out, null batches apart, which it creates itself. A batch that is received is not one it owns.\<close>

inductive vm_run :: "ReplicasInfo \<Rightarrow> (Digest \<Rightarrow> byte list \<Rightarrow> bool) \<Rightarrow> ViewsManager \<Rightarrow> nat multiset \<Rightarrow> nat multiset \<Rightarrow> bool"
  for info verify where
  created: "newViewsManager info verify = Some vm \<Longrightarrow> vm_run info verify vm {#} {#}"
| new_view: "vm_run info verify vm R H \<Longrightarrow> addNewView nv vm = Some (b, vm') \<Longrightarrow> vm_run info verify vm' R H"
| view_change: "vm_run info verify vm R H \<Longrightarrow> addViewChange hashVC vc vm = Some (b, vm') \<Longrightarrow> vm_run info verify vm' R H"
| renumbered: "vm_run info verify vm R H \<Longrightarrow> setMyNewViewNumber v vm = Some vm' \<Longrightarrow> vm_run info verify vm' R H"
| left: "vm_run info verify vm R H \<Longrightarrow> exitFromCurrentView sigLen s e its vm = Some (m, vm') \<Longrightarrow> vm_run info verify vm' (R + addresses its) H"
| tried: "vm_run info verify vm R H \<Longrightarrow> tryToEnterView hashVC fresh v s e vm = Some (b, out, vm') \<Longrightarrow> vm_run info verify vm' R (H + given out)"
| batch: "vm_run info verify vm R H \<Longrightarrow> addPotentiallyMissingPP p vm = Some (b, vm') \<Longrightarrow> pp_address p \<notin># owned vm \<Longrightarrow>
    vm_run info verify vm' (R + {#pp_address p#}) H"

lemma vm_run_inv:
  assumes "vm_run info verify vm R H" "wf_replicas_info info"
  shows "vm_inv vm \<and> R = accounted vm + H"
  using assms
proof (induction rule: vm_run.induct)
  case (created vm)
  then show ?case using newViewsManager_inv by simp
next
  case (new_view vm R H nv b vm')
  then show ?case using addNewView_inv by metis
next
  case (view_change vm R H hashVC vc b vm')
  then show ?case using addViewChange_inv by metis
next
  case (renumbered vm R H v vm')
  then show ?case using setMyNewViewNumber_inv by metis
next
  case (left vm R H sigLen s e its m vm')
  then show ?case using exit_inv [of vm sigLen s e its m vm'] by simp
next
  case (tried vm R H hashVC fresh v s e b out vm')
  then show ?case using tryToEnterView_inv [of vm hashVC fresh v s e b out vm'] by simp
next
  case (batch vm R H p b vm')
  then show ?case using addPP_inv [of vm p b vm'] by simp
qed

text \<open>C6: no batch is lost or freed twice. In every state that a sequence of operations reaches, the batches
  received are those the manager owns, those it freed and those it handed out, each counted as often as it
  was received; so, as long as no batch comes back before it was handed out, none is freed twice and none
  that is freed is still owned.\<close>

theorem batches_accounted:
  assumes "vm_run info verify vm R H" "wf_replicas_info info"
  shows "R = owned vm + mset (freed vm) + H \<and>
    ((\<forall>a. count R a \<le> count H a + 1) \<longrightarrow> distinct (freed vm) \<and> set (freed vm) \<inter> set_mset (owned vm) = {})"
proof -
  have R: "R = owned vm + mset (freed vm) + H" using vm_run_inv [OF assms] by (simp add: accounted_def)
  have once: "count (owned vm) a + count (mset (freed vm)) a \<le> 1" if "count R a \<le> count H a + 1" for a using that R by simp
  have "distinct (freed vm) \<and> set (freed vm) \<inter> set_mset (owned vm) = {}" if all: "\<forall>a. count R a \<le> count H a + 1"
  proof
    have "count (mset (freed vm)) a \<le> 1" for a using once [OF all [rule_format, of a]] by simp
    then show "distinct (freed vm)" using distinct_count_atmost_1 [of "freed vm"]
      by (metis count_mset_0_iff le_less_Suc_eq less_one nat_less_le One_nat_def le_zero_eq)
    show "set (freed vm) \<inter> set_mset (owned vm) = {}"
    proof (rule ccontr)
      assume "set (freed vm) \<inter> set_mset (owned vm) \<noteq> {}"
      then obtain a where "a \<in># mset (freed vm)" "a \<in># owned vm" by auto
      then show False using once [OF all [rule_format, of a]] by (metis add_eq_self_zero add_leD1 count_greater_eq_one_iff le_antisym not_one_le_zero nat_add_left_cancel_le)
    qed
  qed
  then show ?thesis using R by blast
qed

text \<open>C12: a pending view rests on a quorum. In every reachable state the active view is at most the pending one;
  while a view is pending, the manager holds the new-view message of that view and exactly \<open>2F + 2C + 1\<close>
  reports, each in the slot of the replica that generated it.\<close>

theorem pending_view_quorum:
  assumes "vm_run info verify vm R H" "wf_replicas_info info"
  shows "0 \<le> myLatestActiveView vm \<and> myLatestActiveView vm \<le> myLatestPendingView vm \<and>
    (stat vm = PENDING \<or> stat vm = PENDING_WITH_RESTRICTIONS \<longrightarrow> myLatestActiveView vm < myLatestPendingView vm \<and>
      (\<exists>nv. newViewMsgOfOfPendingView vm = Some nv \<and> nvm_newView nv = myLatestPendingView vm) \<and>
      card {i. i < vm_N vm \<and> viewChangeMsgsOfPendingView vm ! i \<noteq> None} = 2 * vm_F vm + 2 * vm_C vm + 1 \<and>
      (\<forall>i m. i < vm_N vm \<longrightarrow> viewChangeMsgsOfPendingView vm ! i = Some m \<longrightarrow> idOfGeneratedReplica m = i))"
proof -
  have inv: "vm_inv vm" using vm_run_inv [OF assms] by simp
  have len: "length (viewChangeMsgsOfPendingView vm) = vm_N vm" using inv by (simp add: vm_inv_def vm_base_def config_ok_def)
  have "quorum_pending vm \<and> myLatestActiveView vm < myLatestPendingView vm" if "stat vm = PENDING \<or> stat vm = PENDING_WITH_RESTRICTIONS"
    using inv that by (auto simp: vm_inv_def stat_ok_def)
  then show ?thesis using inv len
    by (auto simp: quorum_pending_def length_filter_conv_card vm_inv_def vm_base_def from_owner_def)
qed

end
