(* ===== verification/View_Protocol.thy ===== *)
theory View_Protocol
  imports View_Runs
begin

text \<open>
  What the operations of the views manager promise to the replica: the report of a view that is left, the
  views that the reports of others vouch for, when a view is entered, and which batches it starts with.
\<close>

section \<open>Leaving a view\<close>

text \<open>The previous report of the replica, wherever it is kept.\<close>

definition myPreviousReport :: "ViewsManager \<Rightarrow> VCElement list" where
  "myPreviousReport vm =
     (case viewChangeMsgsOfPendingView vm ! vm_myId vm of
        Some m \<Rightarrow> vr_elements (vcm_report m)
      | None \<Rightarrow> (case viewChangeMessages vm ! vm_myId vm of None \<Rightarrow> [] | Some m \<Rightarrow> vr_elements (vcm_report m)))"

definition previous_valid :: "ViewsManager \<Rightarrow> bool" where
  "previous_valid vm \<longleftrightarrow> prev_ok (myLatestActiveView vm) (myPreviousReport vm) \<and>
     (myLatestActiveView vm = 0 \<or>
       (case viewChangeMsgsOfPendingView vm ! vm_myId vm of
          Some m \<Rightarrow> vcm_newView m = myLatestActiveView vm
        | None \<Rightarrow> (case viewChangeMessages vm ! vm_myId vm of None \<Rightarrow> False | Some m \<Rightarrow> vcm_newView m = myLatestActiveView vm)))"

text \<open>What the replica has to guarantee when it leaves the view: the batches are those of its window, in order.\<close>

definition exit_contract :: "nat \<Rightarrow> SeqNum \<Rightarrow> SeqNum \<Rightarrow> PrevViewInfo list \<Rightarrow> ViewsManager \<Rightarrow> bool" where
  "exit_contract sigLen lastStable lastExecuted its vm \<longleftrightarrow>
     stat vm = IN_VIEW \<and> sigLen \<le> 1024 \<and> debugHighestKnownStable vm \<le> lastStable \<and> lowerBoundStableForPendingView vm \<le> lastStable \<and>
     length its \<le> 300 \<and> sorted_wrt (<) (lastStable # map (pp_seqNumber \<circ> pvi_prePrepare) its) \<and>
     (\<forall>it \<in> set its. info_ok (myLatestActiveView vm) lastExecuted it \<and> pp_seqNumber (pvi_prePrepare it) \<le> lastStable + 300)"

lemma map_filter_elements_ok:
  assumes "\<forall>it \<in> set its. info_ok active executed it" "prev_ok active prev"
    "sorted_wrt (<) (p # map (pp_seqNumber \<circ> pvi_prePrepare) its)" "\<forall>it \<in> set its. pp_seqNumber (pvi_prePrepare it) \<le> s + 300"
  shows "vcElementsOk (active + 1) s p (List.map_filter (reportElement active prev) its)"
  using assms
proof (induction its arbitrary: p)
  case Nil
  then show ?case by (simp add: map_filter_simps)
next
  case (Cons it its)
  let ?s = "pp_seqNumber (pvi_prePrepare it)"
  have IH: "vcElementsOk (active + 1) s q (List.map_filter (reportElement active prev) its)" if "q \<le> ?s" for q
    using Cons.prems that by (intro Cons.IH) (auto intro: order_le_less_trans)
  show ?case
  proof (cases "reportElement active prev it")
    case None
    then show ?thesis using IH [of p] Cons.prems(3) by (simp add: map_filter_simps)
  next
    case (Some x)
    have "vce_seqNum x = ?s" "vce_originView x = active" "vceCertOk x"
      using reportElement_ok [OF _ Cons.prems(2) Some, of executed] Cons.prems(1) by auto
    then show ?thesis using IH [of ?s] Some Cons.prems(3,4) by (simp add: map_filter_simps)
  qed
qed

lemma exit_total:
  assumes inv: "vm_inv vm" and c: "exit_contract sigLen s executed its vm" "previous_valid vm"
  shows "\<exists>m vm'. exitFromCurrentView sigLen s executed its vm = Some (m, vm') \<and>
    m = \<lparr>idOfGeneratedReplica = vm_myId vm, vcm_report = \<lparr>vr_newView = myLatestActiveView vm + 1, vr_lastStable = s,
          vr_elements = List.map_filter (reportElement (myLatestActiveView vm) (myPreviousReport vm)) its\<rparr>\<rparr> \<and>
    stat vm' = NO_VIEW \<and> viewChangeMessages vm' ! vm_myId vm = Some m \<and> vm_inv vm' \<and> accounted vm' = accounted vm + addresses its"
proof -
  let ?v = "myLatestActiveView vm" and ?prev = "myPreviousReport vm"
  define vm0 where "vm0 = vm\<lparr>debugHighestKnownStable := s, stat := NO_VIEW\<rparr>"
  define rep where "rep = \<lparr>vr_newView = ?v + 1, vr_lastStable = s, vr_elements = []\<rparr>"
  have st: "stat vm = IN_VIEW" "?v = myLatestPendingView vm" "collectionOfPrePrepareMsgs vm = []"
    using c(1) inv by (simp_all add: exit_contract_def vm_inv_def stat_ok_def)
  have me: "vm_myId vm < length (viewChangeMsgsOfPendingView vm)" "vm_myId vm < length (viewChangeMessages vm)"
    using inv config_facts(4) [of vm] by (simp_all add: vm_inv_def vm_base_def config_ok_def)
  have prev: "prev_ok ?v ?prev" using c(2) by (simp add: previous_valid_def)
  have "iter_for ?prev s ?prev" using prev by (simp add: iter_for_def prev_ok_def)
  moreover have "24 + vcSize (vr_elements rep) + 187 * length its + sigLen \<le> 64000"
    using c(1) by (simp add: exit_contract_def rep_def vcSize_def)
  moreover have "collecting s vm0" "accounted vm0 = accounted vm"
    using collecting_start(1) [OF inv st(1), where de = s and s = s] collecting_start(2) [OF inv st(1), where s = s] by (simp_all add: vm0_def)
  ultimately obtain de' vm1 where l: "exitLoop sigLen executed its ?prev s rep vm0 =
      Some (de', rep\<lparr>vr_elements := List.map_filter (reportElement ?v ?prev) its\<rparr>, vm1)"
    "de' = last (s # map (pp_seqNumber \<circ> pvi_prePrepare) its)" "recollected vm0 vm1" "collecting de' vm1" "accounted vm1 = accounted vm + addresses its"
    using exitLoop_ok [OF prev, of s ?prev its executed rep sigLen vm0] c(1)
    by (auto simp: exit_contract_def rep_def vm0_def)
  have de: "de' \<le> s + 300"
  proof (cases "its = []")
    case False
    then have "last its \<in> set its" by simp
    then show ?thesis using c(1) l(2) False by (auto simp: exit_contract_def last_map)
  qed (use l(2) in simp)
  note b = leaving_base [OF inv st(1) l(3) [unfolded vm0_def] l(4)]
  obtain vm2 where reset: "resetDataOfLatestPendingAndKeepMyViewChange vm1 = Some vm2" using reset_ok [OF b(1)] by blast
  define m where "m = \<lparr>idOfGeneratedReplica = vm_myId vm, vcm_report = rep\<lparr>vr_elements := List.map_filter (reportElement ?v ?prev) its\<rparr>\<rparr>"
  have "idOfGeneratedReplica m = vm_myId vm1" using b(3) by (simp add: m_def)
  note fin = left_inv [OF b(1,2) this reset]
  have id2: "vm_myId vm2 = vm_myId vm" using fin b(3) by simp
  have con: "length its \<le> 300" "debugHighestKnownStable vm \<le> s" using c(1) by (simp_all add: exit_contract_def)
  have "exitFromCurrentView sigLen s executed its vm = Some (m, vm2\<lparr>viewChangeMessages := (viewChangeMessages vm2)[vm_myId vm2 := Some m]\<rparr>)"
  proof (cases "viewChangeMsgsOfPendingView vm ! vm_myId vm")
    case (Some m0)
    then have "exitLoop sigLen executed its (vr_elements (vcm_report m0)) s rep vm0 =
        Some (de', rep\<lparr>vr_elements := List.map_filter (reportElement ?v ?prev) its\<rparr>, vm1)" "?v = 0 \<or> vcm_newView m0 = ?v"
      using l(1) c(2) by (simp_all add: myPreviousReport_def previous_valid_def)
    then show ?thesis unfolding exitFromCurrentView_def using Some me st con de reset id2
      by (simp add: Let_def at_def vm0_def rep_def m_def)
  next
    case None
    then have "exitLoop sigLen executed its (case viewChangeMessages vm ! vm_myId vm of None \<Rightarrow> [] | Some m \<Rightarrow> vr_elements (vcm_report m)) s rep vm0 =
        Some (de', rep\<lparr>vr_elements := List.map_filter (reportElement ?v ?prev) its\<rparr>, vm1)"
      "?v = 0 \<or> (\<exists>m. viewChangeMessages vm ! vm_myId vm = Some m \<and> vcm_newView m = ?v)"
      using l(1) c(2) by (auto simp: myPreviousReport_def previous_valid_def split: option.splits)
    then show ?thesis unfolding exitFromCurrentView_def using None me st con de reset id2
      by (auto simp: Let_def at_def vm0_def rep_def m_def split: option.splits)
  qed
  then show ?thesis using fin b(3) l(5) by (auto simp: m_def rep_def)
qed

text \<open>C20: the report of a view that is left. In a reachable state, when the replica passes the batches of its
  window in order, leaving the view never fails; the report is for the next view, contains for every batch
  exactly what \<open>reportElement\<close> says, satisfies the conditions that receivers check, and is kept as the own
  report.\<close>

theorem leaving_report:
  assumes "vm_run info verify vm R H" "wf_replicas_info info" "exit_contract sigLen s executed its vm" "previous_valid vm"
  shows "\<exists>m vm'. exitFromCurrentView sigLen s executed its vm = Some (m, vm') \<and> idOfGeneratedReplica m = vm_myId vm \<and>
    vcm_newView m = myLatestActiveView vm + 1 \<and> vr_lastStable (vcm_report m) = s \<and>
    vr_elements (vcm_report m) = List.map_filter (reportElement (myLatestActiveView vm) (myPreviousReport vm)) its \<and>
    vcElementsOk (vcm_newView m) s s (vr_elements (vcm_report m)) \<and>
    stat vm' = NO_VIEW \<and> viewChangeMessages vm' ! vm_myId vm = Some m"
proof -
  have inv: "vm_inv vm" using vm_run_inv [OF assms(1,2)] by simp
  have "vcElementsOk (myLatestActiveView vm + 1) s s (List.map_filter (reportElement (myLatestActiveView vm) (myPreviousReport vm)) its)"
    using assms(3,4) by (intro map_filter_elements_ok) (auto simp: exit_contract_def previous_valid_def)
  then show ?thesis using exit_total [OF inv assms(3,4)] by auto
qed

section \<open>The views that others ask for\<close>

definition latestReport :: "ViewsManager \<Rightarrow> nat \<Rightarrow> VCMsg option" where
  "latestReport vm i = (if i = vm_myId vm \<and> viewChangeMsgsOfPendingView vm ! i \<noteq> None then viewChangeMsgsOfPendingView vm ! i
     else viewChangeMessages vm ! i)"

definition wants :: "ViewsManager \<Rightarrow> ViewNum \<Rightarrow> nat \<Rightarrow> bool" where
  "wants vm w i \<longleftrightarrow> (\<exists>m. latestReport vm i = Some m \<and> myLatestPendingView vm < vcm_newView m \<and> w \<le> vcm_newView m)"

lemma collectViews_eq:
  assumes "config_ok vm" "myLatestPendingView vm = 0 \<or> latestReport vm (vm_myId vm) \<noteq> None" "\<forall>i \<in> set is. i < vm_N vm"
  shows "collectViews vm is = Some (filter (\<lambda>v. myLatestPendingView vm < v) (map vcm_newView (List.map_filter (latestReport vm) is)))"
  using assms(3)
proof (induction "is")
  case Nil
  then show ?case by (simp add: map_filter_simps)
next
  case (Cons i "is")
  have len: "i < length (viewChangeMessages vm)" "i < length (viewChangeMsgsOfPendingView vm)" using Cons.prems assms(1) by (simp_all add: config_ok_def)
  have "(if i = vm_myId vm then getMyLatestViewChangeMsg vm else Some (viewChangeMessages vm ! i)) = Some (latestReport vm i)"
    using len assms(2) by (auto simp: getMyLatestViewChangeMsg_def latestReport_def at_def split: option.splits)
  then show ?case using len Cons by (auto simp: at_def map_filter_simps split: option.splits)
qed

lemma wanted_count:
  assumes "\<And>v. P v \<Longrightarrow> myLatestPendingView vm < v"
  shows "length (filter P (filter (\<lambda>v. myLatestPendingView vm < v) (map vcm_newView (List.map_filter (latestReport vm) [0..<n])))) =
    card {i. i < n \<and> (\<exists>m. latestReport vm i = Some m \<and> P (vcm_newView m))}"
proof (induction n)
  case (Suc n)
  let ?Q = "\<lambda>i. \<exists>m. latestReport vm i = Some m \<and> P (vcm_newView m)"
  have "{i. i < Suc n \<and> ?Q i} = (if ?Q n then insert n {i. i < n \<and> ?Q i} else {i. i < n \<and> ?Q i})" by (auto simp: less_Suc_eq)
  moreover have "List.map_filter (latestReport vm) [0..<Suc n] =
      List.map_filter (latestReport vm) [0..<n] @ (case latestReport vm n of None \<Rightarrow> [] | Some m \<Rightarrow> [m])"
    by (simp add: map_filter_def split: option.split)
  ultimately show ?case using Suc assms by (auto split: option.splits)
qed (simp add: map_filter_simps)

lemma ranked_views:
  fixes xs :: "int list"
  assumes "k < length xs"
  shows "k + 1 \<le> length (filter (\<lambda>v. rev (sort xs) ! k \<le> v) xs)" "length (filter (\<lambda>v. rev (sort xs) ! k < v) xs) \<le> k"
proof -
  have "length (filter P (rev (sort xs))) = length (filter P xs)" for P
    by (simp add: size_mset [symmetric] del: size_mset)
  then show "k + 1 \<le> length (filter (\<lambda>v. rev (sort xs) ! k \<le> v) xs)" "length (filter (\<lambda>v. rev (sort xs) ! k < v) xs) \<le> k"
    using filter_sorted_le [of "rev (sort xs)" k] assms by simp_all
qed

text \<open>The \<open>k\<close>-th highest of the views asked for: \<open>k + 1\<close> replicas want it, and fewer want any higher one.\<close>

lemma kth_view:
  fixes xs :: "int list"
  assumes "\<forall>x \<in> set xs. p < x" "0 < n"
  defines "c \<equiv> if length xs < n then p else rev (sort xs) ! (n - 1)"
  shows "p \<le> c" "p < c \<Longrightarrow> n \<le> length (filter (\<lambda>v. c \<le> v) xs)" "c < w \<Longrightarrow> length (filter (\<lambda>v. w \<le> v) xs) < n"
proof -
  show "p \<le> c"
  proof (cases "length xs < n")
    case False
    then have "rev (sort xs) ! (n - 1) \<in> set (rev (sort xs))" using assms(2) by (intro nth_mem) simp
    then show ?thesis using assms(1) False by (auto simp: c_def)
  qed (simp add: c_def)
  show "n \<le> length (filter (\<lambda>v. c \<le> v) xs)" if "p < c"
    using ranked_views(1) [of "n - 1" xs] that assms(2) by (auto simp: c_def split: if_splits)
  show "length (filter (\<lambda>v. w \<le> v) xs) < n" if "c < w"
  proof (cases "length xs < n")
    case True
    then show ?thesis using length_filter_le le_less_trans by blast
  next
    case False
    have "length (filter (\<lambda>v. w \<le> v) xs) \<le> length (filter (\<lambda>v. c < v) xs)" using that by (induction xs) auto
    also have "\<dots> \<le> n - 1" using ranked_views(2) [of "n - 1" xs] False assms(2) by (simp add: c_def)
    finally show ?thesis using assms(2) by simp
  qed
qed

text \<open>C27: the views that others ask for. In a reachable state the computation never fails; it returns the
  highest view beyond the pending one that \<open>F + 1\<close> replicas ask for, so that a correct one does, and the
  highest that \<open>2F + 2C + 1\<close> replicas ask for; it returns the pending view where there is none.\<close>

theorem known_views_vouched:
  assumes "vm_run info verify vm R H" "wf_replicas_info info" "myLatestPendingView vm = 0 \<or> latestReport vm (vm_myId vm) \<noteq> None"
  shows "\<exists>c a. computeCorrectRelevantViewNumbers vm = Some (c, a) \<and> myLatestPendingView vm \<le> a \<and> a \<le> c \<and>
    (myLatestPendingView vm < c \<longrightarrow> vm_F vm + 1 \<le> card {i. i < vm_N vm \<and> wants vm c i}) \<and>
    (myLatestPendingView vm < a \<longrightarrow> 2 * vm_F vm + 2 * vm_C vm + 1 \<le> card {i. i < vm_N vm \<and> wants vm a i}) \<and>
    (\<forall>w. c < w \<longrightarrow> card {i. i < vm_N vm \<and> wants vm w i} \<le> vm_F vm) \<and>
    (\<forall>w. a < w \<longrightarrow> card {i. i < vm_N vm \<and> wants vm w i} \<le> 2 * vm_F vm + 2 * vm_C vm)"
proof -
  let ?p = "myLatestPendingView vm" and ?n1 = "vm_F vm + 1" and ?n2 = "2 * vm_F vm + 2 * vm_C vm + 1"
  have cfg: "config_ok vm" using vm_run_inv [OF assms(1,2)] by (simp add: vm_inv_def vm_base_def)
  define xs where "xs = filter (\<lambda>v. ?p < v) (map vcm_newView (List.map_filter (latestReport vm) [0..<vm_N vm]))"
  have cv: "collectViews vm [0..<vm_N vm] = Some xs" using collectViews_eq [OF cfg assms(3)] by (simp add: xs_def)
  have xs: "\<forall>x \<in> set xs. ?p < x" by (simp add: xs_def)
  have card: "card {i. i < vm_N vm \<and> wants vm w i} = length (filter (\<lambda>v. w \<le> v) xs)" for w
  proof -
    have "length (filter (\<lambda>v. ?p < v \<and> w \<le> v) xs) = card {i. i < vm_N vm \<and> wants vm w i}"
      using wanted_count [of "\<lambda>v. ?p < v \<and> w \<le> v" vm "vm_N vm"] by (simp add: xs_def wants_def)
    moreover have "filter (\<lambda>v. ?p < v \<and> w \<le> v) xs = filter (\<lambda>v. w \<le> v) xs" using xs by (intro filter_cong) auto
    ultimately show ?thesis by simp
  qed
  define c a where "c = (if length xs < ?n1 then ?p else rev (sort xs) ! (?n1 - 1))" and "a = (if length xs < ?n2 then ?p else rev (sort xs) ! (?n2 - 1))"
  have u: "u16 (int ?n1) = ?n1" using config_facts(1,3) [OF cfg] by (simp add: u16_def)
  have srt: "sorted (rev (rev (sort xs)))" by simp
  have le: "rev (sort xs) ! j \<le> rev (sort xs) ! i" if "i \<le> j" "j < length xs" for i j
    using sorted_rev_nth_mono [OF srt, of i j] that by simp
  have ends: "last (rev (sort xs)) \<le> hd (rev (sort xs))" if "xs \<noteq> []"
  proof -
    have ne: "rev (sort xs) \<noteq> []" using that by (metis length_0_conv length_rev length_sort)
    show ?thesis using that le [of 0 "length xs - 1"] hd_conv_nth [OF ne] last_conv_nth [OF ne] by simp
  qed
  have run: "computeCorrectRelevantViewNumbers vm = Some (c, a)"
    unfolding computeCorrectRelevantViewNumbers_def using cv u ends config_facts(5) [OF cfg]
    by (cases "xs = []") (auto simp: Let_def c_def a_def)
  note c1 = kth_view [OF xs, of ?n1, folded c_def] and a1 = kth_view [OF xs, of ?n2, folded a_def]
  have "a \<le> c" using c1(1) le [of "vm_F vm" "?n2 - 1"] by (auto simp: a_def c_def)
  then show ?thesis unfolding card using run c1 a1 by (intro exI [of _ c] exI [of _ a]) (auto simp: less_Suc_eq_le)
qed

section \<open>Entering a view\<close>

definition enter_contract :: "ViewNum \<Rightarrow> SeqNum \<Rightarrow> SeqNum \<Rightarrow> ViewsManager \<Rightarrow> bool" where
  "enter_contract v s e vm \<longleftrightarrow> debugHighestViewNumberPassedByClient vm \<le> v \<and> debugHighestKnownStable vm \<le> s \<and> s \<le> e \<and>
     lowerBoundStableForPendingView vm \<le> s"

lemma pending_entry:
  assumes inv: "vm_inv vm" "stat vm = PENDING_WITH_RESTRICTIONS" "myLatestPendingView vm = v" and c: "enter_contract v s e vm"
  shows "\<exists>out vm'. let ok = (filter (lacking vm) (relevantNumbers vm s) = []) in
    tryToEnterView hashVC fresh v s e vm = Some (ok, out, vm') \<and>
    (if ok then view_entered v s out vm' else out = [] \<and> stat vm' = PENDING_WITH_RESTRICTIONS) \<and>
    viewChangeSafetyLogic vm' = viewChangeSafetyLogic vm \<and> reports vm' = reports vm \<and>
    lowerBoundStableForPendingView vm' = lowerBoundStableForPendingView vm"
proof -
  define vm0 where "vm0 = vm\<lparr>debugHighestViewNumberPassedByClient := v, debugHighestKnownStable := s\<rparr>"
  have inv0: "vm_inv vm0" using inv(1) debug_fields unfolding vm0_def by simp
  have f0: "stat vm0 = PENDING_WITH_RESTRICTIONS" "myLatestPendingView vm0 = v" "lowerBoundStableForPendingView vm0 \<le> s"
    "relevantNumbers vm0 s = relevantNumbers vm s" "lacking vm0 = lacking vm"
    using inv(2,3) c by (simp_all add: vm0_def enter_contract_def relevantNumbers_def lacking_def fun_eq_iff)
  have act: "myLatestActiveView vm < v" using inv by (simp add: vm_inv_def stat_ok_def)
  have run: "tryToEnterView hashVC fresh v s e vm = finishEntry fresh v s vm0"
    using inv(2,3) c act unfolding tryToEnterView_def completeEntry_def enter_contract_def Let_def vm0_def [symmetric]
    by (simp add: f0) (simp add: vm0_def)
  obtain b out vm' where f: "finishEntry fresh v s vm0 = Some (b, out, vm')" "if b then view_entered v s out vm' else vm' = vm0 \<and> out = [] \<and> stat vm' \<noteq> IN_VIEW"
    "b \<longleftrightarrow> stat vm0 = PENDING_WITH_RESTRICTIONS \<and> (\<forall>i \<in> set (relevantNumbers vm0 s). \<not> lacking vm0 i)"
    using finishEntry_inv [OF inv0 f0(2,3), of fresh] f0(1) by auto
  have "b \<longleftrightarrow> filter (lacking vm) (relevantNumbers vm s) = []" using f(3) f0 by (simp add: filter_empty_conv)
  moreover have "viewChangeSafetyLogic vm' = viewChangeSafetyLogic vm0 \<and> reports vm' = reports vm0 \<and>
      lowerBoundStableForPendingView vm' = lowerBoundStableForPendingView vm0"
  proof (cases b)
    case True
    have "slots_ok vm0" "attached_ok vm0" "coll_ok vm0" "window_ok vm0" using inv0 by (simp_all add: vm_inv_def vm_base_def batches_ok_def)
    moreover have "enterView fresh v s vm0 = Some (out, vm')"
      using f(1,3) True missing_eq(1) [OF inv0 f0(1), of s] by (auto simp: finishEntry_def Option.bind_eq_Some_conv)
    ultimately have "entered v vm0 vm'" using enterView_ok [of vm0 s fresh v] f(3) True by auto
    then show ?thesis by (auto simp: entered_def reports_def)
  qed (use f(2) in auto)
  ultimately show ?thesis using f(1,2) f0(1) unfolding run Let_def
    by (intro exI [of _ out] exI [of _ vm']) (auto simp: vm0_def reports_def)
qed


text \<open>The conditions under which a certificate binds the new view, for one number.\<close>

definition binding :: "SafetyLogic \<Rightarrow> VCReport option list \<Rightarrow> SeqNum \<Rightarrow> VCElement \<Rightarrow> ViewNum \<Rightarrow> bool" where
  "binding logic msgs i x w \<longleftrightarrow> x \<in> set (reportsAt i msgs) \<and> validCert logic i x w \<and> vce_digest x \<noteq> sl_nullDigest logic \<and>
     (\<forall>e' \<in> set (reportsAt i msgs). \<forall>v' \<ge> w. validCert logic i e' v' \<longrightarrow> vce_digest e' = vce_digest x) \<and>
     (\<forall>d. d \<noteq> vce_digest x \<longrightarrow> votes (w + 1) d (reportsAt i msgs) < sl_F logic + sl_C logic + 1)"

definition reports_usable :: "SafetyLogic \<Rightarrow> VCReport option list \<Rightarrow> bool" where
  "reports_usable logic msgs \<longleftrightarrow> (\<forall>vc. Some vc \<in> set msgs \<longrightarrow> report_ok vc) \<and> (\<forall>t. certs_agree logic t (reportsAt t msgs))"

text \<open>With usable reports, completing the entry never fails.\<close>

lemma restrictions_total:
  assumes inv: "vm_inv vm" "stat vm = PENDING" and ok: "reports_usable (viewChangeSafetyLogic vm) (reports vm)"
  shows "\<exists>vm'. computeRestrictionsOfNewView (myLatestPendingView vm) vm = Some vm'"
proof -
  let ?l = "viewChangeSafetyLogic vm" and ?lb = "lowerBoundStableForPendingView vm"
  have base: "config_ok vm" "slots_ok vm" "attached_ok vm" "coll_ok vm" "0 \<le> ?lb" "quorum_pending vm" "minRestrictionOfPendingView vm = 0"
    using inv by (simp_all add: vm_inv_def vm_base_def batches_ok_def stat_ok_def)
  have "\<exists>mn mx rs l. computeRestrictions ?l (reports vm) ?lb (restrictionsOfPendingView vm) = Some (mn, mx, rs) \<and>
     (\<forall>t. ?lb < t \<and> t \<le> ?lb + kWorkWindowSize \<longrightarrow>
       (if reportsAt t (reports vm) = [] then r_isNull (rs ! nat (t - ?lb - 1))
        else restrictedBy ?l t (reportsAt t (reports vm)) (rs ! nat (t - ?lb - 1)) l \<and> mn = ?lb + 1 \<and> (t \<le> l \<longrightarrow> t \<le> mx)))"
  proof (rule computeRestrictions_ok)
    show "\<forall>vc. Some vc \<in> set (reports vm) \<longrightarrow> report_ok vc"
      "\<forall>t. ?lb < t \<and> t \<le> ?lb + kWorkWindowSize \<longrightarrow> certs_agree ?l t (reportsAt t (reports vm))"
      using ok unfolding reports_usable_def by blast+
  qed (use base config_facts(1-3) [OF base(1)] in \<open>simp_all add: config_ok_def reports_def slots_ok_def quorumSize_def\<close>)
  then obtain mn mx rs where c: "computeRestrictions ?l (reports vm) ?lb (restrictionsOfPendingView vm) = Some (mn, mx, rs)" by blast
  note rng = computeRestrictions_range [OF c base(5)]
  define vm1 where "vm1 = vm\<lparr>minRestrictionOfPendingView := mn, maxRestrictionOfPendingView := mx, restrictionsOfPendingView := rs\<rparr>"
  have none: "no_slots vm1" using attached_no_window [OF base(3,7)] by (simp add: no_slots_def vm1_def)
  have at: "\<exists>vm'. attachLoop [mn..mx] vm1 = Some vm'" if mn: "mn \<noteq> 0"
  proof -
    have "slots_ok vm1" "coll_ok vm1" using base(2,4) rng by (simp_all add: slots_ok_def coll_ok_def vm1_def)
    moreover have "inRange vm1 [mn..mx]" "\<forall>i \<in> set [mn..mx]. i \<le> maxRestrictionOfPendingView vm1 \<and>
        prePrepareMsgsOfRestrictions vm1 ! nat (i - minRestrictionOfPendingView vm1) = None"
      using none rng mn by (auto simp: inRange_def no_slots_def vm1_def)
    ultimately show ?thesis using attachLoop_ok [OF _ no_slots_attached [OF none], of "[mn..mx]"] mn by (auto simp: vm1_def)
  qed
  obtain nv where nv: "newViewMsgOfOfPendingView vm = Some nv" "nvm_newView nv = myLatestPendingView vm" using base(6) by (auto simp: quorum_pending_def)
  have "computeRestrictionsOfNewView (myLatestPendingView vm) vm = (if mn \<noteq> 0 then attachLoop [mn..mx] vm1 else Some vm1)"
    using inv(2) nv c by (simp add: computeRestrictionsOfNewView_def reports_def vm1_def Let_def)
  then show ?thesis using at by simp
qed

lemma completeEntry_total:
  assumes inv: "vm_inv vm" "stat vm = PENDING" "lowerBoundStableForPendingView vm \<le> s" and ok: "reports_usable (viewChangeSafetyLogic vm) (reports vm)"
  shows "\<exists>b out vm'. completeEntry fresh (myLatestPendingView vm) s vm = Some (b, out, vm')"
proof -
  obtain vm1 where c: "computeRestrictionsOfNewView (myLatestPendingView vm) vm = Some vm1" using restrictions_total [OF inv(1,2) ok] by blast
  note i = computeRestrictionsOfNewView_inv [OF inv(1) c]
  have "\<exists>b out vm'. finishEntry fresh (myLatestPendingView vm) s (vm1\<lparr>stat := PENDING_WITH_RESTRICTIONS\<rparr>) = Some (b, out, vm')"
    using finishEntry_inv [of "vm1\<lparr>stat := PENDING_WITH_RESTRICTIONS\<rparr>" "myLatestPendingView vm" s fresh] i inv(3) by auto
  then show ?thesis using inv(2) c by (simp add: completeEntry_def)
qed

lemma bound_number:
  assumes inv: "vm_inv vm" "restrictions_computed vm" and ok: "reports_usable (viewChangeSafetyLogic vm) (reports vm)"
    and i: "lowerBoundStableForPendingView vm < i" "i \<le> lowerBoundStableForPendingView vm + 300" and x: "binding (viewChangeSafetyLogic vm) (reports vm) i x w"
  shows "minRestrictionOfPendingView vm = lowerBoundStableForPendingView vm + 1" "i \<le> maxRestrictionOfPendingView vm"
    "restrictionsOfPendingView vm ! nat (i - minRestrictionOfPendingView vm) = \<lparr>r_isNull = False, r_digest = vce_digest x\<rparr>"
proof -
  let ?l = "viewChangeSafetyLogic vm" and ?lb = "lowerBoundStableForPendingView vm"
  obtain arr where arr: "length arr = 300" "computeRestrictions ?l (reports vm) ?lb arr =
      Some (minRestrictionOfPendingView vm, maxRestrictionOfPendingView vm, restrictionsOfPendingView vm)"
    using inv(2) by (auto simp: restrictions_computed_def)
  have cfg: "config_ok vm" "0 \<le> ?lb" using inv(1) by (simp_all add: vm_inv_def vm_base_def)
  have lb: "0 \<le> ?lb" "length (reports vm) \<le> vm_N vm" "1 \<le> vm_F vm + vm_C vm" "vm_F vm + vm_C vm < 65535"
    using cfg config_facts(1-3) [OF cfg(1)] by (simp_all add: config_ok_def reports_def)
  have "\<exists>mn mx out. computeRestrictions ?l (reports vm) ?lb arr = Some (mn, mx, out) \<and> mn \<le> i \<and> i \<le> mx \<and>
      out ! nat (i - ?lb - 1) = \<lparr>r_isNull = False, r_digest = vce_digest x\<rparr>"
  proof (rule prepared_batch_survives)
    show "\<forall>vc. Some vc \<in> set (reports vm) \<longrightarrow> report_ok vc"
      "\<forall>t. ?lb < t \<and> t \<le> ?lb + kWorkWindowSize \<longrightarrow> certs_agree ?l t (reportsAt t (reports vm))"
      using ok unfolding reports_usable_def by blast+
    show "x \<in> set (reportsAt i (reports vm))" "validCert ?l i x w" "vce_digest x \<noteq> sl_nullDigest ?l"
      "\<forall>e' \<in> set (reportsAt i (reports vm)). \<forall>v' \<ge> w. validCert ?l i e' v' \<longrightarrow> vce_digest e' = vce_digest x"
      "\<forall>d. d \<noteq> vce_digest x \<longrightarrow> votes (w + 1) d (reportsAt i (reports vm)) < sl_F ?l + sl_C ?l + 1"
      using x unfolding binding_def by blast+
  qed (use lb i arr(1) in simp_all)
  then obtain mn mx out where c: "computeRestrictions ?l (reports vm) ?lb arr = Some (mn, mx, out)" "mn \<le> i" "i \<le> mx"
      "out ! nat (i - ?lb - 1) = \<lparr>r_isNull = False, r_digest = vce_digest x\<rparr>" by blast
  then show "i \<le> maxRestrictionOfPendingView vm" using arr(2) by simp
  show mn: "minRestrictionOfPendingView vm = ?lb + 1"
    using computeRestrictions_range [OF arr(2) lb(1)] c arr(2) i(1) lb(1) by auto
  show "restrictionsOfPendingView vm ! nat (i - minRestrictionOfPendingView vm) = \<lparr>r_isNull = False, r_digest = vce_digest x\<rparr>"
    using c arr(2) by (simp add: mn algebra_simps)
qed

lemma entered_keeps:
  assumes inv: "vm_inv vm'" and e: "view_entered v s out vm'" and ok: "reports_usable (viewChangeSafetyLogic vm') (reports vm')"
    and i: "s < i" "i \<le> lowerBoundStableForPendingView vm' + 300" and x: "binding (viewChangeSafetyLogic vm') (reports vm') i x w"
  shows "\<exists>pp \<in> set out. pp_seqNumber pp = i \<and> pp_viewNum (pp_header pp) = v \<and> pp_digest pp = vce_digest x \<and> \<not> pp_isNull (pp_header pp)"
proof -
  have en: "restrictions_computed vm'" "lowerBoundStableForPendingView vm' \<le> s" "list_all2 (proposes vm' v) (relevantNumbers vm' s) out"
    using e by (simp_all add: view_entered_def)
  have lb: "lowerBoundStableForPendingView vm' < i" using en(2) i(1) by simp
  note b = bound_number [OF inv en(1) ok lb i(2) x]
  have "i \<in> set (relevantNumbers vm' s)"
    using b(1,2) i(1) lb inv by (auto simp: relevantNumbers_def vm_inv_def vm_base_def)
  then obtain k where k: "k < length (relevantNumbers vm' s)" "relevantNumbers vm' s ! k = i" by (auto simp: in_set_conv_nth)
  then have "proposes vm' v i (out ! k)" "k < length out" using en(3) by (auto simp: list_all2_conv_all_nth)
  then show ?thesis using b(3) by (auto simp: proposes_def Let_def)
qed


end
