(* ===== verification/View_Examples.thy ===== *)
theory View_Examples
  imports View_Protocol
begin

text \<open>
  A run of the views manager of replica 1 among six: it leaves view 0 and, as the primary of view 1, gathers
  five reports, four of which hold a certificate for number 7. The view stays pending until the batch of
  that number arrives. The run shows that the hypotheses of the theorems on the views manager can be met.
\<close>

definition sample_check :: "Digest \<Rightarrow> byte list \<Rightarrow> bool" where
  "sample_check d sig \<longleftrightarrow> sig = [1]"

definition vm0 :: ViewsManager where
  "vm0 = the (newViewsManager sample_info sample_check)"

definition own_report :: VCMsg where
  "own_report = \<lparr>idOfGeneratedReplica = 1, vcm_report = \<lparr>vr_newView = 1, vr_lastStable = 0, vr_elements = []\<rparr>\<rparr>"

definition other_report :: "ReplicaId \<Rightarrow> VCMsg" where
  "other_report i = \<lparr>idOfGeneratedReplica = i, vcm_report = \<lparr>vr_newView = 1, vr_lastStable = 0, vr_elements = [sample_vce 2 0 (Some (0, [1]))]\<rparr>\<rparr>"

definition hash_one :: "VCMsg \<Rightarrow> Digest" where
  "hash_one m = replicate 32 1"

lemma vm0_eq: "newViewsManager sample_info sample_check = Some vm0"
  by (simp add: vm0_def newViewsManager_def newViewChangeSafetyLogic_def Let_def u16_def)

lemma vm0_sel [simp]:
  "replicasInfo vm0 = sample_info" "stat vm0 = IN_VIEW" "myLatestActiveView vm0 = 0" "myLatestPendingView vm0 = 0"
  "viewChangeMessages vm0 = [None, None, None, None, None, None]" "newViewMessages vm0 = [None, None, None, None, None, None]"
  "collectionOfPrePrepareMsgs vm0 = []" "viewChangeMsgsOfPendingView vm0 = [None, None, None, None, None, None]"
  "newViewMsgOfOfPendingView vm0 = None" "minRestrictionOfPendingView vm0 = 0" "lowerBoundStableForPendingView vm0 = 0"
  "debugHighestKnownStable vm0 = 0" "debugHighestViewNumberPassedByClient vm0 = 0"
  "viewChangeSafetyLogic vm0 = \<lparr>sl_N = 6, sl_F = 1, sl_C = 1, preparedCertVerifier = sample_check, sl_nullDigest = digestOfNullPrePrepareMsg\<rparr>"
  by (simp_all add: vm0_def newViewsManager_def newViewChangeSafetyLogic_def Let_def u16_def numeral_eq_Suc)

definition vm1 :: ViewsManager where
  "vm1 = vm0\<lparr>debugHighestKnownStable := 0, stat := NO_VIEW, viewChangeMessages := [None, Some own_report, None, None, None, None]\<rparr>"

lemma vm1_exit: "exitFromCurrentView 0 0 0 [] vm0 = Some (own_report, vm1)"
  by (simp add: exitFromCurrentView_def resetDataOfLatestPendingAndKeepMyViewChange_def at_def vm1_def own_report_def Let_def)

definition vm2 :: ViewsManager where
  "vm2 = vm1\<lparr>viewChangeMessages := [Some (other_report 0), Some own_report, Some (other_report 2), Some (other_report 3), Some (other_report 4), None]\<rparr>"

lemma sample_primary_1: "primaryOfView sample_info 1 = 1"
  by (simp add: primaryOfView_def u16_def signed_modulo_int_def signed_divide_int_def)

lemma vm1_run: "vm_run sample_info sample_check vm1 {#} {#}"
  using vm_run.left [OF vm_run.created [OF vm0_eq] vm1_exit] by (simp add: addresses_def)

lemma vm2_run: "vm_run sample_info sample_check vm2 {#} {#}"
proof -
  let ?a = "vm1\<lparr>viewChangeMessages := [Some (other_report 0), Some own_report, None, None, None, None]\<rparr>"
  let ?b = "vm1\<lparr>viewChangeMessages := [Some (other_report 0), Some own_report, Some (other_report 2), None, None, None]\<rparr>"
  let ?c = "vm1\<lparr>viewChangeMessages := [Some (other_report 0), Some own_report, Some (other_report 2), Some (other_report 3), None, None]\<rparr>"
  have "addViewChange hash_one (other_report 0) vm1 = Some (True, ?a)" "addViewChange hash_one (other_report 2) ?a = Some (True, ?b)"
    "addViewChange hash_one (other_report 3) ?b = Some (True, ?c)" "addViewChange hash_one (other_report 4) ?c = Some (True, vm2)"
    by (simp_all add: addViewChange_def vm1_def vm2_def other_report_def sample_primary_1 at_def Let_def numeral_eq_Suc)
  then show ?thesis using vm1_run vm_run.view_change by meson
qed

lemma attachLoop_frame: "attachLoop is vm = Some vm' \<Longrightarrow> \<exists>ps. vm' = vm\<lparr>prePrepareMsgsOfRestrictions := ps\<rparr>"
proof (induction "is" arbitrary: vm)
  case Nil
  then have "vm' = vm\<lparr>prePrepareMsgsOfRestrictions := prePrepareMsgsOfRestrictions vm\<rparr>" by simp
  then show ?case by blast
next
  case (Cons i "is")
  obtain vm1 where run: "attachLoop is vm1 = Some vm'" "vm1 = vm \<or> (\<exists>ps. vm1 = vm\<lparr>prePrepareMsgsOfRestrictions := ps\<rparr>)"
    using Cons.prems by (auto simp: Option.bind_eq_Some_conv Let_def split: if_splits option.splits)
  then show ?case using Cons.IH [OF run(1)] by auto
qed

lemma restrictions_frame:
  assumes "computeRestrictionsOfNewView v vm = Some vm'"
  shows "same_core vm vm' \<and> reports vm' = reports vm"
proof -
  obtain mn mx rs where "(if mn \<noteq> 0 then attachLoop [mn..mx] (vm\<lparr>minRestrictionOfPendingView := mn, maxRestrictionOfPendingView := mx, restrictionsOfPendingView := rs\<rparr>)
      else Some (vm\<lparr>minRestrictionOfPendingView := mn, maxRestrictionOfPendingView := mx, restrictionsOfPendingView := rs\<rparr>)) = Some vm'"
    using assms by (auto simp: computeRestrictionsOfNewView_def Let_def Option.bind_eq_Some_conv)
  then show ?thesis using attachLoop_frame by (fastforce simp: same_core_def reports_def split: if_splits)
qed

definition vmP :: ViewsManager where
  "vmP = vm2\<lparr>debugHighestViewNumberPassedByClient := 1, viewChangeMessages := [None, None, None, None, None, None],
     viewChangeMsgsOfPendingView := [Some (other_report 0), Some own_report, Some (other_report 2), Some (other_report 3), Some (other_report 4), None],
     newViewMsgOfOfPendingView := Some \<lparr>nvm_senderId = 1, nvm_newView = 1, nvm_elements = map (\<lambda>i. (i, replicate 32 1)) [0, 1, 2, 3, 4]\<rparr>,
     myLatestPendingView := 1, stat := PENDING\<rparr>"

lemma sample_related: "collectForPrimary (vm2\<lparr>debugHighestViewNumberPassedByClient := 1, stat := NO_VIEW, newViewMessages := nvs\<rparr>) 1 [0..<6] [1] = Some [0, 1, 2, 3, 4]"
  by (simp add: vm2_def vm1_def upt_rec at_def Let_def other_report_def SMAJOR_def u16_def insort_insert_key_def numeral_eq_Suc)

lemma four: "(4::nat) = Suc (Suc (Suc (Suc 0)))"
  by simp

lemma replicate_one_nonzero: "\<not> isZero (replicate 32 1)"
  by (simp add: isZero_def)

lemma vmP_moved:
  "moveToPendingView hash_one 1 0 (vm2\<lparr>debugHighestViewNumberPassedByClient := 1, debugHighestKnownStable := 0\<rparr>) = Some (True, vmP)"
proof -
  let ?vm = "vm2\<lparr>debugHighestViewNumberPassedByClient := 1, stat := NO_VIEW\<rparr>"
  have dbg: "vm2\<lparr>debugHighestViewNumberPassedByClient := 1, debugHighestKnownStable := 0, stat := NO_VIEW\<rparr> = ?vm"
    by (simp add: vm2_def vm1_def)
  have move: "tryMoveToPendingViewAsPrimary hash_one 1 ?vm = Some (True, vmP\<lparr>stat := NO_VIEW\<rparr>)"
    using sample_related
    by (simp add: tryMoveToPendingViewAsPrimary_def resetDataOfLatestPendingAndKeepMyViewChange_def Let_def at_def SMAJOR_def u16_def
        sample_primary_1 moveReport_def nvm_addElement_def hash_one_def own_report_def other_report_def vmP_def vm2_def vm1_def
        four numeral_2_eq_2 numeral_3_eq_3 replicate_one_nonzero)
  have "calcLBStableForView (viewChangeSafetyLogic vm0) (map (map_option vcm_report) (viewChangeMsgsOfPendingView vmP)) = Some 0"
    by (simp add: calcLBStableForView_def vmP_def own_report_def other_report_def u16_def Let_def)
  then show ?thesis
    unfolding moveToPendingView_def Let_def dbg
    using move by (simp add: sample_primary_1 vmP_def vm2_def vm1_def)
qed

section \<open>The pending view\<close>

abbreviation sample_cert :: VCElement where
  "sample_cert \<equiv> sample_vce 2 0 (Some (0, [1]))"

lemma vmP_inv: "vm_inv vmP" "accounted vmP = {#}"
proof -
  have i: "vm_inv vm2" "accounted vm2 = {#}" using vm_run_inv [OF vm2_run sample_info_wf] by simp_all
  let ?vm = "vm2\<lparr>debugHighestViewNumberPassedByClient := 1, debugHighestKnownStable := 0\<rparr>"
  have "vm_inv ?vm" "accounted ?vm = {#}" using i debug_fields by simp_all
  moreover have "myLatestActiveView ?vm < 1" by (simp add: vm2_def vm1_def)
  ultimately show "vm_inv vmP" "accounted vmP = {#}" using moveToPendingView_ok [OF _ _ vmP_moved] by (auto simp: vm_inv_def)
qed

lemma vmP_sel: "stat vmP = PENDING" "lowerBoundStableForPendingView vmP = 0" "myLatestPendingView vmP = 1" "myLatestActiveView vmP = 0"
  "viewChangeSafetyLogic vmP = viewChangeSafetyLogic vm0" "debugHighestViewNumberPassedByClient vmP = 1" "debugHighestKnownStable vmP = 0"
  by (simp_all add: vmP_def vm2_def vm1_def)

lemma vmP_reports: "reportsAt t (reports vmP) = (if t = 7 then replicate 4 sample_cert else [])"
  by (simp add: reports_def reportsAt_def vmP_def own_report_def other_report_def sample_vce_def numeral_eq_Suc)

lemma vmP_usable: "reports_usable (viewChangeSafetyLogic vm0) (reports vmP)"
  unfolding reports_usable_def vmP_reports
  by (auto simp: certs_agree_def reports_def vmP_def own_report_def other_report_def report_ok_def element_ok_def sample_vce_def)

lemma vmP_binding: "binding (viewChangeSafetyLogic vm0) (reports vmP) 7 sample_cert 0"
proof -
  have "replicate 32 (2 :: byte) \<noteq> replicate 32 0x18" using digest_neq [of 2 "0x18"] by simp
  then show ?thesis unfolding binding_def vmP_reports
    by (simp add: validCert_def votes_def sample_vce_def sample_check_def digestOfNullPrePrepareMsg_def nullDigest_def)
qed

lemma accounted_empty: "accounted vm = {#} \<Longrightarrow> no_slots vm"
  unfolding no_slots_def
proof (intro allI impI)
  fix idx :: nat assume a: "accounted vm = {#}" "idx < 300"
  have "collectionOfPrePrepareMsgs vm = []" using a(1) by (simp add: accounted_def owned_def)
  moreover have "slotOwned vm idx = {#}" using a owned_split [OF a(2), of vm] by (simp add: accounted_def)
  ultimately show "prePrepareMsgsOfRestrictions vm ! idx = None" by (auto simp: slotOwned_def addressIn_def split: option.splits)
qed

lemma seven_bound:
  assumes "vm_inv vm" "restrictions_computed vm" "reports vm = reports vmP" "viewChangeSafetyLogic vm = viewChangeSafetyLogic vm0"
    "lowerBoundStableForPendingView vm = 0"
  shows "minRestrictionOfPendingView vm = 1" "7 \<le> maxRestrictionOfPendingView vm"
    "restrictionsOfPendingView vm ! 6 = \<lparr>r_isNull = False, r_digest = replicate 32 2\<rparr>" "7 \<in> set (relevantNumbers vm 0)"
proof -
  have x: "reports_usable (viewChangeSafetyLogic vm) (reports vm)" "binding (viewChangeSafetyLogic vm) (reports vm) 7 sample_cert 0"
    using vmP_usable vmP_binding assms by simp_all
  note b = bound_number [OF assms(1,2) x(1) _ _ x(2), unfolded assms(5)]
  show mn: "minRestrictionOfPendingView vm = 1" and mx: "7 \<le> maxRestrictionOfPendingView vm" using b(1,2) by simp_all
  show "restrictionsOfPendingView vm ! 6 = \<lparr>r_isNull = False, r_digest = replicate 32 2\<rparr>"
    using b(3) by (simp add: mn sample_vce_def)
  show "7 \<in> set (relevantNumbers vm 0)" using mn mx by (simp add: relevantNumbers_def)
qed

text \<open>The manager with the restrictions of view 1; the batch of number 7 is missing.\<close>

lemma pending_sample:
  "\<exists>vm3. tryToEnterView hash_one fresh 1 0 0 vm2 = Some (False, [], vm3) \<and> vm_run sample_info sample_check vm3 {#} {#} \<and>
     stat vm3 = PENDING_WITH_RESTRICTIONS \<and> same_core (vmP\<lparr>stat := PENDING_WITH_RESTRICTIONS\<rparr>) vm3 \<and> reports vm3 = reports vmP \<and> myLatestPendingView vm3 = 1"
proof -
  obtain w where w: "computeRestrictionsOfNewView 1 vmP = Some w"
    using restrictions_total [OF vmP_inv(1)] vmP_sel vmP_usable by auto
  define vm3 where "vm3 = w\<lparr>stat := PENDING_WITH_RESTRICTIONS\<rparr>"
  note c = computeRestrictionsOfNewView_inv [OF vmP_inv(1) w, folded vm3_def]
  have f: "same_core (vmP\<lparr>stat := PENDING_WITH_RESTRICTIONS\<rparr>) vm3" "reports vm3 = reports vmP" "myLatestPendingView vm3 = 1" "stat vm3 = PENDING_WITH_RESTRICTIONS"
    using restrictions_frame [OF w] c by (simp_all add: same_core_def vm3_def reports_def)
  have l3: "viewChangeSafetyLogic vm3 = viewChangeSafetyLogic vm0" "lowerBoundStableForPendingView vm3 = 0" using f(1) vmP_sel by (simp_all add: same_core_def)
  obtain b out vm' where fin: "finishEntry fresh 1 0 vm3 = Some (b, out, vm')" "vm_inv vm'" "accounted vm3 = accounted vm' + given out"
    "if b then view_entered 1 0 out vm' else vm' = vm3 \<and> out = [] \<and> stat vm' \<noteq> IN_VIEW"
    "b \<longrightarrow> (\<forall>i \<in> set (relevantNumbers vm3 0). \<not> lacking vm3 i)"
    using finishEntry_inv [of vm3 1 0 fresh] c f l3 by auto
  have run: "tryToEnterView hash_one fresh 1 0 0 vm2 = Some (b, out, vm')"
    using vmP_moved w fin(1) vmP_sel unfolding vm3_def
    by (simp add: tryToEnterView_def completeEntry_def Let_def) (simp add: vm2_def vm1_def)
  have "restrictions_computed vm3" "no_slots vm3" using c f(4) accounted_empty [of vm3] vmP_inv(2) by (auto simp: vm_inv_def stat_ok_def)
  then have "7 \<in> set (relevantNumbers vm3 0)" "lacking vm3 7"
    using seven_bound [of vm3] c f(2) l3 by (auto simp: lacking_def no_slots_def)
  then have "\<not> b" using fin(5) by blast
  then show ?thesis using fin run f vm_run.tried [OF vm2_run run] by (auto simp: given_def)
qed

text \<open>The batch of number 7 arrives.\<close>

definition sample_batch :: PPMsg where
  "sample_batch = \<lparr>pp_address = 5, pp_header = \<lparr>pp_viewNum = 0, pp_seqNum = 7, pp_flags = 3, pp_digestOfRequests = replicate 32 2,
     pp_numberOfRequests = 1, pp_endLocationOfLastRequest = 100\<rparr>\<rparr>"

lemma only_seven:
  assumes "vm_inv vm" "restrictions_computed vm" "reports vm = reports vmP" "viewChangeSafetyLogic vm = viewChangeSafetyLogic vm0"
    "lowerBoundStableForPendingView vm = 0" "1 \<le> i" "i \<le> 300" "i \<noteq> 7"
  shows "r_isNull (restrictionsOfPendingView vm ! nat (i - 1))"
proof -
  let ?l = "viewChangeSafetyLogic vm0"
  obtain arr where arr: "length arr = 300" "computeRestrictions ?l (reports vmP) 0 arr =
      Some (minRestrictionOfPendingView vm, maxRestrictionOfPendingView vm, restrictionsOfPendingView vm)"
    using assms(2-5) by (auto simp: restrictions_computed_def)
  have "\<exists>mn mx rs l. computeRestrictions ?l (reports vmP) 0 arr = Some (mn, mx, rs) \<and>
     (\<forall>t. 0 < t \<and> t \<le> 0 + kWorkWindowSize \<longrightarrow>
       (if reportsAt t (reports vmP) = [] then r_isNull (rs ! nat (t - 0 - 1))
        else restrictedBy ?l t (reportsAt t (reports vmP)) (rs ! nat (t - 0 - 1)) l \<and> mn = 0 + 1 \<and> (t \<le> l \<longrightarrow> t \<le> mx)))"
  proof (rule computeRestrictions_ok)
    show "\<forall>vc. Some vc \<in> set (reports vmP) \<longrightarrow> report_ok vc"
      "\<forall>t. 0 < t \<and> t \<le> 0 + kWorkWindowSize \<longrightarrow> certs_agree ?l t (reportsAt t (reports vmP))"
      using vmP_usable unfolding reports_usable_def by blast+
  qed (use arr in \<open>simp_all add: quorumSize_def\<close>, simp add: reports_def vmP_def)
  then obtain mn mx rs l where r: "computeRestrictions ?l (reports vmP) 0 arr = Some (mn, mx, rs)"
    "\<forall>t. 0 < t \<and> t \<le> 0 + kWorkWindowSize \<longrightarrow> (if reportsAt t (reports vmP) = [] then r_isNull (rs ! nat (t - 0 - 1))
        else restrictedBy ?l t (reportsAt t (reports vmP)) (rs ! nat (t - 0 - 1)) l \<and> mn = 0 + 1 \<and> (t \<le> l \<longrightarrow> t \<le> mx))" by blast
  have "rs = restrictionsOfPendingView vm" using r(1) arr(2) by simp
  moreover have "r_isNull (rs ! nat (i - 1))" using r(2) [rule_format, of i] assms(6-8) by (simp add: vmP_reports)
  ultimately show ?thesis by simp
qed

lemma entered_sample:
  "\<exists>vm4 out vm5. vm_run sample_info sample_check vm4 {#5#} {#} \<and> stat vm4 = PENDING_WITH_RESTRICTIONS \<and>
     tryToEnterView hash_one fresh 1 0 0 vm4 = Some (True, out, vm5) \<and> reports vm4 = reports vmP \<and>
     viewChangeSafetyLogic vm5 = viewChangeSafetyLogic vm0 \<and> reports vm5 = reports vmP \<and> lowerBoundStableForPendingView vm5 = 0"
proof -
  obtain vm3 where 3: "vm_run sample_info sample_check vm3 {#} {#}" "stat vm3 = PENDING_WITH_RESTRICTIONS"
    "same_core (vmP\<lparr>stat := PENDING_WITH_RESTRICTIONS\<rparr>) vm3" "reports vm3 = reports vmP" "myLatestPendingView vm3 = 1"
    using pending_sample by blast
  have i3: "vm_inv vm3" "accounted vm3 = {#}" using vm_run_inv [OF 3(1) sample_info_wf] by simp_all
  have l3: "viewChangeSafetyLogic vm3 = viewChangeSafetyLogic vm0" "lowerBoundStableForPendingView vm3 = 0" "restrictions_computed vm3"
    "debugHighestViewNumberPassedByClient vm3 = 1" "debugHighestKnownStable vm3 = 0"
    using 3(2,3) vmP_sel i3(1) by (simp_all add: same_core_def vm_inv_def stat_ok_def)
  note seven = seven_bound [OF i3(1) l3(3) 3(4) l3(1,2)]
  have len: "length (restrictionsOfPendingView vm3) = 300" "length (prePrepareMsgsOfRestrictions vm3) = 300"
    using i3(1) by (simp_all add: vm_inv_def vm_base_def batches_ok_def slots_ok_def)
  define vm4 where "vm4 = vm3\<lparr>prePrepareMsgsOfRestrictions := (prePrepareMsgsOfRestrictions vm3)[6 := Some sample_batch]\<rparr>"
  have add: "addPotentiallyMissingPP sample_batch vm3 = Some (True, vm4)"
    using seven 3(2) len accounted_empty [OF i3(2)]
    by (simp add: addPotentiallyMissingPP_def hasRelevantRestriction_def sample_batch_def pp_isNull_def Let_def at_def vm4_def no_slots_def)
  have "pp_address sample_batch \<notin># owned vm3" using i3(2) by (simp add: accounted_def)
  then have run4: "vm_run sample_info sample_check vm4 {#5#} {#}" using vm_run.batch [OF 3(1) add] by (simp add: sample_batch_def)
  have i4: "vm_inv vm4" using vm_run_inv [OF run4 sample_info_wf] by simp
  have s4: "stat vm4 = PENDING_WITH_RESTRICTIONS" "myLatestPendingView vm4 = 1" "reports vm4 = reports vmP" "enter_contract 1 0 0 vm4"
    using 3 l3 by (simp_all add: vm4_def reports_def enter_contract_def)
  have "\<not> lacking vm4 i" if "i \<in> set (relevantNumbers vm4 0)" for i
  proof (cases "i = 7")
    case True
    then show ?thesis using seven(1) len by (simp add: lacking_def vm4_def)
  next
    case False
    have "window_ok vm3" using i3(1) by (simp add: vm_inv_def vm_base_def batches_ok_def)
    then have "1 \<le> i" "i \<le> 300" using that seven(1) by (auto simp: relevantNumbers_def vm4_def window_ok_def)
    then show ?thesis using only_seven [OF i3(1) l3(3) 3(4) l3(1,2) _ _ False] seven(1) by (simp add: lacking_def vm4_def)
  qed
  then have "filter (lacking vm4) (relevantNumbers vm4 0) = []" by (simp add: filter_empty_conv)
  then obtain out vm5 where e: "tryToEnterView hash_one fresh 1 0 0 vm4 = Some (True, out, vm5)"
    "viewChangeSafetyLogic vm5 = viewChangeSafetyLogic vm4" "reports vm5 = reports vm4" "lowerBoundStableForPendingView vm5 = lowerBoundStableForPendingView vm4"
    using pending_entry [OF i4 s4(1,2,4), of hash_one fresh] by (auto simp: Let_def)
  moreover have "viewChangeSafetyLogic vm4 = viewChangeSafetyLogic vm0" "lowerBoundStableForPendingView vm4 = 0" using l3 by (simp_all add: vm4_def)
  ultimately show ?thesis using run4 s4(1,3) by auto
qed

section \<open>The theorems on this run\<close>

theorem batches_accounted_witness:
  "\<exists>vm. vm_run sample_info sample_check vm {#5#} {#} \<and> {#5#} = owned vm + mset (freed vm) + {#} \<and> distinct (freed vm) \<and>
     set (freed vm) \<inter> set_mset (owned vm) = {}"
proof -
  obtain vm4 where r: "vm_run sample_info sample_check vm4 {#5#} {#}" using entered_sample [of "\<lambda>_. 0"] by blast
  then show ?thesis using batches_accounted [OF r sample_info_wf] by (intro exI [of _ vm4]) simp
qed

theorem pending_view_quorum_witness:
  "\<exists>vm. vm_run sample_info sample_check vm {#} {#} \<and> stat vm = PENDING_WITH_RESTRICTIONS \<and> myLatestActiveView vm < myLatestPendingView vm \<and>
     card {i. i < vm_N vm \<and> viewChangeMsgsOfPendingView vm ! i \<noteq> None} = 2 * vm_F vm + 2 * vm_C vm + 1"
proof -
  obtain vm3 where r: "vm_run sample_info sample_check vm3 {#} {#}" "stat vm3 = PENDING_WITH_RESTRICTIONS" using pending_sample [of "\<lambda>_. 0"] by blast
  then show ?thesis using pending_view_quorum [OF r(1) sample_info_wf] by (intro exI [of _ vm3]) simp
qed

definition sample_infos :: "PrevViewInfo list" where
  "sample_infos = [\<lparr>pvi_prePrepare = sample_batch, hasAllRequests = True,
     pvi_prepareFull = Some \<lparr>ss_sender = 0, ss_viewNumber = 0, ss_seqNumber = 7, ss_signature = [1]\<rparr>\<rparr>]"

theorem leaving_report_witness:
  "\<exists>m vm'. exitFromCurrentView 0 0 0 sample_infos vm0 = Some (m, vm') \<and> vcm_newView m = 1 \<and> vr_elements (vcm_report m) = [sample_cert]"
proof -
  have "exit_contract 0 0 0 sample_infos vm0"
    by (simp add: exit_contract_def sample_infos_def sample_batch_def info_ok_def short_sig_def)
  moreover have "previous_valid vm0" by (simp add: previous_valid_def prev_ok_def myPreviousReport_def)
  ultimately have "\<exists>m vm'. exitFromCurrentView 0 0 0 sample_infos vm0 = Some (m, vm') \<and> idOfGeneratedReplica m = vm_myId vm0 \<and>
    vcm_newView m = myLatestActiveView vm0 + 1 \<and> vr_lastStable (vcm_report m) = 0 \<and>
    vr_elements (vcm_report m) = List.map_filter (reportElement (myLatestActiveView vm0) (myPreviousReport vm0)) sample_infos \<and>
    vcElementsOk (vcm_newView m) 0 0 (vr_elements (vcm_report m)) \<and> stat vm' = NO_VIEW \<and> viewChangeMessages vm' ! vm_myId vm0 = Some m"
    by (rule leaving_report [OF vm_run.created [OF vm0_eq] sample_info_wf])
  moreover have "List.map_filter (reportElement 0 (myPreviousReport vm0)) sample_infos = [sample_cert]"
    by (simp add: sample_infos_def sample_batch_def map_filter_simps reportElement_def Let_def sample_vce_def)
  ultimately show ?thesis by auto
qed

theorem known_views_vouched_witness:
  "\<exists>c a. computeCorrectRelevantViewNumbers vm2 = Some (c, a) \<and> myLatestPendingView vm2 \<le> a \<and> a \<le> c"
  using known_views_vouched [OF vm2_run sample_info_wf] by (auto simp: vm2_def vm1_def)



end
