(* ===== verification/Ordered_Map.thy ===== *)
theory Ordered_Map
  imports Engine_Prelude
begin

text \<open>
  \<^verbatim>\<open>std::map\<close> as the state transfer modules use it: the entries in the order of their keys. An iterator is
  the rest of the list from the entry it points to; \<open>end()\<close> is the empty list. \<^verbatim>\<open>find\<close> and \<^verbatim>\<open>count\<close> are
  \<open>map_of\<close>, the assignment \<^verbatim>\<open>m[k] = v\<close> is \<open>omap_set\<close>.
\<close>

definition ordered_map :: "('k :: linorder \<times> 'v) list \<Rightarrow> bool" where
  "ordered_map m \<longleftrightarrow> sorted_wrt (<) (map fst m)"

definition lower_bound :: "'k :: linorder \<Rightarrow> ('k \<times> 'v) list \<Rightarrow> ('k \<times> 'v) list" where
  "lower_bound k m = dropWhile (\<lambda>e. fst e < k) m"

definition omap_set :: "'k :: linorder \<Rightarrow> 'v \<Rightarrow> ('k \<times> 'v) list \<Rightarrow> ('k \<times> 'v) list" where
  "omap_set k v m = takeWhile (\<lambda>e. fst e < k) m @ (k, v) # dropWhile (\<lambda>e. fst e \<le> k) m"

definition omap_erase :: "'k \<Rightarrow> ('k \<times> 'v) list \<Rightarrow> ('k \<times> 'v) list" where
  "omap_erase k m = filter (\<lambda>e. fst e \<noteq> k) m"

lemma ordered_map_Nil [simp]: "ordered_map []"
  by (simp add: ordered_map_def)

lemma ordered_map_Cons: "ordered_map (e # m) \<longleftrightarrow> (\<forall>x \<in> set m. fst e < fst x) \<and> ordered_map m"
  by (auto simp: ordered_map_def)

lemma ordered_map_append:
  "ordered_map (xs @ ys) \<longleftrightarrow> ordered_map xs \<and> ordered_map ys \<and> (\<forall>x \<in> set xs. \<forall>y \<in> set ys. fst x < fst y)"
  by (auto simp: ordered_map_def sorted_wrt_append)

lemma ordered_map_filter: "ordered_map m \<Longrightarrow> ordered_map (filter P m)"
  by (induction m) (auto simp: ordered_map_Cons)

lemma ordered_map_distinct: "ordered_map m \<Longrightarrow> distinct (map fst m)"
  by (induction m) (auto simp: ordered_map_Cons)

lemma ordered_map_lookup: "ordered_map m \<Longrightarrow> (k, v) \<in> set m \<longleftrightarrow> map_of m k = Some v"
  using ordered_map_distinct by (metis map_of_eq_Some_iff)

lemma ordered_map_length: "ordered_map m \<Longrightarrow> length m = card (dom (map_of m))"
  by (metis distinct_card dom_map_of_conv_image_fst length_map list.set_map ordered_map_distinct)

lemma omap_set_Nil [simp]: "omap_set k v [] = [(k, v)]"
  by (simp add: omap_set_def)

lemma omap_set_Cons: "ordered_map (e # m) \<Longrightarrow> omap_set k v (e # m) =
    (if fst e < k then e # omap_set k v m else if fst e = k then (k, v) # m else (k, v) # e # m)"
proof -
  assume "ordered_map (e # m)"
  then have "dropWhile (\<lambda>x. fst x \<le> k) m = m" if "\<not> fst e < k"
    using that by (cases m) (auto simp: ordered_map_Cons)
  then show ?thesis by (auto simp: omap_set_def)
qed

lemma omap_set_keys: "ordered_map m \<Longrightarrow> fst ` set (omap_set k v m) = insert k (fst ` set m)"
  by (induction m) (auto simp: omap_set_Cons ordered_map_Cons)

lemma ordered_omap_set [simp]: "ordered_map m \<Longrightarrow> ordered_map (omap_set k v m)"
proof (induction m)
  case (Cons e m)
  have "\<forall>x \<in> set (omap_set k v m). fst e < fst x" if "fst e < k"
    using that Cons.prems omap_set_keys [of m k v] by (force simp: ordered_map_Cons)
  then show ?case using Cons
    by (cases "fst e < k"; cases "fst e = k") (auto simp: omap_set_Cons ordered_map_Cons)
qed (simp add: ordered_map_def)

lemma map_of_omap_set [simp]: "ordered_map m \<Longrightarrow> map_of (omap_set k v m) = (map_of m)(k \<mapsto> v)"
proof (induction m)
  case (Cons e m)
  then show ?case by (cases e) (auto simp: omap_set_Cons ordered_map_Cons fun_eq_iff)
qed simp

lemma ordered_omap_erase [simp]: "ordered_map m \<Longrightarrow> ordered_map (omap_erase k m)"
  by (simp add: omap_erase_def ordered_map_filter)

lemma map_of_omap_erase [simp]: "map_of (omap_erase k m) = (map_of m)(k := None)"
  by (induction m) (auto simp: omap_erase_def fun_eq_iff)

text \<open>What the lower bound points to: the least key that is not below the wanted one.\<close>

lemma lower_bound_Nil: "ordered_map m \<Longrightarrow> lower_bound k m = [] \<longleftrightarrow> (\<forall>x \<in> set m. fst x < k)"
  by (auto simp: lower_bound_def dropWhile_eq_Nil_conv)

lemma lower_bound_ConsD:
  assumes "ordered_map m" "lower_bound k m = e # es"
  shows "e \<in> set m \<and> k \<le> fst e \<and> (\<forall>x \<in> set m. k \<le> fst x \<longrightarrow> fst e \<le> fst x)"
proof -
  have m: "takeWhile (\<lambda>x. fst x < k) m @ e # es = m"
    using assms(2) takeWhile_dropWhile_id [of "\<lambda>x. fst x < k" m] by (simp add: lower_bound_def)
  have "k \<le> fst e" using hd_dropWhile [of "\<lambda>x. fst x < k" m] assms(2) unfolding lower_bound_def
    by (metis list.distinct(1) list.sel(1) not_less)
  moreover have "fst e \<le> fst x" if "x \<in> set m" "k \<le> fst x" for x
  proof -
    have "x \<in> set (takeWhile (\<lambda>x. fst x < k) m) \<or> x = e \<or> x \<in> set es" using that(1) m by (metis Un_iff list.set_intros set_ConsD set_append)
    moreover have "x \<notin> set (takeWhile (\<lambda>x. fst x < k) m)" using that(2) by (auto dest: set_takeWhileD)
    moreover have "ordered_map (takeWhile (\<lambda>x. fst x < k) m @ e # es)" using m assms(1) by simp
    ultimately show ?thesis by (auto simp: ordered_map_append ordered_map_Cons)
  qed
  moreover have "e \<in> set m" using m by (metis in_set_conv_decomp)
  ultimately show ?thesis by blast
qed

end
