(* ===== verification/Data_Store.thy ===== *)
theory Data_Store
  imports Ordered_Map Digests
begin

text \<open>
  \<^verbatim>\<open>bcstatetransfer/DataStore.hpp\<close> and \<^verbatim>\<open>InMemoryDataStore.cpp\<close>: what the blockchain state transfer keeps. A
  reserved page is kept in versions, one per checkpoint that changed it; the map of the versions orders the
  keys by page and, for one page, from the latest checkpoint to the earliest, so that the lower bound of
  \<open>(page, checkpoint)\<close> is the version that is valid at the checkpoint. Pages that were written since the last
  checkpoint are pending.

  The allocated blocks are their contents; \<^verbatim>\<open>assert\<close> is \<open>Assert\<close>. Checkpoint and block numbers are \<open>nat\<close>.
\<close>

section \<open>Keys and values\<close>

datatype ResPageKey = ResPageKey (pageId: nat) (checkpoint: nat)

instantiation ResPageKey :: linorder
begin

definition less_ResPageKey :: "ResPageKey \<Rightarrow> ResPageKey \<Rightarrow> bool" where
  "less_ResPageKey l r \<longleftrightarrow> (if pageId l \<noteq> pageId r then pageId l < pageId r else checkpoint r < checkpoint l)"

definition less_eq_ResPageKey :: "ResPageKey \<Rightarrow> ResPageKey \<Rightarrow> bool" where
  "less_eq_ResPageKey l r \<longleftrightarrow> l = r \<or> l < r"

instance
  by standard (auto simp: less_ResPageKey_def less_eq_ResPageKey_def ResPageKey.expand split: if_splits)

end

record ResPageVal =
  rpv_pageDigest :: Digest
  rpv_page :: "byte list"

record CheckpointDesc =
  checkpointNum :: nat
  lastBlock :: nat
  digestOfLastBlock :: Digest
  digestOfResPagesDescriptor :: Digest

record SingleResPageDesc =
  srp_pageId :: nat
  srp_relevantCheckpoint :: nat
  srp_pageDigest :: Digest

record ResPagesDescriptor =
  rpd_numOfPages :: nat
  rpd_d :: "SingleResPageDesc list"

record DataStore =
  ds_sizeOfReservedPage :: nat
  ds_wasInit :: bool
  ds_replicas :: "nat list"
  ds_myReplicaId :: nat
  ds_fVal :: nat
  ds_maxNumOfStoredCheckpoints :: nat
  ds_numberOfReservedPages :: nat
  lastStoredCheckpoint :: nat
  firstStoredCheckpoint :: nat
  descMap :: "(nat \<times> CheckpointDesc) list"
  fetching :: bool
  checkpointBeingFetched :: CheckpointDesc
  firstRequiredBlock :: nat
  lastRequiredBlock :: nat
  pendingPages :: "(nat \<times> byte list) list"
  pages :: "(ResPageKey \<times> ResPageVal) list"

definition UINT16_MAX :: nat where
  [simp]: "UINT16_MAX = 2 ^ 16 - 1"

definition UINT32_MAX :: nat where
  [simp]: "UINT32_MAX = 2 ^ 32 - 1"

definition UINT64_MAX :: nat where
  [simp]: "UINT64_MAX = 2 ^ 64 - 1"

definition noCheckpointDesc :: CheckpointDesc where
  "noCheckpointDesc = \<lparr>checkpointNum = 0, lastBlock = 0, digestOfLastBlock = zeroDigest,
     digestOfResPagesDescriptor = zeroDigest\<rparr>"

definition newInMemoryDataStore :: "nat \<Rightarrow> DataStore" where
  "newInMemoryDataStore sizeOfReservedPage = \<lparr>ds_sizeOfReservedPage = sizeOfReservedPage, ds_wasInit = False,
     ds_replicas = [], ds_myReplicaId = UINT16_MAX, ds_fVal = UINT16_MAX,
     ds_maxNumOfStoredCheckpoints = UINT64_MAX, ds_numberOfReservedPages = UINT32_MAX,
     lastStoredCheckpoint = UINT64_MAX, firstStoredCheckpoint = UINT64_MAX, descMap = [], fetching = False,
     checkpointBeingFetched = noCheckpointDesc, firstRequiredBlock = UINT64_MAX,
     lastRequiredBlock = UINT64_MAX, pendingPages = [], pages = []\<rparr>"

section \<open>Configuration\<close>

text \<open>Each value of the configuration is set once.\<close>

definition setReplicas :: "nat list \<Rightarrow> DataStore \<Rightarrow> DataStore option" where
  "setReplicas replicas ds = do { Assert (ds_replicas ds = []); Some (ds\<lparr>ds_replicas := replicas\<rparr>) }"

definition setMyReplicaId :: "nat \<Rightarrow> DataStore \<Rightarrow> DataStore option" where
  "setMyReplicaId i ds = do { Assert (ds_myReplicaId ds = UINT16_MAX); Some (ds\<lparr>ds_myReplicaId := i\<rparr>) }"

definition setFVal :: "nat \<Rightarrow> DataStore \<Rightarrow> DataStore option" where
  "setFVal f ds = do { Assert (ds_fVal ds = UINT16_MAX); Some (ds\<lparr>ds_fVal := f\<rparr>) }"

definition setMaxNumOfStoredCheckpoints :: "nat \<Rightarrow> DataStore \<Rightarrow> DataStore option" where
  "setMaxNumOfStoredCheckpoints n ds = do {
     Assert (n > 0);
     Assert (ds_maxNumOfStoredCheckpoints ds = UINT64_MAX);
     Some (ds\<lparr>ds_maxNumOfStoredCheckpoints := n\<rparr>)
   }"

definition setNumberOfReservedPages :: "nat \<Rightarrow> DataStore \<Rightarrow> DataStore option" where
  "setNumberOfReservedPages n ds = do {
     Assert (n > 0);
     Assert (ds_numberOfReservedPages ds = UINT32_MAX);
     Some (ds\<lparr>ds_numberOfReservedPages := n\<rparr>)
   }"

definition getReplicas :: "DataStore \<Rightarrow> nat list option" where
  "getReplicas ds = do { Assert (ds_replicas ds \<noteq> []); Some (ds_replicas ds) }"

definition getMyReplicaId :: "DataStore \<Rightarrow> nat option" where
  "getMyReplicaId ds = do { Assert (ds_myReplicaId ds \<noteq> UINT16_MAX); Some (ds_myReplicaId ds) }"

definition getFVal :: "DataStore \<Rightarrow> nat option" where
  "getFVal ds = do { Assert (ds_fVal ds \<noteq> UINT16_MAX); Some (ds_fVal ds) }"

definition getMaxNumOfStoredCheckpoints :: "DataStore \<Rightarrow> nat option" where
  "getMaxNumOfStoredCheckpoints ds = do {
     Assert (ds_maxNumOfStoredCheckpoints ds \<noteq> UINT64_MAX); Some (ds_maxNumOfStoredCheckpoints ds) }"

definition getNumberOfReservedPages :: "DataStore \<Rightarrow> nat option" where
  "getNumberOfReservedPages ds = do {
     Assert (ds_numberOfReservedPages ds \<noteq> UINT32_MAX); Some (ds_numberOfReservedPages ds) }"

section \<open>Descriptions of checkpoints\<close>

definition setCheckpointDesc :: "nat \<Rightarrow> CheckpointDesc \<Rightarrow> DataStore \<Rightarrow> DataStore option" where
  "setCheckpointDesc c desc ds = do {
     Assert (c = checkpointNum desc);
     Assert (map_of (descMap ds) c = None);
     Some (ds\<lparr>descMap := omap_set c desc (descMap ds)\<rparr>)
   }"

definition getCheckpointDesc :: "nat \<Rightarrow> DataStore \<Rightarrow> CheckpointDesc option" where
  "getCheckpointDesc c ds = do {
     desc \<leftarrow> map_of (descMap ds) c;
     Assert (c = checkpointNum desc);
     Some desc
   }"

definition hasCheckpointDesc :: "nat \<Rightarrow> DataStore \<Rightarrow> bool" where
  "hasCheckpointDesc c ds \<longleftrightarrow> map_of (descMap ds) c \<noteq> None"

fun eraseSmaller :: "nat \<Rightarrow> (nat \<times> CheckpointDesc) list \<Rightarrow> (nat \<times> CheckpointDesc) list option" where
  "eraseSmaller c [] = Some []"
| "eraseSmaller c (e # es) =
     (if fst e < c then do { Assert (fst e = checkpointNum (snd e)); eraseSmaller c es } else Some (e # es))"

definition deleteDescOfSmallerCheckpoints :: "nat \<Rightarrow> DataStore \<Rightarrow> DataStore option" where
  "deleteDescOfSmallerCheckpoints c ds = do {
     m \<leftarrow> eraseSmaller c (descMap ds);
     Some (ds\<lparr>descMap := m\<rparr>)
   }"

definition setCheckpointBeingFetched :: "CheckpointDesc \<Rightarrow> DataStore \<Rightarrow> DataStore option" where
  "setCheckpointBeingFetched c ds = do {
     Assert (checkpointNum (checkpointBeingFetched ds) = 0);
     Some (ds\<lparr>checkpointBeingFetched := c\<rparr>)
   }"

definition getCheckpointBeingFetched :: "DataStore \<Rightarrow> CheckpointDesc option" where
  "getCheckpointBeingFetched ds = do {
     Assert (checkpointNum (checkpointBeingFetched ds) \<noteq> 0);
     Some (checkpointBeingFetched ds)
   }"

definition hasCheckpointBeingFetched :: "DataStore \<Rightarrow> bool" where
  "hasCheckpointBeingFetched ds \<longleftrightarrow> checkpointNum (checkpointBeingFetched ds) \<noteq> 0"

definition deleteCheckpointBeingFetched :: "DataStore \<Rightarrow> DataStore" where
  "deleteCheckpointBeingFetched ds = ds\<lparr>checkpointBeingFetched := noCheckpointDesc\<rparr>"

section \<open>Reserved pages\<close>

text \<open>\<open>inPage\<close> holds the \<open>inPageLen\<close> bytes; the rest of the page is cleared.\<close>

definition setPendingResPage :: "nat \<Rightarrow> byte list \<Rightarrow> DataStore \<Rightarrow> DataStore option" where
  "setPendingResPage inPageId inPage ds = do {
     Assert (length inPage \<le> ds_sizeOfReservedPage ds);
     let page = inPage @ replicate (ds_sizeOfReservedPage ds - length inPage) 0;
     Some (ds\<lparr>pendingPages := omap_set inPageId page (pendingPages ds)\<rparr>)
   }"

definition hasPendingResPage :: "nat \<Rightarrow> DataStore \<Rightarrow> bool" where
  "hasPendingResPage p ds \<longleftrightarrow> map_of (pendingPages ds) p \<noteq> None"

definition getPendingResPage :: "nat \<Rightarrow> nat \<Rightarrow> DataStore \<Rightarrow> byte list option" where
  "getPendingResPage p pageLen ds = do {
     Assert (pageLen \<le> ds_sizeOfReservedPage ds);
     page \<leftarrow> map_of (pendingPages ds) p;
     Some (take pageLen page)
   }"

definition numOfAllPendingResPage :: "DataStore \<Rightarrow> nat" where
  "numOfAllPendingResPage ds = length (pendingPages ds)"

definition getNumbersOfPendingResPages :: "DataStore \<Rightarrow> nat list" where
  "getNumbersOfPendingResPages ds = map fst (pendingPages ds)"

definition deleteAllPendingPages :: "DataStore \<Rightarrow> DataStore" where
  "deleteAllPendingPages ds = ds\<lparr>pendingPages := []\<rparr>"

definition associatePendingResPageWithCheckpoint :: "nat \<Rightarrow> nat \<Rightarrow> Digest \<Rightarrow> DataStore \<Rightarrow> DataStore option" where
  "associatePendingResPageWithCheckpoint p c d ds = do {
     page \<leftarrow> map_of (pendingPages ds) p;
     let key = ResPageKey p c;
     Assert (map_of (pages ds) key = None);
     Some (ds\<lparr>pages := omap_set key \<lparr>rpv_pageDigest = d, rpv_page = page\<rparr> (pages ds),
       pendingPages := omap_erase p (pendingPages ds)\<rparr>)
   }"

definition setResPage :: "nat \<Rightarrow> nat \<Rightarrow> Digest \<Rightarrow> byte list \<Rightarrow> DataStore \<Rightarrow> DataStore option" where
  "setResPage p c d inPage ds = do {
     let key = ResPageKey p c;
     Assert (map_of (pages ds) key = None);
     Assert (ds_sizeOfReservedPage ds \<le> length inPage);
     Some (ds\<lparr>pages := omap_set key \<lparr>rpv_pageDigest = d, rpv_page = take (ds_sizeOfReservedPage ds) inPage\<rparr> (pages ds)\<rparr>)
   }"

text \<open>The common part of the three \<^verbatim>\<open>getResPage\<close>: the version that is valid at a checkpoint.\<close>

definition findResPage :: "nat \<Rightarrow> nat \<Rightarrow> DataStore \<Rightarrow> (nat \<times> ResPageVal) option" where
  "findResPage p c ds = do {
     Assert (c \<le> lastStoredCheckpoint ds);
     case lower_bound (ResPageKey p c) (pages ds) of
       [] \<Rightarrow> None
     | (k, v) # _ \<Rightarrow> do {
         Assert (pageId k = p);
         Assert (checkpoint k \<le> c);
         Some (checkpoint k, v)
       }
   }"

definition getResPageCheckpoint :: "nat \<Rightarrow> nat \<Rightarrow> DataStore \<Rightarrow> nat option" where
  "getResPageCheckpoint p c ds = do {
     (actual, v) \<leftarrow> findResPage p c ds;
     Some actual
   }"

definition getResPage :: "nat \<Rightarrow> nat \<Rightarrow> nat \<Rightarrow> DataStore \<Rightarrow> (nat \<times> Digest \<times> byte list) option" where
  "getResPage p c copylength ds = do {
     Assert (copylength \<le> ds_sizeOfReservedPage ds);
     (actual, v) \<leftarrow> findResPage p c ds;
     Assert (copylength > 0);
     Some (actual, rpv_pageDigest v, take copylength (rpv_page v))
   }"

fun deleteCoveredLoop :: "nat \<Rightarrow> nat \<Rightarrow> bool \<Rightarrow> (ResPageKey \<times> ResPageVal) list \<Rightarrow> (ResPageKey \<times> ResPageVal) list" where
  "deleteCoveredLoop m prevItemPageId prevItemIsInLastRelevantCheckpoint [] = []"
| "deleteCoveredLoop m prevItemPageId prevItemIsInLastRelevantCheckpoint (e # es) =
     (if pageId (fst e) = prevItemPageId \<and> prevItemIsInLastRelevantCheckpoint
      then deleteCoveredLoop m prevItemPageId prevItemIsInLastRelevantCheckpoint es
      else e # deleteCoveredLoop m (pageId (fst e)) (checkpoint (fst e) \<le> m) es)"

definition deleteCoveredResPageInSmallerCheckpoints :: "nat \<Rightarrow> DataStore \<Rightarrow> DataStore option" where
  "deleteCoveredResPageInSmallerCheckpoints inMinRelevantCheckpoint ds =
     (if inMinRelevantCheckpoint \<le> 1 then Some ds
      else do {
        Assert (length (pages ds) \<ge> ds_numberOfReservedPages ds);
        case pages ds of
          [] \<Rightarrow> None
        | e # es \<Rightarrow> do {
            Assert (pageId (fst e) = 0);
            let pages' = e # deleteCoveredLoop inMinRelevantCheckpoint (pageId (fst e))
              (checkpoint (fst e) \<le> inMinRelevantCheckpoint) es;
            Assert (length pages' \<ge> ds_numberOfReservedPages ds);
            Assert (length pages' \<le> ds_numberOfReservedPages ds * (ds_maxNumOfStoredCheckpoints ds + 1));
            Some (ds\<lparr>pages := pages'\<rparr>)
          }
      })"

text \<open>The descriptor is one block of zeroed memory with room for \<open>numberOfReservedPages\<close> entries; writing
  behind it is a failure.\<close>

fun descriptorLoop :: "nat \<Rightarrow> (ResPageKey \<times> ResPageVal) list \<Rightarrow> nat \<Rightarrow> SingleResPageDesc list
    \<Rightarrow> (nat \<times> SingleResPageDesc list) option" where
  "descriptorLoop inCheckpoint [] nextPage d = Some (nextPage, d)"
| "descriptorLoop inCheckpoint (e # es) nextPage d =
     (if nextPage = pageId (fst e) \<and> checkpoint (fst e) \<le> inCheckpoint
      then do {
        Assert (nextPage < length d);
        descriptorLoop inCheckpoint es (nextPage + 1)
          (d[nextPage := \<lparr>srp_pageId = nextPage, srp_relevantCheckpoint = checkpoint (fst e),
             srp_pageDigest = rpv_pageDigest (snd e)\<rparr>])
      }
      else descriptorLoop inCheckpoint es nextPage d)"

definition zeroPageDesc :: "nat \<Rightarrow> SingleResPageDesc" where
  "zeroPageDesc i = \<lparr>srp_pageId = i, srp_relevantCheckpoint = 0, srp_pageDigest = zeroDigest\<rparr>"

definition getResPagesDescriptor :: "nat \<Rightarrow> DataStore \<Rightarrow> ResPagesDescriptor option" where
  "getResPagesDescriptor inCheckpoint ds = do {
     let n = ds_numberOfReservedPages ds;
     Assert (n > 0);
     if inCheckpoint \<ge> 1
     then do {
       (nextPage, d) \<leftarrow> descriptorLoop inCheckpoint (pages ds) 0 (replicate n (zeroPageDesc 0));
       Assert (nextPage = n);
       Some \<lparr>rpd_numOfPages = n, rpd_d = d\<rparr>
     }
     else Some \<lparr>rpd_numOfPages = n, rpd_d = map zeroPageDesc [0..<n]\<rparr>
   }"

section \<open>The version of a page at a checkpoint\<close>

lemma key_less [simp]: "ResPageKey p c < ResPageKey p' c' \<longleftrightarrow> p < p' \<or> p = p' \<and> c' < c"
  by (auto simp: less_ResPageKey_def)

lemma key_le [simp]: "ResPageKey p c \<le> ResPageKey p' c' \<longleftrightarrow> p < p' \<or> p = p' \<and> c' \<le> c"
  by (auto simp: less_eq_ResPageKey_def)

definition valid_version :: "(ResPageKey \<times> 'v) list \<Rightarrow> nat \<Rightarrow> nat \<Rightarrow> nat \<Rightarrow> 'v \<Rightarrow> bool" where
  "valid_version m p c c' v \<longleftrightarrow> map_of m (ResPageKey p c') = Some v \<and> c' \<le> c \<and>
     (\<forall>c''. map_of m (ResPageKey p c'') \<noteq> None \<longrightarrow> c'' \<le> c \<longrightarrow> c'' \<le> c')"

lemma valid_version_unique: "valid_version m p c c' v \<Longrightarrow> valid_version m p c c'' w \<Longrightarrow> c'' = c' \<and> w = v"
proof -
  assume a: "valid_version m p c c' v" "valid_version m p c c'' w"
  then have "c'' = c'" unfolding valid_version_def by (intro le_antisym) blast+
  then show ?thesis using a by (simp add: valid_version_def)
qed

lemma valid_version_exists:
  assumes "map_of m (ResPageKey p c') \<noteq> None" "c' \<le> c"
  obtains c'' v where "valid_version m p c c'' v" "c' \<le> c''"
proof -
  let ?S = "{c''. c'' \<le> c \<and> map_of m (ResPageKey p c'') \<noteq> None}"
  have S: "finite ?S" "c' \<in> ?S" using assms by auto
  have "Max ?S \<in> ?S" by (rule Max_in [OF S(1)]) (use S(2) in blast)
  moreover have "c' \<le> Max ?S" "\<And>x. x \<in> ?S \<Longrightarrow> x \<le> Max ?S" by (rule Max_ge [OF S(1)], rule S(2)) (rule Max_ge [OF S(1)])
  moreover from calculation(1) obtain v where "map_of m (ResPageKey p (Max ?S)) = Some v" by blast
  ultimately show ?thesis by (intro that [of "Max ?S" v]) (auto simp: valid_version_def)
qed

lemma key_eqI: "pageId k = p \<Longrightarrow> checkpoint k = c \<Longrightarrow> k = ResPageKey p c"
  by (cases k) simp

lemma findResPage_iff:
  assumes ord: "ordered_map (pages ds)"
  shows "findResPage p c ds = Some (c', v) \<longleftrightarrow> c \<le> lastStoredCheckpoint ds \<and> valid_version (pages ds) p c c' v"
proof (cases "lower_bound (ResPageKey p c) (pages ds)")
  case Nil
  have "map_of (pages ds) (ResPageKey p c'') = None" if "c'' \<le> c" for c''
  proof (rule ccontr)
    assume "map_of (pages ds) (ResPageKey p c'') \<noteq> None"
    then obtain w where "(ResPageKey p c'', w) \<in> set (pages ds)" by (auto dest: map_of_SomeD)
    then have "ResPageKey p c'' < ResPageKey p c" using Nil ord lower_bound_Nil by fastforce
    then show False using that by simp
  qed
  then show ?thesis using Nil by (auto simp: findResPage_def valid_version_def)
next
  case (Cons e es)
  obtain q a w where e: "e = (ResPageKey q a, w)" by (metis ResPageKey.exhaust surj_pair)
  note D = lower_bound_ConsD [OF ord Cons]
  have lb: "map_of (pages ds) (ResPageKey q a) = Some w" "p < q \<or> p = q \<and> a \<le> c"
    using D ord by (auto simp: e ordered_map_lookup)
  have least: "q < p \<or> q = p \<and> c'' \<le> a" if c: "map_of (pages ds) (ResPageKey p c'') \<noteq> None" "c'' \<le> c" for c''
  proof -
    obtain w' where "(ResPageKey p c'', w') \<in> set (pages ds)" using c(1) by (auto dest: map_of_SomeD)
    then have "fst e \<le> ResPageKey p c''" using D c(2) by fastforce
    then show ?thesis by (simp add: e)
  qed
  show ?thesis
  proof (cases "q = p")
    case True
    then have "valid_version (pages ds) p c a w" using lb least by (auto simp: valid_version_def)
    then show ?thesis using True lb(2) Cons
      by (auto simp: findResPage_def e dest: valid_version_unique)
  next
    case False
    then have "\<not> valid_version (pages ds) p c c' v" using lb(2) least [of c'] by (auto simp: valid_version_def)
    then show ?thesis using False Cons by (auto simp: findResPage_def e)
  qed
qed

section \<open>Deleting covered versions\<close>

definition covered :: "nat \<Rightarrow> (ResPageKey \<times> 'v) list \<Rightarrow> ResPageKey \<times> 'v \<Rightarrow> bool" where
  "covered m xs e \<longleftrightarrow> (\<exists>x \<in> set xs. pageId (fst x) = pageId (fst e) \<and> checkpoint (fst e) < checkpoint (fst x) \<and> checkpoint (fst x) \<le> m)"

lemma fst_less: "fst e < fst x \<longleftrightarrow> pageId (fst e) < pageId (fst x) \<or> pageId (fst e) = pageId (fst x) \<and> checkpoint (fst x) < checkpoint (fst e)"
  by (auto simp: less_ResPageKey_def)

lemma deleteCoveredLoop_eq:
  assumes "ordered_map es" "flag \<longrightarrow> (\<forall>e \<in> set es. prev \<le> pageId (fst e))"
  shows "deleteCoveredLoop m prev flag es = filter (\<lambda>e. \<not> (pageId (fst e) = prev \<and> flag) \<and> \<not> covered m es e) es"
  using assms
proof (induction m prev flag es rule: deleteCoveredLoop.induct)
  case (2 m prev flag e es)
  have after: "\<forall>x \<in> set es. fst e < fst x" and ord: "ordered_map es" using "2.prems" by (auto simp: ordered_map_Cons)
  show ?case
  proof (cases "pageId (fst e) = prev \<and> flag")
    case True
    have "covered m (e # es) x \<longleftrightarrow> covered m es x" if "pageId (fst x) \<noteq> prev" for x
      using True that by (auto simp: covered_def)
    then show ?thesis using True "2.IH"(1) ord "2.prems"(2) by (auto intro!: filter_cong)
  next
    case False
    have "\<not> covered m (e # es) e" using after by (auto simp: covered_def fst_less)
    moreover have "\<not> (pageId (fst x) = pageId (fst e) \<and> checkpoint (fst e) \<le> m) \<and> \<not> covered m es x \<longleftrightarrow>
        \<not> (pageId (fst x) = prev \<and> flag) \<and> \<not> covered m (e # es) x" if "x \<in> set es" for x
      using after that False "2.prems"(2) by (fastforce simp: covered_def fst_less)
    moreover have "deleteCoveredLoop m (pageId (fst e)) (checkpoint (fst e) \<le> m) es =
        filter (\<lambda>x. \<not> (pageId (fst x) = pageId (fst e) \<and> checkpoint (fst e) \<le> m) \<and> \<not> covered m es x) es"
      using after by (intro "2.IH"(2) [OF False ord]) (auto simp: fst_less)
    ultimately show ?thesis using False by (auto intro!: filter_cong)
  qed
qed simp

lemma deleteCovered_filter:
  assumes "ordered_map (e # es)"
  shows "e # deleteCoveredLoop m (pageId (fst e)) (checkpoint (fst e) \<le> m) es = filter (\<lambda>x. \<not> covered m (e # es) x) (e # es)"
proof -
  have after: "\<forall>x \<in> set es. fst e < fst x" using assms by (simp add: ordered_map_Cons)
  have "deleteCoveredLoop m (pageId (fst e)) (checkpoint (fst e) \<le> m) es =
      filter (\<lambda>x. \<not> (pageId (fst x) = pageId (fst e) \<and> checkpoint (fst e) \<le> m) \<and> \<not> covered m es x) es"
    using assms after by (intro deleteCoveredLoop_eq) (auto simp: ordered_map_Cons fst_less)
  also have "... = filter (\<lambda>x. \<not> covered m (e # es) x) es"
    using after by (intro filter_cong) (fastforce simp: covered_def fst_less)+
  finally show ?thesis using after by (auto simp: covered_def fst_less)
qed

lemma map_of_uncovered:
  assumes "ordered_map xs"
  shows "map_of (filter (\<lambda>x. \<not> covered m xs x) xs) (ResPageKey p c) = Some v \<longleftrightarrow>
    map_of xs (ResPageKey p c) = Some v \<and> (\<forall>c'. map_of xs (ResPageKey p c') \<noteq> None \<longrightarrow> c' \<le> m \<longrightarrow> c' \<le> c)"
proof -
  have "covered m xs (ResPageKey p c, v) \<longleftrightarrow> (\<exists>c'. map_of xs (ResPageKey p c') \<noteq> None \<and> c < c' \<and> c' \<le> m)"
    using assms by (auto simp: covered_def ordered_map_lookup [symmetric] dest: map_of_SomeD)
      (metis ResPageKey.collapse ordered_map_lookup option.distinct(1), metis ResPageKey.sel fst_conv map_of_SomeD)
  then show ?thesis using assms ordered_map_filter [OF assms]
    by (simp add: ordered_map_lookup [symmetric]) (auto simp: not_le)
qed

lemma valid_version_uncovered:
  assumes ord: "ordered_map xs" and "m \<le> c"
  shows "valid_version (filter (\<lambda>x. \<not> covered m xs x) xs) p c c' v \<longleftrightarrow> valid_version xs p c c' v" (is "?L \<longleftrightarrow> ?R")
proof
  assume R: ?R
  then show ?L using assms map_of_uncovered [OF ord] by (fastforce simp: valid_version_def)
next
  assume L: ?L
  then have "map_of xs (ResPageKey p c') \<noteq> None" "c' \<le> c" using map_of_uncovered [OF ord] by (auto simp: valid_version_def)
  then obtain c'' w where w: "valid_version xs p c c'' w" "c' \<le> c''" by (rule valid_version_exists)
  then have "valid_version (filter (\<lambda>x. \<not> covered m xs x) xs) p c c'' w"
    using assms map_of_uncovered [OF ord] by (fastforce simp: valid_version_def)
  from valid_version_unique [OF this L] w show ?R by simp
qed

text \<open>How many versions are left: one per page that is not later than \<open>m\<close>, and the later ones.\<close>

lemma uncovered_count:
  assumes ord: "ordered_map xs" and "m \<le> l"
    and range: "\<And>p c v. map_of xs (ResPageKey p c) = Some v \<Longrightarrow> p < n \<and> c \<le> l"
  shows "length (filter (\<lambda>x. \<not> covered m xs x) xs) \<le> n * (l - m + 1)"
proof -
  let ?ys = "filter (\<lambda>x. \<not> covered m xs x) xs" and ?f = "\<lambda>k. (pageId k, max m (checkpoint k))"
  have "inj_on ?f (dom (map_of ?ys))"
  proof (rule inj_onI)
    fix k k' assume a: "k \<in> dom (map_of ?ys)" "k' \<in> dom (map_of ?ys)" "?f k = ?f k'"
    obtain p c c' where k: "k = ResPageKey p c" "k' = ResPageKey p c'" using a(3) by (metis ResPageKey.collapse fst_conv)
    have "\<not> (c < c' \<and> c' \<le> m)" "\<not> (c' < c \<and> c \<le> m)"
      using a(1,2) map_of_uncovered [OF ord] by (auto simp: k dom_def)
    then show "k = k'" using a(3) by (auto simp: k max_def split: if_splits)
  qed
  then have "card (dom (map_of ?ys)) = card (?f ` dom (map_of ?ys))" by (simp add: card_image)
  also have "... \<le> card ({0..<n} \<times> {m..l})"
  proof (rule card_mono)
    show "?f ` dom (map_of ?ys) \<subseteq> {0..<n} \<times> {m..l}"
      using map_of_uncovered [OF ord] range assms(2)
      by (auto simp: dom_def) (metis ResPageKey.collapse)+
  qed simp
  also have "... = n * (l - m + 1)" using assms(2) by (simp add: Suc_diff_le)
  finally show ?thesis using ordered_map_length [OF ordered_map_filter [OF ord]] by simp
qed

lemma pages_count:
  assumes "ordered_map xs" "\<And>p. p < n \<Longrightarrow> \<exists>c. map_of xs (ResPageKey p c) \<noteq> None"
  shows "n \<le> length xs"
proof -
  have "{0..<n} \<subseteq> pageId ` dom (map_of xs)" using assms(2) by (force simp: image_iff dom_def)
  then have "card {0..<n} \<le> card (dom (map_of xs))"
    by (meson card_image_le card_mono finite_dom_map_of finite_imageI order_trans)
  then show ?thesis using ordered_map_length [OF assms(1)] by simp
qed

section \<open>The descriptor of all pages\<close>

definition describes :: "(ResPageKey \<times> ResPageVal) list \<Rightarrow> nat \<Rightarrow> nat \<Rightarrow> SingleResPageDesc \<Rightarrow> bool" where
  "describes m c i x \<longleftrightarrow> (\<exists>v. valid_version m i c (srp_relevantCheckpoint x) v \<and> srp_pageId x = i \<and> srp_pageDigest x = rpv_pageDigest v)"

lemma valid_version_Cons:
  assumes "ordered_map (e # es)"
  shows "valid_version (e # es) p c c' v \<longleftrightarrow>
    (if pageId (fst e) = p \<and> checkpoint (fst e) \<le> c then c' = checkpoint (fst e) \<and> v = snd e else valid_version es p c c' v)"
proof -
  obtain q a w where e: "e = (ResPageKey q a, w)" by (metis ResPageKey.exhaust surj_pair)
  have less: "q < p' \<or> q = p' \<and> a' < a" if pres: "map_of es (ResPageKey p' a') \<noteq> None" for p' a'
  proof -
    obtain u where "map_of es (ResPageKey p' a') = Some u" using pres by blast
    then have "(ResPageKey p' a', u) \<in> set es" by (rule map_of_SomeD)
    then have "ResPageKey q a < ResPageKey p' a'" using assms by (auto simp: ordered_map_Cons e)
    then show ?thesis by simp
  qed
  show ?thesis
  proof (cases "q = p \<and> a \<le> c")
    case True
    have "valid_version (e # es) p c a w" using True less by (auto simp: valid_version_def e) force
    then show ?thesis using True valid_version_unique by (fastforce simp: e)
  next
    case False
    then show ?thesis by (auto simp: valid_version_def e)
  qed
qed

lemma descriptorLoop_ok:
  assumes "ordered_map es" "\<And>e. e \<in> set es \<Longrightarrow> pageId (fst e) < n" "length d = n" "nextPage \<le> n"
    and "\<And>i. nextPage \<le> i \<Longrightarrow> i < n \<Longrightarrow> \<exists>a v. valid_version es i c a v"
  shows "\<exists>d'. descriptorLoop c es nextPage d = Some (n, d') \<and> length d' = n \<and>
    (\<forall>i < nextPage. d' ! i = d ! i) \<and> (\<forall>i < n. nextPage \<le> i \<longrightarrow> describes es c i (d' ! i))"
  using assms
proof (induction es arbitrary: nextPage d)
  case Nil
  then have "nextPage = n" by (force simp: valid_version_def)
  then show ?case using Nil by simp
next
  case (Cons e es)
  note vc = valid_version_Cons [OF Cons.prems(1)]
  have ord: "ordered_map es" and after: "\<forall>x \<in> set es. fst e < fst x" using Cons.prems(1) by (auto simp: ordered_map_Cons)
  have desc: "describes (e # es) c i x \<longleftrightarrow> describes es c i x" if "\<not> (pageId (fst e) = i \<and> checkpoint (fst e) \<le> c)" for i x
    using that vc [of i c] by (auto simp: describes_def)
  show ?case
  proof (cases "nextPage = pageId (fst e) \<and> checkpoint (fst e) \<le> c")
    case True
    let ?x = "\<lparr>srp_pageId = nextPage, srp_relevantCheckpoint = checkpoint (fst e), srp_pageDigest = rpv_pageDigest (snd e)\<rparr>"
    have lt: "nextPage < n" using True Cons.prems(2) [of e] by simp
    have "\<exists>d'. descriptorLoop c es (nextPage + 1) (d[nextPage := ?x]) = Some (n, d') \<and> length d' = n \<and>
      (\<forall>i < nextPage + 1. d' ! i = d[nextPage := ?x] ! i) \<and> (\<forall>i < n. nextPage + 1 \<le> i \<longrightarrow> describes es c i (d' ! i))"
      (is "\<exists>d'. ?P d'")
    proof (rule Cons.IH [OF ord])
      show "\<exists>a v. valid_version es i c a v" if "nextPage + 1 \<le> i" "i < n" for i
        using Cons.prems(5) [of i] that True vc [of i c] by auto
    qed (use Cons.prems lt in auto)
    then obtain d' where d': "?P d'" by blast
    have here: "describes (e # es) c nextPage (d' ! nextPage)"
      using True vc [of nextPage c] d' lt Cons.prems(3) by (auto simp: describes_def)
    have "describes (e # es) c i (d' ! i)" if "i < n" "nextPage \<le> i" for i
      using that here desc [of i "d' ! i"] d' True by (cases "i = nextPage") auto
    then show ?thesis using True lt Cons.prems(3) d' by (intro exI [of _ d']) auto
  next
    case False
    have skip: "\<not> (pageId (fst e) = i \<and> checkpoint (fst e) \<le> c)" if i: "nextPage \<le> i" "i < n" for i
    proof
      assume at: "pageId (fst e) = i \<and> checkpoint (fst e) \<le> c"
      then have "nextPage < i" using False i by auto
      then obtain a v where "valid_version es nextPage c a v" using Cons.prems(5) [of nextPage] at i vc [of nextPage c] by auto
      then have "(ResPageKey nextPage a, v) \<in> set es" by (auto simp: valid_version_def dest: map_of_SomeD)
      then have "fst e < ResPageKey nextPage a" using after by fastforce
      then show False using at \<open>nextPage < i\<close> by (auto simp: less_ResPageKey_def split: if_splits)
    qed
    have "\<exists>d'. descriptorLoop c es nextPage d = Some (n, d') \<and> length d' = n \<and>
      (\<forall>i < nextPage. d' ! i = d ! i) \<and> (\<forall>i < n. nextPage \<le> i \<longrightarrow> describes es c i (d' ! i))"
    proof (rule Cons.IH [OF ord])
      show "\<exists>a v. valid_version es i c a v" if "nextPage \<le> i" "i < n" for i
        using Cons.prems(5) [of i] that skip [of i] vc [of i c] by auto
    qed (use Cons.prems in auto)
    then show ?thesis using False desc skip by auto
  qed
qed

lemma descriptor_ok:
  assumes "ordered_map (pages ds)" "\<And>p c v. map_of (pages ds) (ResPageKey p c) = Some v \<Longrightarrow> p < ds_numberOfReservedPages ds"
    and "0 < ds_numberOfReservedPages ds" "1 \<le> c" "\<And>i. i < ds_numberOfReservedPages ds \<Longrightarrow> \<exists>a v. valid_version (pages ds) i c a v"
  shows "\<exists>d. getResPagesDescriptor c ds = Some \<lparr>rpd_numOfPages = ds_numberOfReservedPages ds, rpd_d = d\<rparr> \<and>
    length d = ds_numberOfReservedPages ds \<and> (\<forall>i < ds_numberOfReservedPages ds. describes (pages ds) c i (d ! i))"
proof -
  have "pageId (fst e) < ds_numberOfReservedPages ds" if "e \<in> set (pages ds)" for e
  proof -
    obtain p a v where e: "e = (ResPageKey p a, v)" by (metis ResPageKey.exhaust surj_pair)
    then show ?thesis using assms(2) [of p a v] that ordered_map_lookup [OF assms(1)] by simp
  qed
  then show ?thesis using descriptorLoop_ok [OF assms(1), of "ds_numberOfReservedPages ds" "replicate (ds_numberOfReservedPages ds) (zeroPageDesc 0)" 0 c] assms(3-5)
    by (auto simp: getResPagesDescriptor_def)
qed

section \<open>Deleting versions changes no reading\<close>

text \<open>C19: deleting the covered versions is invisible. Every page read at the oldest relevant checkpoint or later
  gives the same version, digest and bytes before and after the deletion, and a version is kept exactly when one
  of these checkpoints reads it.\<close>

theorem covered_versions_equivalent:
  assumes "ordered_map (pages ds)" "deleteCoveredResPageInSmallerCheckpoints m ds = Some ds'" "2 \<le> m"
  shows "(\<forall>p c k. m \<le> c \<longrightarrow> getResPage p c k ds' = getResPage p c k ds) \<and>
    (\<forall>p a v. map_of (pages ds') (ResPageKey p a) = Some v \<longleftrightarrow> (\<exists>c. m \<le> c \<and> valid_version (pages ds) p c a v))"
proof -
  obtain e es where es: "pages ds = e # es" using assms(2,3)
    by (cases "pages ds") (auto simp: deleteCoveredResPageInSmallerCheckpoints_def)
  have ds': "ds' = ds\<lparr>pages := filter (\<lambda>x. \<not> covered m (pages ds) x) (pages ds)\<rparr>"
    using assms deleteCovered_filter [of e es m] unfolding es deleteCoveredResPageInSmallerCheckpoints_def by (simp add: es)
  have ord': "ordered_map (pages ds')" using ordered_map_filter [OF assms(1)] by (simp add: ds')
  have "findResPage p c ds' = findResPage p c ds" if "m \<le> c" for p c
  proof -
    have "findResPage p c ds' = Some x \<longleftrightarrow> findResPage p c ds = Some x" for x
      using findResPage_iff [OF ord', of p c "fst x" "snd x"] findResPage_iff [OF assms(1), of p c "fst x" "snd x"]
        valid_version_uncovered [OF assms(1) that] by (simp add: ds')
    then show ?thesis by (metis option.exhaust)
  qed
  moreover have "map_of (pages ds') (ResPageKey p a) = Some v \<longleftrightarrow> (\<exists>c. m \<le> c \<and> valid_version (pages ds) p c a v)" (is "?L \<longleftrightarrow> ?R") for p a v
  proof
    assume ?L
    then have "valid_version (pages ds) p (max a m) a v"
      using map_of_uncovered [OF assms(1)] by (auto simp: ds' valid_version_def max_def)
    then show ?R by (intro exI [of _ "max a m"]) simp
  next
    assume ?R
    then obtain c where "m \<le> c" "valid_version (pages ds) p c a v" by blast
    then have "valid_version (pages ds') p c a v" using valid_version_uncovered [OF assms(1)] by (simp add: ds')
    then show ?L by (simp add: valid_version_def)
  qed
  ultimately show ?thesis by (simp add: getResPage_def ds')
qed

theorem covered_versions_equivalent_witness:
  "\<exists>ds'. deleteCoveredResPageInSmallerCheckpoints 2 ((newInMemoryDataStore 1)\<lparr>ds_numberOfReservedPages := 1,
      ds_maxNumOfStoredCheckpoints := 2, lastStoredCheckpoint := 3,
      pages := [(ResPageKey 0 2, \<lparr>rpv_pageDigest = [2], rpv_page = [20]\<rparr>), (ResPageKey 0 1, \<lparr>rpv_pageDigest = [1], rpv_page = [10]\<rparr>)]\<rparr>) = Some ds' \<and>
    map_of (pages ds') (ResPageKey 0 1) = None \<and> getResPage 0 3 1 ds' = Some (2, [2], [20])"
proof -
  let ?v1 = "\<lparr>rpv_pageDigest = [1], rpv_page = [10]\<rparr> :: ResPageVal" and ?v2 = "\<lparr>rpv_pageDigest = [2], rpv_page = [20]\<rparr> :: ResPageVal"
  let ?ds = "(newInMemoryDataStore 1)\<lparr>ds_numberOfReservedPages := 1, ds_maxNumOfStoredCheckpoints := 2, lastStoredCheckpoint := 3,
    pages := [(ResPageKey 0 2, ?v2), (ResPageKey 0 1, ?v1)]\<rparr>"
  have ord: "ordered_map (pages ?ds)" by (simp add: ordered_map_def)
  obtain ds' where ds': "deleteCoveredResPageInSmallerCheckpoints 2 ?ds = Some ds'"
    by (simp add: deleteCoveredResPageInSmallerCheckpoints_def)
  have "getResPage 0 3 1 ?ds = Some (2, [2], [20])"
    by (simp add: getResPage_def findResPage_def lower_bound_def newInMemoryDataStore_def)
  then have "getResPage 0 3 1 ds' = Some (2, [2], [20])" using covered_versions_equivalent [OF ord ds'] by simp
  moreover have "map_of (pages ds') (ResPageKey 0 1) \<noteq> Some v" for v
    using covered_versions_equivalent [OF ord ds'] by (auto simp: valid_version_def)
  ultimately show ?thesis using ds' by (intro exI [of _ ds']) auto
qed

end
