(* ===== verification/State_Transfer.thy ===== *)
theory State_Transfer
  imports Data_Store
begin

text \<open>
  \<^verbatim>\<open>bcstatetransfer/BCStateTran.cpp\<close>, the part that keeps the reserved pages and takes checkpoints:
  construction and \<open>init\<close>, \<open>loadReservedPage\<close>, \<open>saveReservedPage\<close>, \<open>zeroReservedPage\<close>,
  \<open>createCheckpointOfCurrentState\<close>, the digests and \<open>checkConsistency\<close>. Fetching a state is in the theories
  behind this one.

  The application state \<^verbatim>\<open>IAppState\<close> is code of the user: its operations are a record of functions on a
  state of their own. SHA-256 of the library is the parameter \<open>sha\<close>. The temporary \<^verbatim>\<open>buffer_\<close> is cleared
  after every use and is not part of the state.
\<close>

section \<open>Configuration and state\<close>

definition kMaxNumOfStoredCheckpoints :: nat where
  [simp]: "kMaxNumOfStoredCheckpoints = 10"

definition kSizeOfReservedPage :: nat where
  "kSizeOfReservedPage = 4 * 1024"

record Config =
  cfg_myReplicaId :: nat
  cfg_fVal :: nat
  cfg_cVal :: nat
  cfg_pedanticChecks :: bool
  cfg_maxBlockSize :: nat
  cfg_maxChunkSize :: nat
  cfg_maxNumberOfChunksInBatch :: nat
  cfg_maxPendingDataFromSourceReplica :: nat
  cfg_maxNumOfReservedPages :: nat
  cfg_checkpointSummariesRetransmissionTimeoutMilli :: nat
  cfg_maxAcceptableMsgDelayMilli :: nat
  cfg_sourceReplicaReplacementTimeoutMilli :: nat
  cfg_fetchRetransmissionTimeoutMilli :: nat

record 'a IAppState =
  hasBlock :: "'a \<Rightarrow> nat \<Rightarrow> bool"
  getBlock :: "'a \<Rightarrow> nat \<Rightarrow> byte list option"
  getPrevDigestFromBlock :: "'a \<Rightarrow> nat \<Rightarrow> Digest option"
  putBlock :: "'a \<Rightarrow> nat \<Rightarrow> byte list \<Rightarrow> bool \<times> 'a"
  getLastReachableBlockNum :: "'a \<Rightarrow> nat"
  getLastBlockNum :: "'a \<Rightarrow> nat"

record 'a BCStateTran =
  st_config :: Config
  st_replicas :: "nat list"
  st_maxNumOfStoredCheckpoints :: nat
  st_numberOfReservedPages :: nat
  st_running :: bool
  psd :: DataStore
  st_app :: 'a

datatype FetchingState = NotFetching | GettingCheckpointSummaries | GettingMissingBlocks | GettingMissingResPages

section \<open>Digests\<close>

definition computeDigestOfPage :: "(byte list \<Rightarrow> Digest) \<Rightarrow> nat \<Rightarrow> nat \<Rightarrow> byte list \<Rightarrow> Digest" where
  "computeDigestOfPage sha p checkpointNumber page =
     sha (le_bytes 4 p @ le_bytes 8 checkpointNumber @ (if checkpointNumber > 0 then take kSizeOfReservedPage page else []))"

text \<open>The descriptor in memory: the structures are not packed, so four bytes of padding, cleared with the rest
  of the block, follow each 32-bit field.\<close>

definition pageDescBytes :: "SingleResPageDesc \<Rightarrow> byte list" where
  "pageDescBytes x = le_bytes 4 (srp_pageId x) @ replicate 4 0 @ le_bytes 8 (srp_relevantCheckpoint x) @ srp_pageDigest x"

definition descriptorBytes :: "ResPagesDescriptor \<Rightarrow> byte list" where
  "descriptorBytes r = le_bytes 4 (rpd_numOfPages r) @ replicate 4 0 @ concat (map pageDescBytes (rpd_d r))"

definition computeDigestOfPagesDescriptor :: "(byte list \<Rightarrow> Digest) \<Rightarrow> ResPagesDescriptor \<Rightarrow> Digest" where
  "computeDigestOfPagesDescriptor sha r = sha (descriptorBytes r)"

definition computeDigestOfBlock :: "(byte list \<Rightarrow> Digest) \<Rightarrow> nat \<Rightarrow> byte list \<Rightarrow> Digest option" where
  "computeDigestOfBlock sha blockNum block = do {
     Assert (blockNum > 0);
     Assert (length block > 0);
     Some (sha (le_bytes 8 blockNum @ block))
   }"

text \<open>Reading a block and computing its digest; a block that is missing has size 0.\<close>

definition digestOfStoredBlock :: "(byte list \<Rightarrow> Digest) \<Rightarrow> 'a IAppState \<Rightarrow> 'a \<Rightarrow> nat \<Rightarrow> Digest option" where
  "digestOfStoredBlock sha api app b =
     computeDigestOfBlock sha b (case getBlock api app b of None \<Rightarrow> [] | Some block \<Rightarrow> block)"

section \<open>State queries\<close>

definition isFetching :: "('a, 'z) BCStateTran_scheme \<Rightarrow> bool" where
  "isFetching st \<longleftrightarrow> fetching (psd st)"

definition getFetchingState :: "('a, 'z) BCStateTran_scheme \<Rightarrow> FetchingState option" where
  "getFetchingState st =
     (if \<not> fetching (psd st) then Some NotFetching
      else do {
        Assert (numOfAllPendingResPage (psd st) = 0);
        if \<not> hasCheckpointBeingFetched (psd st) then Some GettingCheckpointSummaries
        else if lastRequiredBlock (psd st) > 0 then Some GettingMissingBlocks
        else do {
          Assert (firstRequiredBlock (psd st) = 0);
          Some GettingMissingResPages
        }
      })"

section \<open>Reserved pages\<close>

definition loadReservedPage :: "nat \<Rightarrow> nat \<Rightarrow> ('a, 'z) BCStateTran_scheme \<Rightarrow> byte list option" where
  "loadReservedPage reservedPageId copyLength st = do {
     Assert (st_running st);
     Assert (\<not> isFetching st);
     Assert (reservedPageId < st_numberOfReservedPages st);
     Assert (copyLength \<le> kSizeOfReservedPage);
     if hasPendingResPage reservedPageId (psd st)
     then getPendingResPage reservedPageId copyLength (psd st)
     else do {
       let lastCheckpoint = lastStoredCheckpoint (psd st);
       (t, d, page) \<leftarrow> getResPage reservedPageId lastCheckpoint copyLength (psd st);
       Assert (t \<le> lastCheckpoint);
       Some page
     }
   }"

definition saveReservedPage :: "nat \<Rightarrow> byte list \<Rightarrow> ('a, 'z) BCStateTran_scheme \<Rightarrow> ('a, 'z) BCStateTran_scheme option" where
  "saveReservedPage reservedPageId inReservedPage st = do {
     Assert (\<not> isFetching st);
     Assert (reservedPageId < st_numberOfReservedPages st);
     Assert (length inReservedPage \<le> kSizeOfReservedPage);
     ds \<leftarrow> setPendingResPage reservedPageId inReservedPage (psd st);
     Some (st\<lparr>psd := ds\<rparr>)
   }"

definition zeroReservedPage :: "nat \<Rightarrow> ('a, 'z) BCStateTran_scheme \<Rightarrow> ('a, 'z) BCStateTran_scheme option" where
  "zeroReservedPage reservedPageId st = do {
     Assert (\<not> isFetching st);
     Assert (reservedPageId < st_numberOfReservedPages st);
     ds \<leftarrow> setPendingResPage reservedPageId (replicate kSizeOfReservedPage 0) (psd st);
     Some (st\<lparr>psd := ds\<rparr>)
   }"

section \<open>Checkpoints\<close>

fun associateLoop :: "(byte list \<Rightarrow> Digest) \<Rightarrow> nat \<Rightarrow> nat list \<Rightarrow> DataStore \<Rightarrow> DataStore option" where
  "associateLoop sha checkpointNumber [] ds = Some ds"
| "associateLoop sha checkpointNumber (p # ps) ds = do {
     page \<leftarrow> getPendingResPage p kSizeOfReservedPage ds;
     ds \<leftarrow> associatePendingResPageWithCheckpoint p checkpointNumber (computeDigestOfPage sha p checkpointNumber page) ds;
     associateLoop sha checkpointNumber ps ds
   }"

definition checkpointReservedPages ::
  "(byte list \<Rightarrow> Digest) \<Rightarrow> nat \<Rightarrow> ('a, 'z) BCStateTran_scheme \<Rightarrow> (Digest \<times> ('a, 'z) BCStateTran_scheme) option" where
  "checkpointReservedPages sha checkpointNumber st = do {
     ds \<leftarrow> associateLoop sha checkpointNumber (getNumbersOfPendingResPages (psd st)) (psd st);
     Assert (numOfAllPendingResPage ds = 0);
     allPagesDesc \<leftarrow> getResPagesDescriptor checkpointNumber ds;
     Assert (rpd_numOfPages allPagesDesc = st_numberOfReservedPages st);
     Some (computeDigestOfPagesDescriptor sha allPagesDesc, st\<lparr>psd := ds\<rparr>)
   }"

definition createCheckpointDesc ::
  "(byte list \<Rightarrow> Digest) \<Rightarrow> 'a IAppState \<Rightarrow> nat \<Rightarrow> Digest \<Rightarrow> ('a, 'z) BCStateTran_scheme \<Rightarrow> CheckpointDesc option" where
  "createCheckpointDesc sha api checkpointNumber d st = do {
     let b = getLastReachableBlockNum api (st_app st);
     Assert (b = getLastBlockNum api (st_app st));
     digest \<leftarrow> (if b > 0 then digestOfStoredBlock sha api (st_app st) b else Some zeroDigest);
     Some \<lparr>checkpointNum = checkpointNumber, lastBlock = b, digestOfLastBlock = digest, digestOfResPagesDescriptor = d\<rparr>
   }"

definition deleteOldCheckpoints :: "nat \<Rightarrow> ('a, 'z) BCStateTran_scheme \<Rightarrow> ('a, 'z) BCStateTran_scheme option" where
  "deleteOldCheckpoints checkpointNumber st = do {
     let minRelevantCheckpoint = (if checkpointNumber > st_maxNumOfStoredCheckpoints st
       then checkpointNumber - st_maxNumOfStoredCheckpoints st else 0);
     let oldFirstStoredCheckpoint = firstStoredCheckpoint (psd st);
     ds \<leftarrow> (if minRelevantCheckpoint \<ge> 2 \<and> minRelevantCheckpoint > oldFirstStoredCheckpoint
       then do {
         ds \<leftarrow> deleteDescOfSmallerCheckpoints minRelevantCheckpoint (psd st);
         deleteCoveredResPageInSmallerCheckpoints minRelevantCheckpoint ds
       }
       else Some (psd st));
     let ds = (if minRelevantCheckpoint > oldFirstStoredCheckpoint
       then ds\<lparr>firstStoredCheckpoint := minRelevantCheckpoint\<rparr> else ds);
     Some (st\<lparr>psd := ds\<lparr>lastStoredCheckpoint := checkpointNumber\<rparr>\<rparr>)
   }"

definition createCheckpointOfCurrentState ::
  "(byte list \<Rightarrow> Digest) \<Rightarrow> 'a IAppState \<Rightarrow> nat \<Rightarrow> ('a, 'z) BCStateTran_scheme \<Rightarrow> ('a, 'z) BCStateTran_scheme option" where
  "createCheckpointOfCurrentState sha api checkpointNumber st = do {
     Assert (st_running st);
     Assert (\<not> isFetching st);
     Assert (checkpointNumber > 0);
     Assert (checkpointNumber > lastStoredCheckpoint (psd st));
     (d, st) \<leftarrow> checkpointReservedPages sha checkpointNumber st;
     checkDesc \<leftarrow> createCheckpointDesc sha api checkpointNumber d st;
     ds \<leftarrow> setCheckpointDesc checkpointNumber checkDesc (psd st);
     deleteOldCheckpoints checkpointNumber (st\<lparr>psd := ds\<rparr>)
   }"

definition markCheckpointAsStable :: "nat \<Rightarrow> ('a, 'z) BCStateTran_scheme \<Rightarrow> unit option" where
  "markCheckpointAsStable checkpointNumber st = do {
     Assert (st_running st);
     Assert (\<not> isFetching st);
     Assert (checkpointNumber > 0);
     let l = lastStoredCheckpoint (psd st);
     Assert (l < st_maxNumOfStoredCheckpoints st \<or> checkpointNumber \<ge> l - st_maxNumOfStoredCheckpoints st + 1);
     Assert (checkpointNumber \<le> l)
   }"

definition checkpointDescBytes :: "CheckpointDesc \<Rightarrow> byte list" where
  "checkpointDescBytes c =
     le_bytes 8 (checkpointNum c) @ le_bytes 8 (lastBlock c) @ digestOfLastBlock c @ digestOfResPagesDescriptor c"

definition getDigestOfCheckpoint ::
  "(byte list \<Rightarrow> Digest) \<Rightarrow> nat \<Rightarrow> nat \<Rightarrow> ('a, 'z) BCStateTran_scheme \<Rightarrow> byte list option" where
  "getDigestOfCheckpoint sha checkpointNumber sizeOfDigestBuffer st = do {
     Assert (st_running st);
     Assert (\<not> isFetching st);
     Assert (sizeOfDigestBuffer \<ge> DIGEST_SIZE);
     Assert (checkpointNumber > 0);
     Assert (checkpointNumber \<ge> firstStoredCheckpoint (psd st));
     Assert (checkpointNumber \<le> lastStoredCheckpoint (psd st));
     Assert (hasCheckpointDesc checkpointNumber (psd st));
     desc \<leftarrow> getCheckpointDesc checkpointNumber (psd st);
     Some (sha (checkpointDescBytes desc) @ replicate (sizeOfDigestBuffer - DIGEST_SIZE) 0)
   }"

section \<open>Consistency\<close>

text \<open>\<open>CH\<close> is the macro that returns \<open>false\<close> when a condition does not hold; \<open>andThen\<close> goes on with the next
  part of the check.\<close>

definition CH :: "bool \<Rightarrow> bool option \<Rightarrow> bool option" where
  "CH b k = (if b then k else Some False)"

definition andThen :: "bool option \<Rightarrow> bool option \<Rightarrow> bool option" where
  "andThen a b = (case a of None \<Rightarrow> None | Some ok \<Rightarrow> if ok then b else Some False)"

text \<open>Every block of the list has the digest that its successor stores.\<close>

fun checkChain :: "(byte list \<Rightarrow> Digest) \<Rightarrow> 'a IAppState \<Rightarrow> 'a \<Rightarrow> nat list \<Rightarrow> bool option" where
  "checkChain sha api app [] = Some True"
| "checkChain sha api app (currBlock # bs) = do {
     currDigest \<leftarrow> digestOfStoredBlock sha api app currBlock;
     CH (\<not> isZero currDigest)
       (CH (currDigest = (case getPrevDigestFromBlock api app (currBlock + 1) of None \<Rightarrow> zeroDigest | Some d \<Rightarrow> d))
         (checkChain sha api app bs))
   }"

text \<open>The search for the hole below the last block; reaching block 0 would wrap around.\<close>

fun findHole :: "'a IAppState \<Rightarrow> 'a \<Rightarrow> nat \<Rightarrow> nat option" where
  "findHole api app 0 = (if hasBlock api app 0 then None else Some 0)"
| "findHole api app (Suc x) = (if hasBlock api app (Suc x) then findHole api app x else Some (Suc x))"

definition checkUnreachableBlocks :: "'a IAppState \<Rightarrow> ('a, 'z) BCStateTran_scheme \<Rightarrow> bool option" where
  "checkUnreachableBlocks api st =
     (let app = st_app st; l = getLastReachableBlockNum api app; n = getLastBlockNum api app in
      CH (n \<ge> l)
        (if n > l
         then do {
           fs \<leftarrow> getFetchingState st;
           CH (fs = GettingMissingResPages) (do {
             x \<leftarrow> findHole api app (n - 1);
             CH (x > l) (CH (list_all (\<lambda>i. \<not> hasBlock api app i) [l + 1..<x + 1]) (Some True))
           })
         }
         else Some True))"

definition checkFetchedBlocks :: "(byte list \<Rightarrow> Digest) \<Rightarrow> 'a IAppState \<Rightarrow> bool \<Rightarrow> ('a, 'z) BCStateTran_scheme \<Rightarrow> bool option" where
  "checkFetchedBlocks sha api checkAllBlocks st =
     (let ds = psd st; app = st_app st; l = getLastReachableBlockNum api app; n = getLastBlockNum api app in
      if n > l
      then CH (fetching ds \<and> hasCheckpointBeingFetched ds)
        (CH ((if firstRequiredBlock ds = 0 then UINT64_MAX else firstRequiredBlock ds - 1) = l)
          (CH (lastRequiredBlock ds \<ge> firstRequiredBlock ds)
            (if checkAllBlocks then checkChain sha api app (rev [lastRequiredBlock ds + 1..<n]) else Some True)))
      else Some True)"

fun checkPages :: "(byte list \<Rightarrow> Digest) \<Rightarrow> nat \<Rightarrow> ResPagesDescriptor \<Rightarrow> nat list \<Rightarrow> DataStore \<Rightarrow> bool option" where
  "checkPages sha i desc [] ds = Some True"
| "checkPages sha i desc (j # js) ds = do {
     x \<leftarrow> at (rpd_d desc) j;
     CH (srp_pageId x = j) (CH (srp_relevantCheckpoint x \<le> i) (CH (srp_relevantCheckpoint x > 0) (do {
       (actualCheckpoint, _, page) \<leftarrow> getResPage j i kSizeOfReservedPage ds;
       CH (srp_relevantCheckpoint x = actualCheckpoint)
         (CH (computeDigestOfPage sha j actualCheckpoint page = srp_pageDigest x)
           (checkPages sha i desc js ds))
     })))
   }"

fun checkStored :: "(byte list \<Rightarrow> Digest) \<Rightarrow> 'a IAppState \<Rightarrow> ('a, 'z) BCStateTran_scheme \<Rightarrow> nat \<Rightarrow> nat list \<Rightarrow> bool option" where
  "checkStored sha api st prevLastBlockNum [] = Some True"
| "checkStored sha api st prevLastBlockNum (i # is) =
     (if \<not> hasCheckpointDesc i (psd st) then checkStored sha api st prevLastBlockNum is
      else do {
        desc \<leftarrow> getCheckpointDesc i (psd st);
        CH (checkpointNum desc = i)
          (CH (lastBlock desc \<le> getLastReachableBlockNum api (st_app st))
            (CH (lastBlock desc \<ge> prevLastBlockNum) (do {
              blockOk \<leftarrow> (if lastBlock desc > 0
                then do { d \<leftarrow> digestOfStoredBlock sha api (st_app st) (lastBlock desc); Some (d = digestOfLastBlock desc) }
                else Some True);
              CH blockOk (do {
                allPagesDesc \<leftarrow> getResPagesDescriptor i (psd st);
                CH (rpd_numOfPages allPagesDesc = st_numberOfReservedPages st)
                  (CH (computeDigestOfPagesDescriptor sha allPagesDesc = digestOfResPagesDescriptor desc)
                    (andThen (checkPages sha i allPagesDesc [0..<st_numberOfReservedPages st] (psd st))
                      (checkStored sha api st (lastBlock desc) is)))
              })
            })))
      })"

definition checkConfiguration :: "('a, 'z) BCStateTran_scheme \<Rightarrow> bool option" where
  "checkConfiguration st =
     (let ds = psd st in
      CH (ds_wasInit ds) (do {
        rs \<leftarrow> getReplicas ds;
        CH (st_replicas st = rs) (do {
          i \<leftarrow> getMyReplicaId ds;
          CH (cfg_myReplicaId (st_config st) = i) (do {
            f \<leftarrow> getFVal ds;
            CH (cfg_fVal (st_config st) = f) (do {
              m \<leftarrow> getMaxNumOfStoredCheckpoints ds;
              CH (st_maxNumOfStoredCheckpoints st = m) (do {
                n \<leftarrow> getNumberOfReservedPages ds;
                CH (st_numberOfReservedPages st = n) (Some True)
              })
            })
          })
        })
      }))"

definition checkStoredRange :: "('a, 'z) BCStateTran_scheme \<Rightarrow> bool option" where
  "checkStoredRange st =
     (let ds = psd st; f = firstStoredCheckpoint ds; l = lastStoredCheckpoint ds in
      CH (l \<ge> f) (CH (l - f + 1 \<le> st_maxNumOfStoredCheckpoints st)
        (CH (l = 0 \<or> hasCheckpointDesc l ds)
          (CH (f = 0 \<or> f = l \<or> hasCheckpointDesc f ds) (Some True)))))"

definition checkFetchingStatus :: "DataStore \<Rightarrow> bool option" where
  "checkFetchingStatus ds =
     (if \<not> fetching ds
      then CH (\<not> hasCheckpointBeingFetched ds)
        (CH (firstRequiredBlock ds = 0) (CH (lastRequiredBlock ds = 0) (Some True)))
      else if \<not> hasCheckpointBeingFetched ds
      then CH (firstRequiredBlock ds = 0) (CH (lastRequiredBlock ds = 0) (CH (numOfAllPendingResPage ds = 0) (Some True)))
      else if lastRequiredBlock ds > 0
      then CH (firstRequiredBlock ds > 0) (CH (numOfAllPendingResPage ds = 0) (Some True))
      else CH (numOfAllPendingResPage ds = 0) (Some True))"

definition checkConsistency :: "(byte list \<Rightarrow> Digest) \<Rightarrow> 'a IAppState \<Rightarrow> bool \<Rightarrow> ('a, 'z) BCStateTran_scheme \<Rightarrow> bool option" where
  "checkConsistency sha api checkAllBlocks st =
     (let ds = psd st; app = st_app st; reachable = getLastReachableBlockNum api app in
      andThen (checkConfiguration st)
        (andThen (checkStoredRange st)
          (andThen (if checkAllBlocks \<and> reachable > 0 then checkChain sha api app (rev [1..<reachable]) else Some True)
            (andThen (checkUnreachableBlocks api st)
              (andThen (checkFetchedBlocks sha api checkAllBlocks st)
                (andThen (if lastStoredCheckpoint ds > 0
                    then checkStored sha api st 0 [firstStoredCheckpoint ds..<lastStoredCheckpoint ds + 1] else Some True)
                  (checkFetchingStatus ds)))))))"

section \<open>Construction and initialisation\<close>

definition newBCStateTran :: "Config \<Rightarrow> 'a \<Rightarrow> 'a BCStateTran option" where
  "newBCStateTran config stateApi = do {
     let replicas = [0..<nat (i16 (int (3 * cfg_fVal config + 2 * cfg_cVal config + 1)))];
     Assert (length replicas \<ge> 3 * cfg_fVal config + 1);
     Assert (cfg_myReplicaId config \<in> set replicas);
     Assert (cfg_maxNumOfReservedPages config \<ge> 2);
     Some \<lparr>st_config = config, st_replicas = replicas, st_maxNumOfStoredCheckpoints = 0, st_numberOfReservedPages = 0,
       st_running = False, psd = newInMemoryDataStore kSizeOfReservedPage, st_app = stateApi\<rparr>
   }"

fun resetPages :: "nat list \<Rightarrow> DataStore \<Rightarrow> DataStore option" where
  "resetPages [] ds = Some ds"
| "resetPages (i # is) ds = do {
     ds \<leftarrow> setPendingResPage i (replicate kSizeOfReservedPage 0) ds;
     resetPages is ds
   }"

text \<open>\<open>init\<close> on a store that holds no data yet.\<close>

definition initNewStore :: "nat \<Rightarrow> nat \<Rightarrow> ('a, 'z) BCStateTran_scheme \<Rightarrow> ('a, 'z) BCStateTran_scheme option" where
  "initNewStore maxCheckpoints numPages st = do {
     Assert (maxCheckpoints \<ge> 2 \<and> maxCheckpoints \<le> kMaxNumOfStoredCheckpoints);
     Assert (numPages \<ge> 2 \<and> numPages \<le> cfg_maxNumOfReservedPages (st_config st));
     ds \<leftarrow> setReplicas (st_replicas st) (psd st);
     ds \<leftarrow> setMyReplicaId (cfg_myReplicaId (st_config st)) ds;
     ds \<leftarrow> setFVal (cfg_fVal (st_config st)) ds;
     ds \<leftarrow> setMaxNumOfStoredCheckpoints maxCheckpoints ds;
     ds \<leftarrow> setNumberOfReservedPages numPages ds;
     ds \<leftarrow> resetPages [0..<st_numberOfReservedPages st] (ds\<lparr>lastStoredCheckpoint := 0, firstStoredCheckpoint := 0\<rparr>);
     let st = st\<lparr>psd := ds\<lparr>fetching := False, firstRequiredBlock := 0, lastRequiredBlock := 0, ds_wasInit := True\<rparr>\<rparr>;
     fs \<leftarrow> getFetchingState st;
     Assert (fs = NotFetching);
     Some st
   }"

text \<open>A store that holds data is checked and kept.\<close>

definition st_init :: "(byte list \<Rightarrow> Digest) \<Rightarrow> 'a IAppState \<Rightarrow> nat \<Rightarrow> nat \<Rightarrow> nat \<Rightarrow> ('a, 'z) BCStateTran_scheme
    \<Rightarrow> ('a, 'z) BCStateTran_scheme option" where
  "st_init sha api maxNumOfRequiredStoredCheckpoints numberOfRequiredReservedPages sizeOfReservedPage st = do {
     Assert (\<not> st_running st);
     Assert (sizeOfReservedPage = kSizeOfReservedPage);
     let st = st\<lparr>st_maxNumOfStoredCheckpoints := maxNumOfRequiredStoredCheckpoints,
       st_numberOfReservedPages := numberOfRequiredReservedPages\<rparr>;
     if ds_wasInit (psd st)
     then do {
       consistent \<leftarrow> checkConsistency sha api (cfg_pedanticChecks (st_config st)) st;
       Assert consistent;
       Some st
     }
     else initNewStore maxNumOfRequiredStoredCheckpoints numberOfRequiredReservedPages st
   }"

definition startRunning :: "('a, 'z) BCStateTran_scheme \<Rightarrow> ('a, 'z) BCStateTran_scheme option" where
  "startRunning st = do {
     Assert (\<not> st_running st);
     Some (st\<lparr>st_running := True\<rparr>)
   }"

end
