(* ===== verification/Reserved_Pages.thy ===== *)
theory Reserved_Pages
  imports Message_Base
begin

text \<open>
  \<^verbatim>\<open>IStateTransfer.hpp\<close>, the part about reserved pages: the virtual functions that the clients manager calls.
  The interface is a record of functions on the state of a state transfer module; the locale says what an
  implementation promises for each of its pages. \<open>Null_State_Transfer\<close> and \<open>Page_Snapshots\<close> interpret it for the
  two modules of the engine.
\<close>

record 's IStateTransfer =
  ist_loadReservedPage :: "nat \<Rightarrow> nat \<Rightarrow> 's \<Rightarrow> byte list option"
  ist_saveReservedPage :: "nat \<Rightarrow> byte list \<Rightarrow> 's \<Rightarrow> 's option"
  ist_zeroReservedPage :: "nat \<Rightarrow> 's \<Rightarrow> 's option"

locale reserved_pages =
  fixes api :: "'s IStateTransfer" and numPages pageSize :: nat
    and ok :: "'s \<Rightarrow> bool" and content :: "'s \<Rightarrow> nat \<Rightarrow> byte list"
  assumes load_page: "ok s \<Longrightarrow> p < numPages \<Longrightarrow> 0 < k \<Longrightarrow> k \<le> pageSize \<Longrightarrow> ist_loadReservedPage api p k s = Some (take k (content s p))"
    and content_length: "ok s \<Longrightarrow> p < numPages \<Longrightarrow> length (content s p) = pageSize"
    and save_page: "ok s \<Longrightarrow> p < numPages \<Longrightarrow> length bs \<le> pageSize \<Longrightarrow>
      \<exists>s'. ist_saveReservedPage api p bs s = Some s' \<and> ok s' \<and> take (length bs) (content s' p) = bs \<and>
        (\<forall>q. q < numPages \<longrightarrow> q \<noteq> p \<longrightarrow> content s' q = content s q)"
    and zero_page: "ok s \<Longrightarrow> p < numPages \<Longrightarrow>
      \<exists>s'. ist_zeroReservedPage api p s = Some s' \<and> ok s' \<and> content s' p = replicate pageSize 0 \<and>
        (\<forall>q. q < numPages \<longrightarrow> q \<noteq> p \<longrightarrow> content s' q = content s q)"

end
