(* ===== verification/Page_Snapshots.thy ===== *)
theory Page_Snapshots
  imports State_Transfer Reserved_Pages
begin

text \<open>
  What the reserved pages of \<^verbatim>\<open>BCStateTran\<close> promise: a set of current pages and, for every checkpoint that is
  still described, the pages as they were when the checkpoint was taken. The versions, the pending pages and
  the deletion of covered versions implement this specification.
\<close>

section \<open>The specification\<close>

record Snapshots =
  current :: "nat \<Rightarrow> byte list"
  snaps :: "nat \<rightharpoonup> (nat \<Rightarrow> byte list)"

definition fullPage :: "byte list \<Rightarrow> byte list" where
  "fullPage bs = bs @ replicate (kSizeOfReservedPage - length bs) 0"

definition spec_start :: Snapshots where
  "spec_start = \<lparr>current = (\<lambda>p. fullPage []), snaps = Map.empty\<rparr>"

definition spec_save :: "nat \<Rightarrow> byte list \<Rightarrow> Snapshots \<Rightarrow> Snapshots" where
  "spec_save p bs s = s\<lparr>current := (current s)(p := fullPage bs)\<rparr>"

definition spec_checkpoint :: "nat \<Rightarrow> nat \<Rightarrow> Snapshots \<Rightarrow> Snapshots" where
  "spec_checkpoint limit c s = s\<lparr>snaps := ((snaps s)(c \<mapsto> current s)) |` {c - limit..}\<rparr>"

section \<open>The invariant and the simulation\<close>

definition pages_ok :: "nat \<Rightarrow> DataStore \<Rightarrow> bool" where
  "pages_ok n ds \<longleftrightarrow> ordered_map (pages ds) \<and> ordered_map (pendingPages ds) \<and> ordered_map (descMap ds) \<and>
     (\<forall>p c v. map_of (pages ds) (ResPageKey p c) = Some v \<longrightarrow>
        p < n \<and> 0 < c \<and> c \<le> lastStoredCheckpoint ds \<and> length (rpv_page v) = kSizeOfReservedPage) \<and>
     (\<forall>p b. map_of (pendingPages ds) p = Some b \<longrightarrow> p < n \<and> length b = kSizeOfReservedPage) \<and>
     (\<forall>c d. map_of (descMap ds) c = Some d \<longrightarrow> checkpointNum d = c \<and> 0 < c \<and> c \<le> lastStoredCheckpoint ds)"

definition has_version :: "DataStore \<Rightarrow> nat \<Rightarrow> bool" where
  "has_version ds p \<longleftrightarrow> (\<exists>c. map_of (pages ds) (ResPageKey p c) \<noteq> None)"

definition store_inv :: "('a, 'z) BCStateTran_scheme \<Rightarrow> bool" where
  "store_inv st \<longleftrightarrow> (let ds = psd st; n = st_numberOfReservedPages st in
     st_running st \<and> ds_wasInit ds \<and> \<not> fetching ds \<and> ds_sizeOfReservedPage ds = kSizeOfReservedPage \<and>
     ds_numberOfReservedPages ds = n \<and> 0 < n \<and>
     ds_maxNumOfStoredCheckpoints ds = st_maxNumOfStoredCheckpoints st \<and> 0 < st_maxNumOfStoredCheckpoints st \<and>
     firstStoredCheckpoint ds = lastStoredCheckpoint ds - st_maxNumOfStoredCheckpoints st \<and>
     pages_ok n ds \<and> (\<forall>c. hasCheckpointDesc c ds \<longrightarrow> firstStoredCheckpoint ds \<le> c) \<and>
     (\<forall>p < n. map_of (pendingPages ds) p \<noteq> None \<or> has_version ds p) \<and>
     (0 < lastStoredCheckpoint ds \<longrightarrow> (\<forall>p < n. has_version ds p)))"

definition page_at :: "DataStore \<Rightarrow> nat \<Rightarrow> nat \<Rightarrow> byte list \<Rightarrow> bool" where
  "page_at ds p c b \<longleftrightarrow> (\<exists>c' v. valid_version (pages ds) p c c' v \<and> rpv_page v = b)"

definition current_page :: "DataStore \<Rightarrow> nat \<Rightarrow> byte list \<Rightarrow> bool" where
  "current_page ds p b \<longleftrightarrow>
     (case map_of (pendingPages ds) p of Some b' \<Rightarrow> b' = b | None \<Rightarrow> page_at ds p (lastStoredCheckpoint ds) b)"

definition simulates :: "('a, 'z) BCStateTran_scheme \<Rightarrow> Snapshots \<Rightarrow> bool" where
  "simulates st s \<longleftrightarrow> (let ds = psd st; n = st_numberOfReservedPages st in
     (\<forall>p < n. current_page ds p (current s p)) \<and>
     (\<forall>c. hasCheckpointDesc c ds \<longleftrightarrow> snaps s c \<noteq> None) \<and>
     (\<forall>c pg. snaps s c = Some pg \<longrightarrow> (\<forall>p < n. page_at ds p c (pg p))))"

lemma length_fullPage: "length bs \<le> kSizeOfReservedPage \<Longrightarrow> length (fullPage bs) = kSizeOfReservedPage"
  by (simp add: fullPage_def)

lemma page_at_pending [simp]: "page_at (ds\<lparr>pendingPages := x\<rparr>) = page_at ds"
  by (simp add: page_at_def fun_eq_iff)

lemma current_page_pending:
  "current_page (ds\<lparr>pendingPages := x\<rparr>) p b \<longleftrightarrow>
     (if map_of x p = None then page_at ds p (lastStoredCheckpoint ds) b else map_of x p = Some b)"
  by (auto simp: current_page_def split: option.splits)

section \<open>Saving and clearing a page\<close>

lemma setPending_sim:
  assumes inv: "store_inv st" and sim: "simulates st s" and p: "p < st_numberOfReservedPages st" "length bs \<le> kSizeOfReservedPage"
  shows "\<exists>ds. setPendingResPage p bs (psd st) = Some ds \<and> store_inv (st\<lparr>psd := ds\<rparr>) \<and> simulates (st\<lparr>psd := ds\<rparr>) (spec_save p bs s)"
proof -
  define ds where "ds = (psd st)\<lparr>pendingPages := omap_set p (fullPage bs) (pendingPages (psd st))\<rparr>"
  have "setPendingResPage p bs (psd st) = Some ds"
    using inv p(2) by (simp add: setPendingResPage_def store_inv_def Let_def ds_def fullPage_def)
  moreover have "map_of (pendingPages ds) = (map_of (pendingPages (psd st)))(p \<mapsto> fullPage bs)"
    using inv by (simp add: ds_def store_inv_def Let_def pages_ok_def)
  moreover have "store_inv (st\<lparr>psd := ds\<rparr>)" using inv p calculation(2) length_fullPage [OF p(2)]
    by (auto simp: store_inv_def Let_def pages_ok_def ds_def has_version_def hasCheckpointDesc_def)
  moreover have "current_page ds q (current (spec_save p bs s) q)" if "q < st_numberOfReservedPages st" for q
  proof -
    have "current_page (psd st) q (current s q)" using sim that by (simp add: simulates_def Let_def)
    then show ?thesis using calculation(2) by (auto simp: ds_def current_page_pending spec_save_def current_page_def split: option.splits)
  qed
  then have "simulates (st\<lparr>psd := ds\<rparr>) (spec_save p bs s)" using sim
    by (simp add: simulates_def Let_def hasCheckpointDesc_def) (simp add: ds_def spec_save_def)
  ultimately show ?thesis by blast
qed

lemma saveReservedPage_sim:
  assumes "store_inv st" "simulates st s" "p < st_numberOfReservedPages st" "length bs \<le> kSizeOfReservedPage"
  shows "\<exists>st'. saveReservedPage p bs st = Some st' \<and> store_inv st' \<and> simulates st' (spec_save p bs s)"
  using setPending_sim [OF assms] assms by (auto simp: saveReservedPage_def isFetching_def store_inv_def Let_def)

lemma zeroReservedPage_sim:
  assumes "store_inv st" "simulates st s" "p < st_numberOfReservedPages st"
  shows "\<exists>st'. zeroReservedPage p st = Some st' \<and> store_inv st' \<and> simulates st' (spec_save p [] s)"
proof -
  have "spec_save p (replicate kSizeOfReservedPage 0) s = spec_save p [] s" by (simp add: spec_save_def fullPage_def)
  then show ?thesis using setPending_sim [OF assms, of "replicate kSizeOfReservedPage 0"] assms
    by (auto simp: zeroReservedPage_def isFetching_def store_inv_def Let_def)
qed

section \<open>Loading a page\<close>

lemma getResPage_page_at:
  assumes "ordered_map (pages ds)" "page_at ds p c b" "c \<le> lastStoredCheckpoint ds" "0 < k" "k \<le> ds_sizeOfReservedPage ds"
  shows "\<exists>c' d. getResPage p c k ds = Some (c', d, take k b) \<and> c' \<le> c"
proof -
  obtain c' v where "findResPage p c ds = Some (c', v)" "rpv_page v = b" "c' \<le> c"
    using assms(2,3) findResPage_iff [OF assms(1)] by (auto simp: page_at_def valid_version_def)
  then show ?thesis using assms by (simp add: getResPage_def)
qed

lemma loadReservedPage_sim:
  assumes inv: "store_inv st" and sim: "simulates st s" and p: "p < st_numberOfReservedPages st" "0 < k" "k \<le> kSizeOfReservedPage"
  shows "loadReservedPage p k st = Some (take k (current s p))"
proof (cases "map_of (pendingPages (psd st)) p")
  case None
  then have "page_at (psd st) p (lastStoredCheckpoint (psd st)) (current s p)"
    using sim p(1) by (auto simp: simulates_def Let_def current_page_def split: option.splits)
  moreover have "ordered_map (pages (psd st))" "k \<le> ds_sizeOfReservedPage (psd st)"
    using inv p(3) by (auto simp: store_inv_def Let_def pages_ok_def)
  ultimately obtain c' d where "getResPage p (lastStoredCheckpoint (psd st)) k (psd st) = Some (c', d, take k (current s p))"
      "c' \<le> lastStoredCheckpoint (psd st)"
    using getResPage_page_at [OF _ _ order_refl p(2)] by blast
  then show ?thesis using None inv p
    by (simp add: loadReservedPage_def isFetching_def store_inv_def Let_def hasPendingResPage_def)
next
  case (Some b)
  then have "b = current s p" using sim p(1) by (auto simp: simulates_def Let_def current_page_def split: option.splits)
  then show ?thesis using Some inv p
    by (simp add: loadReservedPage_def isFetching_def store_inv_def Let_def hasPendingResPage_def getPendingResPage_def)
qed

section \<open>Taking a checkpoint\<close>

text \<open>Every pending page becomes a version of the new checkpoint.\<close>

definition with_versions :: "(byte list \<Rightarrow> Digest) \<Rightarrow> nat \<Rightarrow> (nat \<rightharpoonup> byte list) \<Rightarrow> (ResPageKey \<rightharpoonup> ResPageVal) \<Rightarrow> (ResPageKey \<rightharpoonup> ResPageVal)" where
  "with_versions sha c pending m k =
     (if checkpoint k = c \<and> pending (pageId k) \<noteq> None
      then Some \<lparr>rpv_pageDigest = computeDigestOfPage sha (pageId k) c (the (pending (pageId k))), rpv_page = the (pending (pageId k))\<rparr>
      else m k)"

lemma omap_erase_head: "ordered_map ((p, b) # es) \<Longrightarrow> omap_erase p ((p, b) # es) = es"
  by (auto simp: omap_erase_def ordered_map_Cons intro!: filter_True)

lemma associateLoop_ok:
  assumes "ordered_map (pages ds)" "ordered_map (pendingPages ds)" "ds_sizeOfReservedPage ds = kSizeOfReservedPage"
    and "\<And>p b. map_of (pendingPages ds) p = Some b \<Longrightarrow> length b = kSizeOfReservedPage"
    and "\<And>p. map_of (pages ds) (ResPageKey p c) = None"
  shows "\<exists>m. associateLoop sha c (map fst (pendingPages ds)) ds = Some (ds\<lparr>pages := m, pendingPages := []\<rparr>) \<and>
    ordered_map m \<and> map_of m = with_versions sha c (map_of (pendingPages ds)) (map_of (pages ds))"
proof -
  have "\<exists>m. associateLoop sha c (map fst es) ds = Some (ds\<lparr>pages := m, pendingPages := []\<rparr>) \<and>
    ordered_map m \<and> map_of m = with_versions sha c (map_of es) (map_of (pages ds))"
    if "pendingPages ds = es" "ordered_map es" "ordered_map (pages ds)" "ds_sizeOfReservedPage ds = kSizeOfReservedPage"
      "\<And>p b. map_of es p = Some b \<Longrightarrow> length b = kSizeOfReservedPage"
      "\<And>p. map_of es p \<noteq> None \<Longrightarrow> map_of (pages ds) (ResPageKey p c) = None" for es ds
    using that
  proof (induction es arbitrary: ds)
    case Nil
    then have "ds\<lparr>pages := pages ds, pendingPages := []\<rparr> = ds" by simp
    then show ?case using Nil by (intro exI [of _ "pages ds"]) (auto simp: with_versions_def fun_eq_iff)
  next
    case (Cons e es)
    obtain p b where e: "e = (p, b)" by (cases e)
    let ?v = "\<lparr>rpv_pageDigest = computeDigestOfPage sha p c b, rpv_page = b\<rparr>"
    define ds' where "ds' = ds\<lparr>pages := omap_set (ResPageKey p c) ?v (pages ds), pendingPages := es\<rparr>"
    have b: "length b = kSizeOfReservedPage" using Cons.prems(5) [of p b] by (simp add: e)
    have new: "map_of (pages ds) (ResPageKey p c) = None" using Cons.prems(6) [of p] by (simp add: e)
    have step: "associateLoop sha c (map fst (e # es)) ds = associateLoop sha c (map fst es) ds'"
      using Cons.prems(1-4) b new omap_erase_head [of p b es]
      by (simp add: e ds'_def getPendingResPage_def associatePendingResPageWithCheckpoint_def)
    have fresh: "map_of es p = None" and ord: "ordered_map es" using Cons.prems(2) by (auto simp: e ordered_map_Cons map_of_eq_None_iff)
    have pages': "map_of (pages ds') = (map_of (pages ds))(ResPageKey p c \<mapsto> ?v)" using Cons.prems(3) by (simp add: ds'_def)
    have "\<exists>m. associateLoop sha c (map fst es) ds' = Some (ds'\<lparr>pages := m, pendingPages := []\<rparr>) \<and>
      ordered_map m \<and> map_of m = with_versions sha c (map_of es) (map_of (pages ds'))"
    proof (rule Cons.IH)
      show "length b' = kSizeOfReservedPage" if "map_of es q = Some b'" for q b'
      proof -
        have "q \<noteq> p" using that fresh by auto
        then show ?thesis using Cons.prems(5) [of q b'] that by (simp add: e)
      qed
      show "map_of (pages ds') (ResPageKey q c) = None" if "map_of es q \<noteq> None" for q
      proof -
        have "q \<noteq> p" using that fresh by auto
        then show ?thesis using Cons.prems(6) [of q] that by (simp add: e pages')
      qed
    qed (use Cons.prems(3,4) ord in \<open>simp_all add: ds'_def\<close>)
    then obtain m where m: "associateLoop sha c (map fst es) ds' = Some (ds'\<lparr>pages := m, pendingPages := []\<rparr>)" "ordered_map m"
      "map_of m = with_versions sha c (map_of es) (map_of (pages ds'))" by blast
    have "with_versions sha c (map_of es) (map_of (pages ds')) = with_versions sha c (map_of (e # es)) (map_of (pages ds))"
    proof
      fix k
      show "with_versions sha c (map_of es) (map_of (pages ds')) k = with_versions sha c (map_of (e # es)) (map_of (pages ds)) k"
        using fresh by (cases k) (auto simp: with_versions_def pages' e)
    qed
    moreover have "ds'\<lparr>pages := m, pendingPages := []\<rparr> = ds\<lparr>pages := m, pendingPages := []\<rparr>" by (simp add: ds'_def)
    ultimately show ?case using step m by metis
  qed
  from this [of ds "pendingPages ds"] show ?thesis using assms by blast
qed

lemma valid_version_before:
  assumes "map_of m = with_versions sha c pending (map_of xs)" "c' < c"
  shows "valid_version m p c' a v \<longleftrightarrow> valid_version xs p c' a v"
proof -
  have "map_of m (ResPageKey p x) = map_of xs (ResPageKey p x)" if "x \<le> c'" for x
    using assms that by (simp add: with_versions_def)
  then show ?thesis by (auto simp: valid_version_def)
qed

lemma page_at_new_checkpoint:
  assumes m: "map_of m = with_versions sha c (map_of (pendingPages ds)) (map_of (pages ds))"
    and old: "\<And>x. map_of (pages ds) (ResPageKey p x) \<noteq> None \<Longrightarrow> x \<le> lastStoredCheckpoint ds"
    and "lastStoredCheckpoint ds < c" "current_page ds p b"
  shows "\<exists>a v. valid_version m p c a v \<and> rpv_page v = b"
proof (cases "map_of (pendingPages ds) p")
  case None
  then obtain a v where v: "valid_version (pages ds) p (lastStoredCheckpoint ds) a v" "rpv_page v = b"
    using assms(4) by (auto simp: current_page_def page_at_def)
  have same: "map_of m (ResPageKey p x) = map_of (pages ds) (ResPageKey p x)" for x using None m by (simp add: with_versions_def)
  have "valid_version m p c a v" using v(1) assms(3) old by (auto simp: valid_version_def same)
  then show ?thesis using v(2) by blast
next
  case (Some b')
  let ?v = "\<lparr>rpv_pageDigest = computeDigestOfPage sha p c b', rpv_page = b'\<rparr>"
  have "valid_version m p c c ?v" using Some m by (simp add: valid_version_def with_versions_def)
  moreover have "b' = b" using Some assms(4) by (simp add: current_page_def)
  ultimately show ?thesis by (metis ResPageVal.select_convs(2))
qed

lemma eraseSmaller_ok:
  assumes "ordered_map es" "\<And>k d. map_of es k = Some d \<Longrightarrow> checkpointNum d = k"
  shows "\<exists>m. eraseSmaller c es = Some m \<and> ordered_map m \<and> map_of m = map_of es |` {c..}"
  using assms
proof (induction es)
  case (Cons e es)
  obtain k d where e: "e = (k, d)" by (cases e)
  have after: "\<forall>x \<in> set es. k < fst x" and ord: "ordered_map es" using Cons.prems(1) by (auto simp: e ordered_map_Cons)
  have fresh: "map_of es k = None" using after by (auto simp: map_of_eq_None_iff)
  have num: "checkpointNum x = j" if "map_of es j = Some x" for j x
  proof -
    have "j \<noteq> k" using that fresh by auto
    then show ?thesis using Cons.prems(2) [of j x] that by (simp add: e)
  qed
  show ?case
  proof (cases "k < c")
    case True
    then show ?thesis using Cons.IH [OF ord num] Cons.prems(2) [of k d] fresh
      by (auto simp: e restrict_map_def fun_eq_iff)
  next
    case False
    have "map_of es j = None" if "j < c" for j using after that False by (auto simp: map_of_eq_None_iff)
    then have "map_of (e # es) = map_of (e # es) |` {c..}" using False by (auto simp: e restrict_map_def fun_eq_iff)
    moreover have "eraseSmaller c (e # es) = Some (e # es)" using False by (simp add: e)
    ultimately show ?thesis using Cons.prems(1) by blast
  qed
qed simp

lemma has_version_uncovered:
  assumes "ordered_map xs" "map_of xs (ResPageKey p a) \<noteq> None"
  shows "\<exists>x. map_of (filter (\<lambda>x. \<not> covered m xs x) xs) (ResPageKey p x) \<noteq> None"
proof -
  obtain x v where "valid_version xs p (max a m) x v" by (rule valid_version_exists [OF assms(2), of "max a m"]) auto
  then have "valid_version (filter (\<lambda>x. \<not> covered m xs x) xs) p (max a m) x v"
    using valid_version_uncovered [OF assms(1), of m "max a m"] by simp
  then show ?thesis by (auto simp: valid_version_def)
qed

lemma deleteCovered_ok:
  assumes ord: "ordered_map (pages ds)" and n: "ds_numberOfReservedPages ds = n" "0 < n"
    and range: "\<And>p c v. map_of (pages ds) (ResPageKey p c) = Some v \<Longrightarrow> p < n \<and> c \<le> l"
    and has: "\<And>p. p < n \<Longrightarrow> has_version ds p" and m: "2 \<le> m" "m \<le> l" "l - m \<le> ds_maxNumOfStoredCheckpoints ds"
  shows "deleteCoveredResPageInSmallerCheckpoints m ds = Some (ds\<lparr>pages := filter (\<lambda>x. \<not> covered m (pages ds) x) (pages ds)\<rparr>)"
proof -
  let ?ys = "filter (\<lambda>x. \<not> covered m (pages ds) x) (pages ds)"
  have cnt: "n \<le> length (pages ds)" using pages_count [OF ord] has by (auto simp: has_version_def)
  have lo: "n \<le> length ?ys"
    using pages_count [OF ordered_map_filter [OF ord]] has has_version_uncovered [OF ord] unfolding has_version_def by meson
  have "length ?ys \<le> n * (l - m + 1)" using uncovered_count [OF ord m(2)] range by blast
  also have "... \<le> n * (ds_maxNumOfStoredCheckpoints ds + 1)" using m(3) by (intro mult_le_mono2) simp
  finally have hi: "length ?ys \<le> n * (ds_maxNumOfStoredCheckpoints ds + 1)" .
  obtain e es where es: "pages ds = e # es" using cnt n by (cases "pages ds") auto
  obtain x v where "map_of (pages ds) (ResPageKey 0 x) = Some v" using has [of 0] n by (auto simp: has_version_def)
  then have "(ResPageKey 0 x, v) \<in> set (e # es)" unfolding es by (rule map_of_SomeD)
  then have "pageId (fst e) = 0" using ord by (auto simp: es ordered_map_Cons fst_less)
  moreover have "e # deleteCoveredLoop m (pageId (fst e)) (checkpoint (fst e) \<le> m) es = ?ys"
    using deleteCovered_filter [of e es m] ord unfolding es by simp
  ultimately show ?thesis using m(1) n(1) cnt lo hi unfolding deleteCoveredResPageInSmallerCheckpoints_def
    by (simp only: es list.case Let_def Assert_bind if_False) (simp add: Assert_bind del: filter.simps)
qed

lemma checkpointReservedPages_ok:
  assumes inv: "store_inv st" and sim: "simulates st s" and c: "lastStoredCheckpoint (psd st) < c"
  shows "\<exists>d m. checkpointReservedPages sha c st = Some (d, st\<lparr>psd := (psd st)\<lparr>pages := m, pendingPages := []\<rparr>\<rparr>) \<and>
    ordered_map m \<and> map_of m = with_versions sha c (map_of (pendingPages (psd st))) (map_of (pages (psd st)))"
proof -
  let ?n = "st_numberOfReservedPages st" and ?l = "lastStoredCheckpoint (psd st)"
  have ok: "pages_ok ?n (psd st)" and size: "ds_sizeOfReservedPage (psd st) = kSizeOfReservedPage"
    and n: "ds_numberOfReservedPages (psd st) = ?n" "0 < ?n"
    using inv by (auto simp: store_inv_def Let_def)
  have old: "p < ?n \<and> x \<le> ?l" if "map_of (pages (psd st)) (ResPageKey p x) = Some v" for p x v
    using ok that by (auto simp: pages_ok_def)
  have "\<exists>m. associateLoop sha c (map fst (pendingPages (psd st))) (psd st) = Some ((psd st)\<lparr>pages := m, pendingPages := []\<rparr>) \<and>
    ordered_map m \<and> map_of m = with_versions sha c (map_of (pendingPages (psd st))) (map_of (pages (psd st)))"
  proof (rule associateLoop_ok)
    show "map_of (pages (psd st)) (ResPageKey p c) = None" for p using old [of p c] c by fastforce
  qed (use ok size in \<open>auto simp: pages_ok_def\<close>)
  then obtain m where m: "associateLoop sha c (map fst (pendingPages (psd st))) (psd st) = Some ((psd st)\<lparr>pages := m, pendingPages := []\<rparr>)"
    "ordered_map m" "map_of m = with_versions sha c (map_of (pendingPages (psd st))) (map_of (pages (psd st)))" by blast
  let ?ds = "(psd st)\<lparr>pages := m, pendingPages := []\<rparr>"
  have "\<exists>d. getResPagesDescriptor c ?ds = Some \<lparr>rpd_numOfPages = ds_numberOfReservedPages ?ds, rpd_d = d\<rparr> \<and>
    length d = ds_numberOfReservedPages ?ds \<and> (\<forall>i < ds_numberOfReservedPages ?ds. describes (pages ?ds) c i (d ! i))"
  proof (rule descriptor_ok)
    show "p < ds_numberOfReservedPages ?ds" if "map_of (pages ?ds) (ResPageKey p x) = Some v" for p x v
      using that old ok by (auto simp: m(3) n with_versions_def pages_ok_def split: if_splits)
    show "\<exists>a v. valid_version (pages ?ds) i c a v" if "i < ds_numberOfReservedPages ?ds" for i
    proof -
      have "current_page (psd st) i (current s i)" using sim that by (simp add: simulates_def Let_def n)
      moreover have "x \<le> ?l" if "map_of (pages (psd st)) (ResPageKey i x) \<noteq> None" for x using old that by blast
      ultimately show ?thesis using page_at_new_checkpoint [OF m(3) _ c] by (simp; blast)
    qed
  qed (use m(2) n c in auto)
  then show ?thesis using m n by (auto simp: checkpointReservedPages_def getNumbersOfPendingResPages_def numOfAllPendingResPage_def)
qed

text \<open>Old checkpoints are forgotten: their descriptions, and the versions that no later checkpoint needs.\<close>

definition trimmed :: "nat \<Rightarrow> DataStore \<Rightarrow> (ResPageKey \<times> ResPageVal) list \<Rightarrow> (nat \<times> CheckpointDesc) list \<Rightarrow> bool" where
  "trimmed m ds ps dm \<longleftrightarrow> ordered_map ps \<and> ordered_map dm \<and> map_of dm = map_of (descMap ds) |` {m..} \<and>
     (\<forall>k v. map_of ps k = Some v \<longrightarrow> map_of (pages ds) k = Some v) \<and>
     (\<forall>p c a v. m \<le> c \<longrightarrow> valid_version ps p c a v \<longleftrightarrow> valid_version (pages ds) p c a v)"

lemma trimmed_same:
  assumes "ordered_map (pages ds)" "ordered_map (descMap ds)" "\<And>k d. map_of (descMap ds) k = Some d \<Longrightarrow> m \<le> k"
  shows "trimmed m ds (pages ds) (descMap ds)"
proof -
  have "map_of (descMap ds) k = (map_of (descMap ds) |` {m..}) k" for k
    using assms(3) [of k] by (cases "map_of (descMap ds) k") (auto simp: restrict_map_def)
  then show ?thesis using assms(1,2) by (auto simp: trimmed_def)
qed

lemma trimmed_uncovered:
  assumes ord: "ordered_map (pages ds)" and "ordered_map dm" "map_of dm = map_of (descMap ds) |` {m..}"
  shows "trimmed m ds (filter (\<lambda>x. \<not> covered m (pages ds) x) (pages ds)) dm"
proof -
  have "map_of (pages ds) k = Some v" if "map_of (filter (\<lambda>x. \<not> covered m (pages ds) x) (pages ds)) k = Some v" for k v
    using that map_of_uncovered [OF ord, of m "pageId k" "checkpoint k" v] by simp
  then show ?thesis using assms ordered_map_filter [OF ord] valid_version_uncovered [OF ord] by (auto simp: trimmed_def)
qed

definition deletable :: "nat \<Rightarrow> ('a, 'z) BCStateTran_scheme \<Rightarrow> bool" where
  "deletable c st \<longleftrightarrow> (let ds = psd st; n = st_numberOfReservedPages st in
     ordered_map (pages ds) \<and> ordered_map (descMap ds) \<and> ds_numberOfReservedPages ds = n \<and> 0 < n \<and>
     (\<forall>p x v. map_of (pages ds) (ResPageKey p x) = Some v \<longrightarrow> p < n \<and> x \<le> c) \<and>
     (\<forall>k d. map_of (descMap ds) k = Some d \<longrightarrow> checkpointNum d = k \<and> 0 < k) \<and>
     (\<forall>p < n. has_version ds p) \<and> ds_maxNumOfStoredCheckpoints ds = st_maxNumOfStoredCheckpoints st \<and>
     firstStoredCheckpoint ds = lastStoredCheckpoint ds - st_maxNumOfStoredCheckpoints st \<and> lastStoredCheckpoint ds < c)"

lemma deleteOldCheckpoints_ok:
  assumes del: "deletable c st"
  shows "\<exists>ps dm. trimmed (c - st_maxNumOfStoredCheckpoints st) (psd st) ps dm \<and>
    deleteOldCheckpoints c st = Some (st\<lparr>psd := (psd st)\<lparr>pages := ps, descMap := dm,
      firstStoredCheckpoint := c - st_maxNumOfStoredCheckpoints st, lastStoredCheckpoint := c\<rparr>\<rparr>)"
proof -
  let ?ds = "psd st" and ?m = "c - st_maxNumOfStoredCheckpoints st"
  have first: "firstStoredCheckpoint ?ds = lastStoredCheckpoint ?ds - st_maxNumOfStoredCheckpoints st" "lastStoredCheckpoint ?ds < c"
    and ord: "ordered_map (pages ?ds)" "ordered_map (descMap ?ds)"
    and num: "\<And>k d. map_of (descMap ?ds) k = Some d \<Longrightarrow> checkpointNum d = k \<and> 0 < k"
    using del by (auto simp: deletable_def Let_def)
  show ?thesis
  proof (cases "2 \<le> ?m")
    case False
    then have small: "\<not> (2 \<le> (if c > st_maxNumOfStoredCheckpoints st then ?m else 0))" by simp
    have "trimmed ?m ?ds (pages ?ds) (descMap ?ds)" using ord num False by (intro trimmed_same) fastforce+
    moreover have "deleteOldCheckpoints c st = Some (st\<lparr>psd := ?ds\<lparr>pages := pages ?ds, descMap := descMap ?ds,
        firstStoredCheckpoint := ?m, lastStoredCheckpoint := c\<rparr>\<rparr>)"
      using small first by (auto simp: deleteOldCheckpoints_def Let_def)
    ultimately show ?thesis by blast
  next
    case True
    then have min: "(if c > st_maxNumOfStoredCheckpoints st then ?m else 0) = ?m" and gt: "firstStoredCheckpoint ?ds < ?m"
      using first by auto
    obtain dm where dm: "eraseSmaller ?m (descMap ?ds) = Some dm" "ordered_map dm" "map_of dm = map_of (descMap ?ds) |` {?m..}"
      using eraseSmaller_ok [OF ord(2)] num by blast
    let ?d = "?ds\<lparr>descMap := dm\<rparr>"
    have "deleteCoveredResPageInSmallerCheckpoints ?m ?d = Some (?d\<lparr>pages := filter (\<lambda>x. \<not> covered ?m (pages ?d) x) (pages ?d)\<rparr>)"
    proof (rule deleteCovered_ok [where n = "st_numberOfReservedPages st" and l = c])
      show "p < st_numberOfReservedPages st \<and> x \<le> c" if "map_of (pages ?d) (ResPageKey p x) = Some v" for p x v
        using that del by (auto simp: deletable_def Let_def)
    qed (use del True in \<open>auto simp: deletable_def Let_def has_version_def\<close>)
    then have "deleteOldCheckpoints c st = Some (st\<lparr>psd := ?ds\<lparr>pages := filter (\<lambda>x. \<not> covered ?m (pages ?ds) x) (pages ?ds),
        descMap := dm, firstStoredCheckpoint := ?m, lastStoredCheckpoint := c\<rparr>\<rparr>)"
      using True gt dm(1) by (simp add: deleteOldCheckpoints_def Let_def min deleteDescOfSmallerCheckpoints_def)
    then show ?thesis using trimmed_uncovered [OF ord(1) dm(2,3)] by blast
  qed
qed

text \<open>What \<^verbatim>\<open>IAppState\<close> documents for a state that only the application updates: the last block is reachable
  and exists.\<close>

definition app_settled :: "'a IAppState \<Rightarrow> 'a \<Rightarrow> bool" where
  "app_settled api app \<longleftrightarrow> getLastReachableBlockNum api app = getLastBlockNum api app \<and>
     (getLastBlockNum api app > 0 \<longrightarrow> (\<exists>b. getBlock api app (getLastBlockNum api app) = Some b \<and> b \<noteq> []))"

lemma createCheckpointDesc_ok:
  "app_settled api (st_app st) \<Longrightarrow> \<exists>x. createCheckpointDesc sha api c d st = Some x \<and> checkpointNum x = c \<and> digestOfResPagesDescriptor x = d"
  by (auto simp: createCheckpointDesc_def app_settled_def digestOfStoredBlock_def computeDigestOfBlock_def Let_def Assert_bind)

lemma trimmed_sim:
  assumes inv: "store_inv st" and sim: "simulates st s" and c: "lastStoredCheckpoint (psd st) < c"
    and m: "ordered_map m" "map_of m = with_versions sha c (map_of (pendingPages (psd st))) (map_of (pages (psd st)))"
    and x: "checkpointNum x = c" and limit: "limit = st_maxNumOfStoredCheckpoints st"
    and t: "trimmed (c - limit) ((psd st)\<lparr>pages := m, pendingPages := [], descMap := omap_set c x (descMap (psd st))\<rparr>) ps dm"
    and st': "st' = st\<lparr>psd := (psd st)\<lparr>pages := ps, pendingPages := [], descMap := dm, firstStoredCheckpoint := c - limit, lastStoredCheckpoint := c\<rparr>\<rparr>"
  shows "store_inv st' \<and> simulates st' (spec_checkpoint limit c s)"
proof -
  let ?n = "st_numberOfReservedPages st" and ?ds = "psd st"
  have ok: "pages_ok ?n ?ds" and pos: "0 < limit" using inv limit by (auto simp: store_inv_def Let_def)
  have old: "y \<le> lastStoredCheckpoint ?ds" if "map_of (pages ?ds) (ResPageKey p y) \<noteq> None" for p y
    using ok that by (auto simp: pages_ok_def)
  have cur: "\<exists>a v. valid_version ps p c a v \<and> rpv_page v = current s p" if "p < ?n" for p
    using page_at_new_checkpoint [OF m(2) old c] sim that t by (simp add: simulates_def Let_def trimmed_def)
  have dm: "map_of dm k = (if c - limit \<le> k then ((map_of (descMap ?ds))(c \<mapsto> x)) k else None)" for k
    using t ok by (simp add: trimmed_def pages_ok_def restrict_map_def)
  have kept: "map_of ps (ResPageKey p y) = Some v \<Longrightarrow> p < ?n \<and> 0 < y \<and> y \<le> c \<and> length (rpv_page v) = kSizeOfReservedPage" for p y v
  proof -
    assume "map_of ps (ResPageKey p y) = Some v"
    then have "map_of m (ResPageKey p y) = Some v" using t by (simp add: trimmed_def)
    then show ?thesis using ok c by (fastforce simp: m(2) with_versions_def pages_ok_def split: if_splits)
  qed
  have descs: "checkpointNum d = k \<and> 0 < k \<and> k \<le> c \<and> c - limit \<le> k" if "map_of dm k = Some d" for k d
    using that ok c x by (fastforce simp: dm pages_ok_def split: if_splits)
  have "has_version (psd st') p" if "p < ?n" for p
    using cur [OF that] by (auto simp: st' has_version_def valid_version_def)
  moreover have "pages_ok ?n (psd st')"
  proof -
    have "ordered_map ps" "ordered_map dm" using t by (auto simp: trimmed_def)
    moreover have "\<forall>p y v. map_of ps (ResPageKey p y) = Some v \<longrightarrow>
        p < ?n \<and> 0 < y \<and> y \<le> c \<and> length (rpv_page v) = kSizeOfReservedPage" using kept by blast
    moreover have "\<forall>k d. map_of dm k = Some d \<longrightarrow> checkpointNum d = k \<and> 0 < k \<and> k \<le> c" using descs by blast
    ultimately show ?thesis unfolding pages_ok_def st' by simp
  qed
  moreover have "c - limit \<le> k" if "hasCheckpointDesc k (psd st')" for k
    using that descs by (auto simp: st' hasCheckpointDesc_def)
  ultimately have "store_inv st'" using inv by (simp add: st' store_inv_def Let_def limit)
  moreover have "simulates st' (spec_checkpoint limit c s)"
    unfolding simulates_def Let_def
  proof (intro conjI allI impI)
    fix k show "hasCheckpointDesc k (psd st') \<longleftrightarrow> snaps (spec_checkpoint limit c s) k \<noteq> None"
      using sim by (auto simp: st' hasCheckpointDesc_def dm spec_checkpoint_def restrict_map_def simulates_def Let_def)
  next
    fix p assume "p < st_numberOfReservedPages st'"
    then show "current_page (psd st') p (current (spec_checkpoint limit c s) p)"
      using cur by (simp add: st' current_page_def page_at_def spec_checkpoint_def)
  next
    fix k pg p assume k: "snaps (spec_checkpoint limit c s) k = Some pg" "p < st_numberOfReservedPages st'"
    then have p: "p < ?n" and ge: "c - limit \<le> k" by (auto simp: st' spec_checkpoint_def restrict_map_def split: if_splits)
    show "page_at (psd st') p k (pg p)"
    proof (cases "k = c")
      case True
      then show ?thesis using k cur [OF p] by (simp add: st' page_at_def spec_checkpoint_def restrict_map_def)
    next
      case False
      then have "snaps s k = Some pg" using k by (simp add: spec_checkpoint_def restrict_map_def split: if_splits)
      then have "page_at ?ds p k (pg p)" "k < c"
        using sim p ok c by (auto simp: simulates_def Let_def hasCheckpointDesc_def pages_ok_def) (metis le_less_trans)
      then show ?thesis using t ge valid_version_before [OF m(2)] by (simp add: st' page_at_def trimmed_def)
    qed
  qed
  ultimately show ?thesis by blast
qed

lemma checkpoint_deletable:
  assumes inv: "store_inv st" and sim: "simulates st s" and c: "lastStoredCheckpoint (psd st) < c"
    and m: "ordered_map m" "map_of m = with_versions sha c (map_of (pendingPages (psd st))) (map_of (pages (psd st)))" and x: "checkpointNum x = c"
  shows "deletable c (st\<lparr>psd := (psd st)\<lparr>pages := m, pendingPages := [], descMap := omap_set c x (descMap (psd st))\<rparr>\<rparr>)"
proof -
  let ?n = "st_numberOfReservedPages st" and ?ds = "psd st"
  have ok: "pages_ok ?n ?ds" using inv by (simp add: store_inv_def Let_def)
  have old: "y \<le> lastStoredCheckpoint ?ds" if "map_of (pages ?ds) (ResPageKey p y) \<noteq> None" for p y
    using ok that by (auto simp: pages_ok_def)
  have "\<exists>a v. valid_version m p c a v \<and> rpv_page v = current s p" if "p < ?n" for p
    using page_at_new_checkpoint [OF m(2) old c] sim that by (simp add: simulates_def Let_def)
  then have "\<forall>p < ?n. \<exists>y. map_of m (ResPageKey p y) \<noteq> None" by (fastforce simp: valid_version_def)
  moreover have "\<forall>p y v. map_of m (ResPageKey p y) = Some v \<longrightarrow> p < ?n \<and> y \<le> c"
    using ok c by (fastforce simp: m(2) with_versions_def pages_ok_def split: if_splits)
  moreover have "\<forall>k d. map_of (omap_set c x (descMap ?ds)) k = Some d \<longrightarrow> checkpointNum d = k \<and> 0 < k"
    using ok x c by (auto simp: pages_ok_def)
  moreover have "ordered_map (omap_set c x (descMap ?ds))" using ok by (simp add: pages_ok_def)
  ultimately show ?thesis using inv c m(1) by (simp add: deletable_def Let_def has_version_def store_inv_def)
qed

lemma createCheckpoint_sim:
  assumes inv: "store_inv st" and sim: "simulates st s" and c: "lastStoredCheckpoint (psd st) < c" and app: "app_settled api (st_app st)"
  shows "\<exists>st'. createCheckpointOfCurrentState sha api c st = Some st' \<and> store_inv st' \<and> lastStoredCheckpoint (psd st') = c \<and>
    st_numberOfReservedPages st' = st_numberOfReservedPages st \<and> st_maxNumOfStoredCheckpoints st' = st_maxNumOfStoredCheckpoints st \<and>
    simulates st' (spec_checkpoint (st_maxNumOfStoredCheckpoints st) c s)"
proof -
  let ?ds = "psd st" and ?limit = "st_maxNumOfStoredCheckpoints st" and ?n = "st_numberOfReservedPages st"
  have ok: "pages_ok ?n ?ds" using inv by (simp add: store_inv_def Let_def)
  obtain d m where m: "checkpointReservedPages sha c st = Some (d, st\<lparr>psd := ?ds\<lparr>pages := m, pendingPages := []\<rparr>\<rparr>)" "ordered_map m"
    "map_of m = with_versions sha c (map_of (pendingPages ?ds)) (map_of (pages ?ds))"
    using checkpointReservedPages_ok [OF inv sim c] by blast
  obtain x where x: "createCheckpointDesc sha api c d (st\<lparr>psd := ?ds\<lparr>pages := m, pendingPages := []\<rparr>\<rparr>) = Some x" "checkpointNum x = c"
    using createCheckpointDesc_ok app by (metis BCStateTran.select_convs(7) BCStateTran.update_convs(6) BCStateTran.surjective)
  define st2 where "st2 = st\<lparr>psd := ?ds\<lparr>pages := m, pendingPages := [], descMap := omap_set c x (descMap ?ds)\<rparr>\<rparr>"
  have new: "map_of (descMap ?ds) c = None"
  proof (rule ccontr)
    assume "map_of (descMap ?ds) c \<noteq> None"
    then have "c \<le> lastStoredCheckpoint ?ds" using ok unfolding pages_ok_def by blast
    then show False using c by simp
  qed
  have del: "deletable c st2"
    using checkpoint_deletable [OF inv sim c m(2,3) x(2)] by (simp add: st2_def)
  obtain ps dm where t: "trimmed (c - ?limit) (psd st2) ps dm" "deleteOldCheckpoints c st2 = Some (st2\<lparr>psd := (psd st2)\<lparr>pages := ps, descMap := dm,
      firstStoredCheckpoint := c - ?limit, lastStoredCheckpoint := c\<rparr>\<rparr>)"
    using deleteOldCheckpoints_ok [OF del] by (auto simp: st2_def)
  define st' where "st' = st\<lparr>psd := ?ds\<lparr>pages := ps, pendingPages := [], descMap := dm, firstStoredCheckpoint := c - ?limit, lastStoredCheckpoint := c\<rparr>\<rparr>"
  have "createCheckpointOfCurrentState sha api c st = Some st'" using inv c m(1) x new t(2)
    by (simp add: createCheckpointOfCurrentState_def isFetching_def store_inv_def Let_def setCheckpointDesc_def st2_def st'_def)
  moreover have "store_inv st' \<and> simulates st' (spec_checkpoint ?limit c s)"
    using t(1) by (intro trimmed_sim [OF inv sim c m(2,3) x(2) refl _ st'_def]) (simp add: st2_def)
  ultimately show ?thesis by (auto simp: st'_def)
qed

section \<open>Runs\<close>

lemma resetPages_ok:
  assumes "ordered_map (pendingPages ds)" "ds_sizeOfReservedPage ds = kSizeOfReservedPage"
  shows "\<exists>m. resetPages is ds = Some (ds\<lparr>pendingPages := m\<rparr>) \<and> ordered_map m \<and>
    map_of m = (\<lambda>p. if p \<in> set is then Some (fullPage []) else map_of (pendingPages ds) p)"
  using assms
proof (induction "is" arbitrary: ds)
  case Nil
  then show ?case by (intro exI [of _ "pendingPages ds"]) auto
next
  case (Cons i "is")
  let ?ds = "ds\<lparr>pendingPages := omap_set i (fullPage []) (pendingPages ds)\<rparr>"
  obtain m where m: "resetPages is ?ds = Some (?ds\<lparr>pendingPages := m\<rparr>)" "ordered_map m"
    "map_of m = (\<lambda>p. if p \<in> set is then Some (fullPage []) else map_of (pendingPages ?ds) p)"
    using Cons.IH [of ?ds] Cons.prems by auto
  have "setPendingResPage i (replicate kSizeOfReservedPage 0) ds = Some ?ds"
    using Cons.prems by (simp add: setPendingResPage_def fullPage_def)
  then show ?case using m Cons.prems by (intro exI [of _ m]) (auto simp: fun_eq_iff)
qed

lemma started:
  assumes new: "newBCStateTran config app = Some st0" and ini: "st_init sha api limit n k st0 = Some st1" and run: "startRunning st1 = Some st"
  shows "store_inv st \<and> simulates st spec_start \<and> st_numberOfReservedPages st = n \<and> st_maxNumOfStoredCheckpoints st = limit"
proof -
  let ?st = "st0\<lparr>st_maxNumOfStoredCheckpoints := limit, st_numberOfReservedPages := n\<rparr>"
  define ds0 where "ds0 = (newInMemoryDataStore kSizeOfReservedPage)\<lparr>ds_replicas := st_replicas st0, ds_myReplicaId := cfg_myReplicaId config,
    ds_fVal := cfg_fVal config, ds_maxNumOfStoredCheckpoints := limit, ds_numberOfReservedPages := n,
    lastStoredCheckpoint := 0, firstStoredCheckpoint := 0\<rparr>"
  have st0: "psd st0 = newInMemoryDataStore kSizeOfReservedPage" "st_config st0 = config"
    using new by (auto simp: newBCStateTran_def Let_def)
  have "initNewStore limit n ?st = Some st1" using ini by (simp add: st_init_def st0(1)) (simp add: newInMemoryDataStore_def)
  then have init: "resetPages [0..<n] ds0 \<noteq> None" "2 \<le> limit" "2 \<le> n"
    and st1: "\<And>ds. resetPages [0..<n] ds0 = Some ds \<Longrightarrow>
      st1 = ?st\<lparr>psd := ds\<lparr>fetching := False, firstRequiredBlock := 0, lastRequiredBlock := 0, ds_wasInit := True\<rparr>\<rparr>"
    by (auto simp: initNewStore_def st0 ds0_def newInMemoryDataStore_def setReplicas_def setMyReplicaId_def setFVal_def
        setMaxNumOfStoredCheckpoints_def setNumberOfReservedPages_def Let_def getFetchingState_def split: bind_splits)
  obtain m where m: "resetPages [0..<n] ds0 = Some (ds0\<lparr>pendingPages := m\<rparr>)" "ordered_map m"
      "map_of m = (\<lambda>p. if p \<in> set [0..<n] then Some (fullPage []) else map_of (pendingPages ds0) p)"
    using resetPages_ok [of ds0 "[0..<n]"] by (auto simp: ds0_def newInMemoryDataStore_def)
  have st: "st = st1\<lparr>st_running := True\<rparr>" using run by (simp add: startRunning_def)
  have mm: "map_of m p = (if p < n then Some (fullPage []) else None)" for p
    by (simp add: m(3) ds0_def newInMemoryDataStore_def)
  have ds: "psd st = ds0\<lparr>pendingPages := m, fetching := False, firstRequiredBlock := 0, lastRequiredBlock := 0, ds_wasInit := True\<rparr>"
    and par: "st_numberOfReservedPages st = n" "st_maxNumOfStoredCheckpoints st = limit" "st_running st"
    using st1 [OF m(1)] st by simp_all
  have "pages_ok n (psd st)" using m(2) length_fullPage [of "[]"] by (simp add: pages_ok_def ds mm) (simp add: ds0_def newInMemoryDataStore_def)
  then have "store_inv st" using init by (simp add: store_inv_def Let_def par) (simp add: ds mm ds0_def newInMemoryDataStore_def hasCheckpointDesc_def)
  moreover have "simulates st spec_start"
    by (simp add: simulates_def Let_def par spec_start_def current_page_def hasCheckpointDesc_def) (simp add: ds mm ds0_def newInMemoryDataStore_def)
  ultimately show ?thesis using par by simp
qed

text \<open>The runs between two state transfers: pages are saved and cleared, checkpoints are taken, and the
  application changes its own state.\<close>

inductive st_run :: "(byte list \<Rightarrow> Digest) \<Rightarrow> 'a IAppState \<Rightarrow> nat \<Rightarrow> nat \<Rightarrow> 'a BCStateTran \<Rightarrow> Snapshots \<Rightarrow> bool"
  for sha api limit n where
  start: "newBCStateTran config app = Some st0 \<Longrightarrow> st_init sha api limit n kSizeOfReservedPage st0 = Some st1 \<Longrightarrow>
    startRunning st1 = Some st \<Longrightarrow> st_run sha api limit n st spec_start"
| save: "st_run sha api limit n st s \<Longrightarrow> saveReservedPage p bs st = Some st' \<Longrightarrow> st_run sha api limit n st' (spec_save p bs s)"
| zero: "st_run sha api limit n st s \<Longrightarrow> zeroReservedPage p st = Some st' \<Longrightarrow> st_run sha api limit n st' (spec_save p [] s)"
| checkpoint: "st_run sha api limit n st s \<Longrightarrow> app_settled api (st_app st) \<Longrightarrow>
    createCheckpointOfCurrentState sha api c st = Some st' \<Longrightarrow> st_run sha api limit n st' (spec_checkpoint limit c s)"
| execute: "st_run sha api limit n st s \<Longrightarrow> st_run sha api limit n (st\<lparr>st_app := app'\<rparr>) s"

lemma st_run_inv:
  assumes "st_run sha api limit n st s"
  shows "store_inv st \<and> simulates st s \<and> st_numberOfReservedPages st = n \<and> st_maxNumOfStoredCheckpoints st = limit"
  using assms
proof induction
  case (start config app st0 st1 st)
  then show ?case by (rule started)
next
  case (save st s p bs st')
  then have "p < st_numberOfReservedPages st" "length bs \<le> kSizeOfReservedPage" and st': "\<exists>ds. st' = st\<lparr>psd := ds\<rparr>"
    by (auto simp: saveReservedPage_def split: bind_splits)
  then show ?case using saveReservedPage_sim [of st s p bs] save by auto
next
  case (zero st s p st')
  then have "p < st_numberOfReservedPages st" and st': "\<exists>ds. st' = st\<lparr>psd := ds\<rparr>"
    by (auto simp: zeroReservedPage_def split: bind_splits)
  then show ?case using zeroReservedPage_sim [of st s p] zero by auto
next
  case (checkpoint st s c st')
  then have "lastStoredCheckpoint (psd st) < c" by (simp add: createCheckpointOfCurrentState_def)
  then show ?case using createCheckpoint_sim [of st s c api sha] checkpoint by auto
next
  case (execute st s app')
  have "store_inv (st\<lparr>st_app := app'\<rparr>) = store_inv st" by (simp add: store_inv_def)
  moreover have "simulates (st\<lparr>st_app := app'\<rparr>) s = simulates st s" by (simp add: simulates_def)
  ultimately show ?case using execute by simp
qed

section \<open>The interface of the reserved pages\<close>

definition bcApi :: "('a, 'z) BCStateTran_scheme IStateTransfer" where
  "bcApi = \<lparr>ist_loadReservedPage = loadReservedPage, ist_saveReservedPage = saveReservedPage, ist_zeroReservedPage = zeroReservedPage\<rparr>"

definition bc_ok :: "nat \<Rightarrow> ('a, 'z) BCStateTran_scheme \<Rightarrow> bool" where
  "bc_ok n st \<longleftrightarrow> store_inv st \<and> (\<exists>s. simulates st s) \<and> st_numberOfReservedPages st = n"

definition bc_content :: "('a, 'z) BCStateTran_scheme \<Rightarrow> nat \<Rightarrow> byte list" where
  "bc_content st p = (case loadReservedPage p kSizeOfReservedPage st of Some b \<Rightarrow> b | None \<Rightarrow> [])"

lemma pageSize_pos: "0 < kSizeOfReservedPage"
  by (simp add: kSizeOfReservedPage_def)

lemma current_length:
  assumes "store_inv st" "simulates st s" "p < st_numberOfReservedPages st"
  shows "length (current s p) = kSizeOfReservedPage"
proof (cases "map_of (pendingPages (psd st)) p")
  case None
  then obtain c v where v: "map_of (pages (psd st)) (ResPageKey p c) = Some v" "rpv_page v = current s p"
    using assms(2,3) by (auto simp: simulates_def Let_def current_page_def page_at_def valid_version_def split: option.splits)
  have "length (rpv_page v) = kSizeOfReservedPage" using assms(1) v(1) unfolding store_inv_def Let_def pages_ok_def by blast
  then show ?thesis using v(2) by simp
next
  case (Some b)
  then have "b = current s p" using assms(2,3) by (auto simp: simulates_def Let_def current_page_def split: option.splits)
  moreover have "length b = kSizeOfReservedPage" using assms(1) Some unfolding store_inv_def Let_def pages_ok_def by blast
  ultimately show ?thesis by simp
qed

lemma bc_content_current:
  assumes "store_inv st" "simulates st s" "p < st_numberOfReservedPages st"
  shows "bc_content st p = current s p"
  using loadReservedPage_sim [OF assms pageSize_pos order_refl] current_length [OF assms] by (simp add: bc_content_def)

lemma saved_same_pages: "saveReservedPage p bs st = Some st' \<Longrightarrow> st_numberOfReservedPages st' = st_numberOfReservedPages st"
  by (auto simp: saveReservedPage_def split: bind_splits)

lemma zeroed_same_pages: "zeroReservedPage p st = Some st' \<Longrightarrow> st_numberOfReservedPages st' = st_numberOfReservedPages st"
  by (auto simp: zeroReservedPage_def split: bind_splits)

lemma bc_saved:
  assumes inv: "store_inv st" and sim: "simulates st s" and st': "store_inv st'" "simulates st' (spec_save p bs s)"
    and n: "st_numberOfReservedPages st' = st_numberOfReservedPages st" and q: "q < st_numberOfReservedPages st"
  shows "bc_content st' q = (if q = p then fullPage bs else bc_content st q)"
  using bc_content_current [OF inv sim q] bc_content_current [OF st', of q] q n by (simp add: spec_save_def)

interpretation bcPages: reserved_pages bcApi n kSizeOfReservedPage "bc_ok n" bc_content for n
proof
  fix s :: "('a, 'z) BCStateTran_scheme" and p k
  assume "bc_ok n s" "p < n" "0 < k" "k \<le> kSizeOfReservedPage"
  then show "ist_loadReservedPage bcApi p k s = Some (take k (bc_content s p))"
    using loadReservedPage_sim [of s _ p k] bc_content_current [of s _ p] by (auto simp: bcApi_def bc_ok_def)
next
  fix s :: "('a, 'z) BCStateTran_scheme" and p assume "bc_ok n s" "p < n"
  then show "length (bc_content s p) = kSizeOfReservedPage"
    using bc_content_current [of s _ p] current_length [of s _ p] by (auto simp: bc_ok_def)
next
  fix s :: "('a, 'z) BCStateTran_scheme" and p and bs :: "byte list"
  assume a: "bc_ok n s" "p < n" "length bs \<le> kSizeOfReservedPage"
  then obtain t where t: "store_inv s" "simulates s t" "p < st_numberOfReservedPages s" by (auto simp: bc_ok_def)
  obtain s' where s': "saveReservedPage p bs s = Some s'" "store_inv s'" "simulates s' (spec_save p bs t)"
    using saveReservedPage_sim [OF t a(3)] by blast
  note n' = saved_same_pages [OF s'(1)]
  show "\<exists>s'. ist_saveReservedPage bcApi p bs s = Some s' \<and> bc_ok n s' \<and> take (length bs) (bc_content s' p) = bs \<and>
      (\<forall>q. q < n \<longrightarrow> q \<noteq> p \<longrightarrow> bc_content s' q = bc_content s q)"
    using s' n' a bc_saved [OF t(1,2) s'(2,3) n'] by (intro exI [of _ s']) (auto simp: bcApi_def bc_ok_def fullPage_def)
next
  fix s :: "('a, 'z) BCStateTran_scheme" and p
  assume a: "bc_ok n s" "p < n"
  then obtain t where t: "store_inv s" "simulates s t" "p < st_numberOfReservedPages s" by (auto simp: bc_ok_def)
  obtain s' where s': "zeroReservedPage p s = Some s'" "store_inv s'" "simulates s' (spec_save p [] t)"
    using zeroReservedPage_sim [OF t] by blast
  note n' = zeroed_same_pages [OF s'(1)]
  show "\<exists>s'. ist_zeroReservedPage bcApi p s = Some s' \<and> bc_ok n s' \<and> bc_content s' p = replicate kSizeOfReservedPage 0 \<and>
      (\<forall>q. q < n \<longrightarrow> q \<noteq> p \<longrightarrow> bc_content s' q = bc_content s q)"
    using s' n' a bc_saved [OF t(1,2) s'(2,3) n'] by (intro exI [of _ s']) (auto simp: bcApi_def bc_ok_def fullPage_def)
qed

section \<open>What the pages promise\<close>

text \<open>C4: the versions implement snapshots. In every state that a sequence of operations reaches, loading a page
  gives what was saved last, and every checkpoint that is still described gives each page exactly as it was when
  that checkpoint was taken, however many checkpoints followed and whatever was deleted as covered.\<close>

theorem snapshots_refined:
  assumes "st_run sha api limit n st s"
  shows "(\<forall>p k. p < n \<and> 0 < k \<and> k \<le> kSizeOfReservedPage \<longrightarrow> loadReservedPage p k st = Some (take k (current s p))) \<and>
    (\<forall>c. hasCheckpointDesc c (psd st) \<longleftrightarrow> snaps s c \<noteq> None) \<and>
    (\<forall>c pg p. snaps s c = Some pg \<and> p < n \<longrightarrow> (\<exists>c' d. getResPage p c kSizeOfReservedPage (psd st) = Some (c', d, pg p)))"
proof -
  have inv: "store_inv st" and sim: "simulates st s" and n: "st_numberOfReservedPages st = n" using st_run_inv [OF assms] by auto
  have k: "0 < kSizeOfReservedPage" by (simp add: kSizeOfReservedPage_def)
  have ok: "pages_ok n (psd st)" "ds_sizeOfReservedPage (psd st) = kSizeOfReservedPage" using inv n by (auto simp: store_inv_def Let_def)
  have "\<exists>c' d. getResPage p c kSizeOfReservedPage (psd st) = Some (c', d, pg p)" if "snaps s c = Some pg" "p < n" for c pg p
  proof -
    have at: "page_at (psd st) p c (pg p)" "hasCheckpointDesc c (psd st)" using sim that n by (auto simp: simulates_def Let_def)
    obtain c' v where v: "map_of (pages (psd st)) (ResPageKey p c') = Some v" "rpv_page v = pg p"
      using at(1) by (auto simp: page_at_def valid_version_def)
    have "length (pg p) = kSizeOfReservedPage" using ok(1) v(1) unfolding pages_ok_def v(2) [symmetric] by blast
    moreover have "c \<le> lastStoredCheckpoint (psd st)" using ok(1) at(2) unfolding pages_ok_def hasCheckpointDesc_def by blast
    moreover have "ordered_map (pages (psd st))" using ok(1) by (simp add: pages_ok_def)
    ultimately show ?thesis using getResPage_page_at [OF _ at(1) _ k] ok(2) by fastforce
  qed
  moreover have "loadReservedPage p k st = Some (take k (current s p))" if "p < n" "0 < k" "k \<le> kSizeOfReservedPage" for p k
    using loadReservedPage_sim [OF inv sim] that n by simp
  ultimately show ?thesis using sim by (simp add: simulates_def Let_def)
qed

text \<open>C17: keeping pages never stops a replica. In every such state, saving and clearing a page of legal size and
  taking a higher checkpoint over a settled application state succeed: no assertion of the data store, of its
  deletion of covered versions or of its descriptor fails.\<close>

theorem page_operations_succeed:
  assumes "st_run sha api limit n st s" "p < n" "length bs \<le> kSizeOfReservedPage"
    and "lastStoredCheckpoint (psd st) < c" "app_settled api (st_app st)"
  shows "saveReservedPage p bs st \<noteq> None \<and> zeroReservedPage p st \<noteq> None \<and> createCheckpointOfCurrentState sha api c st \<noteq> None"
proof -
  have inv: "store_inv st" and sim: "simulates st s" and n: "st_numberOfReservedPages st = n" using st_run_inv [OF assms(1)] by auto
  show ?thesis using saveReservedPage_sim [OF inv sim] zeroReservedPage_sim [OF inv sim] createCheckpoint_sim [OF inv sim assms(4,5), of sha] assms(2,3) n
    by fastforce
qed

section \<open>An example\<close>

definition noBlocks :: "unit IAppState" where
  "noBlocks = \<lparr>hasBlock = \<lambda>_ _. False, getBlock = \<lambda>_ _. None, getPrevDigestFromBlock = \<lambda>_ _. None,
     putBlock = \<lambda>_ _ _. (False, ()), getLastReachableBlockNum = \<lambda>_. 0, getLastBlockNum = \<lambda>_. 0\<rparr>"

definition sampleConfig :: Config where
  "sampleConfig = \<lparr>cfg_myReplicaId = 0, cfg_fVal = 1, cfg_cVal = 0, cfg_pedanticChecks = True, cfg_maxBlockSize = 1000,
     cfg_maxChunkSize = 100, cfg_maxNumberOfChunksInBatch = 24, cfg_maxPendingDataFromSourceReplica = 10000,
     cfg_maxNumOfReservedPages = 8, cfg_checkpointSummariesRetransmissionTimeoutMilli = 2500,
     cfg_maxAcceptableMsgDelayMilli = 60000, cfg_sourceReplicaReplacementTimeoutMilli = 5000,
     cfg_fetchRetransmissionTimeoutMilli = 250\<rparr>"

lemma settled_noBlocks: "app_settled noBlocks a"
  by (simp add: app_settled_def noBlocks_def)

lemma sample_start: "\<exists>st. st_run sha noBlocks 2 2 st spec_start \<and> lastStoredCheckpoint (psd st) = 0"
proof -
  let ?st0 = "\<lparr>st_config = sampleConfig, st_replicas = [0..<4], st_maxNumOfStoredCheckpoints = 0, st_numberOfReservedPages = 0,
    st_running = False, psd = newInMemoryDataStore kSizeOfReservedPage, st_app = ()\<rparr>"
  have new: "newBCStateTran sampleConfig () = Some ?st0"
    by (simp add: newBCStateTran_def sampleConfig_def i16_def)
  obtain st1 where ini: "st_init sha noBlocks 2 2 kSizeOfReservedPage ?st0 = Some st1" "\<not> st_running st1" "lastStoredCheckpoint (psd st1) = 0"
    by (simp add: st_init_def initNewStore_def newInMemoryDataStore_def setReplicas_def setMyReplicaId_def setFVal_def sampleConfig_def
        setMaxNumOfStoredCheckpoints_def setNumberOfReservedPages_def setPendingResPage_def upt_rec getFetchingState_def)
  have "startRunning st1 = Some (st1\<lparr>st_running := True\<rparr>)" using ini(2) by (simp add: startRunning_def)
  from st_run.start [OF new ini(1) this] show ?thesis using ini(3) by auto
qed

lemma sample_checkpoint:
  assumes "0 < c"
  shows "\<exists>st. st_run sha noBlocks 2 2 st (spec_checkpoint 2 c (spec_save 1 [7] spec_start)) \<and> lastStoredCheckpoint (psd st) = c"
proof -
  obtain st where st: "st_run sha noBlocks 2 2 st spec_start" "lastStoredCheckpoint (psd st) = 0" using sample_start by blast
  note inv = st_run_inv [OF st(1)]
  obtain st1 where st1: "saveReservedPage 1 [7] st = Some st1"
    using saveReservedPage_sim [of st spec_start 1 "[7]"] inv by (auto simp: kSizeOfReservedPage_def)
  have run1: "st_run sha noBlocks 2 2 st1 (spec_save 1 [7] spec_start)" by (rule st_run.save [OF st(1) st1])
  have last: "lastStoredCheckpoint (psd st1) < c" using st1 st(2) assms
    by (auto simp: saveReservedPage_def setPendingResPage_def split: bind_splits)
  obtain st2 where st2: "createCheckpointOfCurrentState sha noBlocks c st1 = Some st2" "lastStoredCheckpoint (psd st2) = c"
    using createCheckpoint_sim [OF _ _ last settled_noBlocks] st_run_inv [OF run1] by blast
  then show ?thesis using st_run.checkpoint [OF run1 settled_noBlocks st2(1)] by blast
qed

theorem snapshots_refined_witness:
  "\<exists>st c d. st_run (\<lambda>x. zeroDigest) noBlocks 2 2 st (spec_checkpoint 2 1 (spec_save 1 [7] spec_start)) \<and>
     loadReservedPage 1 1 st = Some [7] \<and> getResPage 1 1 kSizeOfReservedPage (psd st) = Some (c, d, fullPage [7])"
proof -
  let ?s = "spec_checkpoint 2 1 (spec_save 1 [7] spec_start)"
  obtain st where st: "st_run (\<lambda>x. zeroDigest) noBlocks 2 2 st ?s" using sample_checkpoint [of 1] by auto
  have at: "snaps ?s 1 = Some (current ?s)" "current ?s 1 = fullPage [7]" by (simp_all add: spec_checkpoint_def spec_save_def restrict_map_def)
  from snapshots_refined [OF st] have "loadReservedPage 1 1 st = Some [7]"
    by (simp add: kSizeOfReservedPage_def spec_checkpoint_def spec_save_def fullPage_def)
  moreover have "\<forall>c pg p. snaps ?s c = Some pg \<and> p < 2 \<longrightarrow> (\<exists>c' d. getResPage p c kSizeOfReservedPage (psd st) = Some (c', d, pg p))"
    using snapshots_refined [OF st] by blast
  then have "\<exists>c d. getResPage 1 1 kSizeOfReservedPage (psd st) = Some (c, d, current ?s 1)" using at(1) by fastforce
  then have "\<exists>c d. getResPage 1 1 kSizeOfReservedPage (psd st) = Some (c, d, fullPage [7])" using at(2) by metis
  ultimately show ?thesis using st by blast
qed

theorem page_operations_succeed_witness:
  "\<exists>st. st_run (\<lambda>x. zeroDigest) noBlocks 2 2 st (spec_checkpoint 2 1 (spec_save 1 [7] spec_start)) \<and>
     saveReservedPage 0 [1, 2] st \<noteq> None \<and> createCheckpointOfCurrentState (\<lambda>x. zeroDigest) noBlocks 2 st \<noteq> None"
proof -
  obtain st where st: "st_run (\<lambda>x. zeroDigest) noBlocks 2 2 st (spec_checkpoint 2 1 (spec_save 1 [7] spec_start))" "lastStoredCheckpoint (psd st) = 1"
    using sample_checkpoint [of 1] by auto
  then show ?thesis using page_operations_succeed [OF st(1), of 0 "[1, 2]" 2] settled_noBlocks
    by (auto simp: kSizeOfReservedPage_def)
qed

end
