(* ===== verification/Store_Restart.thy ===== *)
theory Store_Restart
  imports Page_Snapshots
begin

text \<open>
  What \<open>checkConsistency\<close> of \<^verbatim>\<open>BCStateTran\<close> accepts when \<open>init\<close> meets a store that holds data, or when a
  transfer is complete. Two of its conditions do not fit the rest of the code.
\<close>

lemma andThen_True [simp]: "andThen a b = Some True \<longleftrightarrow> a = Some True \<and> b = Some True"
  by (auto simp: andThen_def split: option.splits)

lemma CH_True [simp]: "CH c k = Some True \<longleftrightarrow> c \<and> k = Some True"
  by (simp add: CH_def)

text \<open>C40: a chain with a gap is never consistent. While blocks are being fetched the application stores blocks
  above a gap; the check then asks at once for the state in which reserved pages are fetched, where no block is
  required any more, and for a required block right behind the gap. So it never succeeds on such a store.\<close>

theorem consistency_rejects_gap:
  assumes "getLastReachableBlockNum api (st_app st) < getLastBlockNum api (st_app st)" "getLastBlockNum api (st_app st) \<le> UINT64_MAX"
  shows "checkConsistency sha api b st \<noteq> Some True"
proof
  assume "checkConsistency sha api b st = Some True"
  then have u: "checkUnreachableBlocks api st = Some True" and f: "checkFetchedBlocks sha api b st = Some True"
    by (auto simp: checkConsistency_def Let_def)
  have "getFetchingState st = Some GettingMissingResPages"
    using u assms(1) by (auto simp: checkUnreachableBlocks_def Let_def split: bind_splits)
  then have "firstRequiredBlock (psd st) = 0" by (auto simp: getFetchingState_def split: if_splits)
  then show False using f assms by (auto simp: checkFetchedBlocks_def Let_def)
qed

text \<open>C32: a replica that took as many checkpoints as it may keep cannot be initialised again on its store:
  \<open>deleteOldCheckpoints\<close> leaves the range of one checkpoint more than \<open>checkConsistency\<close> accepts.\<close>

theorem restart_after_checkpoints_fails:
  assumes "st_run sha api limit n st s" "limit \<le> lastStoredCheckpoint (psd st)"
  shows "st_init sha api limit n kSizeOfReservedPage (st\<lparr>st_running := False\<rparr>) = None"
proof -
  have inv: "store_inv st" and par: "st_numberOfReservedPages st = n" "st_maxNumOfStoredCheckpoints st = limit"
    using st_run_inv [OF assms(1)] by auto
  let ?st = "st\<lparr>st_running := False, st_maxNumOfStoredCheckpoints := limit, st_numberOfReservedPages := n\<rparr>"
  have "firstStoredCheckpoint (psd st) = lastStoredCheckpoint (psd st) - limit" using inv par by (simp add: store_inv_def Let_def)
  then have "checkStoredRange ?st \<noteq> Some True" using assms(2) by (auto simp: checkStoredRange_def Let_def)
  then have "checkConsistency sha api b ?st \<noteq> Some True" for b by (auto simp: checkConsistency_def Let_def)
  moreover have "ds_wasInit (psd st)" using inv by (simp add: store_inv_def Let_def)
  ultimately show ?thesis by (auto simp: st_init_def Let_def bind_eq_None_conv)
qed

theorem consistency_rejects_gap_witness:
  "checkConsistency (\<lambda>x. zeroDigest) (noBlocks\<lparr>getLastReachableBlockNum := \<lambda>_. 1, getLastBlockNum := \<lambda>_. 3\<rparr>) False
     \<lparr>st_config = sampleConfig, st_replicas = [0..<4], st_maxNumOfStoredCheckpoints = 2, st_numberOfReservedPages = 2,
       st_running = False, psd = (newInMemoryDataStore kSizeOfReservedPage)\<lparr>fetching := True, firstRequiredBlock := 2, lastRequiredBlock := 2\<rparr>, st_app = ()\<rparr>
     \<noteq> Some True"
  by (rule consistency_rejects_gap) (simp_all add: noBlocks_def)

theorem restart_after_checkpoints_fails_witness:
  "\<exists>st. st_run (\<lambda>x. zeroDigest) noBlocks 2 2 st (spec_checkpoint 2 2 (spec_save 1 [7] spec_start)) \<and>
     st_init (\<lambda>x. zeroDigest) noBlocks 2 2 kSizeOfReservedPage (st\<lparr>st_running := False\<rparr>) = None"
proof -
  obtain st where st: "st_run (\<lambda>x. zeroDigest) noBlocks 2 2 st (spec_checkpoint 2 2 (spec_save 1 [7] spec_start))" "lastStoredCheckpoint (psd st) = 2"
    using sample_checkpoint [of 2] by auto
  then show ?thesis using restart_after_checkpoints_fails [OF st(1)] by auto
qed

end
