(* ===== verification/Clients_Manager.thy ===== *)
theory Clients_Manager
  imports Client_Msgs Reserved_Pages Ordered_Map
begin

text \<open>
  \<^verbatim>\<open>ClientsManager.cpp\<close>: for every client the request that is pending and the number of the last reply. The last
  reply itself is written to the reserved pages of the state transfer module, a fixed run of pages per client,
  from where it is read when the client asks again or after a state transfer. The module is the argument \<open>api\<close>
  with its state \<open>s\<close>; the clock is the argument \<open>now\<close>. A client that is not in the map stops the replica
  (\<^verbatim>\<open>std::out_of_range\<close>).
\<close>

section \<open>State\<close>

record ClientInfo =
  currentPendingRequest :: ReqId
  timeOfCurrentPendingRequest :: Time
  lastSeqNumberOfReply :: ReqId
  latestReplyTime :: Time

record ClientsManager =
  cm_myId :: ReplicaId
  sizeOfReservedPage :: nat
  stateTransferSet :: bool
  reservedPagesPerClient :: nat
  requiredNumberOfPages :: nat
  clientIdToIndex :: "(NodeIdType \<times> nat) list"
  indexToClientInfo :: "ClientInfo list"

definition noClientInfo :: ClientInfo where
  "noClientInfo = \<lparr>currentPendingRequest = 0, timeOfCurrentPendingRequest = MinTime, lastSeqNumberOfReply = 0, latestReplyTime = MinTime\<rparr>"

text \<open>The set of clients is the list of its members in order; the index is a \<open>uint16_t\<close>. A page of size 0 is a
  division by zero.\<close>

definition newClientsManager :: "ReplicaId \<Rightarrow> NodeIdType list \<Rightarrow> nat \<Rightarrow> ClientsManager option" where
  "newClientsManager myId clientsSet pageSize = do {
     Assert (length clientsSet \<ge> 1);
     Assert (pageSize \<noteq> 0);
     let perClient = maxReplyMessageSize div pageSize + (if maxReplyMessageSize mod pageSize \<noteq> 0 then 1 else 0);
     let numOfClients = u16 (int (length clientsSet));
     Some \<lparr>cm_myId = myId, sizeOfReservedPage = pageSize, stateTransferSet = False, reservedPagesPerClient = perClient,
       requiredNumberOfPages = u32 (int (numOfClients * perClient)),
       clientIdToIndex = zip clientsSet (map (\<lambda>i. u16 (int i)) [0..<length clientsSet]),
       indexToClientInfo = replicate (length clientsSet) noClientInfo\<rparr>
   }"

definition cm_init :: "ClientsManager \<Rightarrow> ClientsManager option" where
  "cm_init cm = do {
     Assert (\<not> stateTransferSet cm);
     Some (cm\<lparr>stateTransferSet := True\<rparr>)
   }"

definition numberOfRequiredReservedPages :: "ClientsManager \<Rightarrow> nat" where
  "numberOfRequiredReservedPages cm = requiredNumberOfPages cm"

definition isValidClient :: "NodeIdType \<Rightarrow> ClientsManager \<Rightarrow> bool" where
  "isValidClient clientId cm \<longleftrightarrow> map_of (clientIdToIndex cm) clientId \<noteq> None"

definition clientInfo :: "NodeIdType \<Rightarrow> ClientsManager \<Rightarrow> (nat \<times> ClientInfo) option" where
  "clientInfo clientId cm = do {
     idx \<leftarrow> map_of (clientIdToIndex cm) clientId;
     c \<leftarrow> at (indexToClientInfo cm) idx;
     Some (idx, c)
   }"

definition setClientInfo :: "nat \<Rightarrow> ClientInfo \<Rightarrow> ClientsManager \<Rightarrow> ClientsManager" where
  "setClientInfo idx c cm = cm\<lparr>indexToClientInfo := (indexToClientInfo cm)[idx := c]\<rparr>"

section \<open>Reserved pages\<close>

fun zeroPages :: "'s IStateTransfer \<Rightarrow> nat list \<Rightarrow> 's \<Rightarrow> 's option" where
  "zeroPages api [] s = Some s"
| "zeroPages api (i # is) s = do { s \<leftarrow> ist_zeroReservedPage api i s; zeroPages api is s }"

definition clearReservedPages :: "'s IStateTransfer \<Rightarrow> ClientsManager \<Rightarrow> 's \<Rightarrow> 's option" where
  "clearReservedPages api cm s = do {
     Assert (stateTransferSet cm);
     zeroPages api [0..<requiredNumberOfPages cm] s
   }"

definition firstPageId :: "nat \<Rightarrow> ClientsManager \<Rightarrow> nat" where
  "firstPageId idx cm = u32 (int (idx * reservedPagesPerClient cm))"

text \<open>The page is read as a reply header: its type and the other fields.\<close>

definition storedHeader :: "byte list \<Rightarrow> (nat \<times> ClientReply) option" where
  "storedHeader page = do {
     type \<leftarrow> rd_nat 0 2 page;
     h \<leftarrow> replyHeader page;
     Some (type, h)
   }"

fun loadInfoLoop :: "'s IStateTransfer \<Rightarrow> 's \<Rightarrow> (NodeIdType \<times> nat) list \<Rightarrow> ClientsManager \<Rightarrow> ClientsManager option" where
  "loadInfoLoop api s [] cm = Some cm"
| "loadInfoLoop api s (e # es) cm = do {
     scratchPage \<leftarrow> ist_loadReservedPage api (firstPageId (snd e) cm) (sizeOfReservedPage cm) s;
     (type, h) \<leftarrow> storedHeader scratchPage;
     Assert (type = 0 \<or> type = MsgCode_Reply);
     Assert (rp_currentPrimaryId h = 0);
     Assert (rp_replyLength h + sizeofClientReplyMsgHeader \<le> maxReplyMessageSize);
     ci \<leftarrow> at (indexToClientInfo cm) (snd e);
     let ci = ci\<lparr>lastSeqNumberOfReply := rp_reqSeqNum h, latestReplyTime := MinTime\<rparr>;
     let ci = (if currentPendingRequest ci \<noteq> 0 \<and> currentPendingRequest ci \<le> rp_reqSeqNum h
       then ci\<lparr>currentPendingRequest := 0, timeOfCurrentPendingRequest := MinTime\<rparr> else ci);
     loadInfoLoop api s es (setClientInfo (snd e) ci cm)
   }"

definition loadInfoFromReservedPages :: "'s IStateTransfer \<Rightarrow> 's \<Rightarrow> ClientsManager \<Rightarrow> ClientsManager option" where
  "loadInfoFromReservedPages api s cm = do {
     Assert (stateTransferSet cm);
     loadInfoLoop api s (clientIdToIndex cm) cm
   }"

section \<open>Replies\<close>

definition seqNumberOfLastReplyToClient :: "NodeIdType \<Rightarrow> ClientsManager \<Rightarrow> ReqId option" where
  "seqNumberOfLastReplyToClient clientId cm = do {
     (idx, c) \<leftarrow> clientInfo clientId cm;
     Some (lastSeqNumberOfReply c)
   }"

definition getInfoAboutLastReplyToClient :: "NodeIdType \<Rightarrow> ClientsManager \<Rightarrow> (ReqId \<times> Time) option" where
  "getInfoAboutLastReplyToClient clientId cm = do {
     (idx, c) \<leftarrow> clientInfo clientId cm;
     Some (lastSeqNumberOfReply c, latestReplyTime c)
   }"

text \<open>The pages a message of \<open>msgSz\<close> bytes takes, as (number of the page, offset, size).\<close>

definition pagesOfMsg :: "nat \<Rightarrow> nat \<Rightarrow> (nat \<times> nat \<times> nat) list" where
  "pagesOfMsg pageSize msgSz =
     (let numOfPages = msgSz div pageSize + (if msgSz mod pageSize \<noteq> 0 then 1 else 0);
          sizeLastPage = (if msgSz mod pageSize \<noteq> 0 then msgSz mod pageSize else pageSize) in
      map (\<lambda>i. (i, i * pageSize, if i < numOfPages - 1 then pageSize else sizeLastPage)) [0..<numOfPages])"

fun savePages :: "'s IStateTransfer \<Rightarrow> nat \<Rightarrow> byte list \<Rightarrow> (nat \<times> nat \<times> nat) list \<Rightarrow> 's \<Rightarrow> 's option" where
  "savePages api first body [] s = Some s"
| "savePages api first body ((i, off, k) # ps) s = do {
     page \<leftarrow> rd off k body;
     s \<leftarrow> ist_saveReservedPage api (u32 (int (first + i))) page s;
     savePages api first body ps s
   }"

definition allocateNewReplyMsgAndWriteToStorage ::
  "'s IStateTransfer \<Rightarrow> Time \<Rightarrow> NodeIdType \<Rightarrow> ReqId \<Rightarrow> ReplicaId \<Rightarrow> byte list \<Rightarrow> ClientsManager \<Rightarrow> 's
     \<Rightarrow> (MessageBase \<times> ClientsManager \<times> 's) option" where
  "allocateNewReplyMsgAndWriteToStorage api now clientId requestSeqNum currentPrimaryId reply cm s = do {
     (clientIdx, c) \<leftarrow> clientInfo clientId cm;
     Assert (lastSeqNumberOfReply c < requestSeqNum);
     let cm = setClientInfo clientIdx (c\<lparr>lastSeqNumberOfReply := requestSeqNum, latestReplyTime := now\<rparr>) cm;
     r \<leftarrow> newClientReplyMsg (cm_myId cm) requestSeqNum reply;
     Assert (stateTransferSet cm);
     s \<leftarrow> savePages api (firstPageId clientIdx cm) (msgBody r) (pagesOfMsg (sizeOfReservedPage cm) (msgSize r)) s;
     r \<leftarrow> setPrimaryId r currentPrimaryId;
     buf \<leftarrow> replyBuf (msgBody r);
     h \<leftarrow> debugHash buf;
     Some (r, cm, s)
   }"

fun loadPages :: "'s IStateTransfer \<Rightarrow> nat \<Rightarrow> 's \<Rightarrow> (nat \<times> nat \<times> nat) list \<Rightarrow> byte list \<Rightarrow> byte list option" where
  "loadPages api first s [] body = Some body"
| "loadPages api first s ((i, off, k) # ps) body = do {
     page \<leftarrow> ist_loadReservedPage api (u32 (int (first + i))) k s;
     body \<leftarrow> wr off page body;
     loadPages api first s ps body
   }"

definition allocateMsgWithLatestReply ::
  "'s IStateTransfer \<Rightarrow> NodeIdType \<Rightarrow> ReplicaId \<Rightarrow> ClientsManager \<Rightarrow> 's \<Rightarrow> MessageBase option" where
  "allocateMsgWithLatestReply api clientId currentPrimaryId cm s = do {
     (clientIdx, info) \<leftarrow> clientInfo clientId cm;
     Assert (lastSeqNumberOfReply info \<noteq> 0);
     Assert (stateTransferSet cm);
     let first = firstPageId clientIdx cm;
     scratchPage \<leftarrow> ist_loadReservedPage api first (sizeOfReservedPage cm) s;
     (type, h) \<leftarrow> storedHeader scratchPage;
     Assert (type = MsgCode_Reply);
     Assert (rp_currentPrimaryId h = 0);
     Assert (rp_replyLength h > 0);
     Assert (rp_replyLength h + sizeofClientReplyMsgHeader \<le> maxReplyMessageSize);
     let replyMsgSize = sizeofClientReplyMsgHeader + rp_replyLength h;
     r \<leftarrow> newBlankClientReplyMsg (cm_myId cm) (rp_replyLength h);
     body \<leftarrow> loadPages api first s (pagesOfMsg (sizeOfReservedPage cm) replyMsgSize) (msgBody r);
     r \<leftarrow> setPrimaryId (r\<lparr>msgBody := body\<rparr>) currentPrimaryId;
     buf \<leftarrow> replyBuf (msgBody r);
     hash \<leftarrow> debugHash buf;
     Some r
   }"

section \<open>Requests\<close>

definition noPendingAndRequestCanBecomePending :: "NodeIdType \<Rightarrow> ReqId \<Rightarrow> ClientsManager \<Rightarrow> bool option" where
  "noPendingAndRequestCanBecomePending clientId reqSeqNum cm = do {
     (idx, c) \<leftarrow> clientInfo clientId cm;
     if currentPendingRequest c \<noteq> 0 then Some False
     else if reqSeqNum \<le> lastSeqNumberOfReply c then Some False
     else Some True
   }"

definition addPendingRequest :: "Time \<Rightarrow> NodeIdType \<Rightarrow> ReqId \<Rightarrow> ClientsManager \<Rightarrow> ClientsManager option" where
  "addPendingRequest now clientId reqSeqNum cm = do {
     (idx, c) \<leftarrow> clientInfo clientId cm;
     Assert (reqSeqNum > lastSeqNumberOfReply c \<and> reqSeqNum > currentPendingRequest c);
     Some (setClientInfo idx (c\<lparr>currentPendingRequest := reqSeqNum, timeOfCurrentPendingRequest := now\<rparr>) cm)
   }"

definition removePendingRequestOfClient :: "NodeIdType \<Rightarrow> ClientsManager \<Rightarrow> ClientsManager option" where
  "removePendingRequestOfClient clientId cm = do {
     (idx, c) \<leftarrow> clientInfo clientId cm;
     if currentPendingRequest c \<noteq> 0
     then Some (setClientInfo idx (c\<lparr>currentPendingRequest := 0, timeOfCurrentPendingRequest := MinTime\<rparr>) cm)
     else Some cm
   }"

definition clearAllPendingRequests :: "ClientsManager \<Rightarrow> ClientsManager option" where
  "clearAllPendingRequests cm = do {
     let cm = cm\<lparr>indexToClientInfo := map (\<lambda>c. c\<lparr>currentPendingRequest := 0, timeOfCurrentPendingRequest := MinTime\<rparr>) (indexToClientInfo cm)\<rparr>;
     c \<leftarrow> at (indexToClientInfo cm) 0;
     Assert (currentPendingRequest c = 0);
     Some cm
   }"

fun earliestLoop :: "Time \<Rightarrow> ClientInfo list \<Rightarrow> Time" where
  "earliestLoop t [] = t"
| "earliestLoop t (c # cs) =
     earliestLoop (if timeOfCurrentPendingRequest c \<noteq> MinTime \<and> t > timeOfCurrentPendingRequest c
       then timeOfCurrentPendingRequest c else t) cs"

definition timeOfEarliestPendingRequest :: "ClientsManager \<Rightarrow> Time" where
  "timeOfEarliestPendingRequest cm = earliestLoop MaxTime (indexToClientInfo cm)"

end
