(* ===== verification/Null_State_Transfer.thy ===== *)
theory Null_State_Transfer
  imports Reserved_Pages Digests
begin

text \<open>
  \<^verbatim>\<open>NullStateTransfer.cpp\<close>: the module that is used when no state transfer is loaded. Its reserved pages are one
  block of memory; offsets are computed in 32 bits. \<^verbatim>\<open>malloc\<close> does not clear the block: its first contents are a
  parameter. Logging and the callback to free messages are left out.
\<close>

record NullStateTransfer =
  numOfReservedPages :: nat
  sizeOfPage :: nat
  reservedPages :: "byte list option"
  nst_running :: bool
  errorReport :: bool

definition newNullStateTransfer :: NullStateTransfer where
  "newNullStateTransfer = \<lparr>numOfReservedPages = 0, sizeOfPage = 0, reservedPages = None, nst_running = False, errorReport = False\<rparr>"

definition nst_init :: "(nat \<Rightarrow> byte list) \<Rightarrow> nat \<Rightarrow> nat \<Rightarrow> NullStateTransfer \<Rightarrow> NullStateTransfer option" where
  "nst_init memory numberOfRequiredReservedPages sizeOfReservedPage st = do {
     Assert (reservedPages st = None);
     Some (st\<lparr>numOfReservedPages := numberOfRequiredReservedPages, sizeOfPage := sizeOfReservedPage,
       reservedPages := Some (memory (u32 (int (numberOfRequiredReservedPages * sizeOfReservedPage)))), nst_running := False\<rparr>)
   }"

definition nst_startRunning :: "NullStateTransfer \<Rightarrow> NullStateTransfer option" where
  "nst_startRunning st = do {
     Assert (reservedPages st \<noteq> None);
     Assert (\<not> nst_running st);
     Some (st\<lparr>nst_running := True\<rparr>)
   }"

definition nst_stopRunning :: "NullStateTransfer \<Rightarrow> NullStateTransfer option" where
  "nst_stopRunning st = do {
     Assert (reservedPages st \<noteq> None);
     Assert (nst_running st);
     Some (st\<lparr>nst_running := False\<rparr>)
   }"

definition nst_getDigestOfCheckpoint :: "(byte list \<Rightarrow> Digest) \<Rightarrow> nat \<Rightarrow> nat \<Rightarrow> byte list option" where
  "nst_getDigestOfCheckpoint hash checkpointNumber sizeOfDigestBuffer = do {
     Assert (sizeOfDigestBuffer \<ge> DIGEST_SIZE);
     Some (hash (le_bytes 8 checkpointNumber) @ replicate (sizeOfDigestBuffer - DIGEST_SIZE) 0)
   }"

definition nst_startCollectingState :: "NullStateTransfer \<Rightarrow> NullStateTransfer" where
  "nst_startCollectingState st = (if errorReport st then st else st\<lparr>errorReport := True\<rparr>)"

definition nst_pageOffset :: "nat \<Rightarrow> NullStateTransfer \<Rightarrow> nat" where
  "nst_pageOffset reservedPageId st = u32 (int (reservedPageId * sizeOfPage st))"

definition nst_loadReservedPage :: "nat \<Rightarrow> nat \<Rightarrow> NullStateTransfer \<Rightarrow> byte list option" where
  "nst_loadReservedPage reservedPageId copyLength st = do {
     Assert (copyLength \<le> sizeOfPage st);
     m \<leftarrow> reservedPages st;
     rd (nst_pageOffset reservedPageId st) copyLength m
   }"

definition nst_saveReservedPage :: "nat \<Rightarrow> byte list \<Rightarrow> NullStateTransfer \<Rightarrow> NullStateTransfer option" where
  "nst_saveReservedPage reservedPageId inReservedPage st = do {
     Assert (length inReservedPage \<le> sizeOfPage st);
     m \<leftarrow> reservedPages st;
     m \<leftarrow> wr (nst_pageOffset reservedPageId st) inReservedPage m;
     Some (st\<lparr>reservedPages := Some m\<rparr>)
   }"

definition nst_zeroReservedPage :: "nat \<Rightarrow> NullStateTransfer \<Rightarrow> NullStateTransfer option" where
  "nst_zeroReservedPage reservedPageId st = do {
     m \<leftarrow> reservedPages st;
     m \<leftarrow> wr (nst_pageOffset reservedPageId st) (replicate (sizeOfPage st) 0) m;
     Some (st\<lparr>reservedPages := Some m\<rparr>)
   }"

section \<open>The pages of the block\<close>

definition nullApi :: "NullStateTransfer IStateTransfer" where
  "nullApi = \<lparr>ist_loadReservedPage = nst_loadReservedPage, ist_saveReservedPage = nst_saveReservedPage,
     ist_zeroReservedPage = nst_zeroReservedPage\<rparr>"

definition null_ok :: "nat \<Rightarrow> nat \<Rightarrow> NullStateTransfer \<Rightarrow> bool" where
  "null_ok n sz st \<longleftrightarrow> numOfReservedPages st = n \<and> sizeOfPage st = sz \<and> n * sz < 2 ^ 32 \<and>
     (\<exists>m. reservedPages st = Some m \<and> length m = n * sz)"

definition null_content :: "NullStateTransfer \<Rightarrow> nat \<Rightarrow> byte list" where
  "null_content st p = take (sizeOfPage st) (drop (p * sizeOfPage st) (the (reservedPages st)))"

lemma page_inside: "p < n \<Longrightarrow> p * sz + sz \<le> n * sz" for p n sz :: nat
  using mult_le_mono1 [of "Suc p" n sz] by simp

lemma pages_disjoint: "p \<noteq> q \<Longrightarrow> p * sz + sz \<le> q * sz \<or> q * sz + sz \<le> p * sz" for p q sz :: nat
  using page_inside [of p q sz] page_inside [of q p sz] by linarith

lemma null_offset:
  assumes "null_ok n sz st" "p < n"
  shows "nst_pageOffset p st = p * sz"
proof -
  have "p * sz < 2 ^ 32" using assms page_inside [OF assms(2), of sz] by (simp add: null_ok_def)
  then show ?thesis using assms by (simp add: nst_pageOffset_def null_ok_def u32_def nat_mod_distrib del: of_nat_mult)
qed

lemma null_write:
  assumes ok: "null_ok n sz st" and p: "p < n" "length bs \<le> sz"
  shows "\<exists>m m'. reservedPages st = Some m \<and> wr (p * sz) bs m = Some m' \<and> null_ok n sz (st\<lparr>reservedPages := Some m'\<rparr>) \<and>
    take (length bs) (null_content (st\<lparr>reservedPages := Some m'\<rparr>) p) = bs \<and>
    (\<forall>q. q < n \<longrightarrow> q \<noteq> p \<longrightarrow> null_content (st\<lparr>reservedPages := Some m'\<rparr>) q = null_content st q)"
proof -
  obtain m where m: "reservedPages st = Some m" "length m = n * sz" "sizeOfPage st = sz" using ok by (auto simp: null_ok_def)
  have "p * sz + length bs \<le> length m" using page_inside [OF p(1), of sz] p(2) m by simp
  then obtain m' where m': "wr (p * sz) bs m = Some m'" using wr_total by blast
  have "rd (p * sz) (length bs) m' = Some bs" by (rule rd_wr_same [OF m'])
  then have "take (length bs) (null_content (st\<lparr>reservedPages := Some m'\<rparr>) p) = bs"
    using p(2) m(3) by (simp add: null_content_def rd_eq_Some min_absorb1)
  moreover have "null_content (st\<lparr>reservedPages := Some m'\<rparr>) q = null_content st q" if "q < n" "q \<noteq> p" for q
  proof -
    have "rd (q * sz) sz m' = rd (q * sz) sz m"
      using pages_disjoint [OF that(2), of sz] rd_wr_after [OF m'] rd_wr_before [OF m'] p(2)
      by (metis add_le_cancel_left le_trans)
    then show ?thesis using m page_inside [OF that(1), of sz] length_wr [OF m'] by (simp add: null_content_def rd_def split: if_splits)
  qed
  moreover have "null_ok n sz (st\<lparr>reservedPages := Some m'\<rparr>)" using ok m length_wr [OF m'] by (simp add: null_ok_def)
  ultimately show ?thesis using m(1) m' by blast
qed

lemma null_content_length: "null_ok n sz st \<Longrightarrow> p < n \<Longrightarrow> length (null_content st p) = sz"
  using page_inside [of p n sz] by (auto simp: null_ok_def null_content_def)

interpretation nullPages: reserved_pages nullApi n sz "null_ok n sz" null_content for n sz
proof
  fix s p k assume "null_ok n sz s" "p < n" "0 < k" "k \<le> sz"
  then show "ist_loadReservedPage nullApi p k s = Some (take k (null_content s p))"
    using page_inside [of p n sz] null_offset [of n sz s p]
    by (auto simp: nullApi_def nst_loadReservedPage_def null_content_def rd_def min_absorb1) (auto simp: null_ok_def min_absorb1)
next
  fix s p and bs :: "byte list" assume a: "null_ok n sz s" "p < n" "length bs \<le> sz"
  have "sizeOfPage s = sz" using a by (simp add: null_ok_def)
  then show "\<exists>s'. ist_saveReservedPage nullApi p bs s = Some s' \<and> null_ok n sz s' \<and> take (length bs) (null_content s' p) = bs \<and>
      (\<forall>q. q < n \<longrightarrow> q \<noteq> p \<longrightarrow> null_content s' q = null_content s q)"
    using null_write [OF a] null_offset [OF a(1,2)] a(3) by (auto simp: nullApi_def nst_saveReservedPage_def Assert_bind)
next
  fix s p assume a: "null_ok n sz s" "p < n"
  have sz: "sizeOfPage s = sz" using a by (simp add: null_ok_def)
  then obtain s' where "ist_zeroReservedPage nullApi p s = Some s'" "null_ok n sz s'"
      "take sz (null_content s' p) = replicate sz 0" "\<forall>q. q < n \<longrightarrow> q \<noteq> p \<longrightarrow> null_content s' q = null_content s q"
    using null_write [OF a, of "replicate sz 0"] null_offset [OF a] by (auto simp: nullApi_def nst_zeroReservedPage_def)
  then show "\<exists>s'. ist_zeroReservedPage nullApi p s = Some s' \<and> null_ok n sz s' \<and> null_content s' p = replicate sz 0 \<and>
      (\<forall>q. q < n \<longrightarrow> q \<noteq> p \<longrightarrow> null_content s' q = null_content s q)"
    using null_content_length [of n sz s' p] a(2) by auto
qed (rule null_content_length)

end
