(* ===== verification/Stored_Replies.thy ===== *)
theory Stored_Replies
  imports Clients_Manager Page_Snapshots Null_State_Transfer
begin

text \<open>
  The replies that the clients manager keeps in reserved pages: a reply that fits comes back byte by byte, the
  pages of other clients are not touched, and the numbers of the last replies are recovered from the pages. The
  lemmas are proved once for every state transfer module that keeps the contract of \<open>reserved_pages\<close>.
\<close>

section \<open>Reply messages and their headers\<close>

abbreviation replyOf :: "ReplicaId \<Rightarrow> byte list \<Rightarrow> MessageBase" where
  "replyOf rep b \<equiv> \<lparr>msgBody = b, msgSize = length b, storageSize = length b, sender = rep, owner = True\<rparr>"

definition holdsReply :: "ReqId \<Rightarrow> ReplicaId \<Rightarrow> byte list \<Rightarrow> byte list \<Rightarrow> bool" where
  "holdsReply seq primary reply b \<longleftrightarrow> length b = 16 + length reply \<and> rd_nat 0 2 b = Some MsgCode_Reply \<and>
     replyHeader b = Some \<lparr>rp_currentPrimaryId = primary, rp_reqSeqNum = seq, rp_replyLength = length reply\<rparr> \<and>
     rd 16 (length reply) b = Some reply"

lemma setMsgSize_full: "setMsgSize (m\<lparr>msgBody := b\<rparr>) (storageSize m) = Some (m\<lparr>msgBody := b, msgSize := storageSize m\<rparr>)"
  by (simp add: setMsgSize_def)

lemma newReply_ok:
  assumes "rep < 2 ^ 16" "seq < 2 ^ 64" "length reply < 2 ^ 32"
  shows "\<exists>b. newClientReplyMsg rep seq reply = Some (replyOf rep b) \<and> holdsReply seq 0 reply b"
proof -
  let ?n = "16 + length reply"
  let ?fs = "[(4, le_bytes 8 seq), (2, le_bytes 2 0), (12, le_bytes 4 (length reply)), (16, reply)]"
  obtain m b where m: "newMessage rep MsgCode_Reply ?n = Some m" "wrs ?fs (msgBody m) = Some b" "length b = ?n"
    "msgSize m = ?n" "storageSize m = ?n" "sender m = rep" "owner m" "rd_nat 0 2 b = Some MsgCode_Reply"
    and fields: "\<forall>(off, bs) \<in> set ?fs. rd off (length bs) b = Some bs"
    using new_packed [of rep MsgCode_Reply ?n ?fs] assms(1) by auto
  obtain b0 where b0: "writeReplyHeader 0 seq (length reply) (msgBody m) = Some b0" "wr 16 reply b0 = Some b"
    using m(2) by (auto simp: writeReplyHeader_def wrs.simps Option.bind_eq_Some_conv)
  have "newClientReplyMsg rep seq reply = Some (replyOf rep b)"
    using m(1,3-7) b0 setMsgSize_full [of b m] by (cases m) (simp add: newClientReplyMsg_def)
  moreover have "holdsReply seq 0 reply b"
    using m(3,8) fields assms(2,3) by (simp add: holdsReply_def replyHeader_def rd_nat_def le_val_le_bytes)
  ultimately show ?thesis by blast
qed

lemma blankReply_ok:
  assumes "rep < 2 ^ 16"
  shows "\<exists>b. newBlankClientReplyMsg rep n = Some (replyOf rep b) \<and> length b = 16 + n"
proof -
  let ?fs = "[(4, le_bytes 8 0), (2, le_bytes 2 0), (12, le_bytes 4 n)]"
  obtain m b where m: "newMessage rep MsgCode_Reply (16 + n) = Some m" "wrs ?fs (msgBody m) = Some b" "length b = 16 + n"
    "msgSize m = 16 + n" "storageSize m = 16 + n" "sender m = rep" "owner m"
    using new_packed [of rep MsgCode_Reply "16 + n" ?fs] assms by auto
  then show ?thesis using setMsgSize_full [of b m] by (cases m) (auto simp: newBlankClientReplyMsg_def writeReplyHeader_def)
qed

lemma setPrimaryId_ok:
  assumes "holdsReply seq q reply b" "p < 2 ^ 16"
  shows "\<exists>b'. setPrimaryId (replyOf rep b) p = Some (replyOf rep b') \<and> holdsReply seq p reply b'"
proof -
  have len: "length b = 16 + length reply" using assms(1) by (simp add: holdsReply_def)
  then obtain b' where b': "wr 2 (le_bytes 2 p) b = Some b'" using wr_total [of 2 "le_bytes 2 p" b] by auto
  have same: "rd off n b' = rd off n b" if "4 \<le> off" for off n using rd_wr_after [OF b'] that by simp
  have "rd 0 2 b' = rd 0 2 b" using rd_wr_before [OF b'] by simp
  moreover have "rd 2 2 b' = Some (le_bytes 2 p)" using rd_wr_same [OF b'] by simp
  ultimately have "holdsReply seq p reply b'" using assms length_wr [OF b'] same
    by (auto simp: holdsReply_def replyHeader_def rd_nat_def le_val_le_bytes Option.bind_eq_Some_conv)
  then show ?thesis using b' length_wr [OF b'] by (auto simp: setPrimaryId_def)
qed

lemma debugHash_ok: "reply \<noteq> [] \<Longrightarrow> \<exists>h. debugHash reply = Some h"
proof -
  assume "reply \<noteq> []"
  moreover have "(n - (if n mod 8 = 0 then 8 else n mod 8)) mod 8 = 0" if "0 < n" for n :: nat
    using that by (auto simp: minus_mod_eq_div_mult [symmetric] mod_eq_0_iff_dvd dvd_minus_mod dvd_diff_nat)
  ultimately show ?thesis by (simp add: debugHash_def Let_def)
qed

lemma holdsReply_buf: "holdsReply seq p reply b \<Longrightarrow> replyBuf b = Some reply"
  by (simp add: holdsReply_def replyBuf_def)

text \<open>The header of a reply can be read from any page that starts with its first bytes.\<close>

lemma storedHeader_prefix:
  assumes "take k page = take k b" "16 \<le> k" "k \<le> length page" "k \<le> length b"
  shows "storedHeader page = storedHeader b"
proof -
  have "rd off n page = rd off n b" if "off + n \<le> k" for off n
    using rd_take [OF that assms(3)] rd_take [OF that assms(4)] assms(1) by simp
  then show ?thesis using assms(2) by (simp add: storedHeader_def replyHeader_def rd_nat_def)
qed

section \<open>Cutting a message into pages\<close>

text \<open>The pieces lie behind each other and cover the bytes from \<open>a\<close> to \<open>b\<close>.\<close>

fun tiles :: "nat \<Rightarrow> (nat \<times> nat \<times> nat) list \<Rightarrow> nat \<Rightarrow> bool" where
  "tiles a [] b \<longleftrightarrow> a = b"
| "tiles a ((i, off, k) # ps) b \<longleftrightarrow> off = a \<and> 0 < k \<and> tiles (a + k) ps b"

lemma tiles_le: "tiles a ps b \<Longrightarrow> a \<le> b"
  by (induction a ps b rule: tiles.induct) auto

lemma tiles_inside: "tiles a ps b \<Longrightarrow> (i, off, k) \<in> set ps \<Longrightarrow> a \<le> off \<and> off + k \<le> b \<and> 0 < k"
proof (induction a ps b rule: tiles.induct)
  case (2 a i' off' k' ps b)
  then show ?case using tiles_le [of "a + k'" ps b] by auto
qed simp

lemma pagesOfMsg_tiles:
  assumes "0 < P"
  shows "tiles 0 (pagesOfMsg P n) n"
proof -
  define m where "m = n div P + (if n mod P \<noteq> 0 then 1 else 0)"
  define k where "k = (if n mod P \<noteq> 0 then n mod P else P)"
  let ?f = "\<lambda>i. (i, i * P, if i < m - 1 then P else k)"
  have k: "0 < k" using assms by (simp add: k_def)
  have total: "0 < m \<Longrightarrow> (m - 1) * P + k = n"
  proof (cases "n mod P = 0")
    case True
    assume "0 < m"
    then have "(n div P - 1) * P + P = n div P * P" using True by (simp add: m_def mult_eq_if algebra_simps)
    then show ?thesis using True div_mult_mod_eq [of n P] by (simp add: m_def k_def)
  next
    case False
    then show ?thesis using div_mult_mod_eq [of n P] by (simp add: m_def k_def)
  qed
  have from_page: "tiles (i * P) (map ?f [i..<m]) n" if "i < m" for i
    using that
  proof (induction "m - i" arbitrary: i)
    case (Suc d)
    show ?case
    proof (cases "Suc i = m")
      case True
      then show ?thesis using total k by (auto simp: upt_conv_Cons)
    next
      case False
      then have "tiles (Suc i * P) (map ?f [Suc i..<m]) n" using Suc.hyps Suc.prems by (intro Suc.hyps(1)) auto
      then show ?thesis using Suc.prems False assms by (auto simp: upt_conv_Cons add.commute)
    qed
  qed simp
  have none: "n = 0" if "m = 0" using that assms by (auto simp: m_def split: if_splits)
  have "pagesOfMsg P n = map ?f [0..<m]" unfolding pagesOfMsg_def Let_def m_def k_def ..
  then show ?thesis using from_page [of 0] none by (cases "m = 0") auto
qed

lemma pagesOfMsg_page: "0 < P \<Longrightarrow> (i, off, k) \<in> set (pagesOfMsg P n) \<Longrightarrow> k \<le> P \<and> i < length (pagesOfMsg P n)"
  using mod_less_divisor [of P n] by (auto simp: pagesOfMsg_def Let_def split: if_splits)

lemma pagesOfMsg_numbers: "map fst (pagesOfMsg P n) = [0..<length (pagesOfMsg P n)]"
  by (simp add: pagesOfMsg_def Let_def comp_def)

lemma pagesOfMsg_count:
  assumes "0 < P" "n \<le> q * P"
  shows "length (pagesOfMsg P n) \<le> q"
proof -
  have "n div P < q \<or> n = q * P" using assms div_less_iff_less_mult [of P n q] by auto
  then show ?thesis using assms(1) by (auto simp: pagesOfMsg_def Let_def)
qed

lemma pagesOfMsg_first:
  assumes "0 < P" "0 < n"
  shows "\<exists>k ps. pagesOfMsg P n = (0, 0, k) # ps \<and> k = min P n"
proof -
  let ?ps = "pagesOfMsg P n"
  have ne: "?ps \<noteq> []" using pagesOfMsg_tiles [OF assms(1), of n] assms(2) by (cases ?ps) auto
  obtain i off k ps where ps: "?ps = (i, off, k) # ps" using ne by (cases ?ps) auto
  have "hd (map fst ?ps) = 0" unfolding pagesOfMsg_numbers using ne by simp
  then have "i = 0" by (simp add: ps)
  moreover have "off = 0" using pagesOfMsg_tiles [OF assms(1), of n] by (simp add: ps)
  moreover have "k = min P n"
  proof (cases "n < P")
    case True
    then show ?thesis using ps assms by (auto simp: pagesOfMsg_def Let_def)
  next
    case False
    have "k = P"
    proof (cases "length ?ps = 1")
      case True
      then have "tiles 0 [(i, off, k)] n" using pagesOfMsg_tiles [OF assms(1), of n] by (simp add: ps)
      then show ?thesis using False pagesOfMsg_page [OF assms(1), of i off k n] by (simp add: ps)
    next
      case False
      then show ?thesis using ps \<open>i = 0\<close> ne by (auto simp: pagesOfMsg_def Let_def upt_conv_Cons split: if_splits)
    qed
    then show ?thesis using False by simp
  qed
  ultimately show ?thesis using ps by simp
qed

section \<open>Storing and loading\<close>

context reserved_pages
begin

lemma savePages_ok:
  assumes "ok s" "distinct (map fst ps)" "numPages \<le> 2 ^ 32"
    and "\<And>i off k. (i, off, k) \<in> set ps \<Longrightarrow> first + i < numPages \<and> k \<le> pageSize \<and> off + k \<le> length body"
  shows "\<exists>s'. savePages api first body ps s = Some s' \<and> ok s' \<and>
    (\<forall>i off k. (i, off, k) \<in> set ps \<longrightarrow> take k (content s' (first + i)) = take k (drop off body)) \<and>
    (\<forall>q. q < numPages \<longrightarrow> (\<forall>i \<in> fst ` set ps. q \<noteq> first + i) \<longrightarrow> content s' q = content s q)"
  using assms
proof (induction ps arbitrary: s)
  case (Cons p ps)
  obtain i off k where p: "p = (i, off, k)" by (cases p)
  have here: "first + i < numPages" "k \<le> pageSize" "off + k \<le> length body" using Cons.prems(4) [of i off k] by (auto simp: p)
  let ?page = "take k (drop off body)"
  have page: "rd off k body = Some ?page" "length ?page = k" using here by (auto simp: rd_def)
  have "u32 (int (first + i)) = first + i" using here(1) Cons.prems(3) by (simp add: u32_def nat_mod_as_int del: of_nat_add)
  moreover obtain s1 where s1: "ist_saveReservedPage api (first + i) ?page s = Some s1" "ok s1"
      "take k (content s1 (first + i)) = ?page" "\<forall>q. q < numPages \<longrightarrow> q \<noteq> first + i \<longrightarrow> content s1 q = content s q"
    using save_page [OF Cons.prems(1) here(1), of ?page] here(2) page(2) by auto
  moreover have "\<exists>s'. savePages api first body ps s1 = Some s' \<and> ok s' \<and>
    (\<forall>i off k. (i, off, k) \<in> set ps \<longrightarrow> take k (content s' (first + i)) = take k (drop off body)) \<and>
    (\<forall>q. q < numPages \<longrightarrow> (\<forall>i \<in> fst ` set ps. q \<noteq> first + i) \<longrightarrow> content s' q = content s1 q)"
    by (rule Cons.IH [OF s1(2)]) (use Cons.prems in auto)
  then obtain s2 where s2: "savePages api first body ps s1 = Some s2" "ok s2"
      "\<forall>i off k. (i, off, k) \<in> set ps \<longrightarrow> take k (content s2 (first + i)) = take k (drop off body)"
      "\<forall>q. q < numPages \<longrightarrow> (\<forall>i \<in> fst ` set ps. q \<noteq> first + i) \<longrightarrow> content s2 q = content s1 q"
    by blast
  moreover have "content s2 (first + i) = content s1 (first + i)"
    using s2(4) here(1) Cons.prems(2) by (force simp: p)
  ultimately show ?case using page(1) by (intro exI [of _ s2]) (auto simp: p)
qed simp

lemma loadPages_ok:
  assumes "ok s" "numPages \<le> 2 ^ 32" "tiles a ps (length body)" "length blank = length body"
    and "\<And>i off k. (i, off, k) \<in> set ps \<Longrightarrow> first + i < numPages \<and> k \<le> pageSize \<and> take k (content s (first + i)) = take k (drop off body)"
  shows "loadPages api first s ps (take a body @ drop a blank) = Some body"
  using assms(3,5)
proof (induction ps arbitrary: a)
  case Nil
  then show ?case using assms(4) by simp
next
  case (Cons p ps)
  obtain i off k where p: "p = (i, off, k)" by (cases p)
  have here: "first + i < numPages" "k \<le> pageSize" "take k (content s (first + i)) = take k (drop off body)"
    using Cons.prems(2) [of i off k] by (auto simp: p)
  have t: "off = a" "0 < k" "tiles (a + k) ps (length body)" using Cons.prems(1) by (auto simp: p)
  have le: "a + k \<le> length body" using tiles_le [OF t(3)] .
  have "u32 (int (first + i)) = first + i" using here(1) assms(2) by (simp add: u32_def nat_mod_as_int del: of_nat_add)
  moreover have "ist_loadReservedPage api (first + i) k s = Some (take k (drop a body))"
    using load_page [OF assms(1) here(1) t(2) here(2)] here(3) t(1) by simp
  moreover have "wr a (take k (drop a body)) (take a body @ drop a blank) = Some (take (a + k) body @ drop (a + k) blank)"
    using le assms(4) by (simp add: wr_def take_add add.commute)
  moreover have "loadPages api first s ps (take (a + k) body @ drop (a + k) blank) = Some body"
    using Cons.prems(2) t(3) by (intro Cons.IH) auto
  ultimately show ?case using t(1) by (simp add: p)
qed

end

section \<open>The pages of the clients\<close>

definition managed :: "nat \<Rightarrow> nat \<Rightarrow> ClientsManager \<Rightarrow> bool" where
  "managed n P cm \<longleftrightarrow> stateTransferSet cm \<and> sizeOfReservedPage cm = P \<and> 16 \<le> P \<and> cm_myId cm < 2 ^ 16 \<and>
     maxReplyMessageSize \<le> reservedPagesPerClient cm * P \<and> 0 < reservedPagesPerClient cm \<and> n \<le> 2 ^ 32 \<and>
     distinct (map fst (clientIdToIndex cm)) \<and> distinct (map snd (clientIdToIndex cm)) \<and>
     (\<forall>e \<in> set (clientIdToIndex cm). snd e < length (indexToClientInfo cm) \<and>
        snd e * reservedPagesPerClient cm + reservedPagesPerClient cm \<le> n)"

definition pagesHold :: "(nat \<Rightarrow> byte list) \<Rightarrow> nat \<Rightarrow> nat \<Rightarrow> byte list \<Rightarrow> bool" where
  "pagesHold content P first b \<longleftrightarrow>
     (\<forall>i off k. (i, off, k) \<in> set (pagesOfMsg P (length b)) \<longrightarrow> take k (content (first + i)) = take k (drop off b))"

lemma managed_index:
  assumes "managed n P cm" "map_of (clientIdToIndex cm) c = Some idx"
  shows "idx < length (indexToClientInfo cm)" "idx * reservedPagesPerClient cm + reservedPagesPerClient cm \<le> n"
    "firstPageId idx cm = idx * reservedPagesPerClient cm"
proof -
  have "(c, idx) \<in> set (clientIdToIndex cm)" using assms(2) by (rule map_of_SomeD)
  then show le: "idx < length (indexToClientInfo cm)" "idx * reservedPagesPerClient cm + reservedPagesPerClient cm \<le> n"
    using assms(1) by (auto simp: managed_def)
  have "idx * reservedPagesPerClient cm < 2 ^ 32" using le(2) assms(1) by (simp add: managed_def)
  then show "firstPageId idx cm = idx * reservedPagesPerClient cm"
    by (simp add: firstPageId_def u32_def nat_mod_distrib del: of_nat_mult)
qed

lemma managed_clientInfo:
  "managed n P cm \<Longrightarrow> clientInfo c cm = Some (idx, ci) \<longleftrightarrow> map_of (clientIdToIndex cm) c = Some idx \<and> ci = indexToClientInfo cm ! idx"
  using managed_index(1) by (auto simp: clientInfo_def Option.bind_eq_Some_conv)

lemma managed_distinct:
  assumes "managed n P cm" "map_of (clientIdToIndex cm) c = Some i" "map_of (clientIdToIndex cm) c' = Some i"
  shows "c' = c"
proof -
  have "(c, i) \<in> set (clientIdToIndex cm)" "(c', i) \<in> set (clientIdToIndex cm)" using assms(2,3) by (auto dest: map_of_SomeD)
  moreover have "inj_on snd (set (clientIdToIndex cm))" using assms(1) by (simp add: managed_def distinct_map)
  ultimately show ?thesis by (metis fst_conv inj_on_def snd_conv)
qed

lemma managed_set [simp]: "managed n P (setClientInfo idx x cm) \<longleftrightarrow> managed n P cm"
  by (simp add: managed_def setClientInfo_def)

lemma clientIdToIndex_set [simp]: "clientIdToIndex (setClientInfo idx x cm) = clientIdToIndex cm"
  "reservedPagesPerClient (setClientInfo idx x cm) = reservedPagesPerClient cm"
  "cm_myId (setClientInfo idx x cm) = cm_myId cm" "sizeOfReservedPage (setClientInfo idx x cm) = sizeOfReservedPage cm"
  "stateTransferSet (setClientInfo idx x cm) = stateTransferSet cm" "firstPageId j (setClientInfo idx x cm) = firstPageId j cm"
  by (simp_all add: setClientInfo_def firstPageId_def)

lemma clientInfo_set:
  assumes "managed n P cm" "map_of (clientIdToIndex cm) c = Some idx"
  shows "clientInfo c' (setClientInfo idx x cm) = (if c' = c then Some (idx, x) else clientInfo c' cm)"
proof (cases "map_of (clientIdToIndex cm) c'")
  case (Some j)
  then have "idx \<noteq> j" if "c' \<noteq> c" using managed_distinct assms that by blast
  then show ?thesis using assms Some managed_index(1) [OF assms] by (auto simp: clientInfo_def setClientInfo_def at_def)
qed (use assms in \<open>auto simp: clientInfo_def setClientInfo_def\<close>)

lemma client_pages_disjoint:
  assumes "managed n P cm" "map_of (clientIdToIndex cm) c = Some i" "map_of (clientIdToIndex cm) c' = Some j" "c' \<noteq> c"
    and "a < reservedPagesPerClient cm" "b < reservedPagesPerClient cm"
  shows "i * reservedPagesPerClient cm + a \<noteq> j * reservedPagesPerClient cm + b"
proof -
  have "i \<noteq> j" using managed_distinct assms by blast
  moreover have "(i * q + a) div q = i" "(j * q + b) div q = j" if "a < q" "b < q" for q using that by auto
  ultimately show ?thesis using assms(5,6) by metis
qed

lemma reply_pages:
  assumes "managed n P cm" "map_of (clientIdToIndex cm) c = Some idx" "length b \<le> maxReplyMessageSize" "(i, off, k) \<in> set (pagesOfMsg P (length b))"
  shows "i < reservedPagesPerClient cm" "idx * reservedPagesPerClient cm + i < n" "k \<le> P" "off + k \<le> length b" "0 < k"
proof -
  have P: "0 < P" and le: "length b \<le> reservedPagesPerClient cm * P" using assms(1,3) by (auto simp: managed_def)
  show "k \<le> P" and i: "i < reservedPagesPerClient cm"
    using pagesOfMsg_page [OF P assms(4)] pagesOfMsg_count [OF P le] by auto
  then show "idx * reservedPagesPerClient cm + i < n" using managed_index(2) [OF assms(1,2)] by simp
  show "off + k \<le> length b" "0 < k" using tiles_inside [OF pagesOfMsg_tiles [OF P] assms(4)] by auto
qed

context reserved_pages
begin

lemma stored_header:
  assumes "ok s" "managed numPages pageSize cm" "map_of (clientIdToIndex cm) c = Some idx" "length b \<le> maxReplyMessageSize"
    and "holdsReply seq p reply b" "pagesHold (content s) pageSize (idx * reservedPagesPerClient cm) b"
  shows "\<exists>page. ist_loadReservedPage api (firstPageId idx cm) pageSize s = Some page \<and>
    storedHeader page = Some (MsgCode_Reply, \<lparr>rp_currentPrimaryId = p, rp_reqSeqNum = seq, rp_replyLength = length reply\<rparr>)"
proof -
  have P: "16 \<le> pageSize" using assms(2) by (simp add: managed_def)
  have len: "length b = 16 + length reply" using assms(5) by (simp add: holdsReply_def)
  obtain k ps where ps: "pagesOfMsg pageSize (length b) = (0, 0, k) # ps" "k = min pageSize (length b)"
    using pagesOfMsg_first [of pageSize "length b"] P len by auto
  let ?first = "idx * reservedPagesPerClient cm"
  have "?first < numPages" using reply_pages(2) [OF assms(2,3,4), of 0 0 k] ps by simp
  note page = load_page [OF assms(1) this, of pageSize] content_length [OF assms(1) this]
  have "take k (content s ?first) = take k b" using assms(6) ps(1) unfolding pagesHold_def by fastforce
  then have "storedHeader (content s ?first) = storedHeader b" using ps(2) P len page(2) by (intro storedHeader_prefix [of k]) auto
  also have "... = Some (MsgCode_Reply, \<lparr>rp_currentPrimaryId = p, rp_reqSeqNum = seq, rp_replyLength = length reply\<rparr>)"
    using assms(5) by (simp add: storedHeader_def holdsReply_def)
  finally show ?thesis using page P managed_index(3) [OF assms(2,3)] by auto
qed

lemma latest_reply_ok:
  assumes st: "ok s" and cm: "managed numPages pageSize cm" and c: "clientInfo c cm = Some (idx, ci)" "lastSeqNumberOfReply ci \<noteq> 0"
    and b: "holdsReply seq 0 reply b" "reply \<noteq> []" "length b \<le> maxReplyMessageSize"
    and pages: "pagesHold (content s) pageSize (idx * reservedPagesPerClient cm) b" and p: "p < 2 ^ 16"
  shows "\<exists>r. allocateMsgWithLatestReply api c p cm s = Some r \<and> setPrimaryId (replyOf (cm_myId cm) b) p = Some r \<and> holdsReply seq p reply (msgBody r)"
proof -
  have map: "map_of (clientIdToIndex cm) c = Some idx" using c(1) cm by (simp add: managed_clientInfo)
  have P: "0 < pageSize" "sizeOfReservedPage cm = pageSize" "stateTransferSet cm" "cm_myId cm < 2 ^ 16" "numPages \<le> 2 ^ 32"
    using cm by (auto simp: managed_def)
  have len: "length b = 16 + length reply" using b(1) by (simp add: holdsReply_def)
  obtain page where page: "ist_loadReservedPage api (firstPageId idx cm) pageSize s = Some page"
    "storedHeader page = Some (MsgCode_Reply, \<lparr>rp_currentPrimaryId = 0, rp_reqSeqNum = seq, rp_replyLength = length reply\<rparr>)"
    using stored_header [OF st cm map b(3,1) pages] by blast
  obtain blank where blank: "newBlankClientReplyMsg (cm_myId cm) (length reply) = Some (replyOf (cm_myId cm) blank)" "length blank = length b"
    using blankReply_ok [OF P(4), of "length reply"] len by auto
  have "loadPages api (firstPageId idx cm) s (pagesOfMsg pageSize (length b)) (take 0 b @ drop 0 blank) = Some b"
  proof (rule loadPages_ok [OF st P(5) pagesOfMsg_tiles [OF P(1)] blank(2)])
    fix i off k assume i: "(i, off, k) \<in> set (pagesOfMsg pageSize (length b))"
    then show "firstPageId idx cm + i < numPages \<and> k \<le> pageSize \<and> take k (content s (firstPageId idx cm + i)) = take k (drop off b)"
      using reply_pages [OF cm map b(3) i] pages unfolding pagesHold_def managed_index(3) [OF cm map] by blast
  qed
  then have load: "loadPages api (firstPageId idx cm) s (pagesOfMsg pageSize (16 + length reply)) blank = Some b" by (simp add: len)
  obtain b' where b': "setPrimaryId (replyOf (cm_myId cm) b) p = Some (replyOf (cm_myId cm) b')" "holdsReply seq p reply b'"
    using setPrimaryId_ok [OF b(1) p] by blast
  obtain h where h: "debugHash reply = Some h" using debugHash_ok [OF b(2)] by blast
  have "(replyOf (cm_myId cm) blank)\<lparr>msgBody := b\<rparr> = replyOf (cm_myId cm) b" using blank(2) by simp
  then have "allocateMsgWithLatestReply api c p cm s = Some (replyOf (cm_myId cm) b')"
    using c P page blank(1) load b' h b len holdsReply_buf [OF b'(2)]
    by (simp add: allocateMsgWithLatestReply_def Let_def)
  then show ?thesis using b' by auto
qed

lemma new_reply_ok:
  assumes st: "ok s" and cm: "managed numPages pageSize cm" and c: "clientInfo c cm = Some (idx, ci)" "lastSeqNumberOfReply ci < seq" "seq < 2 ^ 64"
    and reply: "reply \<noteq> []" "16 + length reply \<le> maxReplyMessageSize" and p: "p < 2 ^ 16"
  shows "\<exists>b r s'. allocateNewReplyMsgAndWriteToStorage api now c seq p reply cm s =
      Some (r, setClientInfo idx (ci\<lparr>lastSeqNumberOfReply := seq, latestReplyTime := now\<rparr>) cm, s') \<and>
    setPrimaryId (replyOf (cm_myId cm) b) p = Some r \<and> holdsReply seq 0 reply b \<and> ok s' \<and>
    pagesHold (content s') pageSize (idx * reservedPagesPerClient cm) b \<and>
    (\<forall>c' j a. map_of (clientIdToIndex cm) c' = Some j \<longrightarrow> c' \<noteq> c \<longrightarrow> a < reservedPagesPerClient cm \<longrightarrow>
       content s' (j * reservedPagesPerClient cm + a) = content s (j * reservedPagesPerClient cm + a))"
proof -
  have map: "map_of (clientIdToIndex cm) c = Some idx" using c(1) cm by (simp add: managed_clientInfo)
  let ?first = "idx * reservedPagesPerClient cm"
  have P: "0 < pageSize" "sizeOfReservedPage cm = pageSize" "stateTransferSet cm" "cm_myId cm < 2 ^ 16" "numPages \<le> 2 ^ 32"
    using cm by (auto simp: managed_def)
  obtain b where b: "newClientReplyMsg (cm_myId cm) seq reply = Some (replyOf (cm_myId cm) b)" "holdsReply seq 0 reply b"
    using newReply_ok [OF P(4) c(3), of reply] reply(2) by auto
  have len: "length b \<le> maxReplyMessageSize" using b(2) reply(2) by (simp add: holdsReply_def)
  let ?ps = "pagesOfMsg pageSize (length b)"
  have "\<exists>s'. savePages api ?first b ?ps s = Some s' \<and> ok s' \<and>
    (\<forall>i off k. (i, off, k) \<in> set ?ps \<longrightarrow> take k (content s' (?first + i)) = take k (drop off b)) \<and>
    (\<forall>q. q < numPages \<longrightarrow> (\<forall>i \<in> fst ` set ?ps. q \<noteq> ?first + i) \<longrightarrow> content s' q = content s q)"
  proof (rule savePages_ok [OF st _ P(5)])
    show "distinct (map fst ?ps)" unfolding pagesOfMsg_numbers by simp
    show "?first + i < numPages \<and> k \<le> pageSize \<and> off + k \<le> length b" if "(i, off, k) \<in> set ?ps" for i off k
      using reply_pages [OF cm map len that] by simp
  qed
  then obtain s' where s': "savePages api ?first b ?ps s = Some s'" "ok s'" "pagesHold (content s') pageSize ?first b"
    and other: "\<And>q. q < numPages \<Longrightarrow> \<forall>i \<in> fst ` set ?ps. q \<noteq> ?first + i \<Longrightarrow> content s' q = content s q"
    unfolding pagesHold_def by blast
  obtain b' where b': "setPrimaryId (replyOf (cm_myId cm) b) p = Some (replyOf (cm_myId cm) b')" "holdsReply seq p reply b'"
    using setPrimaryId_ok [OF b(2) p] by blast
  obtain h where h: "debugHash reply = Some h" using debugHash_ok [OF reply(1)] by blast
  have "content s' (j * reservedPagesPerClient cm + a) = content s (j * reservedPagesPerClient cm + a)"
    if j: "map_of (clientIdToIndex cm) c' = Some j" "c' \<noteq> c" "a < reservedPagesPerClient cm" for c' j a
  proof (rule other)
    show "j * reservedPagesPerClient cm + a < numPages" using managed_index(2) [OF cm j(1)] j(3) by simp
    show "\<forall>i \<in> fst ` set ?ps. j * reservedPagesPerClient cm + a \<noteq> ?first + i"
      using client_pages_disjoint [OF cm map j(1,2) _ j(3)] reply_pages(1) [OF cm map len] by force
  qed
  moreover have "allocateNewReplyMsgAndWriteToStorage api now c seq p reply cm s =
      Some (replyOf (cm_myId cm) b', setClientInfo idx (ci\<lparr>lastSeqNumberOfReply := seq, latestReplyTime := now\<rparr>) cm, s')"
    using c P b(1) s'(1) b' h holdsReply_buf [OF b'(2)] managed_index(3) [OF cm map]
    by (simp add: allocateNewReplyMsgAndWriteToStorage_def Let_def)
  ultimately show ?thesis using b(2) b' s' by blast
qed

end

section \<open>All clients\<close>

text \<open>\<open>h\<close> is the last reply of every client, with its number.\<close>

type_synonym Replies = "NodeIdType \<rightharpoonup> ReqId \<times> byte list"

definition lastNumber :: "Replies \<Rightarrow> NodeIdType \<Rightarrow> ReqId" where
  "lastNumber h c = (case h c of None \<Rightarrow> 0 | Some (seq, reply) \<Rightarrow> seq)"

definition replyKept :: "(nat \<Rightarrow> byte list) \<Rightarrow> nat \<Rightarrow> nat \<Rightarrow> (ReqId \<times> byte list) option \<Rightarrow> bool" where
  "replyKept content P first r = (case r of
     None \<Rightarrow> content first = replicate P 0
   | Some (seq, reply) \<Rightarrow> 0 < seq \<and> reply \<noteq> [] \<and>
       (\<exists>b. holdsReply seq 0 reply b \<and> length b \<le> maxReplyMessageSize \<and> pagesHold content P first b))"

definition repliesKept :: "(nat \<Rightarrow> byte list) \<Rightarrow> nat \<Rightarrow> ClientsManager \<Rightarrow> Replies \<Rightarrow> bool" where
  "repliesKept content P cm h \<longleftrightarrow>
     (\<forall>c idx. map_of (clientIdToIndex cm) c = Some idx \<longrightarrow> replyKept content P (idx * reservedPagesPerClient cm) (h c))"

definition sameClients :: "ClientsManager \<Rightarrow> ClientsManager \<Rightarrow> bool" where
  "sameClients cm' cm \<longleftrightarrow> clientIdToIndex cm' = clientIdToIndex cm \<and> reservedPagesPerClient cm' = reservedPagesPerClient cm"

definition numbersKept :: "ClientsManager \<Rightarrow> Replies \<Rightarrow> bool" where
  "numbersKept cm h \<longleftrightarrow> (\<forall>c idx ci. clientInfo c cm = Some (idx, ci) \<longrightarrow> lastSeqNumberOfReply ci = lastNumber h c)"

lemma pagesHold_cong:
  assumes "\<And>i off k. (i, off, k) \<in> set (pagesOfMsg P (length b)) \<Longrightarrow> content' (first + i) = content (first + i)"
  shows "pagesHold content' P first b = pagesHold content P first b"
  unfolding pagesHold_def using assms by metis

lemma replyKept_cong:
  assumes "managed n P cm" "map_of (clientIdToIndex cm) c = Some idx"
    and "\<And>a. a < reservedPagesPerClient cm \<Longrightarrow> content' (idx * reservedPagesPerClient cm + a) = content (idx * reservedPagesPerClient cm + a)"
  shows "replyKept content' P (idx * reservedPagesPerClient cm) r = replyKept content P (idx * reservedPagesPerClient cm) r"
proof -
  have "content' (idx * reservedPagesPerClient cm) = content (idx * reservedPagesPerClient cm)"
    using assms(3) [of 0] assms(1) by (simp add: managed_def)
  moreover have "pagesHold content' P (idx * reservedPagesPerClient cm) b = pagesHold content P (idx * reservedPagesPerClient cm) b"
    if "length b \<le> maxReplyMessageSize" for b
    using reply_pages(1) [OF assms(1,2) that] assms(3) by (intro pagesHold_cong) blast
  ultimately show ?thesis unfolding replyKept_def by (auto split: option.splits)
qed

lemma repliesKept_cong:
  assumes "managed n P cm" "\<And>q. q < n \<Longrightarrow> content' q = content q"
  shows "repliesKept content' P cm h = repliesKept content P cm h"
proof -
  have "replyKept content' P (idx * reservedPagesPerClient cm) r = replyKept content P (idx * reservedPagesPerClient cm) r"
    if "map_of (clientIdToIndex cm) c = Some idx" for c idx r
    using managed_index(2) [OF assms(1) that] by (intro replyKept_cong [OF assms(1) that] assms(2)) linarith
  then show ?thesis unfolding repliesKept_def by blast
qed

lemma numbersKept_set:
  assumes "managed n P cm" "numbersKept cm h" "clientInfo c cm = Some (idx, ci)" "lastSeqNumberOfReply x = lastNumber h' c"
    and "\<And>d. d \<noteq> c \<Longrightarrow> h' d = h d"
  shows "numbersKept (setClientInfo idx x cm) h'"
proof -
  have "map_of (clientIdToIndex cm) c = Some idx" using assms(1,3) by (simp add: managed_clientInfo)
  then show ?thesis using assms clientInfo_set [OF assms(1)]
    by (auto simp: numbersKept_def lastNumber_def split: if_splits)
qed

lemma zeroHeader:
  assumes "16 \<le> P"
  shows "storedHeader (replicate P 0) = Some (0, \<lparr>rp_currentPrimaryId = 0, rp_reqSeqNum = 0, rp_replyLength = 0\<rparr>)"
proof -
  have "rd_nat off k (replicate P 0) = Some 0" if "off + k \<le> P" for off k
  proof -
    have "le_val (replicate k 0) = 0" by (induction k) auto
    then show ?thesis using that by (simp add: rd_nat_def rd_def min_absorb1)
  qed
  then show ?thesis using assms by (simp add: storedHeader_def replyHeader_def)
qed

context reserved_pages
begin

lemma reply_kept:
  assumes st: "ok s" and cm: "managed numPages pageSize cm" and kept: "repliesKept (content s) pageSize cm h" "numbersKept cm h"
    and c: "isValidClient c cm" "lastNumber h c < seq" "seq < 2 ^ 64"
    and reply: "reply \<noteq> []" "16 + length reply \<le> maxReplyMessageSize" and p: "p < 2 ^ 16"
  shows "\<exists>r cm' s'. allocateNewReplyMsgAndWriteToStorage api now c seq p reply cm s = Some (r, cm', s') \<and>
    holdsReply seq p reply (msgBody r) \<and> ok s' \<and> managed numPages pageSize cm' \<and> sameClients cm' cm \<and>
    repliesKept (content s') pageSize cm' (h(c \<mapsto> (seq, reply))) \<and> numbersKept cm' (h(c \<mapsto> (seq, reply)))"
proof -
  obtain idx where map: "map_of (clientIdToIndex cm) c = Some idx" using c(1) by (auto simp: isValidClient_def)
  define ci where "ci = indexToClientInfo cm ! idx"
  have ci: "clientInfo c cm = Some (idx, ci)" using cm map by (simp add: managed_clientInfo ci_def)
  then have "lastSeqNumberOfReply ci < seq" using kept(2) c(2) by (simp add: numbersKept_def)
  then obtain b r s' where new: "allocateNewReplyMsgAndWriteToStorage api now c seq p reply cm s =
      Some (r, setClientInfo idx (ci\<lparr>lastSeqNumberOfReply := seq, latestReplyTime := now\<rparr>) cm, s')"
    "setPrimaryId (replyOf (cm_myId cm) b) p = Some r" "holdsReply seq 0 reply b" "ok s'"
    "pagesHold (content s') pageSize (idx * reservedPagesPerClient cm) b"
    and other: "\<forall>c' j a. map_of (clientIdToIndex cm) c' = Some j \<longrightarrow> c' \<noteq> c \<longrightarrow> a < reservedPagesPerClient cm \<longrightarrow>
       content s' (j * reservedPagesPerClient cm + a) = content s (j * reservedPagesPerClient cm + a)"
    using new_reply_ok [OF st cm ci _ c(3) reply p, of now] by auto
  let ?cm = "setClientInfo idx (ci\<lparr>lastSeqNumberOfReply := seq, latestReplyTime := now\<rparr>) cm"
  have "replyKept (content s') pageSize (j * reservedPagesPerClient cm) ((h(c \<mapsto> (seq, reply))) d)"
    if j: "map_of (clientIdToIndex cm) d = Some j" for d j
  proof (cases "d = c")
    case True
    then show ?thesis using j map new(3,5) c(2) reply by (auto simp: replyKept_def holdsReply_def)
  next
    case False
    have "replyKept (content s') pageSize (j * reservedPagesPerClient cm) (h d) = replyKept (content s) pageSize (j * reservedPagesPerClient cm) (h d)"
      by (rule replyKept_cong [OF cm j]) (use other j False in blast)
    then show ?thesis using kept(1) j False by (simp add: repliesKept_def)
  qed
  then have "repliesKept (content s') pageSize ?cm (h(c \<mapsto> (seq, reply)))" by (simp add: repliesKept_def)
  moreover have "numbersKept ?cm (h(c \<mapsto> (seq, reply)))" by (rule numbersKept_set [OF cm kept(2) ci]) (auto simp: lastNumber_def)
  moreover have "holdsReply seq p reply (msgBody r)" using setPrimaryId_ok [OF new(3) p, of "cm_myId cm"] new(2) by auto
  ultimately show ?thesis using new(1,4) cm by (auto simp: sameClients_def)
qed

lemma latest_reply_kept:
  assumes "ok s" "managed numPages pageSize cm" "repliesKept (content s) pageSize cm h" "numbersKept cm h"
    and "isValidClient c cm" "h c = Some (seq, reply)" "p < 2 ^ 16"
  shows "\<exists>r. allocateMsgWithLatestReply api c p cm s = Some r \<and> holdsReply seq p reply (msgBody r)"
proof -
  obtain idx where map: "map_of (clientIdToIndex cm) c = Some idx" using assms(5) by (auto simp: isValidClient_def)
  then have ci: "clientInfo c cm = Some (idx, indexToClientInfo cm ! idx)" using assms(2) by (simp add: managed_clientInfo)
  have kept: "replyKept (content s) pageSize (idx * reservedPagesPerClient cm) (Some (seq, reply))"
    using assms(3) map unfolding repliesKept_def assms(6) [symmetric] by blast
  moreover have "lastSeqNumberOfReply (indexToClientInfo cm ! idx) = seq" using assms(4,6) ci by (simp add: numbersKept_def lastNumber_def)
  ultimately show ?thesis using latest_reply_ok [OF assms(1,2) ci _ _ _ _ _ assms(7)] by (fastforce simp: replyKept_def)
qed

lemma stored_header_kept:
  assumes "ok s" "managed numPages pageSize cm" "repliesKept (content s) pageSize cm h" "map_of (clientIdToIndex cm) c = Some idx"
  shows "\<exists>page type h'. ist_loadReservedPage api (firstPageId idx cm) pageSize s = Some page \<and> storedHeader page = Some (type, h') \<and>
    (type = 0 \<or> type = MsgCode_Reply) \<and> rp_currentPrimaryId h' = 0 \<and>
    rp_replyLength h' + sizeofClientReplyMsgHeader \<le> maxReplyMessageSize \<and> rp_reqSeqNum h' = lastNumber h c"
proof -
  have kept: "replyKept (content s) pageSize (idx * reservedPagesPerClient cm) (h c)" using assms(3,4) by (simp add: repliesKept_def)
  show ?thesis
  proof (cases "h c")
    case None
    have P: "16 \<le> pageSize" "0 < reservedPagesPerClient cm" using assms(2) by (auto simp: managed_def)
    have "idx * reservedPagesPerClient cm < numPages" using managed_index(2) [OF assms(2,4)] P(2) by simp
    from load_page [OF assms(1) this _ order_refl] have "ist_loadReservedPage api (firstPageId idx cm) pageSize s = Some (replicate pageSize 0)"
      using kept None P(1) managed_index(3) [OF assms(2,4)] by (simp add: replyKept_def)
    then show ?thesis using zeroHeader [OF P(1)] None by (simp add: lastNumber_def)
  next
    case (Some x)
    obtain seq reply where x: "x = (seq, reply)" by (cases x)
    then obtain b where b: "holdsReply seq 0 reply b" "length b \<le> maxReplyMessageSize"
        "pagesHold (content s) pageSize (idx * reservedPagesPerClient cm) b"
      using kept Some by (auto simp: replyKept_def)
    then show ?thesis using stored_header [OF assms(1,2,4) b(2,1,3)] Some x by (auto simp: lastNumber_def holdsReply_def)
  qed
qed

end

context reserved_pages
begin

lemma loadInfoLoop_ok:
  assumes "ok s" "managed numPages pageSize cm" "repliesKept (content s) pageSize cm h"
    and "\<And>e. e \<in> set es \<Longrightarrow> map_of (clientIdToIndex cm) (fst e) = Some (snd e)" "distinct (map fst es)"
  shows "\<exists>cm'. loadInfoLoop api s es cm = Some cm' \<and> managed numPages pageSize cm' \<and> clientIdToIndex cm' = clientIdToIndex cm \<and>
    (\<forall>c idx ci. clientInfo c cm' = Some (idx, ci) \<longrightarrow>
       (if c \<in> fst ` set es then lastSeqNumberOfReply ci = lastNumber h c else clientInfo c cm = Some (idx, ci)))"
  using assms
proof (induction es arbitrary: cm)
  case (Cons e es)
  obtain c idx where e: "e = (c, idx)" by (cases e)
  note cm = Cons.prems(2)
  have map: "map_of (clientIdToIndex cm) c = Some idx" using Cons.prems(4) [of e] e by simp
  obtain page type h' where page: "ist_loadReservedPage api (firstPageId idx cm) pageSize s = Some page" "storedHeader page = Some (type, h')"
    "type = 0 \<or> type = MsgCode_Reply" "rp_currentPrimaryId h' = 0"
    "rp_replyLength h' + sizeofClientReplyMsgHeader \<le> maxReplyMessageSize" "rp_reqSeqNum h' = lastNumber h c"
    using stored_header_kept [OF Cons.prems(1-3) map] by blast
  define x where "x = (let ci = (indexToClientInfo cm ! idx)\<lparr>lastSeqNumberOfReply := rp_reqSeqNum h', latestReplyTime := MinTime\<rparr> in
    if currentPendingRequest ci \<noteq> 0 \<and> currentPendingRequest ci \<le> rp_reqSeqNum h'
    then ci\<lparr>currentPendingRequest := 0, timeOfCurrentPendingRequest := MinTime\<rparr> else ci)"
  let ?cm = "setClientInfo idx x cm"
  have step: "loadInfoLoop api s (e # es) cm = loadInfoLoop api s es ?cm"
    using page(1-5) managed_index(1) [OF cm map] cm by (simp add: e managed_def at_def x_def Let_def)
  have x: "lastSeqNumberOfReply x = lastNumber h c" using page(6) by (simp add: x_def Let_def)
  have "\<exists>cm'. loadInfoLoop api s es ?cm = Some cm' \<and> managed numPages pageSize cm' \<and> clientIdToIndex cm' = clientIdToIndex ?cm \<and>
    (\<forall>c idx ci. clientInfo c cm' = Some (idx, ci) \<longrightarrow>
       (if c \<in> fst ` set es then lastSeqNumberOfReply ci = lastNumber h c else clientInfo c ?cm = Some (idx, ci)))"
    by (rule Cons.IH) (use Cons.prems in \<open>auto simp: repliesKept_def\<close>)
  then obtain cm' where cm': "loadInfoLoop api s es ?cm = Some cm'" "managed numPages pageSize cm'" "clientIdToIndex cm' = clientIdToIndex cm"
    and info: "\<And>c idx ci. clientInfo c cm' = Some (idx, ci) \<Longrightarrow>
       if c \<in> fst ` set es then lastSeqNumberOfReply ci = lastNumber h c else clientInfo c ?cm = Some (idx, ci)"
    by auto
  have "if d \<in> fst ` set (e # es) then lastSeqNumberOfReply ci = lastNumber h d else clientInfo d cm = Some (j, ci)"
    if "clientInfo d cm' = Some (j, ci)" for d j ci
    using info [OF that] x by (auto simp: e clientInfo_set [OF cm map] split: if_splits)
  then show ?case unfolding step using cm' by blast
qed auto

lemma load_info_kept:
  assumes "ok s" "managed numPages pageSize cm" "repliesKept (content s) pageSize cm h"
  shows "\<exists>cm'. loadInfoFromReservedPages api s cm = Some cm' \<and> managed numPages pageSize cm' \<and>
    clientIdToIndex cm' = clientIdToIndex cm \<and> numbersKept cm' h"
proof -
  have dist: "distinct (map fst (clientIdToIndex cm))" "stateTransferSet cm" using assms(2) by (auto simp: managed_def)
  then have "map_of (clientIdToIndex cm) (fst e) = Some (snd e)" if "e \<in> set (clientIdToIndex cm)" for e using that by simp
  from loadInfoLoop_ok [OF assms this dist(1)] obtain cm' where
    cm': "loadInfoLoop api s (clientIdToIndex cm) cm = Some cm'" "managed numPages pageSize cm'" "clientIdToIndex cm' = clientIdToIndex cm"
    and info: "\<forall>c idx ci. clientInfo c cm' = Some (idx, ci) \<longrightarrow>
       (if c \<in> fst ` set (clientIdToIndex cm) then lastSeqNumberOfReply ci = lastNumber h c else clientInfo c cm = Some (idx, ci))"
    by blast
  have "c \<in> fst ` set (clientIdToIndex cm)" if "clientInfo c cm' = Some (idx, ci)" for c idx ci
    using that cm'(2,3) managed_clientInfo [OF cm'(2)] map_of_eq_None_iff [of "clientIdToIndex cm" c] by auto
  then have "numbersKept cm' h" using info by (fastforce simp: numbersKept_def)
  then show ?thesis using cm' dist(2) by (simp add: loadInfoFromReservedPages_def)
qed

lemma zeroPages_ok:
  assumes "ok s" "\<And>i. i \<in> set is \<Longrightarrow> i < numPages"
  shows "\<exists>s'. zeroPages api is s = Some s' \<and> ok s' \<and>
    (\<forall>q < numPages. content s' q = (if q \<in> set is then replicate pageSize 0 else content s q))"
  using assms
proof (induction "is" arbitrary: s)
  case (Cons i "is")
  obtain s1 where s1: "ist_zeroReservedPage api i s = Some s1" "ok s1" "content s1 i = replicate pageSize 0"
      "\<forall>q. q < numPages \<longrightarrow> q \<noteq> i \<longrightarrow> content s1 q = content s q"
    using zero_page [OF Cons.prems(1), of i] Cons.prems(2) by auto
  have "\<exists>s'. zeroPages api is s1 = Some s' \<and> ok s' \<and>
    (\<forall>q < numPages. content s' q = (if q \<in> set is then replicate pageSize 0 else content s1 q))"
    by (rule Cons.IH [OF s1(2)]) (use Cons.prems(2) in auto)
  then show ?case using s1 by (auto split: if_splits)
qed simp

lemma cleared:
  assumes "ok s" "managed numPages pageSize cm" "requiredNumberOfPages cm = numPages" "\<And>c. c \<in> set (indexToClientInfo cm) \<Longrightarrow> lastSeqNumberOfReply c = 0"
  shows "\<exists>s'. clearReservedPages api cm s = Some s' \<and> ok s' \<and> repliesKept (content s') pageSize cm Map.empty \<and> numbersKept cm Map.empty"
proof -
  obtain s' where s': "zeroPages api [0..<numPages] s = Some s'" "ok s'" "\<And>q. q < numPages \<Longrightarrow> content s' q = replicate pageSize 0"
    using zeroPages_ok [OF assms(1), of "[0..<numPages]"] by auto
  have "replyKept (content s') pageSize (idx * reservedPagesPerClient cm) None" if "map_of (clientIdToIndex cm) c = Some idx" for c idx
    using managed_index(2) [OF assms(2) that] assms(2) by (auto simp: replyKept_def managed_def intro!: s'(3))
  then have "repliesKept (content s') pageSize cm Map.empty" by (simp add: repliesKept_def)
  moreover have "numbersKept cm Map.empty"
    using managed_clientInfo [OF assms(2)] managed_index(1) [OF assms(2)] assms(4) by (auto simp: numbersKept_def lastNumber_def)
  ultimately show ?thesis using s' assms(2,3) by (auto simp: clearReservedPages_def managed_def)
qed

end

lemma round_up:
  fixes n P :: nat
  assumes "0 < P"
  shows "n \<le> (n div P + (if n mod P \<noteq> 0 then 1 else 0)) * P"
proof -
  have "n div P * P + n mod P = n" "n mod P < P" using assms by simp_all
  then have "n \<le> n div P * P + P" "n mod P = 0 \<Longrightarrow> n \<le> n div P * P" by linarith+
  then show ?thesis unfolding distrib_right by auto
qed

lemma newClientsManager_managed:
  assumes "newClientsManager myId clients P = Some cm0" "cm_init cm0 = Some cm" "distinct clients" "length clients < 2 ^ 16" "myId < 2 ^ 16" "16 \<le> P"
  shows "managed (requiredNumberOfPages cm) P cm" "c \<in> set (indexToClientInfo cm) \<Longrightarrow> lastSeqNumberOfReply c = 0"
    "isValidClient c' cm \<longleftrightarrow> c' \<in> set clients"
proof -
  let ?per = "maxReplyMessageSize div P + (if maxReplyMessageSize mod P \<noteq> 0 then 1 else 0)"
  have per: "?per \<le> 513" "0 < ?per" "maxReplyMessageSize \<le> ?per * P"
  proof -
    have "maxReplyMessageSize div P \<le> maxReplyMessageSize div 16" by (rule div_le_mono2) (use assms(6) in auto)
    then show "?per \<le> 513" by simp
    show le: "maxReplyMessageSize \<le> ?per * P" by (rule round_up) (use assms(6) in simp)
    show "0 < ?per" by (rule ccontr) (use le in simp)
  qed
  have "length clients * ?per \<le> 2 ^ 16 * 513" by (rule mult_le_mono) (use assms(4) per in auto)
  then have small: "length clients * ?per < 2 ^ 32" by simp
  have idx: "map (\<lambda>i. u16 (int i)) [0..<length clients] = [0..<length clients]"
    by (rule map_idI) (use assms(4) in \<open>auto simp: u16_def\<close>)
  have u: "u16 (int (length clients)) = length clients" "u32 (int (length clients * ?per)) = length clients * ?per"
    using assms(4) small by (auto simp: u16_def u32_def nat_mod_distrib simp del: of_nat_mult)
  have cm: "cm = \<lparr>cm_myId = myId, sizeOfReservedPage = P, stateTransferSet = True, reservedPagesPerClient = ?per,
    requiredNumberOfPages = length clients * ?per, clientIdToIndex = zip clients [0..<length clients],
    indexToClientInfo = replicate (length clients) noClientInfo\<rparr>"
    using assms(1,2) u by (auto simp: newClientsManager_def cm_init_def idx Let_def split: bind_splits)
  have "i * ?per + ?per \<le> length clients * ?per" if "i < length clients" for i
    using mult_le_mono1 [of "Suc i" "length clients" ?per] that by simp
  then show "managed (requiredNumberOfPages cm) P cm"
    using assms(3,5,6) per small by (auto simp: managed_def cm dest: set_zip_rightD)
  show "c \<in> set (indexToClientInfo cm) \<Longrightarrow> lastSeqNumberOfReply c = 0" by (simp add: cm noClientInfo_def)
  show "isValidClient c' cm \<longleftrightarrow> c' \<in> set clients"
    using map_of_eq_None_iff [of "zip clients [0..<length clients]" c'] by (simp add: isValidClient_def cm)
qed

section \<open>A replica with its clients\<close>

text \<open>
  The steps that change the clients manager or the pages while the replica executes requests: the clients manager
  and the state transfer module are started together (\<^verbatim>\<open>ReplicaImp::start\<close> clears the pages), replies are stored,
  requests become pending and are removed, checkpoints are taken and the application runs. The last argument is
  the last reply given to every client.
\<close>

inductive reply_run :: "(byte list \<Rightarrow> Digest) \<Rightarrow> 'a IAppState \<Rightarrow> nat \<Rightarrow> ReplicaId \<Rightarrow> NodeIdType list \<Rightarrow>
    ClientsManager \<Rightarrow> 'a BCStateTran \<Rightarrow> Replies \<Rightarrow> bool"
  for sha api limit myId clients where
  start: "sorted_wrt (<) clients \<Longrightarrow> length clients < 2 ^ 16 \<Longrightarrow> myId < 2 ^ 16 \<Longrightarrow>
    newClientsManager myId clients kSizeOfReservedPage = Some cm0 \<Longrightarrow> cm_init cm0 = Some cm \<Longrightarrow>
    st_run sha api limit (numberOfRequiredReservedPages cm) st s \<Longrightarrow> clearReservedPages bcApi cm st = Some st' \<Longrightarrow>
    reply_run sha api limit myId clients cm st' Map.empty"
| reply: "reply_run sha api limit myId clients cm st h \<Longrightarrow> seq < 2 ^ 64 \<Longrightarrow> p < 2 ^ 16 \<Longrightarrow>
    16 + length reply \<le> maxReplyMessageSize \<Longrightarrow>
    allocateNewReplyMsgAndWriteToStorage bcApi now c seq p reply cm st = Some (r, cm', st') \<Longrightarrow>
    reply_run sha api limit myId clients cm' st' (h(c \<mapsto> (seq, reply)))"
| pending: "reply_run sha api limit myId clients cm st h \<Longrightarrow> addPendingRequest now c seq cm = Some cm' \<Longrightarrow>
    reply_run sha api limit myId clients cm' st h"
| removed: "reply_run sha api limit myId clients cm st h \<Longrightarrow> removePendingRequestOfClient c cm = Some cm' \<Longrightarrow>
    reply_run sha api limit myId clients cm' st h"
| all_removed: "reply_run sha api limit myId clients cm st h \<Longrightarrow> clearAllPendingRequests cm = Some cm' \<Longrightarrow>
    reply_run sha api limit myId clients cm' st h"
| checkpoint: "reply_run sha api limit myId clients cm st h \<Longrightarrow> app_settled api (st_app st) \<Longrightarrow>
    createCheckpointOfCurrentState sha api cp st = Some st' \<Longrightarrow> reply_run sha api limit myId clients cm st' h"
| execute: "reply_run sha api limit myId clients cm st h \<Longrightarrow> reply_run sha api limit myId clients cm (st\<lparr>st_app := app'\<rparr>) h"

definition replies_inv :: "ReplicaId \<Rightarrow> NodeIdType list \<Rightarrow> ClientsManager \<Rightarrow> 'a BCStateTran \<Rightarrow> Replies \<Rightarrow> bool" where
  "replies_inv myId clients cm st h \<longleftrightarrow> (\<exists>cm0 cm1. newClientsManager myId clients kSizeOfReservedPage = Some cm0 \<and> cm_init cm0 = Some cm1 \<and>
     sameClients cm cm1 \<and> bc_ok (requiredNumberOfPages cm1) st \<and> managed (requiredNumberOfPages cm1) kSizeOfReservedPage cm1 \<and>
     managed (requiredNumberOfPages cm1) kSizeOfReservedPage cm) \<and>
     repliesKept (bc_content st) kSizeOfReservedPage cm h \<and> numbersKept cm h \<and>
     (\<forall>c. isValidClient c cm \<longleftrightarrow> c \<in> set clients) \<and> dom h \<subseteq> set clients"

lemma pending_inv:
  assumes "replies_inv myId clients cm st h" "clientInfo c cm = Some (idx, ci)" "lastSeqNumberOfReply x = lastSeqNumberOfReply ci"
  shows "replies_inv myId clients (setClientInfo idx x cm) st h"
proof -
  have "numbersKept (setClientInfo idx x cm) h"
    using assms numbersKept_set [of _ _ cm h c idx ci x h] by (auto simp: replies_inv_def numbersKept_def)
  then show ?thesis using assms(1) by (auto simp: replies_inv_def sameClients_def repliesKept_def isValidClient_def)
qed

lemma pages_inv:
  assumes "replies_inv myId clients cm st h" "\<And>n. bc_ok n st \<Longrightarrow> bc_ok n st' \<and> (\<forall>q < n. bc_content st' q = bc_content st q)"
  shows "replies_inv myId clients cm st' h"
proof -
  obtain cm0 cm1 where cm1: "newClientsManager myId clients kSizeOfReservedPage = Some cm0" "cm_init cm0 = Some cm1" "sameClients cm cm1"
      "bc_ok (requiredNumberOfPages cm1) st" "managed (requiredNumberOfPages cm1) kSizeOfReservedPage cm1"
      "managed (requiredNumberOfPages cm1) kSizeOfReservedPage cm"
    using assms(1) by (auto simp: replies_inv_def)
  moreover have "repliesKept (bc_content st') kSizeOfReservedPage cm h = repliesKept (bc_content st) kSizeOfReservedPage cm h"
    using assms(2) [OF cm1(4)] by (intro repliesKept_cong [OF cm1(6)]) blast
  ultimately show ?thesis using assms by (auto simp: replies_inv_def)
qed

lemma empty_reply_refused:
  assumes "cm_myId cm < 2 ^ 16" "seq < 2 ^ 64" "p < 2 ^ 16"
  shows "allocateNewReplyMsgAndWriteToStorage api now c seq p [] cm s = None"
proof -
  obtain b where b: "newClientReplyMsg (cm_myId cm) seq [] = Some (replyOf (cm_myId cm) b)" "holdsReply seq 0 [] b"
    using newReply_ok [OF assms(1,2), of "[]"] by auto
  obtain b' where b': "setPrimaryId (replyOf (cm_myId cm) b) p = Some (replyOf (cm_myId cm) b')" "holdsReply seq p [] b'"
    using setPrimaryId_ok [OF b(2) assms(3)] by blast
  show ?thesis using b b' holdsReply_buf [OF b'(2)]
    by (auto simp: allocateNewReplyMsgAndWriteToStorage_def debugHash_def Let_def split: bind_splits)
qed

lemma checkpoint_pages:
  assumes "bc_ok n st" "app_settled api (st_app st)" "createCheckpointOfCurrentState sha api cp st = Some st'"
  shows "bc_ok n st' \<and> (\<forall>q < n. bc_content st' q = bc_content st q)"
proof -
  obtain s where s: "store_inv st" "simulates st s" "st_numberOfReservedPages st = n" using assms(1) by (auto simp: bc_ok_def)
  have "lastStoredCheckpoint (psd st) < cp" using assms(3) by (simp add: createCheckpointOfCurrentState_def)
  then have st': "store_inv st'" "st_numberOfReservedPages st' = n" "simulates st' (spec_checkpoint (st_maxNumOfStoredCheckpoints st) cp s)"
    using createCheckpoint_sim [OF s(1,2) _ assms(2), of cp sha] assms(3) s(3) by auto
  then show ?thesis using bc_content_current [OF s(1,2)] bc_content_current [OF st'(1,3)] s(3)
    by (auto simp: bc_ok_def spec_checkpoint_def)
qed

lemma started_inv:
  assumes "sorted_wrt (<) clients" "length clients < 2 ^ 16" "myId < 2 ^ 16" "newClientsManager myId clients kSizeOfReservedPage = Some cm0"
    "cm_init cm0 = Some cm" "st_run sha api limit (numberOfRequiredReservedPages cm) st s" "clearReservedPages bcApi cm st = Some st'"
  shows "replies_inv myId clients cm st' Map.empty"
proof -
  have P: "16 \<le> kSizeOfReservedPage" by (simp add: kSizeOfReservedPage_def)
  have "distinct clients" using assms(1) by (simp add: strict_sorted_iff)
  note cm = newClientsManager_managed [OF assms(4,5) this assms(2,3) P]
  have ok: "bc_ok (requiredNumberOfPages cm) st"
    using st_run_inv [OF assms(6)] by (auto simp: bc_ok_def numberOfRequiredReservedPages_def)
  show ?thesis using bcPages.cleared [OF ok cm(1) refl cm(2)] assms(4,5,7) cm(1,3) by (auto simp: replies_inv_def sameClients_def)
qed

lemma reply_inv:
  assumes "replies_inv myId clients cm st h" "seq < 2 ^ 64" "p < 2 ^ 16" "16 + length reply \<le> maxReplyMessageSize"
    "allocateNewReplyMsgAndWriteToStorage bcApi now c seq p reply cm st = Some (r, cm', st')"
  shows "replies_inv myId clients cm' st' (h(c \<mapsto> (seq, reply)))"
proof -
  obtain cm0 cm1 where cm1: "newClientsManager myId clients kSizeOfReservedPage = Some cm0" "cm_init cm0 = Some cm1" "sameClients cm cm1"
      "bc_ok (requiredNumberOfPages cm1) st" "managed (requiredNumberOfPages cm1) kSizeOfReservedPage cm1"
      "managed (requiredNumberOfPages cm1) kSizeOfReservedPage cm"
    and kept: "repliesKept (bc_content st) kSizeOfReservedPage cm h" "numbersKept cm h"
    and clients: "\<forall>c. isValidClient c cm \<longleftrightarrow> c \<in> set clients" "dom h \<subseteq> set clients"
    using assms(1) by (auto simp: replies_inv_def)
  obtain idx ci where ci: "clientInfo c cm = Some (idx, ci)" "lastSeqNumberOfReply ci < seq"
    using assms(5) by (auto simp: allocateNewReplyMsgAndWriteToStorage_def split: bind_splits)
  have c: "isValidClient c cm" using managed_clientInfo [OF cm1(6)] ci(1) by (simp add: isValidClient_def)
  have "reply \<noteq> []" using assms(2,3,5) empty_reply_refused [of cm seq p bcApi now c st] cm1(6) by (auto simp: managed_def)
  then have "sameClients cm' cm" "bc_ok (requiredNumberOfPages cm1) st'" "managed (requiredNumberOfPages cm1) kSizeOfReservedPage cm'"
    "repliesKept (bc_content st') kSizeOfReservedPage cm' (h(c \<mapsto> (seq, reply)))" "numbersKept cm' (h(c \<mapsto> (seq, reply)))"
    using bcPages.reply_kept [OF cm1(4,6) kept c _ assms(2) _ assms(4,3), of now] kept(2) ci assms(5) by (auto simp: numbersKept_def)
  then show ?thesis using cm1 clients c by (auto simp: replies_inv_def sameClients_def isValidClient_def)
qed

lemma all_removed_inv:
  assumes "replies_inv myId clients cm st h" "clearAllPendingRequests cm = Some cm'"
  shows "replies_inv myId clients cm' st h"
proof -
  have cm': "cm' = cm\<lparr>indexToClientInfo := map (\<lambda>c. c\<lparr>currentPendingRequest := 0, timeOfCurrentPendingRequest := MinTime\<rparr>) (indexToClientInfo cm)\<rparr>"
    using assms(2) by (auto simp: clearAllPendingRequests_def Let_def split: bind_splits)
  have info: "\<exists>d. clientInfo c cm = Some (idx, d) \<and> lastSeqNumberOfReply d = lastSeqNumberOfReply ci" if "clientInfo c cm' = Some (idx, ci)" for c idx ci
    using that by (auto simp: cm' clientInfo_def at_def Option.bind_eq_Some_conv split: if_splits)
  have "numbersKept cm h" using assms(1) by (simp add: replies_inv_def)
  then have "numbersKept cm' h" unfolding numbersKept_def using info by metis
  then show ?thesis using assms(1) by (auto simp: replies_inv_def cm' sameClients_def managed_def repliesKept_def isValidClient_def)
qed

lemma reply_run_inv: "reply_run sha api limit myId clients cm st h \<Longrightarrow> replies_inv myId clients cm st h"
proof (induction rule: reply_run.induct)
  case (start cm0 cm st s st')
  then show ?case by (rule started_inv)
next
  case (reply cm st h seq p reply now c r cm' st')
  from reply.IH reply.hyps(2-5) show ?case by (rule reply_inv)
next
  case (pending cm st h now c seq cm')
  obtain idx ci where "clientInfo c cm = Some (idx, ci)"
    "cm' = setClientInfo idx (ci\<lparr>currentPendingRequest := seq, timeOfCurrentPendingRequest := now\<rparr>) cm"
    using pending.hyps(2) by (auto simp: addPendingRequest_def split: bind_splits)
  then show ?case using pending_inv [OF pending.IH, of c idx ci] by simp
next
  case (removed cm st h c cm')
  obtain idx ci where ci: "clientInfo c cm = Some (idx, ci)"
    and cm': "cm' = (if currentPendingRequest ci \<noteq> 0 then setClientInfo idx (ci\<lparr>currentPendingRequest := 0, timeOfCurrentPendingRequest := MinTime\<rparr>) cm else cm)"
    using removed.hyps(2) by (auto simp: removePendingRequestOfClient_def split: bind_splits if_splits)
  have "replies_inv myId clients (setClientInfo idx (ci\<lparr>currentPendingRequest := 0, timeOfCurrentPendingRequest := MinTime\<rparr>) cm) st h"
    by (rule pending_inv [OF removed.IH ci]) simp
  then show ?case unfolding cm' using removed.IH by simp
next
  case (all_removed cm st h cm')
  from all_removed.IH all_removed.hyps(2) show ?case by (rule all_removed_inv)
next
  case (checkpoint cm st h cp st')
  show ?case by (rule pages_inv [OF checkpoint.IH]) (use checkpoint.hyps checkpoint_pages in blast)
next
  case (execute cm st h app')
  have "bc_ok n (st\<lparr>st_app := app'\<rparr>) = bc_ok n st" "bc_content (st\<lparr>st_app := app'\<rparr>) = bc_content st" for n
    by (auto simp: bc_ok_def store_inv_def simulates_def bc_content_def loadReservedPage_def isFetching_def fun_eq_iff)
  then show ?case by (intro pages_inv [OF execute.IH]) simp
qed

text \<open>C5: Whatever a replica has executed since it was started, the last reply it gave to a client is the reply it
  sends when the client asks again: the clients manager reads exactly the bytes that were stored from the reserved
  pages, with the number of the request, under the primary of the current view.\<close>

theorem latest_reply_returned:
  assumes "reply_run sha api limit myId clients cm st h" "h c = Some (seq, reply)" "p < 2 ^ 16"
  shows "\<exists>r. allocateMsgWithLatestReply bcApi c p cm st = Some r \<and> replyBuf (msgBody r) = Some reply \<and>
    replyHeader (msgBody r) = Some \<lparr>rp_currentPrimaryId = p, rp_reqSeqNum = seq, rp_replyLength = length reply\<rparr> \<and>
    seqNumberOfLastReplyToClient c cm = Some seq"
proof -
  note inv = reply_run_inv [OF assms(1)]
  then obtain n where n: "bc_ok n st" "managed n kSizeOfReservedPage cm" by (auto simp: replies_inv_def)
  have kept: "repliesKept (bc_content st) kSizeOfReservedPage cm h" "numbersKept cm h" and c: "isValidClient c cm"
    using inv assms(2) by (auto simp: replies_inv_def)
  obtain r where r: "allocateMsgWithLatestReply bcApi c p cm st = Some r" "holdsReply seq p reply (msgBody r)"
    using bcPages.latest_reply_kept [OF n kept c assms(2,3)] by blast
  obtain idx where "clientInfo c cm = Some (idx, indexToClientInfo cm ! idx)"
    using c managed_clientInfo [OF n(2), of c] by (auto simp: isValidClient_def)
  then have "seqNumberOfLastReplyToClient c cm = Some seq"
    using kept(2) assms(2) by (auto simp: seqNumberOfLastReplyToClient_def numbersKept_def lastNumber_def)
  then show ?thesis using r holdsReply_buf [OF r(2)] by (auto simp: holdsReply_def)
qed

text \<open>C18: A clients manager that is created anew over the same reserved pages, as after a restart or a state transfer,
  recovers for every client the number of its last reply.\<close>

theorem reply_numbers_recovered:
  assumes "reply_run sha api limit myId clients cm st h" "newClientsManager myId clients kSizeOfReservedPage = Some cm0" "cm_init cm0 = Some cm1"
    and "c \<in> set clients"
  shows "\<exists>cm2. loadInfoFromReservedPages bcApi st cm1 = Some cm2 \<and>
    seqNumberOfLastReplyToClient c cm2 = seqNumberOfLastReplyToClient c cm \<and>
    seqNumberOfLastReplyToClient c cm2 = Some (case h c of None \<Rightarrow> 0 | Some (seq, reply) \<Rightarrow> seq)"
proof -
  note inv = reply_run_inv [OF assms(1)]
  then have same: "sameClients cm cm1" and ok: "bc_ok (requiredNumberOfPages cm1) st"
    and cm1: "managed (requiredNumberOfPages cm1) kSizeOfReservedPage cm1" and cm: "managed (requiredNumberOfPages cm1) kSizeOfReservedPage cm"
    and kept: "repliesKept (bc_content st) kSizeOfReservedPage cm h" "numbersKept cm h" and c: "isValidClient c cm"
    using assms(2-4) by (auto simp: replies_inv_def)
  have "repliesKept (bc_content st) kSizeOfReservedPage cm1 h" using kept(1) same by (simp add: repliesKept_def sameClients_def)
  then obtain cm2 where cm2: "loadInfoFromReservedPages bcApi st cm1 = Some cm2" "managed (requiredNumberOfPages cm1) kSizeOfReservedPage cm2"
      "clientIdToIndex cm2 = clientIdToIndex cm1" "numbersKept cm2 h"
    using bcPages.load_info_kept [OF ok cm1] by blast
  have "seqNumberOfLastReplyToClient c cmx = Some (lastNumber h c)"
    if x: "managed (requiredNumberOfPages cm1) kSizeOfReservedPage cmx" "clientIdToIndex cmx = clientIdToIndex cm" "numbersKept cmx h" for cmx
  proof -
    obtain idx where "clientInfo c cmx = Some (idx, indexToClientInfo cmx ! idx)"
      using c x(2) managed_clientInfo [OF x(1), of c] by (auto simp: isValidClient_def)
    then show ?thesis using x(3) by (auto simp: seqNumberOfLastReplyToClient_def numbersKept_def)
  qed
  then show ?thesis using cm2 cm kept(2) same by (auto simp: sameClients_def lastNumber_def)
qed

section \<open>A sample run\<close>

lemma sample_reply_run:
  "\<exists>cm0 cm1 cm st. newClientsManager 0 [5] kSizeOfReservedPage = Some cm0 \<and> cm_init cm0 = Some cm1 \<and>
    reply_run sha noBlocks 2 0 [5] cm st [5 \<mapsto> (9, [1, 2, 3])]"
proof -
  obtain cm0 cm where cm: "newClientsManager 0 [5] kSizeOfReservedPage = Some cm0" "cm_init cm0 = Some cm" "requiredNumberOfPages cm = 2"
    by (simp add: newClientsManager_def cm_init_def kSizeOfReservedPage_def u16_def u32_def)
  obtain st where st: "st_run sha noBlocks 2 2 st spec_start" using sample_start by blast
  note new = newClientsManager_managed [OF cm(1,2)]
  have P: "16 \<le> kSizeOfReservedPage" by (simp add: kSizeOfReservedPage_def)
  have ok: "bc_ok 2 st" using st_run_inv [OF st] by (auto simp: bc_ok_def)
  obtain st1 where st1: "clearReservedPages bcApi cm st = Some st1" "bc_ok 2 st1" "repliesKept (bc_content st1) kSizeOfReservedPage cm Map.empty"
      "numbersKept cm Map.empty"
    using bcPages.cleared [OF ok _ cm(3)] new P cm(3) by auto
  have run: "reply_run sha noBlocks 2 0 [5] cm st1 Map.empty"
    by (rule reply_run.start [OF _ _ _ cm(1,2) _ st1(1)]) (use st cm(3) in \<open>auto simp: numberOfRequiredReservedPages_def\<close>)
  have "managed 2 kSizeOfReservedPage cm" "isValidClient 5 cm" using new P cm(3) by auto
  from bcPages.reply_kept [OF st1(2) this(1) st1(3,4) this(2), of 9 "[1, 2, 3]" 1 7] obtain r cm' st' where
    "allocateNewReplyMsgAndWriteToStorage bcApi 7 5 9 1 [1, 2, 3] cm st1 = Some (r, cm', st')"
    by (auto simp: lastNumber_def)
  then have "reply_run sha noBlocks 2 0 [5] cm' st' [5 \<mapsto> (9, [1, 2, 3])]" by (rule reply_run.reply [OF run, rotated -1]) auto
  then show ?thesis using cm(1,2) by blast
qed

theorem latest_reply_returned_witness:
  "\<exists>cm st. reply_run (\<lambda>bs. []) noBlocks 2 0 [5] cm st [5 \<mapsto> (9, [1, 2, 3])] \<and>
    (\<exists>r. allocateMsgWithLatestReply bcApi 5 2 cm st = Some r \<and> replyBuf (msgBody r) = Some [1, 2, 3])"
proof -
  obtain cm st where run: "reply_run (\<lambda>bs. []) noBlocks 2 0 [5] cm st [5 \<mapsto> (9, [1, 2, 3])]" using sample_reply_run by blast
  then show ?thesis using latest_reply_returned [OF run, of 5 9 "[1, 2, 3]" 2] by auto
qed

theorem reply_numbers_recovered_witness:
  "\<exists>cm1 cm2 cm st. reply_run (\<lambda>bs. []) noBlocks 2 0 [5] cm st [5 \<mapsto> (9, [1, 2, 3])] \<and>
    loadInfoFromReservedPages bcApi st cm1 = Some cm2 \<and> seqNumberOfLastReplyToClient 5 cm2 = Some 9"
proof -
  obtain cm0 cm1 cm st where new: "newClientsManager 0 [5] kSizeOfReservedPage = Some cm0" "cm_init cm0 = Some cm1"
    and run: "reply_run (\<lambda>bs. []) noBlocks 2 0 [5] cm st [5 \<mapsto> (9, [1, 2, 3])]"
    using sample_reply_run by blast
  show ?thesis using reply_numbers_recovered [OF run new, of 5] run by auto
qed

end
